(* ===== verification/Prelude.thy ===== *)
theory Prelude
  imports Main "HOL-Library.Word" "HOL-Library.Monad_Syntax"
begin

unbundle bit_operations_syntax

text \<open>
  Shared vocabulary of the development: the machine integers of the Rust sources as words,
  \<open>usize\<close> as a natural number with its largest value written out, \<open>Result\<close> as a sum with the
  error on the left, the little-endian and big-endian byte forms of an integer
  (\<open>to_le_bytes\<close>, \<open>from_le_bytes\<close> and their big-endian twins), the UTF-8 check of
  \<open>core::str::from_utf8\<close>, and the interface locales \<open>wire_codec\<close> and \<open>self_delimiting\<close> that
  the codecs of the components interpret.
\<close>

section \<open>Machine integers\<close>

type_synonym u8 = "8 word"
type_synonym u16 = "16 word"
type_synonym u32 = "32 word"
type_synonym u64 = "64 word"

text \<open>A signed integer is the word of its two's complement; \<open>sint\<close> reads its value.\<close>

type_synonym i32 = "32 word"
type_synonym i64 = "64 word"

type_synonym bytes = "u8 list"

text \<open>
  \<open>usize\<close> on the 64-bit targets the toolchain builds for. Lengths and positions are natural
  numbers; where the source saturates or checks, the bound is written out.
\<close>

abbreviation usize_max :: nat where
  "usize_max \<equiv> 2 ^ 64 - 1"

definition checked_add_usize :: "nat \<Rightarrow> nat \<Rightarrow> nat option" where
  "checked_add_usize a b = (if a + b \<le> usize_max then Some (a + b) else None)"

definition checked_mul_usize :: "nat \<Rightarrow> nat \<Rightarrow> nat option" where
  "checked_mul_usize a b = (if a * b \<le> usize_max then Some (a * b) else None)"

definition saturating_add_usize :: "nat \<Rightarrow> nat \<Rightarrow> nat" where
  "saturating_add_usize a b = min (a + b) usize_max"

definition saturating_mul_usize :: "nat \<Rightarrow> nat \<Rightarrow> nat" where
  "saturating_mul_usize a b = min (a * b) usize_max"

definition checked_sub_u64 :: "u64 \<Rightarrow> u64 \<Rightarrow> u64 option" where
  "checked_sub_u64 a b = (if b \<le> a then Some (a - b) else None)"

definition saturating_add_u64 :: "u64 \<Rightarrow> u64 \<Rightarrow> u64" where
  "saturating_add_u64 a b = (if unat a + unat b < 2 ^ 64 then a + b else - 1)"

definition saturating_sub_i64 :: "i64 \<Rightarrow> i64 \<Rightarrow> i64" where
  "saturating_sub_i64 a b =
     (let d = sint a - sint b in
      if d < - (2 ^ 63) then word_of_int (- (2 ^ 63))
      else if 2 ^ 63 \<le> d then word_of_int (2 ^ 63 - 1)
      else word_of_int d)"

definition saturating_add_i64 :: "i64 \<Rightarrow> i64 \<Rightarrow> i64" where
  "saturating_add_i64 a b =
     (let d = sint a + sint b in
      if d < - (2 ^ 63) then word_of_int (- (2 ^ 63))
      else if 2 ^ 63 \<le> d then word_of_int (2 ^ 63 - 1)
      else word_of_int d)"

definition div_ceil :: "nat \<Rightarrow> nat \<Rightarrow> nat" where
  "div_ceil a b = (a + b - 1) div b"

text \<open>\<open>leading_zeros\<close>: the zero bits above the highest set bit.\<close>

definition leading_zeros :: "'a::len word \<Rightarrow> nat" where
  "leading_zeros w = length (takeWhile (\<lambda>i. \<not> bit w i) (rev [0..<LENGTH('a)]))"

named_theorems usize_arith \<open>definitions of the checked and saturating operations\<close>

declare checked_add_usize_def [usize_arith] checked_mul_usize_def [usize_arith]
  saturating_add_usize_def [usize_arith] saturating_mul_usize_def [usize_arith]

lemma unat_max_u64: "unat (- 1 :: u64) = 2 ^ 64 - 1"
  by (simp add: unsigned_minus_1_eq_mask mask_eq_exp_minus_1)

lemma unat_bound_u64: "unat (w :: u64) < 2 ^ 64"
  using unsigned_less [of w] by simp

lemma unat_bound_u32: "unat (w :: u32) < 2 ^ 32"
  using unsigned_less [of w] by simp

lemma unat_bound_u16: "unat (w :: u16) < 2 ^ 16"
  using unsigned_less [of w] by simp

lemma unat_bound_u8: "unat (w :: u8) < 256"
  using unsigned_less [of w] by simp

lemma unat_of_nat_u64: "n < 2 ^ 64 \<Longrightarrow> unat (of_nat n :: u64) = n"
  by (simp add: unsigned_of_nat take_bit_nat_eq_self)

lemma unat_of_nat_u32: "n < 2 ^ 32 \<Longrightarrow> unat (of_nat n :: u32) = n"
  by (simp add: unsigned_of_nat take_bit_nat_eq_self)

lemma unat_of_nat_u16: "n < 2 ^ 16 \<Longrightarrow> unat (of_nat n :: u16) = n"
  by (simp add: unsigned_of_nat take_bit_nat_eq_self)

lemma unat_of_nat_u8: "n < 256 \<Longrightarrow> unat (of_nat n :: u8) = n"
  by (simp add: unsigned_of_nat take_bit_nat_eq_self)

lemma sint_bounds_i64: "- (2 ^ 63) \<le> sint (w :: i64) \<and> sint w < 2 ^ 63"
  using sint_ge [of w] sint_lt [of w] by simp

lemma sint_bounds_i32: "- (2 ^ 31) \<le> sint (w :: i32) \<and> sint w < 2 ^ 31"
  using sint_ge [of w] sint_lt [of w] by simp

lemma sint_word_of_int_i64:
  "- (2 ^ 63) \<le> k \<Longrightarrow> k < 2 ^ 63 \<Longrightarrow> sint (word_of_int k :: i64) = k"
  by (simp add: sint_sbintrunc' signed_take_bit_int_eq_self)

lemma sint_word_of_int_i32:
  "- (2 ^ 31) \<le> k \<Longrightarrow> k < 2 ^ 31 \<Longrightarrow> sint (word_of_int k :: i32) = k"
  by (simp add: sint_sbintrunc' signed_take_bit_int_eq_self)

lemma sint_saturating_sub_i64:
  "sint (saturating_sub_i64 a b) = max (- (2 ^ 63)) (min (2 ^ 63 - 1) (sint a - sint b))"
  using sint_word_of_int_i64 [of "sint a - sint b"]
  by (auto simp: saturating_sub_i64_def Let_def sint_word_of_int_i64)

lemma sint_saturating_add_i64:
  "sint (saturating_add_i64 a b) = max (- (2 ^ 63)) (min (2 ^ 63 - 1) (sint a + sint b))"
  using sint_word_of_int_i64 [of "sint a + sint b"]
  by (auto simp: saturating_add_i64_def Let_def sint_word_of_int_i64)

lemma takeWhile_bits:
  "let l = length (takeWhile (\<lambda>i. \<not> bit w i) (rev [0..<n]))
   in l \<le> n \<and> (\<forall>i < n. n - l \<le> i \<longrightarrow> \<not> bit w i) \<and> (l < n \<longrightarrow> bit w (n - l - 1))"
proof (induction n)
  case (Suc n)
  then show ?case by (auto simp: Let_def less_Suc_eq)
qed simp

lemma unat_less_exp_iff_bits: "unat (w :: 'a::len word) < 2 ^ n \<longleftrightarrow> (\<forall>i. bit w i \<longrightarrow> i < n)"
proof
  assume lt: "unat w < 2 ^ n"
  show "\<forall>i. bit w i \<longrightarrow> i < n"
  proof (intro allI impI)
    fix i assume "bit w i"
    then have "odd (unat w div 2 ^ i)" by (simp add: bit_unsigned_iff flip: bit_iff_odd)
    then have "2 ^ i \<le> unat w" by (metis div_less even_zero not_less)
    then have "(2::nat) ^ i < 2 ^ n" using lt by linarith
    then show "i < n" by simp
  qed
next
  assume "\<forall>i. bit w i \<longrightarrow> i < n"
  then have "take_bit n w = w" by (intro bit_word_eqI) (auto simp: bit_take_bit_iff)
  then have "take_bit n (unat w) = unat w" by (metis unsigned_take_bit_eq)
  then show "unat w < 2 ^ n" by (metis take_bit_nat_less_exp)
qed

lemma leading_zeros_bounds:
  fixes w :: "'a::len word"
  assumes "w \<noteq> 0"
  defines "k \<equiv> LENGTH('a) - leading_zeros w"
  shows "0 < k" "2 ^ (k - 1) \<le> unat w" "unat w < 2 ^ k"
proof -
  let ?l = "leading_zeros w" and ?n = "LENGTH('a)"
  have l: "?l \<le> ?n" and hi: "i < ?n \<Longrightarrow> ?n - ?l \<le> i \<Longrightarrow> \<not> bit w i" and
    lo: "?l < ?n \<Longrightarrow> bit w (?n - ?l - 1)" for i
    using takeWhile_bits [of w ?n] by (auto simp: Let_def leading_zeros_def)
  have mask: "take_bit k w = w"
    by (intro bit_word_eqI) (use hi in \<open>auto simp: bit_take_bit_iff k_def simp flip: not_le\<close>)
  show k: "0 < k"
  proof (rule ccontr)
    assume "\<not> 0 < k"
    then show False using mask assms(1) by simp
  qed
  have "unat w = take_bit k (unat w)"
    using arg_cong [OF mask, of unat] by (simp add: unsigned_take_bit_eq)
  then show "unat w < 2 ^ k" by (metis take_bit_nat_less_exp)
  have "bit (unat w) (k - 1)" using lo k l by (simp add: k_def bit_unsigned_iff)
  then have "odd (unat w div 2 ^ (k - 1))" by (simp add: bit_iff_odd)
  then have "unat w div 2 ^ (k - 1) \<noteq> 0" by (metis even_zero)
  then show "2 ^ (k - 1) \<le> unat w" by (metis div_less not_less)
qed

section \<open>Results\<close>

text \<open>The \<open>?\<close> operator: pass the error on, or continue with the value.\<close>

definition rbind :: "'e + 'a \<Rightarrow> ('a \<Rightarrow> 'e + 'b) \<Rightarrow> 'e + 'b" where
  "rbind m f = (case m of Inl e \<Rightarrow> Inl e | Inr x \<Rightarrow> f x)"

definition ok_or :: "'e \<Rightarrow> 'a option \<Rightarrow> 'e + 'a" where
  "ok_or e m = (case m of None \<Rightarrow> Inl e | Some x \<Rightarrow> Inr x)"

definition map_err :: "('e \<Rightarrow> 'f) \<Rightarrow> 'e + 'a \<Rightarrow> 'f + 'a" where
  "map_err g m = (case m of Inl e \<Rightarrow> Inl (g e) | Inr x \<Rightarrow> Inr x)"

named_theorems result_iff \<open>when a composed result succeeds or fails\<close>

lemma rbind_simps [simp]:
  "rbind (Inl e) f = Inl e"
  "rbind (Inr x) f = f x"
  by (simp_all add: rbind_def)

lemma rbind_Inr_iff [result_iff]: "rbind m f = Inr y \<longleftrightarrow> (\<exists>x. m = Inr x \<and> f x = Inr y)"
  by (cases m) auto

lemma rbind_Inl_iff [result_iff]:
  "rbind m f = Inl e \<longleftrightarrow> m = Inl e \<or> (\<exists>x. m = Inr x \<and> f x = Inl e)"
  by (cases m) auto

lemma ok_or_simps [simp]:
  "ok_or e None = Inl e"
  "ok_or e (Some x) = Inr x"
  by (simp_all add: ok_or_def)

lemma ok_or_Inr_iff [result_iff]: "ok_or e m = Inr x \<longleftrightarrow> m = Some x"
  by (cases m) auto

lemma map_err_simps [simp]:
  "map_err g (Inl e) = Inl (g e)"
  "map_err g (Inr x) = Inr x"
  by (simp_all add: map_err_def)

lemma map_err_Inr_iff [result_iff]: "map_err g m = Inr x \<longleftrightarrow> m = Inr x"
  by (cases m) auto

section \<open>Lists\<close>

text \<open>\<open>iter().position(p)\<close>: the index of the first element that satisfies \<open>p\<close>.\<close>

fun position :: "('a \<Rightarrow> bool) \<Rightarrow> 'a list \<Rightarrow> nat option" where
  "position p [] = None"
| "position p (x # xs) = (if p x then Some 0 else map_option Suc (position p xs))"

lemma position_SomeD:
  "position p xs = Some i \<Longrightarrow> i < length xs \<and> p (xs ! i) \<and> (\<forall>j < i. \<not> p (xs ! j))"
proof (induction xs arbitrary: i)
  case (Cons x xs)
  then show ?case by (auto simp: less_Suc_eq_0_disj split: if_splits)
qed simp

lemma position_None_iff: "position p xs = None \<longleftrightarrow> (\<forall>x \<in> set xs. \<not> p x)"
  by (induction xs) auto

lemma replicate_2: "replicate 2 x = [x, x]"
  by (simp add: numeral_2_eq_2)

text \<open>\<open>get(at..).and_then(|r| r.get(..n))\<close>: the \<open>n\<close> bytes from \<open>at\<close> on, if they are all there.\<close>

definition slice :: "'a list \<Rightarrow> nat \<Rightarrow> nat \<Rightarrow> 'a list option" where
  "slice xs at n = (if at + n \<le> length xs then Some (take n (drop at xs)) else None)"

lemma slice_append [simp]:
  "slice (pre @ mid @ post) (length pre) (length mid) = Some mid"
  by (simp add: slice_def)

lemma length_slice: "slice xs at n = Some ys \<Longrightarrow> length ys = n \<and> at + n \<le> length xs"
  by (auto simp: slice_def split: if_splits)

text \<open>\<open>out[at..at + b.len()].copy_from_slice(b)\<close> with the range in bounds.\<close>

definition put_at :: "'a list \<Rightarrow> nat \<Rightarrow> 'a list \<Rightarrow> 'a list" where
  "put_at xs at ys = take at xs @ ys @ drop (at + length ys) xs"

lemma length_put_at [simp]:
  "at + length ys \<le> length xs \<Longrightarrow> length (put_at xs at ys) = length xs"
  by (simp add: put_at_def)

lemma slice_put_at_same:
  "at + length ys \<le> length xs \<Longrightarrow> slice (put_at xs at ys) at (length ys) = Some ys"
  by (simp add: slice_def put_at_def)

lemma nth_put_at:
  assumes "at + length ys \<le> length xs" "i < length xs"
  shows "put_at xs at ys ! i =
    (if at \<le> i \<and> i < at + length ys then ys ! (i - at) else xs ! i)"
  using assms by (auto simp: put_at_def nth_append)

lemma slice_put_at_other:
  assumes "at + length ys \<le> length xs" "b + n \<le> at \<or> at + length ys \<le> b"
  shows "slice (put_at xs at ys) b n = slice xs b n"
proof (cases "b + n \<le> length xs")
  case True
  then have "take n (drop b (put_at xs at ys)) = take n (drop b xs)"
    using assms by (intro nth_equalityI) (auto simp: nth_put_at)
  with True assms(1) show ?thesis by (simp add: slice_def)
next
  case False
  with assms(1) show ?thesis by (simp add: slice_def)
qed

section \<open>Bytes of an integer\<close>

text \<open>
  \<open>le_bytes n w\<close> is the first \<open>n\<close> bytes of \<open>w\<close>, low byte first: \<open>to_le_bytes\<close> of a type of
  \<open>n\<close> bytes. \<open>le_word\<close> is \<open>from_le_bytes\<close>.
\<close>

primrec le_bytes :: "nat \<Rightarrow> 'a::len word \<Rightarrow> bytes" where
  "le_bytes 0 w = []"
| "le_bytes (Suc n) w = ucast w # le_bytes n (drop_bit 8 w)"

primrec le_word :: "bytes \<Rightarrow> 'a::len word" where
  "le_word [] = 0"
| "le_word (b # bs) = ucast b OR push_bit 8 (le_word bs)"

definition be_bytes :: "nat \<Rightarrow> 'a::len word \<Rightarrow> bytes" where
  "be_bytes n w = rev (le_bytes n w)"

definition be_word :: "bytes \<Rightarrow> 'a::len word" where
  "be_word bs = le_word (rev bs)"

lemma length_le_bytes [simp]: "length (le_bytes n w) = n"
  by (induction n arbitrary: w) simp_all

lemma length_be_bytes [simp]: "length (be_bytes n w) = n"
  by (simp add: be_bytes_def)

lemma bit_le_word:
  "bit (le_word bs :: 'a::len word) i \<longleftrightarrow>
     i < LENGTH('a) \<and> i div 8 < length bs \<and> bit (bs ! (i div 8)) (i mod 8)"
proof (induction bs arbitrary: i)
  case Nil
  then show ?case by simp
next
  case (Cons b bs)
  show ?case
  proof (cases "i < 8")
    case True
    then show ?thesis
      by (simp add: bit_simps)
  next
    case False
    then obtain j where j: "i = j + 8"
      by (metis add.commute le_Suc_ex not_less)
    have d: "(j + 8) div 8 = Suc (j div 8)" by simp
    show ?thesis
      using Cons.IH [of j] unfolding j by (auto simp: bit_simps d dest: bit_imp_le_length)
  qed
qed

lemma nth_le_bytes: "k < n \<Longrightarrow> le_bytes n w ! k = ucast (drop_bit (8 * k) w)"
proof (induction n arbitrary: w k)
  case 0
  then show ?case by simp
next
  case (Suc n)
  then show ?case by (cases k) (simp_all add: ac_simps)
qed

lemma le_word_le_bytes:
  fixes w :: "'a::len word"
  assumes "LENGTH('a) \<le> 8 * n"
  shows "le_word (le_bytes n w) = w"
proof (rule bit_word_eqI)
  fix i assume i: "i < LENGTH('a)"
  then have "i div 8 < n" using assms by auto
  then show "bit (le_word (le_bytes n w) :: 'a word) i = bit w i"
    using i by (simp add: bit_le_word nth_le_bytes bit_simps)
qed

lemma le_bytes_le_word:
  assumes "8 * length bs \<le> LENGTH('a)"
  shows "le_bytes (length bs) (le_word bs :: 'a::len word) = bs"
proof (rule nth_equalityI)
  show "length (le_bytes (length bs) (le_word bs :: 'a word)) = length bs" by simp
next
  fix k assume "k < length (le_bytes (length bs) (le_word bs :: 'a word))"
  then have k: "k < length bs" by simp
  show "le_bytes (length bs) (le_word bs :: 'a word) ! k = bs ! k"
  proof (rule bit_word_eqI)
    fix i assume i: "i < LENGTH(8)"
    then have "8 * k + i < 8 * length bs" using k by simp
    then have "8 * k + i < LENGTH('a)" using assms by simp
    moreover have "(8 * k + i) div 8 = k" "(8 * k + i) mod 8 = i" using i by auto
    ultimately show "bit (le_bytes (length bs) (le_word bs :: 'a word) ! k) i = bit (bs ! k) i"
      using k i by (simp add: nth_le_bytes bit_simps bit_le_word)
  qed
qed

lemma le_word_le_bytes_64 [simp]: "le_word (le_bytes 8 w) = (w :: 64 word)"
  by (rule le_word_le_bytes) simp

lemma le_word_le_bytes_32 [simp]: "le_word (le_bytes 4 w) = (w :: 32 word)"
  by (rule le_word_le_bytes) simp

lemma le_word_le_bytes_16 [simp]: "le_word (le_bytes 2 w) = (w :: 16 word)"
  by (rule le_word_le_bytes) simp

lemma be_word_be_bytes:
  fixes w :: "'a::len word"
  assumes "LENGTH('a) \<le> 8 * n"
  shows "be_word (be_bytes n w) = w"
  using assms by (simp add: be_word_def be_bytes_def le_word_le_bytes)

lemma be_bytes_be_word:
  assumes "8 * length bs \<le> LENGTH('a)"
  shows "be_bytes (length bs) (be_word bs :: 'a::len word) = bs"
  using le_bytes_le_word [of "rev bs", where 'a = 'a] assms
  by (simp add: be_word_def be_bytes_def)

section \<open>UTF-8\<close>

text \<open>
  The check \<open>core::str::from_utf8\<close> makes: the well-formed byte sequences of the Unicode
  standard, table 3-7. A \<open>&str\<close> is modelled as the bytes it holds, which pass this check.
\<close>

definition cont_byte :: "u8 \<Rightarrow> bool" where
  "cont_byte b \<longleftrightarrow> 0x80 \<le> b \<and> b \<le> 0xBF"

definition utf8_second :: "u8 \<Rightarrow> u8 \<Rightarrow> bool" where
  "utf8_second b c =
     (if b = 0xE0 then 0xA0 \<le> c \<and> c \<le> 0xBF
      else if b = 0xED then 0x80 \<le> c \<and> c \<le> 0x9F
      else if b = 0xF0 then 0x90 \<le> c \<and> c \<le> 0xBF
      else if b = 0xF4 then 0x80 \<le> c \<and> c \<le> 0x8F
      else cont_byte c)"

fun utf8_valid :: "bytes \<Rightarrow> bool" where
  "utf8_valid [] = True"
| "utf8_valid (b # bs) =
     (if b \<le> 0x7F then utf8_valid bs
      else if 0xC2 \<le> b \<and> b \<le> 0xDF then
        (case bs of c # r \<Rightarrow> cont_byte c \<and> utf8_valid r | _ \<Rightarrow> False)
      else if 0xE0 \<le> b \<and> b \<le> 0xEF then
        (case bs of c # d # r \<Rightarrow> utf8_second b c \<and> cont_byte d \<and> utf8_valid r | _ \<Rightarrow> False)
      else if 0xF0 \<le> b \<and> b \<le> 0xF4 then
        (case bs of c # d # e # r \<Rightarrow>
           utf8_second b c \<and> cont_byte d \<and> cont_byte e \<and> utf8_valid r | _ \<Rightarrow> False)
      else False)"

text \<open>\<open>chars().count()\<close> of a string: one scalar value per byte that starts one.\<close>

definition chars_count :: "bytes \<Rightarrow> nat" where
  "chars_count bs = length (filter (\<lambda>b. \<not> cont_byte b) bs)"

text \<open>The bytes of an ASCII literal of the source.\<close>

definition ascii :: "string \<Rightarrow> bytes" where
  "ascii s = map of_char s"

lemma length_ascii [simp]: "length (ascii s) = length s"
  by (simp add: ascii_def)

lemma utf8_valid_ascii: "\<forall>b \<in> set bs. b \<le> 0x7F \<Longrightarrow> utf8_valid bs"
  by (induction bs) auto

section \<open>Interfaces of the codecs\<close>

text \<open>
  A whole-message codec: \<open>decode\<close> reads one message, and accepts exactly the messages that
  \<open>encode\<close> writes for a valid value. The two laws make decoding a partial inverse in both
  directions, so a message has one reading and a value one spelling.
\<close>

locale wire_codec =
  fixes encode :: "'v \<Rightarrow> bytes"
    and decode :: "bytes \<Rightarrow> 'e + 'v"
    and valid :: "'v \<Rightarrow> bool"
  assumes decode_encode: "valid v \<Longrightarrow> decode (encode v) = Inr v"
    and decode_sound: "decode m = Inr v \<Longrightarrow> valid v \<and> encode v = m"
begin

lemma decode_iff: "decode m = Inr v \<longleftrightarrow> valid v \<and> encode v = m"
  using decode_encode decode_sound by blast

lemma encode_inj: "valid v \<Longrightarrow> valid w \<Longrightarrow> encode v = encode w \<Longrightarrow> v = w"
  by (metis decode_encode sum.inject(2))

lemma decode_inj: "decode m = Inr v \<Longrightarrow> decode m' = Inr v \<Longrightarrow> m = m'"
  using decode_sound by blast

lemma decode_fails_iff: "(\<exists>e. decode m = Inl e) \<longleftrightarrow> m \<notin> encode ` {v. valid v}"
proof -
  have "(\<exists>e. decode m = Inl e) \<longleftrightarrow> (\<forall>v. decode m \<noteq> Inr v)"
    by (cases "decode m") auto
  then show ?thesis by (auto simp: decode_iff)
qed

end

text \<open>
  A self-delimiting codec: a value written anywhere in a buffer is read back from its first
  byte, and the reading position moves to the first byte after it, in every buffer an address
  space can hold. Reading a run of values
  until the position reaches the end of the run then gives the values in order.
\<close>

locale self_delimiting =
  fixes enc :: "'v \<Rightarrow> bytes"
    and rd :: "bytes \<Rightarrow> nat \<Rightarrow> 'e + ('v \<times> nat)"
    and valid :: "'v \<Rightarrow> bool"
  assumes rd_enc: "valid v \<Longrightarrow> length (pre @ enc v @ post) \<le> usize_max \<Longrightarrow>
      rd (pre @ enc v @ post) (length pre) = Inr (v, length pre + length (enc v))"
    and enc_nonempty: "valid v \<Longrightarrow> enc v \<noteq> []"
begin

fun rd_run :: "nat \<Rightarrow> bytes \<Rightarrow> nat \<Rightarrow> 'e + 'v list" where
  "rd_run 0 buf at = Inr []"
| "rd_run (Suc n) buf at =
     (if length buf \<le> at then Inr []
      else rbind (rd buf at) (\<lambda>(v, at'). rbind (rd_run n buf at') (\<lambda>vs. Inr (v # vs))))"

lemma rd_run_concat:
  "\<forall>v \<in> set vs. valid v \<Longrightarrow> length vs < n \<Longrightarrow>
     length (pre @ concat (map enc vs)) \<le> usize_max \<Longrightarrow>
     rd_run n (pre @ concat (map enc vs)) (length pre) = Inr vs"
proof (induction vs arbitrary: n pre)
  case Nil
  then show ?case by (cases n) auto
next
  case (Cons v vs)
  then obtain k where n: "n = Suc k" by (cases n) auto
  have v: "valid v" using Cons.prems by simp
  have "rd (pre @ enc v @ concat (map enc vs)) (length pre) = Inr (v, length pre + length (enc v))"
    using rd_enc [OF v, of pre "concat (map enc vs)"] Cons.prems by simp
  moreover have "rd_run k ((pre @ enc v) @ concat (map enc vs)) (length (pre @ enc v)) = Inr vs"
    using Cons.prems n by (intro Cons.IH) auto
  ultimately show ?case
    using enc_nonempty [OF v] by (simp add: n)
qed

lemma concat_enc_inj:
  assumes "\<forall>v \<in> set vs. valid v" "\<forall>w \<in> set ws. valid w"
    and "concat (map enc vs) = concat (map enc ws)" "length (concat (map enc vs)) \<le> usize_max"
  shows "vs = ws"
proof -
  let ?n = "Suc (max (length vs) (length ws))"
  have "rd_run ?n (concat (map enc vs)) 0 = Inr vs"
    using rd_run_concat [OF assms(1), of ?n "[]"] assms(4) by simp
  moreover have "rd_run ?n (concat (map enc ws)) 0 = Inr ws"
    using rd_run_concat [OF assms(2), of ?n "[]"] assms(3,4) by simp
  ultimately show ?thesis using assms(3) by simp
qed

end

end
