(* ===== verification/Rt_Contract.thy ===== *)
theory Rt_Contract
  imports Prelude
begin

text \<open>
  The vocabulary of the runtime library: identities and descriptors
  (\<open>crates/ridl-rt/src/contract.rs\<close>), the error strata (\<open>error.rs\<close>) and the errors of a codec
  (\<open>payload.rs\<close>). A newtype over an integer is that integer. The debug identities of
  \<open>InstanceNo\<close> (the \<open>debug\<close> feature) are included. Trait members that generated code
  provides (\<open>RESERVATIONS\<close>) are arguments of the functions that read them.
\<close>

section \<open>Identity\<close>

type_synonym ordinal = u32
type_synonym interface_no = u32
type_synonym stream_no = u8
type_synonym instance_no = i32
type_synonym timestamp = i64
type_synonym duration = i64

definition instance_no_LISTENER :: instance_no where
  "instance_no_LISTENER = word_of_int (- (2 ^ 31))"

definition instance_no_new :: "i32 \<Rightarrow> instance_no option" where
  "instance_no_new n = (if 0 < sint n then Some n else None)"

definition instance_no_twin :: "instance_no \<Rightarrow> instance_no option" where
  "instance_no_twin n = (if 0 < sint n then Some (- n) else None)"

definition instance_no_is_twin :: "instance_no \<Rightarrow> bool" where
  "instance_no_is_twin n \<longleftrightarrow> sint n < 0 \<and> n \<noteq> instance_no_LISTENER"

definition instance_no_is_listener :: "instance_no \<Rightarrow> bool" where
  "instance_no_is_listener n \<longleftrightarrow> n = instance_no_LISTENER"

datatype kind = Signal | Event | Command | Query | Fixed

text \<open>\<open>CatalogHash\<close> is an array of 32 bytes; \<open>CatalogRef\<close> pairs it with the unit name.\<close>

type_synonym catalog_hash = bytes

record catalog_ref =
  cat_name :: bytes
  cat_hash :: catalog_hash

section \<open>Limits and budgets\<close>

definition SIGNAL_EVENT_CEILING :: nat where "SIGNAL_EVENT_CEILING = 3840"

definition CALL_CEILING :: nat where "CALL_CEILING = 16128"

definition FIXED_CEILING :: nat where "FIXED_CEILING = 65280"

fun default_ceiling :: "kind \<Rightarrow> nat" where
  "default_ceiling Signal = SIGNAL_EVENT_CEILING"
| "default_ceiling Event = SIGNAL_EVENT_CEILING"
| "default_ceiling Command = CALL_CEILING"
| "default_ceiling Query = CALL_CEILING"
| "default_ceiling Fixed = FIXED_CEILING"

text \<open>\<open>RESERVATIONS[ROW]\<close>: the compiler refuses a row outside the table, here \<open>None\<close>.\<close>

definition reservation :: "u64 list \<Rightarrow> nat \<Rightarrow> u64 option" where
  "reservation rows r = (if r < length rows then Some (rows ! r) else None)"

fun table_budget_from :: "u64 \<Rightarrow> u64 list \<Rightarrow> u64" where
  "table_budget_from acc [] = acc"
| "table_budget_from acc (r # rs) = table_budget_from (saturating_add_u64 acc r) rs"

definition table_budget :: "u64 list \<Rightarrow> u64" where
  "table_budget rows = table_budget_from 0 rows"

section \<open>Members and timing\<close>

datatype timing_mode = StrictPeriodic | Range

record timing =
  mode :: timing_mode
  t_min :: "duration option"
  t_max :: "duration option"

datatype stream_form = Elements | Bytes | Text

record stream_info =
  si_no :: stream_no
  si_form :: stream_form
  si_element :: bytes

record payload_info =
  pi_type_name :: bytes

record member =
  m_ordinal :: ordinal
  m_kind :: kind
  m_name :: bytes
  m_timing :: "timing option"
  m_payloads :: "payload_info list"
  m_streams :: "stream_info list"

definition timing_rate_floor :: "timing \<Rightarrow> duration option" where
  "timing_rate_floor t = t_min t"

definition timing_staleness_bound :: "timing \<Rightarrow> duration option" where
  "timing_staleness_bound t = t_max t"

definition member_call_deadline :: "member \<Rightarrow> duration option" where
  "member_call_deadline m = Option.bind (m_timing m) t_max"

definition member_rate_floor :: "member \<Rightarrow> duration option" where
  "member_rate_floor m = (case m_timing m of Some t \<Rightarrow> timing_rate_floor t | None \<Rightarrow> None)"

definition member_staleness_bound :: "member \<Rightarrow> duration option" where
  "member_staleness_bound m =
     (case m_timing m of Some t \<Rightarrow> timing_staleness_bound t | None \<Rightarrow> None)"

section \<open>Errors\<close>

datatype rule = Rule_Range | Rule_Step | Rule_Length | Rule_Pattern | Rule_Variant
  | Rule_Unique | Rule_Utf8

record violation =
  v_type_name :: "bytes option"
  v_rule :: rule

datatype contract =
    InvalidValue violation
  | PreconditionFailed
  | ContractBroken
  | UnknownInteraction

datatype transport = Timeout | Undelivered | Down | Corrupt | Busy | Interrupted

datatype call_error = CallContract contract | CallTransport transport

datatype malformed = OutOfBounds | Unaligned | MissingRequired | Utf8 | Union | TooDeep
  | TooManyTables | TooLarge | Varint | WireType | Duplicate | Preamble | Stride | Terminator
  | KeyOrder

datatype verify_error = Structure malformed | VerifyContract violation

datatype encode_error =
    Capacity (needed: nat) (available: nat)
  | EncodeContract violation
  | EncodeUnaligned
  | Layout nat

section \<open>Lemmas\<close>

lemma unat_saturating_add_u64:
  "unat (saturating_add_u64 a b) = min (unat a + unat b) (2 ^ 64 - 1)"
proof (cases "unat a + unat b < 2 ^ 64")
  case True
  then have "unat (a + b) = unat a + unat b"
    by (simp add: unat_word_ariths)
  with True show ?thesis by (simp add: saturating_add_u64_def)
next
  case False
  then show ?thesis by (simp add: saturating_add_u64_def unat_max_u64)
qed

lemma unat_table_budget_from:
  "unat (table_budget_from acc rows) = min (unat acc + sum_list (map unat rows)) (2 ^ 64 - 1)"
proof (induction rows arbitrary: acc)
  case Nil
  have "unat acc < 2 ^ 64" by (rule unat_bound_u64)
  then show ?case by simp
next
  case (Cons r rows)
  then show ?case by (simp add: unat_saturating_add_u64)
qed

lemma sint_instance_pos_bound:
  "0 < sint (n :: i32) \<Longrightarrow> sint (- n) = - sint n"
  using sint_word_of_int_i32 [of "- sint n"] sint_bounds_i32 [of n] by simp

end
