(* ===== verification/Rt_Sample.thy ===== *)
theory Rt_Sample
  imports Rt_Contract
begin

text \<open>
  Time, envelopes, freshness and event loss: \<open>crates/ridl-rt/src/sample.rs\<close>. The slots of an
  \<open>EventSeqTracker<N>\<close> are a list of length \<open>N\<close>, which no operation changes. The scan of
  \<open>observe\<close> is written as the loop it is, with the index of the first free slot carried
  along.
\<close>

section \<open>Envelopes and freshness\<close>

record envelope =
  stamp :: timestamp
  seq :: u64

datatype detection = DetInvalidValue violation | DetCorrupt

datatype cause = Declared | Detected detection

datatype provenance = Init | Live | Invalid cause

datatype freshness = Fresh | Stale duration | Unbounded

text \<open>\<open>core::time::Duration::from_micros\<close> holds the unsigned microseconds.\<close>

definition duration_to_core :: "duration \<Rightarrow> u64 option" where
  "duration_to_core d = (if sint d < 0 then None else Some d)"

definition freshness_of :: "envelope \<Rightarrow> timestamp \<Rightarrow> timing option \<Rightarrow> freshness" where
  "freshness_of e now tm =
     (case Option.bind tm t_max of
        None \<Rightarrow> Unbounded
      | Some mx \<Rightarrow>
          (let age = saturating_sub_i64 now (stamp e) in
           if sint age \<le> sint mx then Fresh else Stale (saturating_sub_i64 age mx)))"

record 'v sample =
  s_value :: 'v
  s_provenance :: provenance
  s_freshness :: freshness
  s_envelope :: envelope

definition usable :: "'v sample \<Rightarrow> bool" where
  "usable s \<longleftrightarrow>
     (case s_provenance s of Live \<Rightarrow> True | _ \<Rightarrow> False) \<and>
     \<not> (case s_freshness s of Stale _ \<Rightarrow> True | _ \<Rightarrow> False)"

record 'v occurrence =
  o_payload :: "detection + 'v"
  o_envelope :: envelope

section \<open>Event loss\<close>

datatype continuity = First | Next | Lost u64 | NotNewer u64

datatype tracker_full = TrackerFull

record channel =
  ch_interface :: interface_no
  ch_ordinal :: ordinal
  ch_last :: u64

type_synonym tracker = "channel option list"

definition tracker_new :: "nat \<Rightarrow> tracker" where
  "tracker_new n = replicate n None"

definition is_channel :: "interface_no \<Rightarrow> ordinal \<Rightarrow> channel \<Rightarrow> bool" where
  "is_channel i k ch \<longleftrightarrow> ch_interface ch = i \<and> ch_ordinal ch = k"

text \<open>
  The loop of \<open>observe\<close> from slot \<open>idx\<close> on: the answer and the index and new \<open>last\<close> of the
  channel's slot when the channel is tracked, else the first free slot seen.
\<close>

datatype scan = Found nat continuity u64 | Missing "nat option"

fun observe_scan :: "interface_no \<Rightarrow> ordinal \<Rightarrow> u64 \<Rightarrow> tracker \<Rightarrow> nat \<Rightarrow> nat option \<Rightarrow> scan" where
  "observe_scan i k s [] idx free = Missing free"
| "observe_scan i k s (slot # rest) idx free =
     (case slot of
        Some ch \<Rightarrow>
          if is_channel i k ch then
            (if s \<le> ch_last ch then Found idx (NotNewer (ch_last ch)) (ch_last ch)
             else (let count = s - ch_last ch - 1 in
                   Found idx (if count = 0 then Next else Lost count) s))
          else observe_scan i k s rest (Suc idx) free
      | None \<Rightarrow> observe_scan i k s rest (Suc idx) (if free = None then Some idx else free))"

definition observe ::
    "tracker \<Rightarrow> interface_no \<Rightarrow> ordinal \<Rightarrow> u64 \<Rightarrow> (tracker_full + continuity) \<times> tracker" where
  "observe t i k s =
     (case observe_scan i k s t 0 None of
        Found idx c new_last \<Rightarrow>
          (Inr c, t[idx := Some \<lparr>ch_interface = i, ch_ordinal = k, ch_last = new_last\<rparr>])
      | Missing None \<Rightarrow> (Inl TrackerFull, t)
      | Missing (Some idx) \<Rightarrow>
          (Inr First, t[idx := Some \<lparr>ch_interface = i, ch_ordinal = k, ch_last = s\<rparr>]))"

definition tracker_forget :: "tracker \<Rightarrow> interface_no \<Rightarrow> ordinal \<Rightarrow> tracker" where
  "tracker_forget t i k =
     map (\<lambda>slot. case slot of Some ch \<Rightarrow> if is_channel i k ch then None else slot | None \<Rightarrow> None) t"

section \<open>The tracker as a map from channels to their last sequence number\<close>

definition chan_key :: "channel \<Rightarrow> interface_no \<times> ordinal" where
  "chan_key ch = (ch_interface ch, ch_ordinal ch)"

definition slot_keys :: "tracker \<Rightarrow> (interface_no \<times> ordinal) option list" where
  "slot_keys t = map (map_option chan_key) t"

definition tracker_wf :: "tracker \<Rightarrow> bool" where
  "tracker_wf t \<longleftrightarrow> distinct (filter (\<lambda>q. q \<noteq> None) (slot_keys t))"

fun tracked :: "tracker \<Rightarrow> interface_no \<times> ordinal \<Rightarrow> u64 option" where
  "tracked [] q = None"
| "tracked (slot # rest) q =
     (case slot of
        Some ch \<Rightarrow> if is_channel (fst q) (snd q) ch then Some (ch_last ch) else tracked rest q
      | None \<Rightarrow> tracked rest q)"

definition first_free :: "tracker \<Rightarrow> nat option" where
  "first_free t = (if None \<in> set t then Some (length (takeWhile (\<lambda>x. x \<noteq> None) t)) else None)"

text \<open>What one observation reveals of a channel whose last sequence number is \<open>l\<close>.\<close>

definition continuity_of :: "u64 \<Rightarrow> u64 \<Rightarrow> continuity" where
  "continuity_of l s =
     (if s \<le> l then NotNewer l else if s = l + 1 then Next else Lost (s - l - 1))"

definition later :: "u64 \<Rightarrow> u64 \<Rightarrow> u64" where
  "later l s = (if s \<le> l then l else s)"

definition holds_channel :: "interface_no \<times> ordinal \<Rightarrow> channel option \<Rightarrow> bool" where
  "holds_channel q slot \<longleftrightarrow> (case slot of Some ch \<Rightarrow> is_channel (fst q) (snd q) ch | None \<Rightarrow> False)"

definition slot_index :: "tracker \<Rightarrow> interface_no \<times> ordinal \<Rightarrow> nat" where
  "slot_index t q = length (takeWhile (\<lambda>slot. \<not> holds_channel q slot) t)"

lemma first_free_Cons:
  "first_free (x # xs) = (if x = None then Some 0 else map_option Suc (first_free xs))"
  by (auto simp: first_free_def)

lemma continuity_of_eq:
  "\<not> s \<le> l \<Longrightarrow> (if s - l - 1 = 0 then Next else Lost (s - l - 1)) = continuity_of l s"
  by (auto simp: continuity_of_def algebra_simps)

lemma observe_scan_eq:
  "observe_scan i k s t idx free =
     (case tracked t (i, k) of
        Some l \<Rightarrow> Found (idx + slot_index t (i, k)) (continuity_of l s) (later l s)
      | None \<Rightarrow> Missing (case free of Some f \<Rightarrow> Some f
                        | None \<Rightarrow> map_option (\<lambda>f. idx + f) (first_free t)))"
proof (induction t arbitrary: idx free)
  case Nil
  then show ?case by (cases free) (auto simp: first_free_def)
next
  case (Cons slot rest)
  show ?case
  proof (cases slot)
    case None
    then show ?thesis
      using Cons.IH by (auto simp: slot_index_def holds_channel_def first_free_Cons
          option.map_comp o_def split: option.split)
  next
    case (Some ch)
    have "(if s - ch_last ch - 1 = 0 then Next else Lost (s - ch_last ch - 1)) =
        continuity_of (ch_last ch) s" if "\<not> s \<le> ch_last ch"
      using that by (rule continuity_of_eq)
    moreover have "continuity_of (ch_last ch) s = NotNewer (ch_last ch)" if "s \<le> ch_last ch"
      using that by (simp add: continuity_of_def)
    ultimately show ?thesis
      using Some Cons.IH by (cases "first_free rest")
        (auto simp: slot_index_def holds_channel_def first_free_Cons later_def Let_def
          split: option.split)
  qed
qed

lemma tracked_update_slot:
  "tracked t q = Some l \<Longrightarrow>
     tracked (t[slot_index t q := Some \<lparr>ch_interface = fst q, ch_ordinal = snd q, ch_last = m\<rparr>]) p =
     ((tracked t)(q \<mapsto> m)) p"
proof (induction t)
  case (Cons slot rest)
  then show ?case
    by (cases slot; cases q; cases p)
      (auto simp: slot_index_def holds_channel_def is_channel_def split: if_splits)
qed simp

lemma tracked_fill_free:
  "tracked t q = None \<Longrightarrow> first_free t = Some f \<Longrightarrow>
     tracked (t[f := Some \<lparr>ch_interface = fst q, ch_ordinal = snd q, ch_last = m\<rparr>]) p =
     ((tracked t)(q \<mapsto> m)) p"
proof (induction t arbitrary: f)
  case (Cons slot rest)
  then show ?case
    by (cases slot; cases q; cases p) (auto simp: first_free_Cons is_channel_def split: if_splits)
qed (simp add: first_free_def)

lemma tracked_None_iff: "tracked t q = None \<longleftrightarrow> Some q \<notin> set (slot_keys t)"
proof (induction t)
  case (Cons slot rest)
  then show ?case
    by (cases slot; cases q) (auto simp: is_channel_def slot_keys_def chan_key_def)
qed (simp add: slot_keys_def)

lemma slot_index_nth:
  "tracked t q = Some l \<Longrightarrow> slot_index t q < length t \<and>
     t ! slot_index t q = Some \<lparr>ch_interface = fst q, ch_ordinal = snd q, ch_last = l\<rparr>"
proof (induction t)
  case (Cons slot rest)
  then show ?case
    by (cases slot)
      (auto simp: slot_index_def holds_channel_def is_channel_def split: if_splits)
qed simp

lemma first_free_nth: "first_free t = Some f \<Longrightarrow> f < length t \<and> t ! f = None"
proof (induction t arbitrary: f)
  case (Cons slot rest)
  then show ?case by (cases slot) (auto simp: first_free_Cons split: if_splits)
qed (simp add: first_free_def)

lemma tracker_wf_update_slot:
  assumes "tracker_wf t" "tracked t q = Some l"
  shows "tracker_wf (t[slot_index t q := Some \<lparr>ch_interface = fst q, ch_ordinal = snd q, ch_last = m\<rparr>])"
proof -
  have "slot_keys (t[slot_index t q := Some \<lparr>ch_interface = fst q, ch_ordinal = snd q, ch_last = m\<rparr>]) =
      (slot_keys t)[slot_index t q := slot_keys t ! slot_index t q]"
    using slot_index_nth [OF assms(2)] by (simp add: slot_keys_def map_update chan_key_def)
  then show ?thesis using assms(1) by (simp add: tracker_wf_def)
qed

lemma distinct_filter_fill:
  assumes "distinct (filter (\<lambda>q. q \<noteq> None) ks)" "f < length ks" "ks ! f = None" "Some q \<notin> set ks"
  shows "distinct (filter (\<lambda>q. q \<noteq> None) (ks[f := Some q]))"
proof -
  have "ks = take f ks @ None # drop (Suc f) ks"
    using id_take_nth_drop [OF assms(2)] assms(3) by simp
  then obtain us vs where ks: "ks = us @ None # vs" and us: "length us = f"
    using assms(2) by (metis length_take less_imp_le min.absorb2)
  show ?thesis using assms(1,4) by (auto simp: ks us [symmetric])
qed

lemma tracker_wf_fill_free:
  assumes "tracker_wf t" "tracked t q = None" "first_free t = Some f"
  shows "tracker_wf (t[f := Some \<lparr>ch_interface = fst q, ch_ordinal = snd q, ch_last = m\<rparr>])"
  using distinct_filter_fill [of "slot_keys t" f q] assms first_free_nth [OF assms(3)]
  by (simp add: tracker_wf_def tracked_None_iff slot_keys_def map_update chan_key_def)

lemma tracker_forget_map: "tracked (tracker_forget t i k) = (tracked t)((i, k) := None)"
proof (induction t)
  case (Cons slot rest)
  then show ?case
    by (cases slot) (auto simp: tracker_forget_def is_channel_def fun_eq_iff)
qed (simp add: tracker_forget_def fun_eq_iff)

lemma tracker_forget_keys: "slot_keys (tracker_forget t i k) = map (\<lambda>q. if q = Some (i, k) then None else q) (slot_keys t)"
  by (auto simp: slot_keys_def tracker_forget_def is_channel_def chan_key_def split: option.split)

lemma filter_erase:
  "filter (\<lambda>q. q \<noteq> None) (map (\<lambda>q. if q = c then None else q) qs) = filter (\<lambda>q. q \<noteq> c) (filter (\<lambda>q. q \<noteq> None) qs)"
  by (induction qs) auto

lemma tracker_forget_wf: "tracker_wf t \<Longrightarrow> tracker_wf (tracker_forget t i k)"
  unfolding tracker_wf_def tracker_forget_keys filter_erase by (rule distinct_filter)

lemma tracker_forget_nth:
  "j < length t \<Longrightarrow> tracker_forget t i k ! j =
     (if map_option (\<lambda>ch. (ch_interface ch, ch_ordinal ch)) (t ! j) = Some (i, k) then None else t ! j)"
  by (auto simp: tracker_forget_def is_channel_def split: option.split)

lemma forget_frees: "tracked t (i, k) \<noteq> None \<Longrightarrow> None \<in> set (tracker_forget t i k)"
proof (induction t)
  case (Cons slot rest)
  then show ?case by (cases slot) (auto simp: tracker_forget_def is_channel_def split: if_splits)
qed simp

lemma observe_cases:
  "observe t i k s =
     (case tracked t (i, k) of
        Some l \<Rightarrow> (Inr (continuity_of l s),
          t[slot_index t (i, k) := Some \<lparr>ch_interface = i, ch_ordinal = k, ch_last = later l s\<rparr>])
      | None \<Rightarrow> (case first_free t of
          None \<Rightarrow> (Inl TrackerFull, t)
        | Some f \<Rightarrow> (Inr First, t[f := Some \<lparr>ch_interface = i, ch_ordinal = k, ch_last = s\<rparr>])))"
  by (auto simp: observe_def observe_scan_eq option.map_ident split: option.split)


lemma observe_step:
  assumes "observe t i k s = (r, t')" and "tracker_wf t"
  shows "tracker_wf t' \<and> length t' = length t \<and>
    (case tracked t (i, k) of
       Some l \<Rightarrow> r = Inr (continuity_of l s) \<and> tracked t' = (tracked t)((i, k) \<mapsto> later l s)
     | None \<Rightarrow>
         if None \<in> set t then r = Inr First \<and> tracked t' = (tracked t)((i, k) \<mapsto> s)
         else r = Inl TrackerFull \<and> t' = t)"
proof (cases "tracked t (i, k)")
  case None
  have "first_free t = None \<longleftrightarrow> None \<notin> set t" by (simp add: first_free_def)
  with None assms show ?thesis
    using tracked_fill_free [OF None, of _ s] tracker_wf_fill_free [OF assms(2) None, of _ s]
    by (auto simp: observe_cases fun_eq_iff split: option.splits)
next
  case (Some l)
  with assms show ?thesis
    using tracked_update_slot [OF Some, of "later l s"]
      tracker_wf_update_slot [OF assms(2) Some, of "later l s"]
    by (auto simp: observe_cases fun_eq_iff)
qed

lemma tracker_wf_new: "tracker_wf (tracker_new n)"
  by (simp add: tracker_wf_def tracker_new_def slot_keys_def filter_empty_conv)

lemma tracked_new: "tracked (tracker_new n) = Map.empty"
  by (induction n) (auto simp: tracker_new_def fun_eq_iff)

text \<open>A session: the occurrences fed to the tracker in order, with the answer to each.\<close>

fun observe_all ::
    "tracker \<Rightarrow> (interface_no \<times> ordinal \<times> u64) list \<Rightarrow>
     ((interface_no \<times> ordinal) \<times> (tracker_full + continuity)) list \<times> tracker" where
  "observe_all t [] = ([], t)"
| "observe_all t ((i, k, s) # obs) =
     (let (r, t1) = observe t i k s; (rs, t2) = observe_all t1 obs in (((i, k), r) # rs, t2))"

text \<open>The occurrences a list of answers accepts on a channel, and the losses it reports there.\<close>

fun accepted :: "(tracker_full + continuity) \<Rightarrow> nat" where
  "accepted (Inr Next) = 1"
| "accepted (Inr (Lost c)) = 1"
| "accepted r = 0"

fun losses :: "(tracker_full + continuity) \<Rightarrow> nat" where
  "losses (Inr (Lost c)) = unat c"
| "losses r = 0"

definition on_channel :: "(tracker_full + continuity \<Rightarrow> nat) \<Rightarrow> interface_no \<times> ordinal \<Rightarrow>
    ((interface_no \<times> ordinal) \<times> (tracker_full + continuity)) list \<Rightarrow> nat" where
  "on_channel f q rs = sum_list (map (\<lambda>(p, r). if p = q then f r else 0) rs)"

lemma unat_later:
  "unat (later l s) =
     unat l + accepted (Inr (continuity_of l s)) + losses (Inr (continuity_of l s))"
proof (cases "s \<le> l")
  case True
  then show ?thesis by (simp add: later_def continuity_of_def)
next
  case False
  then have lt: "l < s" by simp
  then have "unat (s - l - 1) + unat l + 1 = unat s"
    by unat_arith
  moreover have "unat (l + 1) = unat l + 1"
    using lt by unat_arith
  ultimately show ?thesis using lt by (auto simp: later_def continuity_of_def)
qed

section \<open>Properties\<close>

text \<open>
  C33: The tracker is the abstract map from a channel to its last accepted sequence number. A new
  tracker is the empty map. One call of \<open>observe\<close> is one step of the map: a tracked channel answers by
  comparing with its own last number only, a new one takes a free slot and reports \<open>First\<close>, a full
  tracker refuses and changes nothing. \<open>forget\<close> removes exactly its channel from the map and frees its
  slot: the slot of any other channel stays as it is, and the next occurrence of the channel, if it
  was tracked, reports \<open>First\<close>. No channel is ever held in two slots, and the number of slots never
  changes.
\<close>

theorem tracker_refines:
  assumes "tracker_wf t" and "observe t i k s = (r, t')"
  shows "tracker_wf (tracker_new n) \<and> tracked (tracker_new n) = Map.empty \<and>
    tracker_wf t' \<and> length t' = length t \<and>
    (case tracked t (i, k) of
       Some l \<Rightarrow> r = Inr (continuity_of l s) \<and> tracked t' = (tracked t)((i, k) \<mapsto> later l s)
     | None \<Rightarrow>
         if None \<in> set t then r = Inr First \<and> tracked t' = (tracked t)((i, k) \<mapsto> s)
         else r = Inl TrackerFull \<and> t' = t) \<and>
    tracker_wf (tracker_forget t i k) \<and> length (tracker_forget t i k) = length t \<and>
    tracked (tracker_forget t i k) = (tracked t)((i, k) := None) \<and>
    (\<forall>j < length t. tracker_forget t i k ! j =
       (if map_option (\<lambda>ch. (ch_interface ch, ch_ordinal ch)) (t ! j) = Some (i, k) then None else t ! j)) \<and>
    (tracked t (i, k) \<noteq> None \<longrightarrow> fst (observe (tracker_forget t i k) i k s) = Inr First)"
proof -
  have "fst (observe (tracker_forget t i k) i k s) = Inr First" if "tracked t (i, k) \<noteq> None"
  proof -
    obtain r' t'' where o: "observe (tracker_forget t i k) i k s = (r', t'')" by fastforce
    show ?thesis
      using observe_step [OF o tracker_forget_wf [OF assms(1)]] forget_frees [OF that] o
      by (simp add: tracker_forget_map)
  qed
  then show ?thesis
    using observe_step [OF assms(2,1)] tracker_forget_wf [OF assms(1)] tracker_wf_new tracked_new
    by (simp add: tracker_forget_map tracker_forget_nth) (simp add: tracker_forget_def)
qed

theorem tracker_refines_witness:
  "tracked (snd (observe [Some \<lparr>ch_interface = 3, ch_ordinal = 4, ch_last = 8\<rparr>,
       Some \<lparr>ch_interface = 1, ch_ordinal = 2, ch_last = 5\<rparr>] 1 2 9)) (1, 2) = Some 9 \<and>
   tracked (tracker_forget [Some \<lparr>ch_interface = 3, ch_ordinal = 4, ch_last = 8\<rparr>,
       Some \<lparr>ch_interface = 1, ch_ordinal = 2, ch_last = 5\<rparr>] 1 2) = [(3, 4) \<mapsto> 8] \<and>
   fst (observe (tracker_forget [Some \<lparr>ch_interface = 3, ch_ordinal = 4, ch_last = 8\<rparr>,
       Some \<lparr>ch_interface = 1, ch_ordinal = 2, ch_last = 5\<rparr>] 1 2) 1 2 9) = Inr First"
proof -
  let ?t = "[Some \<lparr>ch_interface = 3, ch_ordinal = 4, ch_last = 8\<rparr>, Some \<lparr>ch_interface = 1, ch_ordinal = 2, ch_last = 5\<rparr>] :: tracker"
  let ?t' = "[Some \<lparr>ch_interface = 3, ch_ordinal = 4, ch_last = 8\<rparr>, Some \<lparr>ch_interface = 1, ch_ordinal = 2, ch_last = 9\<rparr>] :: tracker"
  have o: "observe ?t 1 2 9 = (Inr (Lost 3), ?t')"
    by (simp add: observe_def is_channel_def Let_def)
  have w: "tracker_wf ?t" by (simp add: tracker_wf_def slot_keys_def chan_key_def)
  have "tracked ?t (1, 2) = Some 5" "tracked ?t = [(3, 4) \<mapsto> 8, (1, 2) \<mapsto> 5]"
    by (auto simp: is_channel_def fun_eq_iff)
  with tracker_refines [OF w o] o show ?thesis by (simp add: later_def fun_upd_twist)
qed

text \<open>
  Loss accounting. Over any interleaving of occurrences of any channels, the last sequence
  number of a tracked channel has advanced by the occurrences accepted on it plus the losses
  reported on it, so every gap is reported exactly once and no occurrence of another channel is
  counted.
\<close>

lemma loss_accounting:
  assumes "tracker_wf t" and "tracked t q = Some l" and "observe_all t obs = (rs, t')"
  shows "\<exists>l'. tracked t' q = Some l' \<and>
    unat l' = unat l + on_channel accepted q rs + on_channel losses q rs"
  using assms
proof (induction obs arbitrary: t l rs)
  case Nil
  then show ?case by (simp add: on_channel_def)
next
  case (Cons ob obs)
  obtain i k s where ob: "ob = (i, k, s)" by (cases ob)
  obtain r t1 where o: "observe t i k s = (r, t1)" by fastforce
  obtain rs1 where all: "observe_all t1 obs = (rs1, t')" and rs: "rs = ((i, k), r) # rs1"
    using Cons.prems(3) by (auto simp: ob o Let_def split: prod.splits)
  note step = observe_step [OF o Cons.prems(1)]
  show ?case
  proof (cases "q = (i, k)")
    case True
    then have r: "r = Inr (continuity_of l s)" and l1: "tracked t1 q = Some (later l s)"
      using step Cons.prems(2) by auto
    show ?thesis
      using Cons.IH [OF _ l1 all] step True unat_later [of l s]
      by (auto simp: rs r on_channel_def)
  next
    case False
    then have "tracked t1 q = Some l"
      using step Cons.prems(2) by (auto split: option.splits if_splits)
    then show ?thesis
      using Cons.IH [OF _ _ all] step False by (auto simp: rs on_channel_def)
  qed
qed

text \<open>
  freshness. Against a bound that is not negative, and while the true age fits an \<open>i64\<close>,
  a value is \<open>Fresh\<close> exactly while \<open>now - stamp \<le> max\<close> and \<open>Stale\<close> by exactly the time past
  the bound otherwise; a stamp far in the future is \<open>Fresh\<close> although the subtraction saturates.
\<close>

lemma freshness_exact:
  assumes "Option.bind tm t_max = Some mx" and "0 \<le> sint mx"
    and "sint now - sint (stamp e) < 2 ^ 63"
  shows "if sint now - sint (stamp e) \<le> sint mx then freshness_of e now tm = Fresh
         else \<exists>d. freshness_of e now tm = Stale d \<and>
                  sint d = sint now - sint (stamp e) - sint mx"
  using assms sint_bounds_i64 [of mx]
  by (auto simp: freshness_of_def Let_def sint_saturating_sub_i64)

end
