(* ===== verification/Rt_Correlate.thy ===== *)
theory Rt_Correlate
  imports Rt_Contract
begin

text \<open>
  The caller-side call table and the waiter registry: \<open>crates/ridl-rt/src/correlate.rs\<close>.
  \<open>Table<N>\<close> is a record with the slots as a list of length \<open>N\<close>; an operation that takes
  \<open>&mut self\<close> returns its answer and the new table. A \<open>core::task::Waker\<close> is its data pointer
  and its vtable, which is what \<open>will_wake\<close> compares; cloning one gives an equal waker.
\<close>

section \<open>Wakers\<close>

datatype waker = Waker (w_data: nat) (w_vtable: nat)

definition will_wake :: "waker \<Rightarrow> waker \<Rightarrow> bool" where
  "will_wake a b \<longleftrightarrow> w_data a = w_data b \<and> w_vtable a = w_vtable b"

text \<open>
  \<open>store\<close>: the new content of a one-waker cell and the waker to wake, which is the displaced one
  unless it wakes the same task.
\<close>

definition store :: "waker option \<Rightarrow> waker \<Rightarrow> waker option \<times> waker option" where
  "store stored w =
     (Some w, case stored of Some d \<Rightarrow> if will_wake d w then None else Some d | None \<Rightarrow> None)"

section \<open>The table\<close>

type_synonym correlation = u64
type_synonym outcome = "call_error + unit"

definition STREAM_WAKERS :: nat where "STREAM_WAKERS = 4"

definition SLOT_BITS :: nat where "SLOT_BITS = 16"

definition SLOT_MASK :: u64 where "SLOT_MASK = push_bit SLOT_BITS 1 - 1"

definition GENERATION_MASK :: u64 where "GENERATION_MASK = push_bit (64 - SLOT_BITS) 1 - 1"

datatype settled = Recorded "waker option" | SettledReclaimed | SettledUnknown

datatype forgotten = ForgottenReclaimed | Marked "waker option" | ForgottenUnknown

datatype call_state = Free | InFlight bool | Settled outcome

record entry =
  generation :: u64
  state :: call_state
  reserved :: u64
  waker :: "waker option"
  streams :: "(stream_no \<times> waker) option list"

definition no_streams :: "(stream_no \<times> waker) option list" where
  "no_streams = replicate STREAM_WAKERS None"

definition entry_FREE :: entry where
  "entry_FREE = \<lparr>generation = 0, state = Free, reserved = 0, waker = None, streams = no_streams\<rparr>"

record table =
  slots :: "entry list"
  budget :: "u64 option"

definition table_new :: "nat \<Rightarrow> u64 option \<Rightarrow> table" where
  "table_new n b = \<lparr>slots = replicate n entry_FREE, budget = b\<rparr>"

definition put_entry :: "table \<Rightarrow> nat \<Rightarrow> entry \<Rightarrow> table" where
  "put_entry t i e = t\<lparr>slots := (slots t)[i := e]\<rparr>"

definition table_insert :: "table \<Rightarrow> u64 \<Rightarrow> correlation option \<times> table" where
  "table_insert t r =
     (case position (\<lambda>e. state e = Free) (slots t) of
        None \<Rightarrow> (None, t)
      | Some index \<Rightarrow>
          (case (case budget t of
                   Some free \<Rightarrow> map_option Some (checked_sub_u64 free r)
                 | None \<Rightarrow> Some None) of
             None \<Rightarrow> (None, t)
           | Some b \<Rightarrow>
               (let e = slots t ! index;
                    e' = e\<lparr>state := InFlight False, reserved := r, streams := no_streams\<rparr>
                in (Some (push_bit SLOT_BITS (generation e) OR of_nat index),
                    (put_entry t index e')\<lparr>budget := b\<rparr>))))"

definition slot_of :: "correlation \<Rightarrow> nat" where
  "slot_of c = unat (c AND SLOT_MASK)"

definition held :: "table \<Rightarrow> correlation \<Rightarrow> nat option" where
  "held t c =
     (let index = slot_of c in
      if index < length (slots t) \<and> generation (slots t ! index) = drop_bit SLOT_BITS c \<and>
         state (slots t ! index) \<noteq> Free
      then Some index else None)"

definition reclaim :: "table \<Rightarrow> nat \<Rightarrow> table" where
  "reclaim t index =
     (let e = slots t ! index in
      (put_entry t index
         (e\<lparr>state := Free, reserved := 0, waker := None,
            generation := (generation e + 1) AND GENERATION_MASK\<rparr>))
      \<lparr>budget := (case budget t of
                    Some free \<Rightarrow> Some (saturating_add_u64 free (reserved e))
                  | None \<Rightarrow> None)\<rparr>)"

definition settle :: "table \<Rightarrow> correlation \<Rightarrow> outcome \<Rightarrow> settled \<times> table" where
  "settle t c out =
     (case held t c of
        None \<Rightarrow> (SettledUnknown, t)
      | Some index \<Rightarrow>
          (let e = slots t ! index in
           case state e of
             InFlight False \<Rightarrow>
               (Recorded (waker e), put_entry t index (e\<lparr>state := Settled out, waker := None\<rparr>))
           | InFlight True \<Rightarrow> (SettledReclaimed, reclaim t index)
           | Settled _ \<Rightarrow> (SettledUnknown, t)
           | Free \<Rightarrow> (SettledUnknown, t)))"

definition outcome_of :: "table \<Rightarrow> correlation \<Rightarrow> outcome option" where
  "outcome_of t c =
     (case held t c of
        None \<Rightarrow> None
      | Some index \<Rightarrow>
          (case state (slots t ! index) of
             Settled out \<Rightarrow> Some out
           | InFlight _ \<Rightarrow> None
           | Free \<Rightarrow> None))"

definition forget :: "table \<Rightarrow> correlation \<Rightarrow> forgotten \<times> table" where
  "forget t c =
     (case held t c of
        None \<Rightarrow> (ForgottenUnknown, t)
      | Some index \<Rightarrow>
          (let e = slots t ! index in
           case state e of
             Settled _ \<Rightarrow> (ForgottenReclaimed, reclaim t index)
           | InFlight False \<Rightarrow>
               (Marked (waker e), put_entry t index (e\<lparr>state := InFlight True, waker := None\<rparr>))
           | InFlight True \<Rightarrow> (ForgottenUnknown, t)
           | Free \<Rightarrow> (ForgottenUnknown, t)))"

definition wake_on :: "table \<Rightarrow> correlation \<Rightarrow> waker \<Rightarrow> waker option \<times> table" where
  "wake_on t c w =
     (case held t c of
        None \<Rightarrow> (Some w, t)
      | Some index \<Rightarrow>
          (let e = slots t ! index in
           case state e of
             InFlight False \<Rightarrow>
               (let (cell, back) = store (waker e) w
                in (back, put_entry t index (e\<lparr>waker := cell\<rparr>)))
           | InFlight True \<Rightarrow> (Some w, t)
           | Settled _ \<Rightarrow> (Some w, t)
           | Free \<Rightarrow> (Some w, t)))"

definition cell_of :: "stream_no \<Rightarrow> (stream_no \<times> waker) option \<Rightarrow> bool" where
  "cell_of s cell \<longleftrightarrow> (case cell of Some (no, _) \<Rightarrow> no = s | None \<Rightarrow> False)"

text \<open>The two searches of \<open>wake_on_stream\<close> over the cells: the stream's own cell, else an empty one.\<close>

definition store_stream ::
    "(stream_no \<times> waker) option list \<Rightarrow> stream_no \<Rightarrow> waker \<Rightarrow>
     waker option \<times> (stream_no \<times> waker) option list" where
  "store_stream cells s w =
     (case position (cell_of s) cells of
        Some i \<Rightarrow>
          (case cells ! i of
             Some (no, stored) \<Rightarrow> (if will_wake stored w then None else Some stored,
                                 cells[i := Some (no, w)])
           | None \<Rightarrow> (Some w, cells))
      | None \<Rightarrow>
          (case position (\<lambda>cell. cell = None) cells of
             Some i \<Rightarrow> (None, cells[i := Some (s, w)])
           | None \<Rightarrow> (Some w, cells)))"

definition wake_on_stream ::
    "table \<Rightarrow> correlation \<Rightarrow> stream_no \<Rightarrow> waker \<Rightarrow> waker option \<times> table" where
  "wake_on_stream t c s w =
     (case held t c of
        None \<Rightarrow> (Some w, t)
      | Some index \<Rightarrow>
          (let e = slots t ! index in
           if state e = InFlight True \<or> state e = Free then (Some w, t)
           else (let (back, cells) = store_stream (streams e) s w
                 in (back, put_entry t index (e\<lparr>streams := cells\<rparr>)))))"

definition take_stream :: "table \<Rightarrow> correlation \<Rightarrow> stream_no \<Rightarrow> waker option \<times> table" where
  "take_stream t c s =
     (case held t c of
        None \<Rightarrow> (None, t)
      | Some index \<Rightarrow>
          (let e = slots t ! index in
           case position (cell_of s) (streams e) of
             None \<Rightarrow> (None, t)
           | Some i \<Rightarrow>
               (map_option snd (streams e ! i),
                put_entry t index (e\<lparr>streams := (streams e)[i := None]\<rparr>))))"

definition take_streams :: "table \<Rightarrow> nat \<Rightarrow> waker list \<times> table" where
  "take_streams t slot =
     (if slot < length (slots t) then
        (let e = slots t ! slot in
         (map snd (List.map_filter id (streams e)),
          put_entry t slot (e\<lparr>streams := no_streams\<rparr>)))
      else ([], t))"

section \<open>The waiter registry\<close>

type_synonym claim_id = u64

datatype interest = IOutcome correlation | ISlot | IEvent interface_no | IClaim interface_no
  | IStream correlation stream_no | IClaimStream claim_id stream_no

record waiters =
  wt_slot :: "waker option"
  wt_event :: "waker option"
  wt_claim :: "waker option"

definition waiters_new :: waiters where
  "waiters_new = \<lparr>wt_slot = None, wt_event = None, wt_claim = None\<rparr>"

fun waiters_kind :: "interest \<Rightarrow> (waiters \<Rightarrow> waker option) option" where
  "waiters_kind ISlot = Some wt_slot"
| "waiters_kind (IEvent _) = Some wt_event"
| "waiters_kind (IClaim _) = Some wt_claim"
| "waiters_kind (IOutcome _) = None"
| "waiters_kind (IStream _ _) = None"
| "waiters_kind (IClaimStream _ _) = None"

fun waiters_put :: "interest \<Rightarrow> waker option \<Rightarrow> waiters \<Rightarrow> waiters" where
  "waiters_put ISlot c ws = ws\<lparr>wt_slot := c\<rparr>"
| "waiters_put (IEvent _) c ws = ws\<lparr>wt_event := c\<rparr>"
| "waiters_put (IClaim _) c ws = ws\<lparr>wt_claim := c\<rparr>"
| "waiters_put _ c ws = ws"

definition waiters_register :: "waiters \<Rightarrow> interest \<Rightarrow> waker \<Rightarrow> waker option \<times> waiters" where
  "waiters_register ws what w =
     (case waiters_kind what of
        Some get \<Rightarrow> (let (cell, back) = store (get ws) w in (back, waiters_put what cell ws))
      | None \<Rightarrow> (Some w, ws))"

definition waiters_take :: "waiters \<Rightarrow> interest \<Rightarrow> waker option \<times> waiters" where
  "waiters_take ws what =
     (case waiters_kind what of
        Some get \<Rightarrow> (get ws, waiters_put what None ws)
      | None \<Rightarrow> (None, ws))"

definition waiters_take_all :: "waiters \<Rightarrow> waker list \<times> waiters" where
  "waiters_take_all ws =
     (List.map_filter id [wt_slot ws, wt_event ws, wt_claim ws], waiters_new)"

section \<open>Packing a correlation\<close>

lemma SLOT_MASK_eq: "SLOT_MASK = mask 16"
  by (simp add: SLOT_MASK_def SLOT_BITS_def mask_eq_exp_minus_1)

lemma GENERATION_MASK_eq: "GENERATION_MASK = mask 48"
  by (simp add: GENERATION_MASK_def SLOT_BITS_def mask_eq_exp_minus_1)

lemma slot_of_eq: "slot_of c = unat (take_bit 16 c)"
  by (simp add: slot_of_def SLOT_MASK_eq take_bit_eq_mask)

lemma slot_of_bound: "slot_of c < 65536"
  by (simp add: slot_of_eq unsigned_take_bit_eq take_bit_nat_eq_self_iff [symmetric])
    (simp add: take_bit_nat_def)

lemma bit_of_nat_high: "i < 65536 \<Longrightarrow> 16 \<le> n \<Longrightarrow> \<not> bit (of_nat i :: u64) n"
proof -
  assume i: "i < 65536" and n: "16 \<le> n"
  have "of_nat i = take_bit 16 (of_nat i :: u64)"
    using i by (simp add: take_bit_of_nat take_bit_nat_eq_self flip: of_nat_take_bit)
  then show ?thesis using n by (metis bit_take_bit_iff not_le)
qed

lemma slot_of_pack: "i < 65536 \<Longrightarrow> slot_of (push_bit 16 g OR of_nat i) = i"
proof -
  assume i: "i < 65536"
  have "take_bit 16 (push_bit 16 g OR of_nat i :: u64) = of_nat i"
    by (rule bit_word_eqI) (use bit_of_nat_high [OF i] in \<open>auto simp: bit_simps\<close>)
  then show ?thesis using i by (simp add: slot_of_eq take_bit_nat_eq_self unsigned_of_nat)
qed

lemma gen_of_pack:
  assumes "i < 65536" "unat g < 2 ^ 48"
  shows "drop_bit 16 (push_bit 16 g OR of_nat i :: u64) = g"
proof (rule bit_word_eqI)
  fix n assume n: "n < LENGTH(64)"
  have "g = take_bit 48 g" using assms(2)
    by (intro word_eq_iff_unsigned [where 'a = nat, THEN iffD2])
      (simp add: unsigned_take_bit_eq take_bit_nat_eq_self)
  then have "\<not> bit g n" if "48 \<le> n" using that by (metis bit_take_bit_iff not_le)
  then show "bit (drop_bit 16 (push_bit 16 g OR of_nat i :: u64)) n = bit g n"
    using n bit_of_nat_high [OF assms(1)] by (cases "n < 48") (auto simp: bit_simps)
qed

lemma pack_unpack: "push_bit 16 (drop_bit 16 c) OR of_nat (slot_of c) = (c :: u64)"
  by (rule bit_word_eqI) (auto simp: slot_of_eq bit_simps)

lemma correlation_eqI:
  "slot_of c = slot_of d \<Longrightarrow> drop_bit 16 c = drop_bit 16 d \<Longrightarrow> c = d"
  by (metis pack_unpack)

lemma next_generation_bound: "unat ((g + 1) AND GENERATION_MASK) < 2 ^ 48"
  by (simp add: GENERATION_MASK_eq take_bit_eq_mask [symmetric] unsigned_take_bit_eq take_bit_nat_def)

lemma next_generation:
  assumes "unat g < 2 ^ 48 - 1"
  shows "unat ((g + 1) AND GENERATION_MASK) = unat g + 1"
proof -
  have "unat (g + 1) = unat g + 1" using assms by (simp add: unat_word_ariths)
  then show ?thesis
    using assms by (simp add: GENERATION_MASK_eq take_bit_eq_mask [symmetric] unsigned_take_bit_eq
        take_bit_nat_eq_self)
qed

section \<open>Invariant and abstraction\<close>

text \<open>
  What every entry keeps: a generation of 48 bits, \<open>STREAM_WAKERS\<close> cells of distinct streams, an
  outcome waker only while an outcome is still to be recorded, and no reservation while free.
\<close>

definition cell_nos :: "(stream_no \<times> waker) option list \<Rightarrow> stream_no list" where
  "cell_nos cells = map fst (List.map_filter id cells)"

definition entry_wf :: "entry \<Rightarrow> bool" where
  "entry_wf e \<longleftrightarrow>
     unat (generation e) < 2 ^ 48 \<and>
     length (streams e) = STREAM_WAKERS \<and> distinct (cell_nos (streams e)) \<and>
     (state e \<noteq> InFlight False \<longrightarrow> waker e = None) \<and>
     (state e = Free \<longrightarrow> reserved e = 0)"

definition table_wf :: "table \<Rightarrow> bool" where
  "table_wf t \<longleftrightarrow> length (slots t) \<le> 65536 \<and> (\<forall>e \<in> set (slots t). entry_wf e)"

text \<open>The calls the table holds: a correlation in flight, forgotten in flight, or settled.\<close>

definition calls :: "table \<Rightarrow> correlation \<Rightarrow> call_state option" where
  "calls t c = map_option (\<lambda>i. state (slots t ! i)) (held t c)"

text \<open>The bytes debited: the sum of the reservations of every slot.\<close>

definition debited :: "table \<Rightarrow> nat" where
  "debited t = sum_list (map (\<lambda>e. unat (reserved e)) (slots t))"

definition budget_balanced :: "nat \<Rightarrow> table \<Rightarrow> bool" where
  "budget_balanced b t \<longleftrightarrow> (\<exists>free. budget t = Some free \<and> unat free + debited t = b)"

lemma put_entry_simps [simp]:
  "slots (put_entry t i e) = (slots t)[i := e]"
  "budget (put_entry t i e) = budget t"
  by (simp_all add: put_entry_def)

lemma put_entry_same: "slots t ! i = e \<Longrightarrow> put_entry t i e = t"
  by (auto simp: put_entry_def)

lemma heldD:
  "held t c = Some i \<Longrightarrow>
     i = slot_of c \<and> i < length (slots t) \<and> generation (slots t ! i) = drop_bit 16 c \<and>
     state (slots t ! i) \<noteq> Free"
  by (auto simp: held_def Let_def SLOT_BITS_def split: if_splits)

lemma heldI:
  "slot_of c < length (slots t) \<Longrightarrow> generation (slots t ! slot_of c) = drop_bit 16 c \<Longrightarrow>
     state (slots t ! slot_of c) \<noteq> Free \<Longrightarrow> held t c = Some (slot_of c)"
  by (simp add: held_def Let_def SLOT_BITS_def)

lemma held_budget [simp]: "held (t\<lparr>budget := b\<rparr>) = held t"
  by (simp add: held_def fun_eq_iff)

lemma held_inj: "held t c = Some i \<Longrightarrow> held t d = Some i \<Longrightarrow> c = d"
  by (metis correlation_eqI heldD)

text \<open>An update of a held slot that keeps its generation and leaves it taken.\<close>

lemma held_bound: "held t c = Some i \<Longrightarrow> i < length (slots t)"
  using heldD [of t c i] by simp

lemma held_occupied: "held t c = Some i \<Longrightarrow> state (slots t ! i) \<noteq> Free"
  using heldD [of t c i] by blast

lemma held_put_entry:
  assumes "held t c = Some i" "generation e = generation (slots t ! i)" "state e \<noteq> Free"
  shows "held (put_entry t i e) = held t"
proof
  fix d
  show "held (put_entry t i e) d = held t d"
    using heldD [OF assms(1)] assms(2,3)
    by (cases "slot_of d = i") (auto simp: held_def Let_def)
qed

lemma calls_put_entry:
  assumes "held t c = Some i" "generation e = generation (slots t ! i)" "state e \<noteq> Free"
  shows "calls (put_entry t i e) = (calls t)(c \<mapsto> state e)"
proof
  fix d
  show "calls (put_entry t i e) d = ((calls t)(c \<mapsto> state e)) d"
  proof (cases "d = c")
    case True
    moreover have "i < length (slots t)" using heldD [OF assms(1)] by simp
    ultimately show ?thesis
      using assms(1) by (simp add: calls_def held_put_entry [OF assms])
  next
    case False
    then have "held t d \<noteq> Some i" using held_inj assms(1) by blast
    then show ?thesis
      using False by (cases "held t d") (auto simp: calls_def held_put_entry [OF assms])
  qed
qed

lemma slots_reclaim:
  "slots (reclaim t i) = (slots t)[i := (slots t ! i)\<lparr>state := Free, reserved := 0, waker := None,
      generation := (generation (slots t ! i) + 1) AND GENERATION_MASK\<rparr>]"
  by (simp add: reclaim_def Let_def)

lemma calls_reclaim:
  assumes "held t c = Some i"
  shows "calls (reclaim t i) = (calls t)(c := None)"
proof
  fix d
  show "calls (reclaim t i) d = ((calls t)(c := None)) d"
  proof (cases "slot_of d = i")
    case True
    then have "held (reclaim t i) d = None"
      using heldD [OF assms] by (simp add: held_def Let_def slots_reclaim)
    moreover have "d = c \<or> held t d = None"
      using True heldD [OF assms] correlation_eqI by (auto simp: held_def Let_def SLOT_BITS_def)
    ultimately show ?thesis by (auto simp: calls_def)
  next
    case False
    then have "held (reclaim t i) d = held t d" "d \<noteq> c"
      using heldD [OF assms] by (auto simp: held_def Let_def slots_reclaim)
    moreover have "held t d \<noteq> Some i" using False heldD by blast
    ultimately show ?thesis
      by (cases "held t d") (auto simp: calls_def slots_reclaim)
  qed
qed

lemma table_wf_put_entry: "table_wf t \<Longrightarrow> entry_wf e \<Longrightarrow> table_wf (put_entry t i e)"
  using set_update_subset_insert [of "slots t" i e] by (auto simp: table_wf_def)

lemma table_wf_budget [simp]: "table_wf (t\<lparr>budget := b\<rparr>) = table_wf t"
  by (simp add: table_wf_def)

lemma table_wf_nth: "table_wf t \<Longrightarrow> i < length (slots t) \<Longrightarrow> entry_wf (slots t ! i)"
  by (simp add: table_wf_def)

lemma table_wf_reclaim:
  assumes "table_wf t" "i < length (slots t)"
  shows "table_wf (reclaim t i)"
  using table_wf_nth [OF assms] assms(1) next_generation_bound
  unfolding reclaim_def Let_def table_wf_budget
  by (intro table_wf_put_entry) (auto simp: entry_wf_def)

section \<open>The laws of the operations\<close>

lemma cell_nos_no_streams [simp]: "cell_nos no_streams = []"
  by (simp add: cell_nos_def no_streams_def STREAM_WAKERS_def List.map_filter_def)

lemma length_no_streams [simp]: "length no_streams = STREAM_WAKERS"
  by (simp add: no_streams_def)

lemma table_wf_new: "n \<le> 65536 \<Longrightarrow> table_wf (table_new n b)"
  by (auto simp: table_wf_def table_new_def entry_wf_def entry_FREE_def)

lemma calls_new: "calls (table_new n b) = Map.empty"
  by (auto simp: calls_def held_def table_new_def entry_FREE_def Let_def fun_eq_iff)

text \<open>The three ways \<open>insert\<close> ends.\<close>

lemma table_insert_cases:
  assumes "table_insert t r = (res, t')"
  obtains (refused) "res = None" "t' = t"
  | (taken) i b e where "position (\<lambda>e. state e = Free) (slots t) = Some i"
      "e = slots t ! i"
      "res = Some (push_bit 16 (generation e) OR of_nat i)"
      "t' = (put_entry t i (e\<lparr>state := InFlight False, reserved := r, streams := no_streams\<rparr>))
              \<lparr>budget := b\<rparr>"
      "(budget t = None \<and> b = None) \<or>
       (\<exists>free. budget t = Some free \<and> r \<le> free \<and> b = Some (free - r))"
proof (cases "position (\<lambda>e. state e = Free) (slots t)")
  case None
  with assms refused show ?thesis by (simp add: table_insert_def)
next
  case (Some i)
  note pos = Some
  show ?thesis
  proof (cases "budget t")
    case None
    with pos assms show ?thesis
      by (intro taken [OF pos refl, of None]) (auto simp: table_insert_def Let_def SLOT_BITS_def)
  next
    case (Some free)
    show ?thesis
    proof (cases "r \<le> free")
      case True
      with pos assms Some show ?thesis
        by (intro taken [OF pos refl, of "Some (free - r)"])
          (auto simp: table_insert_def checked_sub_u64_def Let_def SLOT_BITS_def)
    next
      case False
      with pos assms Some show ?thesis
        by (intro refused) (auto simp: table_insert_def checked_sub_u64_def)
    qed
  qed
qed

lemma table_insert_None: "table_insert t r = (None, t') \<Longrightarrow> t' = t"
  by (erule table_insert_cases) simp_all

lemma table_insert_Some:
  assumes "table_wf t" "table_insert t r = (Some c, t')"
  shows "table_wf t' \<and> calls t c = None \<and> calls t' = (calls t)(c \<mapsto> InFlight False)"
  using assms(2)
proof (cases rule: table_insert_cases)
  case (taken i b e)
  note i = position_SomeD [OF taken(1)]
  have wf: "entry_wf e" using table_wf_nth assms(1) i taken(2) by auto
  have i16: "i < 65536" using i assms(1) by (auto simp: table_wf_def)
  have c: "slot_of c = i" "drop_bit 16 c = generation e"
    using taken(3) slot_of_pack [OF i16] gen_of_pack [OF i16] wf by (auto simp: entry_wf_def)
  let ?e' = "e\<lparr>state := InFlight False, reserved := r, streams := no_streams\<rparr>"
  have "table_wf t'"
    using assms(1) wf i unfolding taken(4) table_wf_budget
    by (intro table_wf_put_entry) (auto simp: entry_wf_def)
  moreover have free: "held t d = None" if "slot_of d = i" for d
    using that i by (auto simp: held_def Let_def)
  moreover have "calls t' d = ((calls t)(c \<mapsto> InFlight False)) d" for d
  proof (cases "slot_of d = i")
    case True
    then have dc: "drop_bit 16 d = drop_bit 16 c \<longleftrightarrow> d = c"
      using c(1) correlation_eqI [of d c] by auto
    have "held t' d = (if d = c then Some i else None)"
      using True i dc c(2) by (simp add: held_def Let_def SLOT_BITS_def taken(4)) metis
    then show ?thesis using True free i by (simp add: calls_def taken(4))
  next
    case False
    then have "held t' d = held t d" "d \<noteq> c"
      using c by (auto simp: held_def Let_def taken(4))
    moreover have "held t d \<noteq> Some i" using False heldD by blast
    ultimately show ?thesis by (cases "held t d") (auto simp: calls_def taken(4))
  qed
  ultimately show ?thesis using c(1) by (auto simp: calls_def)
qed simp

lemma calls_held: "held t c = Some i \<Longrightarrow> calls t c = Some (state (slots t ! i))"
  by (simp add: calls_def)

lemma settle_law:
  assumes "table_wf t" "settle t c out = (a, t')"
  shows "table_wf t' \<and>
    (case calls t c of
       Some (InFlight False) \<Rightarrow> (\<exists>w. a = Recorded w) \<and> calls t' = (calls t)(c \<mapsto> Settled out)
     | Some (InFlight True) \<Rightarrow> a = SettledReclaimed \<and> calls t' = (calls t)(c := None)
     | _ \<Rightarrow> a = SettledUnknown \<and> t' = t)"
proof (cases "held t c")
  case None
  with assms show ?thesis by (simp add: settle_def calls_def)
next
  case (Some i)
  note h = heldD [OF Some] and wf = table_wf_nth [OF assms(1), of i] and st = calls_held [OF Some]
  show ?thesis
  proof (cases "state (slots t ! i)")
    case (InFlight f)
    then show ?thesis
    proof (cases f)
      case True
      with assms Some InFlight h show ?thesis
        by (auto simp: settle_def st Let_def calls_reclaim table_wf_reclaim)
    next
      case False
      let ?e = "(slots t ! i)\<lparr>state := Settled out, waker := None\<rparr>"
      have t': "a = Recorded (waker (slots t ! i))" "t' = put_entry t i ?e"
        using assms(2) Some InFlight False by (auto simp: settle_def Let_def)
      have "table_wf t'" using wf h assms(1) unfolding t'
        by (intro table_wf_put_entry) (auto simp: entry_wf_def)
      then show ?thesis
        using calls_put_entry [OF Some, of ?e] InFlight False t' by (simp add: st)
    qed
  qed (use assms Some st in \<open>auto simp: settle_def Let_def\<close>)
qed

lemma forget_law:
  assumes "table_wf t" "forget t c = (a, t')"
  shows "table_wf t' \<and>
    (case calls t c of
       Some (InFlight False) \<Rightarrow> (\<exists>w. a = Marked w) \<and> calls t' = (calls t)(c \<mapsto> InFlight True)
     | Some (Settled _) \<Rightarrow> a = ForgottenReclaimed \<and> calls t' = (calls t)(c := None)
     | _ \<Rightarrow> a = ForgottenUnknown \<and> t' = t)"
proof (cases "held t c")
  case None
  with assms show ?thesis by (simp add: forget_def calls_def)
next
  case (Some i)
  note h = heldD [OF Some] and wf = table_wf_nth [OF assms(1), of i] and st = calls_held [OF Some]
  show ?thesis
  proof (cases "state (slots t ! i)")
    case (InFlight f)
    then show ?thesis
    proof (cases f)
      case True
      with assms Some InFlight st show ?thesis by (auto simp: forget_def Let_def)
    next
      case False
      let ?e = "(slots t ! i)\<lparr>state := InFlight True, waker := None\<rparr>"
      have t': "a = Marked (waker (slots t ! i))" "t' = put_entry t i ?e"
        using assms(2) Some InFlight False by (auto simp: forget_def Let_def)
      have "table_wf t'" using wf h assms(1) unfolding t'
        by (intro table_wf_put_entry) (auto simp: entry_wf_def)
      then show ?thesis
        using calls_put_entry [OF Some, of ?e] InFlight False t' by (simp add: st)
    qed
  next
    case (Settled out)
    with assms Some h show ?thesis
      by (auto simp: forget_def st Let_def calls_reclaim table_wf_reclaim)
  qed (use h in auto)
qed

lemma outcome_law:
  "outcome_of t c = (case calls t c of Some (Settled out) \<Rightarrow> Some out | _ \<Rightarrow> None)"
  by (auto simp: outcome_of_def calls_def split: option.split call_state.split)

section \<open>The call table as an interface\<close>

text \<open>
  What a runtime relies on: its sends, settlements and releases act on the calls held as on a
  map, and the waker operations (\<open>aux\<close>) leave the calls alone.
\<close>

datatype 'x call_op = Insert u64 | Settle correlation outcome | Forget correlation | Aux 'x

locale call_table =
  fixes ins :: "'t \<Rightarrow> u64 \<Rightarrow> correlation option \<times> 't"
    and settl :: "'t \<Rightarrow> correlation \<Rightarrow> outcome \<Rightarrow> settled \<times> 't"
    and forg :: "'t \<Rightarrow> correlation \<Rightarrow> forgotten \<times> 't"
    and outc :: "'t \<Rightarrow> correlation \<Rightarrow> outcome option"
    and aux :: "'x \<Rightarrow> 't \<Rightarrow> 't"
    and cls :: "'t \<Rightarrow> correlation \<Rightarrow> call_state option"
    and inv :: "'t \<Rightarrow> bool"
  assumes ins_Some: "inv t \<Longrightarrow> ins t r = (Some c, t') \<Longrightarrow>
      inv t' \<and> cls t c = None \<and> cls t' = (cls t)(c \<mapsto> InFlight False)"
    and ins_None: "ins t r = (None, t') \<Longrightarrow> t' = t"
    and settl_law: "inv t \<Longrightarrow> settl t c out = (a, t') \<Longrightarrow> inv t' \<and>
      (case cls t c of
         Some (InFlight False) \<Rightarrow> (\<exists>w. a = Recorded w) \<and> cls t' = (cls t)(c \<mapsto> Settled out)
       | Some (InFlight True) \<Rightarrow> a = SettledReclaimed \<and> cls t' = (cls t)(c := None)
       | _ \<Rightarrow> a = SettledUnknown \<and> t' = t)"
    and forg_law: "inv t \<Longrightarrow> forg t c = (b, t') \<Longrightarrow> inv t' \<and>
      (case cls t c of
         Some (InFlight False) \<Rightarrow> (\<exists>w. b = Marked w) \<and> cls t' = (cls t)(c \<mapsto> InFlight True)
       | Some (Settled _) \<Rightarrow> b = ForgottenReclaimed \<and> cls t' = (cls t)(c := None)
       | _ \<Rightarrow> b = ForgottenUnknown \<and> t' = t)"
    and outc_law: "outc t c = (case cls t c of Some (Settled out) \<Rightarrow> Some out | _ \<Rightarrow> None)"
    and aux_law: "inv t \<Longrightarrow> inv (aux x t) \<and> cls (aux x t) = cls t"
begin

fun step :: "'t \<Rightarrow> 'x call_op \<Rightarrow> 't" where
  "step t (Insert r) = snd (ins t r)"
| "step t (Settle c out) = snd (settl t c out)"
| "step t (Forget c) = snd (forg t c)"
| "step t (Aux x) = aux x t"

definition run :: "'t \<Rightarrow> 'x call_op list \<Rightarrow> 't" where
  "run t ops = foldl step t ops"

lemma run_simps [simp]: "run t [] = t" "run t (x # ops) = run (step t x) ops"
  by (simp_all add: run_def)

lemma step_inv: "inv t \<Longrightarrow> inv (step t x)"
proof (cases x)
  case (Insert r)
  moreover obtain res t' where "ins t r = (res, t')" by fastforce
  moreover assume "inv t"
  ultimately show ?thesis
    using ins_Some [of t r _ t'] ins_None [of t r t'] by (cases res) auto
next
  case (Settle c out)
  moreover obtain a t' where "settl t c out = (a, t')" by fastforce
  moreover assume "inv t"
  ultimately show ?thesis using settl_law by auto
next
  case (Forget c)
  moreover obtain a t' where "forg t c = (a, t')" by fastforce
  moreover assume "inv t"
  ultimately show ?thesis using forg_law by auto
next
  case (Aux y)
  moreover assume "inv t"
  ultimately show ?thesis using aux_law by auto
qed

lemma run_inv: "inv t \<Longrightarrow> inv (run t ops)"
  by (induction ops arbitrary: t) (auto intro: step_inv)

text \<open>A settled call keeps its outcome in every step but its own release.\<close>

lemma step_settled:
  assumes "inv t" "cls t c = Some (Settled out)" "x \<noteq> Forget c"
  shows "cls (step t x) c = Some (Settled out)"
proof (cases x)
  case (Insert r)
  obtain res t' where "ins t r = (res, t')" by fastforce
  with Insert assms show ?thesis
    using ins_Some [of t r _ t'] ins_None [of t r t'] by (cases res) auto
next
  case (Settle d o2)
  obtain a t' where r: "settl t d o2 = (a, t')" by fastforce
  from settl_law [OF assms(1) r] assms Settle r show ?thesis
    by (cases "c = d") (auto split: option.splits call_state.splits bool.splits)
next
  case (Forget d)
  obtain a t' where r: "forg t d = (a, t')" by fastforce
  from forg_law [OF assms(1) r] assms Forget r show ?thesis
    by (cases "c = d") (auto split: option.splits call_state.splits bool.splits)
next
  case (Aux y)
  with assms aux_law show ?thesis by auto
qed

lemma outcome_stable:
  "inv t \<Longrightarrow> outc t c = Some out \<Longrightarrow> Forget c \<notin> set ops \<Longrightarrow> outc (run t ops) c = Some out"
proof (induction ops arbitrary: t)
  case (Cons x ops)
  then have "cls t c = Some (Settled out)"
    by (auto simp: outc_law split: option.splits call_state.splits)
  with Cons step_settled [of t c out x] step_inv [of t x] show ?case
    by (auto simp: outc_law)
qed simp

lemma first_settlement_wins:
  assumes "inv t" "settl t c out = (Recorded w, t1)"
  shows "outc t1 c = Some out \<and> settl t1 c out2 = (SettledUnknown, t1)"
proof -
  have s: "inv t1" "cls t1 c = Some (Settled out)"
    using settl_law [OF assms] by (auto split: option.splits call_state.splits bool.splits)
  obtain a t2 where r: "settl t1 c out2 = (a, t2)" by fastforce
  from settl_law [OF s(1) r] s(2) r show ?thesis by (simp add: outc_law)
qed

lemma released_is_silent:
  assumes "inv t" "forg t c = (b, t1)"
  shows "outc t1 c = None"
  using forg_law [OF assms] by (auto simp: outc_law split: option.splits call_state.splits bool.splits)

end

section \<open>Wakers kept with a call\<close>

lemma cell_nos_update:
  assumes "i < length cells" "distinct (cell_nos cells)" "cell_of s (cells ! i)"
  shows "distinct (cell_nos (cells[i := Some (s, w)])) \<and> distinct (cell_nos (cells[i := None]))"
proof -
  obtain us vs v where cells: "cells = us @ Some (s, v) # vs" and us: "length us = i"
    using assms(1,3) id_take_nth_drop [OF assms(1)]
    by (auto simp: cell_of_def split: option.splits)
  have "distinct (cell_nos us @ s # cell_nos vs)"
    using assms(2) by (simp add: cells cell_nos_def List.map_filter_def)
  then show ?thesis
    by (auto simp: cells us [symmetric] cell_nos_def List.map_filter_def)
qed

lemma cell_nos_fill:
  assumes "i < length cells" "distinct (cell_nos cells)" "cells ! i = None"
    "\<forall>cell \<in> set cells. \<not> cell_of s cell"
  shows "distinct (cell_nos (cells[i := Some (s, w)]))"
proof -
  obtain us vs where cells: "cells = us @ None # vs" and us: "length us = i"
    using assms(1,3) id_take_nth_drop [OF assms(1)]
    by (metis length_take less_imp_le min.absorb2)
  have "s \<notin> set (cell_nos cells)"
    using assms(4) by (force simp: cell_nos_def List.map_filter_def cell_of_def split: option.splits)
  then show ?thesis
    using assms(2) by (auto simp: cells us [symmetric] cell_nos_def List.map_filter_def)
qed

text \<open>
  \<open>store_stream\<close> on well-formed cells: the waker ends in the stream's cell, or it is handed back
  because every cell belongs to another stream.
\<close>

lemma store_stream_law:
  assumes "distinct (cell_nos cells)" "store_stream cells s w = (back, cells')"
  shows "length cells' = length cells \<and> distinct (cell_nos cells') \<and>
    (if (\<exists>cell \<in> set cells. cell_of s cell) \<or> None \<in> set cells
     then \<exists>i. position (cell_of s) cells' = Some i \<and> cells' ! i = Some (s, w)
     else back = Some w \<and> cells' = cells)"
proof (cases "position (cell_of s) cells")
  case (Some i)
  note i = position_SomeD [OF Some]
  then obtain v where v: "cells ! i = Some (s, v)"
    by (auto simp: cell_of_def split: option.splits)
  have c': "cells' = cells[i := Some (s, w)]" using assms(2) Some v by (simp add: store_stream_def)
  have "position (cell_of s) (cells[i := Some (s, w)]) = Some i"
    using Some
  proof (induction cells arbitrary: i)
    case (Cons a cells)
    then show ?case by (auto simp: cell_of_def split: if_splits)
  qed simp
  moreover have "\<exists>cell \<in> set cells. cell_of s cell" using i by (metis nth_mem)
  ultimately show ?thesis
    using cell_nos_update [of i cells s w] i assms(1) by (auto simp: c')
next
  case None
  note no = None [unfolded position_None_iff]
  show ?thesis
  proof (cases "position (\<lambda>cell. cell = None) cells")
    case None
    then have "None \<notin> set cells" by (auto simp: position_None_iff)
    then show ?thesis
      using None assms \<open>position (cell_of s) cells = None\<close> no by (auto simp: store_stream_def)
  next
    case (Some i)
    note i = position_SomeD [OF Some]
    have c': "cells' = cells[i := Some (s, w)]"
      using assms(2) Some \<open>position (cell_of s) cells = None\<close> by (simp add: store_stream_def)
    have "position (cell_of s) (cells[i := Some (s, w)]) = Some i"
      using Some \<open>position (cell_of s) cells = None\<close>
    proof (induction cells arbitrary: i)
      case (Cons a cells)
      then show ?case by (auto simp: cell_of_def split: if_splits)
    qed simp
    moreover have "None \<in> set cells" using i by (metis nth_mem)
    ultimately show ?thesis
      using cell_nos_fill [of i cells s w] i assms(1) no by (auto simp: c')
  qed
qed

datatype wake_op = WakeOn correlation waker | WakeOnStream correlation stream_no waker
  | TakeStream correlation stream_no | TakeStreams nat

fun wake_step :: "wake_op \<Rightarrow> table \<Rightarrow> table" where
  "wake_step (WakeOn c w) t = snd (wake_on t c w)"
| "wake_step (WakeOnStream c s w) t = snd (wake_on_stream t c s w)"
| "wake_step (TakeStream c s) t = snd (take_stream t c s)"
| "wake_step (TakeStreams i) t = snd (take_streams t i)"

text \<open>Each waker operation rewrites at most one entry, and there only its wakers.\<close>

lemma wake_step_put:
  assumes "table_wf t"
  obtains (same) "wake_step x t = t"
  | (put) i e where "i < length (slots t)" "wake_step x t = put_entry t i e" "entry_wf e"
      "generation e = generation (slots t ! i)" "state e = state (slots t ! i)"
      "reserved e = reserved (slots t ! i)"
proof (cases x)
  case (WakeOn c w)
  show ?thesis
  proof (cases "held t c")
    case None
    with WakeOn same show ?thesis by (simp add: wake_on_def)
  next
    case (Some i)
    note wf = table_wf_nth [OF assms, of i]
    show ?thesis
    proof (cases "state (slots t ! i) = InFlight False")
      case True
      let ?e = "(slots t ! i)\<lparr>waker := Some w\<rparr>"
      have "wake_step x t = put_entry t i ?e"
        using WakeOn Some True by (simp add: wake_on_def store_def Let_def)
      moreover have "entry_wf ?e" using wf True heldD [OF Some] by (auto simp: entry_wf_def)
      ultimately show ?thesis using heldD [OF Some] by (intro put [of i ?e]) auto
    next
      case False
      then have "wake_step x t = t"
        using WakeOn Some by (simp add: wake_on_def Let_def split: call_state.split bool.split)
      with same show ?thesis by blast
    qed
  qed
next
  case (WakeOnStream c s w)
  show ?thesis
  proof (cases "held t c")
    case None
    with WakeOnStream same show ?thesis by (simp add: wake_on_stream_def)
  next
    case (Some i)
    note h = heldD [OF Some]
    then have wf: "entry_wf (slots t ! i)" using table_wf_nth [OF assms] by simp
    obtain bk cells where st: "store_stream (streams (slots t ! i)) s w = (bk, cells)"
      by fastforce
    let ?e = "(slots t ! i)\<lparr>streams := cells\<rparr>"
    show ?thesis
    proof (cases "state (slots t ! i) = InFlight True")
      case True
      with WakeOnStream Some same show ?thesis by (simp add: wake_on_stream_def Let_def)
    next
      case False
      then have "wake_step x t = put_entry t i ?e"
        using WakeOnStream Some h st by (auto simp: wake_on_stream_def Let_def)
      moreover have "entry_wf ?e"
        using wf store_stream_law [OF _ st] by (auto simp: entry_wf_def)
      ultimately show ?thesis using h by (intro put [of i ?e]) auto
    qed
  qed
next
  case (TakeStream c s)
  show ?thesis
  proof (cases "held t c")
    case None
    with TakeStream same show ?thesis by (simp add: take_stream_def)
  next
    case (Some i)
    note h = heldD [OF Some]
    then have wf: "entry_wf (slots t ! i)" using table_wf_nth [OF assms] by simp
    show ?thesis
    proof (cases "position (cell_of s) (streams (slots t ! i))")
      case None
      with TakeStream Some same show ?thesis by (simp add: take_stream_def Let_def)
    next
      case (Some j)
      let ?e = "(slots t ! i)\<lparr>streams := (streams (slots t ! i))[j := None]\<rparr>"
      have "wake_step x t = put_entry t i ?e"
        using TakeStream \<open>held t c = Some i\<close> Some by (simp add: take_stream_def Let_def)
      moreover have "entry_wf ?e"
        using wf cell_nos_update [of j "streams (slots t ! i)" s] position_SomeD [OF Some]
        by (auto simp: entry_wf_def)
      ultimately show ?thesis using h by (intro put [of i ?e]) auto
    qed
  qed
next
  case (TakeStreams i)
  let ?e = "(slots t ! i)\<lparr>streams := no_streams\<rparr>"
  show ?thesis
  proof (cases "i < length (slots t)")
    case True
    have "entry_wf ?e" using table_wf_nth [OF assms True] by (auto simp: entry_wf_def)
    with True TakeStreams show ?thesis
      by (intro put [of i ?e]) (auto simp: take_streams_def Let_def)
  next
    case False
    with TakeStreams same show ?thesis by (simp add: take_streams_def)
  qed
qed

lemma calls_put_wakers:
  assumes "generation e = generation (slots t ! i)" "state e = state (slots t ! i)"
  shows "calls (put_entry t i e) = calls t"
proof
  fix c
  have "held (put_entry t i e) c = held t c"
    using assms by (cases "slot_of c = i"; cases "i < length (slots t)")
      (auto simp: held_def Let_def nth_list_update)
  then show "calls (put_entry t i e) c = calls t c"
    using assms heldD [of t c]
    by (cases "held t c"; cases "slot_of c = i") (auto simp: calls_def)
qed

lemma wake_step_law:
  assumes "table_wf t"
  shows "table_wf (wake_step x t) \<and> calls (wake_step x t) = calls t"
  by (rule wake_step_put [OF assms, of x])
    (use assms in \<open>auto simp: calls_put_wakers intro: table_wf_put_entry\<close>)

interpretation tbl: call_table table_insert settle forget outcome_of wake_step calls table_wf
  by unfold_locales
    (fact table_insert_Some table_insert_None settle_law forget_law outcome_law wake_step_law)+

section \<open>Runs of a table\<close>

fun table_step :: "table \<Rightarrow> wake_op call_op \<Rightarrow> table" where
  "table_step t (Insert r) = snd (table_insert t r)"
| "table_step t (Settle c out) = snd (settle t c out)"
| "table_step t (Forget c) = snd (forget t c)"
| "table_step t (Aux x) = wake_step x t"

definition table_run :: "table \<Rightarrow> wake_op call_op list \<Rightarrow> table" where
  "table_run t ops = foldl table_step t ops"

text \<open>The correlation an operation issues.\<close>

fun issued :: "table \<Rightarrow> wake_op call_op \<Rightarrow> correlation option" where
  "issued t (Insert r) = fst (table_insert t r)"
| "issued t _ = None"

text \<open>The same operation on the abstract map of calls, given the correlation issued, if any.\<close>

fun calls_step ::
    "(correlation \<Rightarrow> call_state option) \<Rightarrow> wake_op call_op \<Rightarrow> correlation option \<Rightarrow>
     (correlation \<Rightarrow> call_state option)" where
  "calls_step m (Insert r) None = m"
| "calls_step m (Insert r) (Some c) = m(c \<mapsto> InFlight False)"
| "calls_step m (Settle c out) _ =
     (case m c of Some (InFlight False) \<Rightarrow> m(c \<mapsto> Settled out)
      | Some (InFlight True) \<Rightarrow> m(c := None) | _ \<Rightarrow> m)"
| "calls_step m (Forget c) _ =
     (case m c of Some (InFlight False) \<Rightarrow> m(c \<mapsto> InFlight True)
      | Some (Settled _) \<Rightarrow> m(c := None) | _ \<Rightarrow> m)"
| "calls_step m (Aux x) _ = m"

lemma tbl_step_eq: "tbl.step = table_step"
proof (intro ext)
  fix t x
  show "tbl.step t x = table_step t x" by (cases x) simp_all
qed

lemma tbl_run_eq: "tbl.run = table_run"
  by (intro ext) (simp add: tbl.run_def table_run_def tbl_step_eq)

lemma table_run_simps [simp]:
  "table_run t [] = t" "table_run t (x # ops) = table_run (table_step t x) ops"
  "table_run t (ops @ ops') = table_run (table_run t ops) ops'"
  by (simp_all add: table_run_def)

lemmas table_step_wf = tbl.step_inv [unfolded tbl_step_eq]
  and table_run_wf = tbl.run_inv [unfolded tbl_run_eq]

lemma debited_put_entry:
  assumes "i < length (slots t)"
  shows "debited (put_entry t i e) + unat (reserved (slots t ! i)) = debited t + unat (reserved e)"
proof -
  have "unat (reserved (slots t ! i)) \<le> debited t"
    using member_le_sum_list [of "unat (reserved (slots t ! i))" "map (\<lambda>e. unat (reserved e)) (slots t)"]
      assms by (auto simp: debited_def)
  then show ?thesis
    using assms by (simp add: debited_def map_update sum_list_update)
qed

lemma debited_budget [simp]: "debited (t\<lparr>budget := b\<rparr>) = debited t"
  by (simp add: debited_def)

lemma balanced_put_entry:
  assumes "i < length (slots t)" "reserved e = reserved (slots t ! i)"
  shows "budget_balanced b (put_entry t i e) = budget_balanced b t"
  using debited_put_entry [OF assms(1), of e] assms(2) by (simp add: budget_balanced_def)

lemma balanced_reclaim:
  assumes "budget_balanced b t" "b < 2 ^ 64" "i < length (slots t)"
  shows "budget_balanced b (reclaim t i)"
proof -
  obtain free where f: "budget t = Some free" "unat free + debited t = b"
    using assms(1) by (auto simp: budget_balanced_def)
  let ?e = "(slots t ! i)\<lparr>state := Free, reserved := 0, waker := None,
      generation := (generation (slots t ! i) + 1) AND GENERATION_MASK\<rparr>"
  have d: "debited (put_entry t i ?e) + unat (reserved (slots t ! i)) = debited t"
    using debited_put_entry [OF assms(3), of ?e] by simp
  then have "unat (saturating_add_u64 free (reserved (slots t ! i))) + debited (put_entry t i ?e) = b"
    using f(2) assms(2) by (simp add: unat_saturating_add_u64)
  then show ?thesis using f(1) by (simp add: budget_balanced_def reclaim_def Let_def)
qed

lemma balanced_insert:
  assumes "table_wf t" "budget_balanced b t" "table_insert t r = (res, t')"
  shows "budget_balanced b t'"
  using assms(3)
proof (cases rule: table_insert_cases)
  case refused
  with assms(2) show ?thesis by simp
next
  case (taken i b' e)
  note i = position_SomeD [OF taken(1)]
  have "reserved e = 0" using table_wf_nth [OF assms(1)] i taken(2) by (auto simp: entry_wf_def)
  moreover obtain free where f: "budget t = Some free" "unat free + debited t = b" "r \<le> free"
      "b' = Some (free - r)"
    using assms(2) taken(5) by (auto simp: budget_balanced_def)
  moreover have "unat (free - r) + unat r = unat free" using f(3) by (simp add: unat_sub word_le_nat_alt)
  ultimately show ?thesis
    using debited_put_entry [of i t "e\<lparr>state := InFlight False, reserved := r, streams := no_streams\<rparr>"]
      i taken(2,4) by (auto simp: budget_balanced_def)
qed

lemma balanced_step:
  assumes "table_wf t" "b < 2 ^ 64" "budget_balanced b t"
  shows "budget_balanced b (table_step t x)"
proof (cases x)
  case (Insert r)
  then show ?thesis using balanced_insert [OF assms(1,3), of r] by (cases "table_insert t r") auto
next
  case (Settle c out)
  show ?thesis
  proof (cases "held t c")
    case (Some i)
    with Settle assms heldD [OF Some] show ?thesis
      by (auto simp: settle_def Let_def balanced_reclaim balanced_put_entry
          split: call_state.split bool.split)
  qed (use Settle assms in \<open>simp add: settle_def\<close>)
next
  case (Forget c)
  show ?thesis
  proof (cases "held t c")
    case (Some i)
    with Forget assms heldD [OF Some] show ?thesis
      by (auto simp: forget_def Let_def balanced_reclaim balanced_put_entry
          split: call_state.split bool.split)
  qed (use Forget assms in \<open>simp add: forget_def\<close>)
next
  case (Aux y)
  show ?thesis
    by (rule wake_step_put [OF assms(1), of y]) (use Aux assms balanced_put_entry in auto)
qed

text \<open>
  What a step does to one slot: it keeps the generation and does not free the slot, or it frees
  the slot and advances the generation.
\<close>

definition slot_kept :: "entry \<Rightarrow> entry \<Rightarrow> bool" where
  "slot_kept e e' \<longleftrightarrow> generation e' = generation e \<and> (state e \<noteq> Free \<longrightarrow> state e' \<noteq> Free)"

definition slot_freed :: "entry \<Rightarrow> entry \<Rightarrow> bool" where
  "slot_freed e e' \<longleftrightarrow> state e' = Free \<and> generation e' = (generation e + 1) AND GENERATION_MASK"

lemma slot_kept_refl [simp]: "slot_kept e e"
  by (simp add: slot_kept_def)

lemma slot_put_entry:
  assumes "slot_kept (slots t ! i) e \<or> slot_freed (slots t ! i) e"
  shows "slot_kept (slots t ! j) (slots (put_entry t i e) ! j) \<or>
         slot_freed (slots t ! j) (slots (put_entry t i e) ! j)"
  using assms by (cases "i < length (slots t)"; cases "i = j")
    (auto simp: nth_list_update list_update_beyond)

lemma slot_reclaim:
  "slot_kept (slots t ! j) (slots (reclaim t i) ! j) \<or>
   slot_freed (slots t ! j) (slots (reclaim t i) ! j)"
  using slot_put_entry [of t i "(slots t ! i)\<lparr>state := Free, reserved := 0, waker := None,
      generation := (generation (slots t ! i) + 1) AND GENERATION_MASK\<rparr>" j]
  by (simp add: slots_reclaim slot_freed_def)

lemma table_step_slot:
  assumes "table_wf t"
  shows "slot_kept (slots t ! j) (slots (table_step t x) ! j) \<or>
         slot_freed (slots t ! j) (slots (table_step t x) ! j)"
proof (cases x)
  case (Insert r)
  obtain res t' where ins: "table_insert t r = (res, t')" by fastforce
  then show ?thesis
  proof (cases rule: table_insert_cases)
    case (taken i b e)
    then show ?thesis
      using Insert ins slot_put_entry [of t i _ j] by (simp add: slot_kept_def)
  qed (use Insert ins in simp)
next
  case (Settle c out)
  then show ?thesis
    using slot_reclaim slot_put_entry
    by (auto simp: settle_def Let_def slot_kept_def split: option.split call_state.split bool.split)
next
  case (Forget c)
  then show ?thesis
    using slot_reclaim slot_put_entry
    by (auto simp: forget_def Let_def slot_kept_def split: option.split call_state.split bool.split)
next
  case (Aux y)
  show ?thesis
    by (rule wake_step_put [OF assms, of y]) (use Aux slot_put_entry in \<open>auto simp: slot_kept_def\<close>)
qed

lemma length_table_step:
  assumes "table_wf t"
  shows "length (slots (table_step t x)) = length (slots t)"
proof (cases x)
  case (Insert r)
  obtain res t' where ins: "table_insert t r = (res, t')" by fastforce
  then show ?thesis by (cases rule: table_insert_cases) (use Insert ins in auto)
next
  case (Aux y)
  show ?thesis by (rule wake_step_put [OF assms, of y]) (use Aux in auto)
qed (auto simp: settle_def forget_def Let_def slots_reclaim split: option.split call_state.split bool.split)

text \<open>A correlation of a past or present call: its slot has moved past it or holds it.\<close>

definition used :: "table \<Rightarrow> correlation \<Rightarrow> bool" where
  "used t c \<longleftrightarrow>
     (let e = slots t ! slot_of c; g = drop_bit 16 c in
      unat g < unat (generation e) \<or> (g = generation e \<and> state e \<noteq> Free))"

definition generations_upto :: "nat \<Rightarrow> table \<Rightarrow> bool" where
  "generations_upto k t \<longleftrightarrow> (\<forall>i < length (slots t). unat (generation (slots t ! i)) \<le> k)"

lemma freed_generation:
  assumes "slot_freed e e'" "unat (generation e) \<le> k" "k < 2 ^ 48 - 1"
  shows "unat (generation e') = unat (generation e) + 1"
  using assms next_generation [of "generation e"] by (simp add: slot_freed_def)

lemma used_step:
  assumes "table_wf t" "generations_upto k t" "k < 2 ^ 48 - 1" "slot_of c < length (slots t)" "used t c"
  shows "used (table_step t x) c"
proof -
  let ?e = "slots t ! slot_of c" and ?e' = "slots (table_step t x) ! slot_of c"
  have k: "unat (generation ?e) \<le> k" using assms(2,4) by (simp add: generations_upto_def)
  from table_step_slot [OF assms(1), of "slot_of c" x] show ?thesis
  proof
    assume "slot_kept ?e ?e'"
    then show ?thesis using assms(5) by (auto simp: used_def slot_kept_def Let_def)
  next
    assume "slot_freed ?e ?e'"
    then have "unat (generation ?e') = unat (generation ?e) + 1"
      using freed_generation k assms(3) by blast
    then show ?thesis using assms(5) by (auto simp: used_def Let_def)
  qed
qed

lemma generations_step:
  assumes "table_wf t" "generations_upto k t" "k < 2 ^ 48 - 1"
  shows "generations_upto (Suc k) (table_step t x)"
  unfolding generations_upto_def length_table_step [OF assms(1)]
proof (intro allI impI)
  fix i assume "i < length (slots t)"
  then have k: "unat (generation (slots t ! i)) \<le> k" using assms(2) by (simp add: generations_upto_def)
  from table_step_slot [OF assms(1), of i x]
  show "unat (generation (slots (table_step t x) ! i)) \<le> Suc k"
    using freed_generation [OF _ k assms(3)] k by (auto simp: slot_kept_def)
qed

lemma issued_unused:
  assumes "table_wf t" "issued t x = Some c"
  shows "slot_of c < length (slots t) \<and> \<not> used t c \<and> used (table_step t x) c"
proof -
  obtain r where x: "x = Insert r" using assms(2) by (cases x) auto
  obtain t' where ins: "table_insert t r = (Some c, t')"
    using assms(2) x by (cases "table_insert t r") auto
  then show ?thesis
  proof (cases rule: table_insert_cases)
    case (taken i b e)
    note i = position_SomeD [OF taken(1)]
    have i16: "i < 65536" using i assms(1) by (auto simp: table_wf_def)
    have "unat (generation e) < 2 ^ 48"
      using table_wf_nth [OF assms(1)] i taken(2) by (auto simp: entry_wf_def)
    then have "slot_of c = i" "drop_bit 16 c = generation e"
      using taken(3) slot_of_pack [OF i16] gen_of_pack [OF i16] by auto
    then show ?thesis using i taken(2,4) x ins by (auto simp: used_def Let_def)
  qed simp
qed

fun issues :: "table \<Rightarrow> wake_op call_op list \<Rightarrow> correlation list" where
  "issues t [] = []"
| "issues t (x # ops) =
     (case issued t x of Some c \<Rightarrow> [c] | None \<Rightarrow> []) @ issues (table_step t x) ops"

lemma issues_fresh:
  assumes "table_wf t" "generations_upto k t" "k + length ops < 2 ^ 48"
  shows "distinct (issues t ops) \<and>
    (\<forall>c \<in> set (issues t ops). slot_of c < length (slots t) \<and> \<not> used t c)"
  using assms
proof (induction ops arbitrary: t k)
  case (Cons x ops)
  have k: "k < 2 ^ 48 - 1" using Cons.prems(3) by simp
  note len = length_table_step [OF Cons.prems(1), of x]
  have IH: "distinct (issues (table_step t x) ops) \<and>
      (\<forall>c \<in> set (issues (table_step t x) ops). slot_of c < length (slots t) \<and> \<not> used (table_step t x) c)"
    using Cons.IH [OF table_step_wf [OF Cons.prems(1), of x] generations_step [OF Cons.prems(1,2) k, of x]]
      Cons.prems(3) unfolding len by simp
  then have "\<forall>c \<in> set (issues (table_step t x) ops). slot_of c < length (slots t) \<and> \<not> used t c"
    using used_step [OF Cons.prems(1,2) k] by blast
  then show ?case
    using IH issued_unused [OF Cons.prems(1)] by (auto split: option.split)
qed simp

text \<open>Whether an operation names the call whose outcome waker is stored.\<close>

fun addresses :: "wake_op call_op \<Rightarrow> correlation \<Rightarrow> bool" where
  "addresses (Settle d _) c \<longleftrightarrow> d = c"
| "addresses (Forget d) c \<longleftrightarrow> d = c"
| "addresses (Aux (WakeOn d _)) c \<longleftrightarrow> d = c"
| "addresses _ c \<longleftrightarrow> False"

text \<open>The call of \<open>c\<close> sits in slot \<open>i\<close> of both tables, with the same status and outcome waker.\<close>

definition same_call :: "correlation \<Rightarrow> nat \<Rightarrow> table \<Rightarrow> table \<Rightarrow> bool" where
  "same_call c i t t' \<longleftrightarrow>
     held t' c = Some i \<and> state (slots t' ! i) = state (slots t ! i) \<and>
     waker (slots t' ! i) = waker (slots t ! i)"

lemma held_put_other:
  assumes "held t c = Some i" "j \<noteq> i"
  shows "held ((put_entry t j e)\<lparr>budget := b\<rparr>) c = Some i" "held (put_entry t j e) c = Some i"
proof -
  have "slot_of c = i" using assms(1) heldD by blast
  with assms show "held ((put_entry t j e)\<lparr>budget := b\<rparr>) c = Some i" "held (put_entry t j e) c = Some i"
    by (simp_all add: held_def Let_def split: if_splits)
qed

lemma same_call_put_other:
  "held t c = Some i \<Longrightarrow> j \<noteq> i \<Longrightarrow> same_call c i t ((put_entry t j e)\<lparr>budget := b\<rparr>)"
  "held t c = Some i \<Longrightarrow> j \<noteq> i \<Longrightarrow> same_call c i t (put_entry t j e)"
  by (simp_all add: same_call_def held_put_other)

lemma same_call_reclaim_other:
  "held t c = Some i \<Longrightarrow> j \<noteq> i \<Longrightarrow> same_call c i t (reclaim t j)"
  by (simp add: reclaim_def Let_def same_call_put_other)

lemma same_call_put_streams:
  assumes "held t c = Some i"
  shows "same_call c i t (put_entry t j ((slots t ! j)\<lparr>streams := cells\<rparr>))"
proof (cases "j = i")
  case True
  then show ?thesis
    by (simp add: same_call_def held_put_entry [OF assms] assms held_bound [OF assms] held_occupied [OF assms])
qed (rule same_call_put_other(2) [OF assms])

lemma same_call_refl: "held t c = Some i \<Longrightarrow> same_call c i t t"
  by (simp add: same_call_def)

lemma same_call_step:
  assumes "held t c = Some i" "\<not> addresses x c"
  shows "same_call c i t (table_step t x)"
proof -
  have other: "j \<noteq> i" if "held t d = Some j" "d \<noteq> c" for d j
    using that assms(1) held_inj by blast
  show ?thesis
  proof (cases x)
    case (Insert r)
    obtain res t' where ins: "table_insert t r = (res, t')" by fastforce
    then show ?thesis
    proof (cases rule: table_insert_cases)
      case (taken j b e)
      then have "j \<noteq> i" using position_SomeD [OF taken(1)] heldD [OF assms(1)] by auto
      with taken Insert ins assms(1) show ?thesis by (simp add: same_call_put_other)
    qed (use Insert ins assms(1) in \<open>simp add: same_call_refl\<close>)
  next
    case (Settle d out)
    with assms other [of d] show ?thesis
      by (auto simp: settle_def Let_def same_call_refl same_call_put_other same_call_reclaim_other
          split: option.split call_state.split bool.split)
  next
    case (Forget d)
    with assms other [of d] show ?thesis
      by (auto simp: forget_def Let_def same_call_refl same_call_put_other same_call_reclaim_other
          split: option.split call_state.split bool.split)
  next
    case (Aux y)
    show ?thesis
    proof (cases y)
      case (WakeOn d w)
      with Aux assms other [of d] show ?thesis
        by (auto simp: wake_on_def Let_def same_call_refl same_call_put_other
            split: option.split call_state.split bool.split prod.split)
    qed (use Aux assms(1) in \<open>auto simp: wake_on_stream_def take_stream_def take_streams_def Let_def
        same_call_refl same_call_put_streams split: option.split prod.split\<close>)
  qed
qed

lemma same_call_run:
  assumes "held t c = Some i" "\<forall>x \<in> set ops. \<not> addresses x c"
  shows "same_call c i t (table_run t ops)"
  using assms
proof (induction ops arbitrary: t)
  case (Cons x ops)
  then have "same_call c i t (table_step t x)" by (simp add: same_call_step)
  with Cons show ?case by (auto simp: same_call_def)
qed (simp add: same_call_refl)

section \<open>Properties\<close>

text \<open>
  C14: the table refines a map from correlations to calls. Every operation keeps the invariant and
  acts on the calls held as the corresponding operation on the map: a send adds a correlation
  the table did not hold, a settlement records an outcome or ends a forgotten call, a release
  ends a settled call or marks one in flight, and the waker operations change no call.
\<close>

theorem table_step_refines:
  assumes "table_wf t"
  shows "table_wf (table_step t x) \<and>
    calls (table_step t x) = calls_step (calls t) x (issued t x) \<and>
    (\<forall>c. issued t x = Some c \<longrightarrow> calls t c = None)"
proof (cases x)
  case (Insert r)
  obtain res t' where "table_insert t r = (res, t')" by fastforce
  with Insert assms table_insert_Some [OF assms, of r _ t'] table_insert_None [of t r t']
  show ?thesis by (cases res) auto
next
  case (Settle c out)
  obtain a t' where "settle t c out = (a, t')" by fastforce
  with Settle settle_law [OF assms, of c out a t'] show ?thesis
    by (auto split: option.splits call_state.splits bool.splits)
next
  case (Forget c)
  obtain a t' where "forget t c = (a, t')" by fastforce
  with Forget forget_law [OF assms, of c a t'] show ?thesis
    by (auto split: option.splits call_state.splits bool.splits)
next
  case (Aux y)
  with wake_step_law [OF assms] show ?thesis by simp
qed

theorem table_step_refines_witness:
  "calls (table_step (table_new 2 (Some 10)) (Insert 4)) = [0 \<mapsto> InFlight False]"
proof -
  have "issued (table_new 2 (Some 10)) (Insert 4) = Some 0"
    by (simp add: table_insert_def table_new_def entry_FREE_def checked_sub_u64_def Let_def
        replicate_2)
  then show ?thesis
    using table_step_refines [OF table_wf_new, of 2 "Some 10" "Insert 4"]
    by (simp add: calls_new del: issued.simps table_step.simps)
qed

text \<open>
  C15: the first settlement of a call is its outcome; a later one answers \<open>Unknown\<close> and changes
  nothing.
\<close>

theorem first_settlement_is_outcome:
  assumes "table_wf t" and "settle t c out = (Recorded w, t1)"
  shows "outcome_of t1 c = Some out \<and> settle t1 c out2 = (SettledUnknown, t1)"
  using assms by (rule tbl.first_settlement_wins)

theorem first_settlement_is_outcome_witness:
  "outcome_of (snd (settle (snd (table_insert (table_new 1 None) 0)) 0 (Inr ()))) 0 = Some (Inr ())"
proof -
  let ?t = "snd (table_insert (table_new 1 None) 0)"
  have s: "settle ?t 0 (Inr ()) = (Recorded None, snd (settle ?t 0 (Inr ())))"
    by (simp add: table_insert_def table_new_def entry_FREE_def Let_def settle_def held_def slot_of_def)
  have w: "table_wf ?t"
    using tbl.step_inv [of "table_new 1 None" "Insert 0"] table_wf_new [of 1 None] by simp
  show ?thesis using first_settlement_is_outcome [OF w s] by blast
qed

text \<open>
  C16: a recorded outcome stays readable, whatever other operations the runtime makes on the table
  (sends that reuse other slots, settlements, releases of other calls, wakers), until the call
  itself is forgotten.
\<close>

theorem outcome_readable_until_forget:
  assumes "table_wf t" and "outcome_of t c = Some out" and "Forget c \<notin> set ops"
  shows "outcome_of (table_run t ops) c = Some out"
  using tbl.outcome_stable [OF assms] by (simp add: tbl_run_eq)

theorem outcome_readable_until_forget_witness:
  "outcome_of (table_run (table_run (table_new 2 None) [Insert 0, Settle 0 (Inr ())])
     [Insert 7, Forget 1, Settle 0 (Inl (CallTransport Busy))]) 0 = Some (Inr ())"
proof -
  let ?t = "table_run (table_new 2 None) [Insert 0, Settle 0 (Inr ())]"
  have w: "table_wf ?t" by (intro table_run_wf table_wf_new) simp
  have o: "outcome_of ?t 0 = Some (Inr ())"
    by (simp add: table_insert_def table_new_def entry_FREE_def Let_def settle_def held_def
        slot_of_def outcome_of_def replicate_2)
  show ?thesis by (rule outcome_readable_until_forget [OF w o]) simp
qed

text \<open>
  C17: the byte budget is conserved. Whatever a runtime does, the bytes free plus the reservations
  of the calls held are the budget the table was built with, so no reservation leaks and none
  is credited twice.
\<close>

theorem budget_conserved:
  assumes "n \<le> 65536"
  shows "budget_balanced (unat b) (table_run (table_new n (Some b)) ops)"
proof -
  have "budget_balanced (unat b) (table_new n (Some b))"
    by (simp add: budget_balanced_def table_new_def debited_def entry_FREE_def sum_list_replicate)
  moreover have "table_wf t \<Longrightarrow> budget_balanced (unat b) t \<Longrightarrow> budget_balanced (unat b) (table_run t ops)"
    for t
  proof (induction ops arbitrary: t)
    case (Cons x ops)
    then show ?case
      using balanced_step [OF _ unat_bound_u64 [of b], of t x] table_step_wf [of t x] by simp
  qed simp
  ultimately show ?thesis using table_wf_new [OF assms] by blast
qed

theorem budget_conserved_witness:
  "budget_balanced 10 (table_run (table_new 2 (Some 10)) [Insert 4, Insert 9, Settle 0 (Inr ()), Forget 0])"
  using budget_conserved [of 2 10 "[Insert 4, Insert 9, Settle 0 (Inr ()), Forget 0]"] by simp

text \<open>
  C18: no correlation is issued twice. A new table that makes fewer than \<open>2^48\<close> operations, the
  range of a generation, never returns from \<open>insert\<close> a correlation it returned before, so a
  stale correlation never names a later call.
\<close>

theorem correlations_never_reissued:
  assumes "n \<le> 65536" and "length ops < 2 ^ 48"
  shows "distinct (issues (table_new n b) ops)"
proof -
  have "generations_upto 0 (table_new n b)"
    by (simp add: generations_upto_def table_new_def entry_FREE_def)
  then show ?thesis using issues_fresh [OF table_wf_new [OF assms(1)], of 0 b ops] assms(2) by simp
qed

theorem correlations_never_reissued_witness:
  "distinct (issues (table_new 1 None) [Insert 0, Settle 0 (Inr ()), Forget 0, Insert 0])"
  by (rule correlations_never_reissued) simp_all

text \<open>
  No outcome waiter is left asleep. A waker registered for a call in flight is kept through
  every operation that does not name the call, and the settlement or the release that ends the
  wait hands it back.
\<close>

lemma outcome_waker_handed_back:
  assumes "calls t c = Some (InFlight False)"
    and "wake_on t c w = (woken, t1)"
    and "\<forall>x \<in> set ops. \<not> addresses x c"
  shows "fst (settle (table_run t1 ops) c out) = Recorded (Some w) \<and>
         fst (forget (table_run t1 ops) c) = Marked (Some w)"
proof -
  obtain i where i: "held t c = Some i" "state (slots t ! i) = InFlight False"
    using assms(1) by (auto simp: calls_def)
  let ?e = "(slots t ! i)\<lparr>waker := Some w\<rparr>"
  have t1: "t1 = put_entry t i ?e"
    using assms(2) i by (simp add: wake_on_def store_def Let_def)
  have h: "held t1 c = Some i" "waker (slots t1 ! i) = Some w" "state (slots t1 ! i) = InFlight False"
    using i held_bound [OF i(1)] by (simp_all add: t1 held_put_entry [OF i(1)])
  from same_call_run [OF h(1) assms(3)] h(2,3) show ?thesis
    by (simp add: same_call_def settle_def forget_def Let_def)
qed

text \<open>
  a stream waiter is stored or handed back. On a call that still has streams, a registration
  that is not handed back is the one \<open>take_stream\<close> returns; it is handed back unstored only when
  all four cells belong to other streams.
\<close>

lemma stream_waker_taken:
  assumes "table_wf t" and "calls t c = Some st" and "st \<noteq> InFlight True"
    and "wake_on_stream t c s w = (woken, t1)"
  shows "fst (take_stream t1 c s) = Some w \<or>
    (woken = Some w \<and> t1 = t \<and> (\<exists>i. held t c = Some i \<and>
       s \<notin> set (cell_nos (streams (slots t ! i))) \<and> length (cell_nos (streams (slots t ! i))) = 4))"
proof -
  obtain i where i: "held t c = Some i" "state (slots t ! i) = st"
    using assms(2) by (auto simp: calls_def)
  note h = heldD [OF i(1)]
  have wf: "entry_wf (slots t ! i)" using table_wf_nth [OF assms(1)] h by simp
  obtain bk cells where st: "store_stream (streams (slots t ! i)) s w = (bk, cells)" by fastforce
  let ?e = "(slots t ! i)\<lparr>streams := cells\<rparr>"
  have t1: "woken = bk" "t1 = put_entry t i ?e"
    using assms(3,4) i h st by (auto simp: wake_on_stream_def Let_def)
  have held1: "held t1 c = Some i" "streams (slots t1 ! i) = cells"
    using i held_bound [OF i(1)] held_occupied [OF i(1)] by (simp_all add: t1 held_put_entry [OF i(1)])
  note law = store_stream_law [OF _ st]
  show ?thesis
  proof (cases "(\<exists>cell \<in> set (streams (slots t ! i)). cell_of s cell) \<or> None \<in> set (streams (slots t ! i))")
    case True
    then obtain j where "position (cell_of s) cells = Some j" "cells ! j = Some (s, w)"
      using law wf by (auto simp: entry_wf_def)
    then show ?thesis using held1 by (simp add: take_stream_def Let_def)
  next
    case False
    then have "bk = Some w" "cells = streams (slots t ! i)" using law wf by (auto simp: entry_wf_def)
    moreover have "s \<notin> set (cell_nos (streams (slots t ! i)))"
      using False by (force simp: cell_nos_def List.map_filter_def cell_of_def)
    moreover have "length (cell_nos (streams (slots t ! i))) = 4"
    proof -
      have "filter (\<lambda>x. x \<noteq> None) (streams (slots t ! i)) = streams (slots t ! i)"
        using False by (intro filter_True) metis
      then show ?thesis
        using wf by (simp add: cell_nos_def List.map_filter_def entry_wf_def STREAM_WAKERS_def)
    qed
    ultimately show ?thesis using t1 i by (auto simp: put_entry_same)
  qed
qed

end
