(* ===== verification/Rt_Proto3.thy ===== *)
theory Rt_Proto3
  imports Prelude Rt_Contract
begin

unbundle bit_operations_syntax

text \<open>
  The proto3 codec of \<open>crates/ridl-rt/src/proto3.rs\<close>: varints and zigzag, the \<open>Reader\<close> that
  walks the fields of a message and the \<open>Writer\<close> that fills a caller's slice. The lemmas show
  that a varint takes the length the size bound counts and is read back from any buffer, that
  zigzag is a bijection, that the reader moves on with every field and stays in the message,
  and that the writer is an append to a byte list cut at the end of its slice.
\<close>

section \<open>Model\<close>

datatype wire_type = W_Varint | W_I64 | W_Len | W_I32

text \<open>\<open>wire as u8\<close>: the discriminants of the \<open>repr(u8)\<close> enum.\<close>

fun wire_code :: "wire_type \<Rightarrow> u8" where
  "wire_code W_Varint = 0"
| "wire_code W_I64 = 1"
| "wire_code W_Len = 2"
| "wire_code W_I32 = 5"

definition from_tag :: "u64 \<Rightarrow> wire_type option" where
  "from_tag tag =
     (let t = tag AND 0x7 in
      if t = 0 then Some W_Varint
      else if t = 1 then Some W_I64
      else if t = 2 then Some W_Len
      else if t = 5 then Some W_I32
      else None)"

definition MAX_VARINT_LEN :: nat where "MAX_VARINT_LEN = 10"

definition varint_len :: "u64 \<Rightarrow> nat" where
  "varint_len v = (let bits = 64 - leading_zeros (v OR 1) in div_ceil bits 7)"

definition tag_len :: "u32 \<Rightarrow> nat" where
  "tag_len number = varint_len (push_bit 3 (ucast number))"

definition zigzag32 :: "i32 \<Rightarrow> u32" where
  "zigzag32 v = push_bit 1 v XOR signed_drop_bit 31 v"

definition zigzag64 :: "i64 \<Rightarrow> u64" where
  "zigzag64 v = push_bit 1 v XOR signed_drop_bit 63 v"

definition unzigzag32 :: "u32 \<Rightarrow> i32" where
  "unzigzag32 v = drop_bit 1 v XOR - (v AND 1)"

definition unzigzag64 :: "u64 \<Rightarrow> i64" where
  "unzigzag64 v = drop_bit 1 v XOR - (v AND 1)"

definition check_capacity :: "nat \<Rightarrow> bytes \<Rightarrow> encode_error + unit" where
  "check_capacity n out = (if n > length out then Inl (Capacity n (length out)) else Inr ())"

text \<open>The loop of \<open>read_varint\<close> at byte \<open>index\<close>; the new position comes with the value.\<close>

function read_varint_from :: "bytes \<Rightarrow> nat \<Rightarrow> nat \<Rightarrow> u64 \<Rightarrow> malformed + (u64 \<times> nat)" where
  "read_varint_from buf at index value =
     (case checked_add_usize at index of
        None \<Rightarrow> Inl OutOfBounds
      | Some i \<Rightarrow>
          if i < length buf then
            (let byte = buf ! i in
             if index = MAX_VARINT_LEN - 1 then
               (if byte > 1 then Inl Varint
                else Inr (value OR push_bit (7 * index) (ucast byte), at + MAX_VARINT_LEN))
             else
               (let value' = value OR push_bit (7 * index) (ucast (byte AND 0x7f)) in
                if byte AND 0x80 = 0 then Inr (value', at + (index + 1))
                else read_varint_from buf at (index + 1) value'))
          else Inl OutOfBounds)"
  by pat_completeness auto
termination
  by (relation "measure (\<lambda>(buf, at, index, _). length buf - (at + index))")
    (auto simp: checked_add_usize_def split: if_splits)

definition read_varint :: "bytes \<Rightarrow> nat \<Rightarrow> malformed + (u64 \<times> nat)" where
  "read_varint buf at = read_varint_from buf at 0 0"

definition narrow_u32 :: "u64 \<Rightarrow> malformed + u32" where
  "narrow_u32 v = (if unat v < 2 ^ 32 then Inr (ucast v) else Inl Varint)"

definition narrow_i32 :: "u64 \<Rightarrow> malformed + i32" where
  "narrow_i32 v =
     (if - (2 ^ 31) \<le> sint v \<and> sint v < 2 ^ 31 then Inr (ucast v) else Inl Varint)"

definition unzigzag32_checked :: "u64 \<Rightarrow> malformed + i32" where
  "unzigzag32_checked v = rbind (narrow_u32 v) (\<lambda>u. Inr (unzigzag32 u))"

definition utf8 :: "bytes \<Rightarrow> malformed + bytes" where
  "utf8 b = (if utf8_valid b then Inr b else Inl Utf8)"

datatype pvalue = V_Varint u64 | V_I64 u64 | V_Len bytes | V_I32 u32

record field =
  f_number :: u32
  f_value :: pvalue

record reader =
  r_buf :: bytes
  r_at :: nat

definition reader_new :: "bytes \<Rightarrow> reader" where
  "reader_new buf = \<lparr>r_buf = buf, r_at = 0\<rparr>"

text \<open>\<open>Reader::take\<close>.\<close>

definition reader_take :: "bytes \<Rightarrow> nat \<Rightarrow> nat \<Rightarrow> malformed + (bytes \<times> nat)" where
  "reader_take buf at len =
     rbind (ok_or OutOfBounds (slice buf at len)) (\<lambda>b. Inr (b, at + len))"

text \<open>
  \<open>read_field\<close>, from the position \<open>at\<close>. The position after an error is not returned:
  \<open>next\<close>, its only caller, then moves to the end of the message.
\<close>

definition read_field :: "bytes \<Rightarrow> nat \<Rightarrow> malformed + (field \<times> nat)" where
  "read_field buf at =
     rbind (read_varint buf at) (\<lambda>(raw, at).
     rbind (narrow_u32 raw) (\<lambda>tag.
       let number = drop_bit 3 tag in
       rbind (ok_or WireType (from_tag (ucast tag))) (\<lambda>wire.
       if number = 0 then Inl WireType
       else rbind
         (case wire of
            W_Varint \<Rightarrow> rbind (read_varint buf at) (\<lambda>(v, at). Inr (V_Varint v, at))
          | W_I64 \<Rightarrow> rbind (reader_take buf at 8) (\<lambda>(b, at). Inr (V_I64 (le_word b), at))
          | W_Len \<Rightarrow> rbind (read_varint buf at) (\<lambda>(len, at).
                     rbind (reader_take buf at (unat len)) (\<lambda>(b, at). Inr (V_Len b, at)))
          | W_I32 \<Rightarrow> rbind (reader_take buf at 4) (\<lambda>(b, at). Inr (V_I32 (le_word b), at)))
         (\<lambda>(value, at). Inr (\<lparr>f_number = number, f_value = value\<rparr>, at)))))"

definition next_field :: "reader \<Rightarrow> (malformed + field) option \<times> reader" where
  "next_field r =
     (if length (r_buf r) \<le> r_at r then (None, r)
      else (case read_field (r_buf r) (r_at r) of
              Inl e \<Rightarrow> (Some (Inl e), r\<lparr>r_at := length (r_buf r)\<rparr>)
            | Inr (f, at) \<Rightarrow> (Some (Inr f), r\<lparr>r_at := at\<rparr>)))"

record writer =
  w_out :: bytes
  w_used :: nat
  w_needed :: nat

definition writer_new :: "bytes \<Rightarrow> writer" where
  "writer_new out = \<lparr>w_out = out, w_used = 0, w_needed = 0\<rparr>"

definition writer_push :: "writer \<Rightarrow> bytes \<Rightarrow> writer" where
  "writer_push w b =
     (let room = length (w_out w) - w_used w;
          fits = (if length b < room then length b else room)
      in w\<lparr>w_needed := saturating_add_usize (w_needed w) (length b),
           w_out := put_at (w_out w) (w_used w) (take fits b),
           w_used := w_used w + fits\<rparr>)"

lemma unat_drop_bit_7: "unat (drop_bit 7 v) = unat (v :: u64) div 128"
  by (simp add: unat_div drop_bit_eq_div)

lemma unat_drop_bit_7_less:
  assumes "drop_bit 7 v \<noteq> 0"
  shows "unat (drop_bit 7 v) < unat (v :: u64)"
proof -
  have "unat v \<noteq> 0" using assms by (metis drop_bit_of_0 unat_eq_zero)
  then show ?thesis by (simp add: unat_drop_bit_7)
qed

function writer_varint :: "writer \<Rightarrow> u64 \<Rightarrow> writer" where
  "writer_varint w v =
     (let byte = ucast (v AND 0x7f) :: u8; v' = drop_bit 7 v in
      if v' = 0 then writer_push w [byte]
      else writer_varint (writer_push w [byte OR 0x80]) v')"
  by pat_completeness auto
termination
  by (relation "measure (\<lambda>(_, v). unat v)") (simp_all add: unat_drop_bit_7_less)

definition writer_tag :: "writer \<Rightarrow> u32 \<Rightarrow> wire_type \<Rightarrow> writer" where
  "writer_tag w number wire =
     writer_varint w (push_bit 3 (ucast number) OR ucast (wire_code wire))"

definition writer_fixed32 :: "writer \<Rightarrow> u32 \<Rightarrow> writer" where
  "writer_fixed32 w v = writer_push w (le_bytes 4 v)"

definition writer_fixed64 :: "writer \<Rightarrow> u64 \<Rightarrow> writer" where
  "writer_fixed64 w v = writer_push w (le_bytes 8 v)"

definition writer_bytes :: "writer \<Rightarrow> bytes \<Rightarrow> writer" where
  "writer_bytes w b = writer_push w b"

definition writer_finish :: "writer \<Rightarrow> encode_error + bytes" where
  "writer_finish w =
     (if w_needed w > length (w_out w) then Inl (Capacity (w_needed w) (length (w_out w)))
      else Inr (take (w_used w) (w_out w)))"

declare read_varint_from.simps [simp del] writer_varint.simps [simp del]

section \<open>Varints\<close>

text \<open>The varint of a value as a byte list: what the writer appends.\<close>

function varint_bytes :: "u64 \<Rightarrow> bytes" where
  "varint_bytes v =
     (if drop_bit 7 v = 0 then [ucast (v AND 0x7f)]
      else (ucast (v AND 0x7f) OR 0x80) # varint_bytes (drop_bit 7 v))"
  by pat_completeness auto
termination
  by (relation "measure unat") (simp_all add: unat_drop_bit_7_less)

declare varint_bytes.simps [simp del]

lemma varint_bytes_nonempty: "varint_bytes v \<noteq> []"
  by (simp add: varint_bytes.simps)

lemma length_varint_bytes_bounds:
  "unat v < 2 ^ (7 * length (varint_bytes v)) \<and>
   (1 < length (varint_bytes v) \<longrightarrow> 2 ^ (7 * (length (varint_bytes v) - 1)) \<le> unat v)"
proof (induction v rule: varint_bytes.induct)
  case (1 v)
  show ?case
  proof (cases "drop_bit 7 v = 0")
    case True
    then have "unat v div 128 = 0" using unat_drop_bit_7 [of v] by simp
    with True show ?thesis by (simp add: varint_bytes.simps [of v])
  next
    case False
    let ?l = "length (varint_bytes (drop_bit 7 v))"
    obtain l where l: "?l = Suc l" using varint_bytes_nonempty by (cases ?l) auto
    have len: "length (varint_bytes v) = Suc ?l" using False by (simp add: varint_bytes.simps [of v])
    have ih: "unat v div 128 < 2 ^ (7 * ?l)" "1 < ?l \<longrightarrow> 2 ^ (7 * (?l - 1)) \<le> unat v div 128"
      using 1 [OF False] by (simp_all add: unat_drop_bit_7)
    have pos: "1 \<le> unat v div 128" using False unat_drop_bit_7 [of v]
      by (metis One_nat_def Suc_leI neq0_conv unat_eq_zero)
    have "2 ^ (7 * l) \<le> unat v div 128" using ih(2) pos by (cases l) (simp_all add: l)
    then have "2 ^ (7 * l) * 128 \<le> unat v" by (simp add: less_eq_div_iff_mult_less_eq)
    moreover have "unat v < 2 ^ (7 * ?l) * 128" using ih(1) by (simp add: less_mult_imp_div_less div_less_iff_less_mult)
    ultimately show ?thesis unfolding len l by (simp add: power_add power_mult mult.commute)
  qed
qed

lemma varint_len_eq: "varint_len v = length (varint_bytes v)"
proof -
  let ?n = "length (varint_bytes v)" and ?w = "v OR 1 :: u64"
  define k where "k = 64 - leading_zeros ?w"
  have "unat ?w = unat v OR 1" by (simp only: unsigned_or_eq unsigned_1)
  then have w: "unat ?w = (if even (unat v) then Suc (unat v) else unat v)"
    by (simp only: or_one_eq) simp
  then have "unat ?w \<noteq> 0" by (metis even_zero nat.simps(3))
  then have "?w \<noteq> 0" by (metis unat_0)
  from leading_zeros_bounds [OF this]
  have k: "0 < k" "2 ^ (k - 1) \<le> unat ?w" "unat ?w < 2 ^ k" by (simp_all add: k_def)
  have n: "unat v < 2 ^ (7 * ?n)" "1 < ?n \<longrightarrow> 2 ^ (7 * (?n - 1)) \<le> unat v" "0 < ?n"
    using length_varint_bytes_bounds [of v] varint_bytes_nonempty [of v] by auto
  have "even ((2::nat) ^ (7 * ?n))" using n(3) by simp
  then have "unat ?w < 2 ^ (7 * ?n)" using n(1) w
    by (metis Suc_lessI even_Suc)
  then have "k - 1 < 7 * ?n" using k(2) by (metis le_less_trans nat_power_less_imp_less zero_less_numeral)
  moreover have "7 * (?n - 1) < k"
  proof (cases "1 < ?n")
    case True
    then have "2 ^ (7 * (?n - 1)) \<le> unat v" "unat v \<le> unat ?w" using n(2) w by auto
    then have "2 ^ (7 * (?n - 1)) < (2::nat) ^ k" using k(3) by linarith
    then show ?thesis by (metis nat_power_less_imp_less zero_less_numeral)
  qed (use k n in simp)
  ultimately have "div_ceil k 7 = ?n" using k(1) n(3) by (simp add: div_ceil_def)
  then show ?thesis by (simp add: varint_len_def k_def Let_def)
qed

lemma varint_len_bounds: "1 \<le> varint_len v" "varint_len v \<le> 10"
proof -
  show "1 \<le> varint_len v" using varint_bytes_nonempty [of v] by (simp add: varint_len_eq Suc_leI)
  show "varint_len v \<le> 10"
  proof (rule ccontr)
    assume "\<not> varint_len v \<le> 10"
    then have "70 \<le> 7 * (length (varint_bytes v) - 1)" "1 < length (varint_bytes v)"
      by (simp_all add: varint_len_eq)
    then have "2 ^ 70 \<le> unat v"
      using length_varint_bytes_bounds [of v] power_increasing [of 70 _ "2::nat"] by (meson le_trans one_le_numeral)
    then show False using unat_bound_u64 [of v] by simp
  qed
qed

lemma low_seven_bits:
  "(0x7f :: u8) = mask 7" "(0x80 :: u8) = NOT (mask 7)" "(0x7f :: u64) = mask 7"
  by (simp_all add: mask_eq_exp_minus_1)

lemma varint_split:
  "push_bit n (ucast (ucast (v AND 0x7f) :: u8)) OR push_bit (n + 7) (drop_bit 7 v) = push_bit n (v :: u64)"
  unfolding low_seven_bits
proof (rule bit_word_eqI)
  fix i assume "i < LENGTH(64)"
  then show "bit (push_bit n (ucast (ucast (v AND mask 7) :: u8)) OR push_bit (n + 7) (drop_bit 7 v)) i =
      bit (push_bit n v) i"
    by (cases "n + 7 \<le> i") (auto simp: bit_simps)
qed

lemma low_byte_simps:
  "(ucast (v AND 0x7f) :: u8) AND 0x7f = ucast (v AND 0x7f :: u64)"
  "(ucast (v AND 0x7f) :: u8) AND 0x80 = 0"
  "((ucast (v AND 0x7f) :: u8) OR 0x80) AND 0x7f = ucast (v AND 0x7f)"
  "((ucast (v AND 0x7f) :: u8) OR 0x80) AND 0x80 \<noteq> 0"
proof -
  show "(ucast (v AND 0x7f) :: u8) AND 0x7f = ucast (v AND 0x7f :: u64)"
    "(ucast (v AND 0x7f) :: u8) AND 0x80 = 0"
    "((ucast (v AND 0x7f) :: u8) OR 0x80) AND 0x7f = ucast (v AND 0x7f)"
    unfolding low_seven_bits by (rule bit_word_eqI; auto simp: bit_simps)+
  have "((ucast (v AND 0x7f) :: u8) OR 0x80) AND 0x80 = 0x80"
    unfolding low_seven_bits by (rule bit_word_eqI; auto simp: bit_simps)
  then show "((ucast (v AND 0x7f) :: u8) OR 0x80) AND 0x80 \<noteq> 0" by simp
qed

lemma read_varint_from_enc:
  assumes "drop (at + index) buf = varint_bytes v @ post" "at + index \<le> length buf"
    "length buf \<le> usize_max" "index \<le> 9" "unat v < 2 ^ (64 - 7 * index)"
  shows "read_varint_from buf at index val =
    Inr (val OR push_bit (7 * index) v, at + index + length (varint_bytes v))"
  using assms
proof (induction v arbitrary: index val rule: varint_bytes.induct)
  case (1 v)
  let ?i = "at + index"
  have i: "?i < length buf" using 1(2) varint_bytes_nonempty [of v]
    by (metis append_is_Nil_conv drop_eq_Nil not_le)
  have add: "checked_add_usize at index = Some ?i" using i 1(4) by (simp add: checked_add_usize_def)
  have byte: "buf ! ?i = hd (varint_bytes v)"
    using i 1(2) varint_bytes_nonempty [of v] by (metis hd_append2 hd_drop_conv_nth)
  show ?case
  proof (cases "index = 9")
    case True
    with 1(6) have v: "unat v < 2" by simp
    then have d: "drop_bit 7 v = 0" using unat_drop_bit_7 [of v] by (simp add: unat_eq_zero)
    have "unat v = 0 \<or> unat v = 1" using v by linarith
    then have "v = 0 \<or> v = 1" by (simp add: word_eq_iff_unsigned [where 'a = nat])
    then show ?thesis
      using i add byte d True
      by (auto simp: read_varint_from.simps MAX_VARINT_LEN_def varint_bytes.simps [of v])
  next
    case False
    then have idx: "index \<noteq> MAX_VARINT_LEN - 1" by (simp add: MAX_VARINT_LEN_def)
    show ?thesis
    proof (cases "drop_bit 7 v = 0")
      case True
      then show ?thesis
        using i add byte idx varint_split [of "7 * index" v]
        by (simp add: read_varint_from.simps varint_bytes.simps [of v] low_byte_simps Let_def)
    next
      case more: False
      have "drop (at + (index + 1)) buf = tl (drop (at + index) buf)" by (simp add: drop_Suc tl_drop)
      also have "\<dots> = varint_bytes (drop_bit 7 v) @ post"
        using 1(2) more by (simp add: varint_bytes.simps [of v])
      finally have "drop (at + (index + 1)) buf = varint_bytes (drop_bit 7 v) @ post" .
      moreover have "unat (drop_bit 7 v) < 2 ^ (64 - 7 * (index + 1))"
      proof -
        have "(2::nat) ^ (64 - 7 * index) = 2 ^ (64 - 7 * (index + 1)) * 2 ^ 7"
          unfolding power_add [symmetric] using False 1(5) by (intro arg_cong [where f = "power 2"]) simp
        then show ?thesis using 1(6) by (simp add: unat_drop_bit_7 div_less_iff_less_mult)
      qed
      ultimately have "read_varint_from buf at (index + 1) (val OR push_bit (7 * index) (ucast (ucast (v AND 0x7f) :: u8))) =
        Inr ((val OR push_bit (7 * index) (ucast (ucast (v AND 0x7f) :: u8))) OR push_bit (7 * (index + 1)) (drop_bit 7 v),
          at + (index + 1) + length (varint_bytes (drop_bit 7 v)))"
        using 1(1) [OF more] i False 1(4,5) by simp
      moreover have "buf ! ?i AND 0x80 \<noteq> 0" "buf ! ?i AND 0x7f = ucast (v AND 0x7f)"
        using byte more low_byte_simps [of v] by (simp_all add: varint_bytes.simps [of v])
      ultimately show ?thesis
        using i add idx more varint_split [of "7 * index" v]
        by (simp add: read_varint_from.simps [of buf at index] varint_bytes.simps [of v]
            Let_def or.assoc add.commute)
    qed
  qed
qed

lemma read_varint_enc:
  assumes "length (pre @ varint_bytes v @ post) \<le> usize_max"
  shows "read_varint (pre @ varint_bytes v @ post) (length pre) =
    Inr (v, length pre + length (varint_bytes v))"
  unfolding read_varint_def
  by (subst read_varint_from_enc) (use assms unat_bound_u64 [of v] in auto)

interpretation vi: self_delimiting varint_bytes read_varint "\<lambda>_. True"
  by unfold_locales (use read_varint_enc varint_bytes_nonempty in auto)

text \<open>What any successful read consumed: never more than ten bytes, never fewer than the value takes.\<close>

lemma read_varint_from_sound:
  assumes "read_varint_from buf at index val = Inr (v, at')" "index \<le> 9" "unat val < 2 ^ (7 * index)"
  shows "at + index < at' \<and> at' \<le> length buf \<and> at' \<le> at + 10 \<and> unat v < 2 ^ (7 * (at' - at))"
  using assms
proof (induction buf at index val rule: read_varint_from.induct)
  case (1 buf at index val)
  have or_bound: "unat (val OR push_bit (7 * index) (ucast b)) < 2 ^ (7 * (index + 1))"
    if "unat b < 2 ^ 7" for b :: u8
    using that 1(4) unfolding unat_less_exp_iff_bits by (auto simp: bit_simps)
  have low: "unat (b AND 0x7f :: u8) < 2 ^ 7" for b
    unfolding unat_less_exp_iff_bits low_seven_bits by (simp add: bit_simps)
  show ?case
  proof (cases "checked_add_usize at index")
    case None
    with 1(2) show ?thesis by (simp add: read_varint_from.simps)
  next
    case (Some i)
    then have i: "i = at + index" by (simp add: checked_add_usize_def split: if_splits)
    have len: "at + index < length buf"
      using 1(2) Some i by (simp add: read_varint_from.simps split: if_splits)
    consider (last) "index = 9" | (stop) "index \<noteq> 9" "buf ! i AND 0x80 = 0"
      | (more) "index \<noteq> 9" "buf ! i AND 0x80 \<noteq> 0" by blast
    then show ?thesis
    proof cases
      case last
      then have "\<not> 1 < buf ! i" "v = val OR push_bit (7 * index) (ucast (buf ! i))" "at' = at + 10"
        using 1(2) Some i len by (auto simp: read_varint_from.simps MAX_VARINT_LEN_def Let_def split: if_splits)
      moreover from this have "unat (buf ! i) < 2 ^ 7" by (simp add: word_less_nat_alt)
      ultimately show ?thesis using or_bound [of "buf ! i"] last len by simp
    next
      case stop
      then have "v = val OR push_bit (7 * index) (ucast (buf ! i AND 0x7f))" "at' = at + (index + 1)"
        using 1(2) Some i len by (simp_all add: read_varint_from.simps MAX_VARINT_LEN_def Let_def)
      then show ?thesis using or_bound [OF low] len 1(3) by simp
    next
      case more
      then have "read_varint_from buf at (index + 1) (val OR push_bit (7 * index) (ucast (buf ! i AND 0x7f))) =
          Inr (v, at')"
        using 1(2) Some i len by (simp add: read_varint_from.simps [of buf at index] MAX_VARINT_LEN_def Let_def)
      from 1(1) [OF Some _ refl _ refl _ this] show ?thesis
        using more i len 1(3) or_bound [OF low, of "buf ! i"] by (simp add: MAX_VARINT_LEN_def)
    qed
  qed
qed

lemma read_varint_sound:
  assumes "read_varint buf at = Inr (v, at')"
  shows "at < at'" "at' \<le> length buf" "at' \<le> at + 10" "varint_len v \<le> at' - at"
proof -
  have r: "at < at' \<and> at' \<le> length buf \<and> at' \<le> at + 10 \<and> unat v < 2 ^ (7 * (at' - at))"
    using read_varint_from_sound [of buf at 0 0 v at'] assms by (simp add: read_varint_def)
  then show "at < at'" "at' \<le> length buf" "at' \<le> at + 10" by simp_all
  show "varint_len v \<le> at' - at"
  proof (cases "1 < varint_len v")
    case True
    then have "2 ^ (7 * (varint_len v - 1)) \<le> unat v"
      using length_varint_bytes_bounds [of v] by (simp add: varint_len_eq)
    also have "\<dots> < 2 ^ (7 * (at' - at))" using r by blast
    finally show ?thesis by simp
  qed (use r in linarith)
qed

section \<open>Zigzag\<close>

lemma and_one_neg: "- (v AND 1) = (if bit v 0 then - 1 else 0 :: 'a::len word)"
  by (simp add: and_one_eq mod2_eq_if bit_0)

lemma bit_zigzag32: "i < 32 \<Longrightarrow> bit (zigzag32 v) i = ((0 < i \<and> bit v (i - 1)) \<noteq> bit v 31)"
  unfolding zigzag32_def bit_xor_iff bit_push_bit_iff bit_signed_drop_bit_iff
  by (cases i) auto

lemma bit_unzigzag32: "i < 32 \<Longrightarrow> bit (unzigzag32 v) i = (bit v (i + 1) \<noteq> bit v 0)"
  by (auto simp: unzigzag32_def bit_simps and_one_neg)

lemma bit_zigzag64: "i < 64 \<Longrightarrow> bit (zigzag64 v) i = ((0 < i \<and> bit v (i - 1)) \<noteq> bit v 63)"
  unfolding zigzag64_def bit_xor_iff bit_push_bit_iff bit_signed_drop_bit_iff
  by (cases i) auto

lemma bit_unzigzag64: "i < 64 \<Longrightarrow> bit (unzigzag64 v) i = (bit v (i + 1) \<noteq> bit v 0)"
  by (auto simp: unzigzag64_def bit_simps and_one_neg)

lemma unzigzag_zigzag: "unzigzag32 (zigzag32 v) = v" "unzigzag64 (zigzag64 w) = w"
proof -
  show "unzigzag32 (zigzag32 v) = v"
  proof (rule bit_word_eqI)
    fix i assume "i < LENGTH(32)"
    then show "bit (unzigzag32 (zigzag32 v)) i = bit v i"
      by (cases "i = 31") (auto simp: bit_unzigzag32 bit_zigzag32 dest: bit_imp_le_length)
  qed
  show "unzigzag64 (zigzag64 w) = w"
  proof (rule bit_word_eqI)
    fix i assume "i < LENGTH(64)"
    then show "bit (unzigzag64 (zigzag64 w)) i = bit w i"
      by (cases "i = 63") (auto simp: bit_unzigzag64 bit_zigzag64 dest: bit_imp_le_length)
  qed
qed

lemma zigzag_unzigzag: "zigzag32 (unzigzag32 u) = u" "zigzag64 (unzigzag64 x) = x"
proof -
  show "zigzag32 (unzigzag32 u) = u"
  proof (rule bit_word_eqI)
    fix i assume "i < LENGTH(32)"
    then show "bit (zigzag32 (unzigzag32 u)) i = bit u i"
      by (cases i) (auto simp: bit_unzigzag32 bit_zigzag32 dest: bit_imp_le_length)
  qed
  show "zigzag64 (unzigzag64 x) = x"
  proof (rule bit_word_eqI)
    fix i assume "i < LENGTH(64)"
    then show "bit (zigzag64 (unzigzag64 x)) i = bit x i"
      by (cases i) (auto simp: bit_unzigzag64 bit_zigzag64 dest: bit_imp_le_length)
  qed
qed

section \<open>Fields\<close>

fun value_wire :: "pvalue \<Rightarrow> wire_type" where
  "value_wire (V_Varint v) = W_Varint"
| "value_wire (V_I64 v) = W_I64"
| "value_wire (V_Len b) = W_Len"
| "value_wire (V_I32 v) = W_I32"

text \<open>The writes of a generated encoder for one field, and the bytes each write asks for.\<close>

datatype write_op = WTag u32 wire_type | WVarint u64 | WFixed32 u32 | WFixed64 u64 | WBytes bytes

fun op_bytes :: "write_op \<Rightarrow> bytes" where
  "op_bytes (WTag n w) = varint_bytes (push_bit 3 (ucast n) OR ucast (wire_code w))"
| "op_bytes (WVarint v) = varint_bytes v"
| "op_bytes (WFixed32 v) = le_bytes 4 v"
| "op_bytes (WFixed64 v) = le_bytes 8 v"
| "op_bytes (WBytes b) = b"

fun writer_step :: "writer \<Rightarrow> write_op \<Rightarrow> writer" where
  "writer_step w (WTag n t) = writer_tag w n t"
| "writer_step w (WVarint v) = writer_varint w v"
| "writer_step w (WFixed32 v) = writer_fixed32 w v"
| "writer_step w (WFixed64 v) = writer_fixed64 w v"
| "writer_step w (WBytes b) = writer_bytes w b"

fun value_ops :: "pvalue \<Rightarrow> write_op list" where
  "value_ops (V_Varint v) = [WVarint v]"
| "value_ops (V_I64 v) = [WFixed64 v]"
| "value_ops (V_Len b) = [WVarint (of_nat (length b)), WBytes b]"
| "value_ops (V_I32 v) = [WFixed32 v]"

definition field_ops :: "field \<Rightarrow> write_op list" where
  "field_ops f = WTag (f_number f) (value_wire (f_value f)) # value_ops (f_value f)"

definition field_bytes :: "field \<Rightarrow> bytes" where
  "field_bytes f = concat (map op_bytes (field_ops f))"

text \<open>A field number has 29 bits, and a length fits \<open>usize\<close>.\<close>

definition field_valid :: "field \<Rightarrow> bool" where
  "field_valid f \<longleftrightarrow> f_number f \<noteq> 0 \<and> unat (f_number f) < 2 ^ 29"

lemma tag_split:
  fixes n :: u32 and w :: wire_type
  assumes "unat n < 2 ^ 29"
  defines "raw \<equiv> push_bit 3 (ucast n) OR ucast (wire_code w) :: u64"
  shows "narrow_u32 raw = Inr (ucast raw)" "drop_bit 3 (ucast raw :: u32) = n"
    "from_tag (ucast (ucast raw :: u32)) = Some w"
proof -
  have code: "bit (wire_code w) i \<Longrightarrow> i < 3" for i
    using unat_less_exp_iff_bits [of "wire_code w" 3] by (cases w) simp_all
  have n: "bit n i \<Longrightarrow> i < 29" for i
    using assms(1) unat_less_exp_iff_bits [of n 29] by blast
  have "unat raw < 2 ^ 32"
    unfolding unat_less_exp_iff_bits raw_def using n code by (fastforce simp: bit_simps)
  then show "narrow_u32 raw = Inr (ucast raw)" by (simp add: narrow_u32_def)
  show "drop_bit 3 (ucast raw :: u32) = n"
    by (rule bit_word_eqI) (use n code in \<open>fastforce simp: raw_def bit_simps\<close>)
  have "(ucast (ucast raw :: u32) :: u64) AND mask 3 = ucast (wire_code w)"
    by (rule bit_word_eqI) (use code in \<open>fastforce simp: raw_def bit_simps\<close>)
  then have "(ucast (ucast raw :: u32) :: u64) AND 7 = ucast (wire_code w)"
    by (simp add: mask_eq_exp_minus_1)
  then show "from_tag (ucast (ucast raw :: u32)) = Some w"
    by (cases w) (simp_all add: from_tag_def Let_def)
qed

lemma read_field_enc:
  assumes "field_valid f" "length (pre @ field_bytes f @ post) \<le> usize_max"
  shows "read_field (pre @ field_bytes f @ post) (length pre) = Inr (f, length pre + length (field_bytes f))"
proof -
  obtain n val where f: "f = \<lparr>f_number = n, f_value = val\<rparr>" by (cases f)
  define raw where "raw = (push_bit 3 (ucast n) OR ucast (wire_code (value_wire val)) :: u64)"
  define tag where "tag = varint_bytes raw"
  define body where "body = concat (map op_bytes (value_ops val))"
  have fb: "field_bytes f = tag @ body"
    by (simp add: field_bytes_def field_ops_def f tag_def body_def raw_def)
  let ?buf = "pre @ tag @ body @ post" and ?at = "length pre + length tag"
  have n: "n \<noteq> 0" "unat n < 2 ^ 29" using assms(1) by (simp_all add: field_valid_def f)
  note tg = tag_split [OF n(2), of "value_wire val", folded raw_def]
  have len: "length ?buf \<le> usize_max" using assms(2) by (simp add: fb)
  have t: "read_varint ?buf (length pre) = Inr (raw, ?at)"
    using read_varint_enc [of pre raw "body @ post"] len by (simp add: tag_def)
  have sl: "slice ?buf ?at (length b) = Some b" if "body = b" for b
    using slice_append [of "pre @ tag" b post] that by simp
  have vi: "read_varint ?buf ?at = Inr (v, ?at + length (varint_bytes v))" if "body = varint_bytes v @ rest" for v rest
    using read_varint_enc [of "pre @ tag" v "rest @ post"] len that by simp
  have "read_field ?buf (length pre) = Inr (f, ?at + length body)"
  proof (cases val)
    case (V_Varint v)
    with vi [of v "[]"] t tg n show ?thesis
      by (simp add: read_field_def f body_def Let_def)
  next
    case (V_I64 v)
    with sl [of "le_bytes 8 v"] t tg n show ?thesis
      by (simp add: read_field_def f body_def Let_def reader_take_def)
  next
    case (V_I32 v)
    with sl [of "le_bytes 4 v"] t tg n show ?thesis
      by (simp add: read_field_def f body_def Let_def reader_take_def)
  next
    case (V_Len b)
    let ?l = "varint_bytes (of_nat (length b))"
    have bd: "body = ?l @ b" by (simp add: body_def V_Len)
    have "length b < 2 ^ 64" using len bd by simp
    then have u: "unat (of_nat (length b) :: u64) = length b" by (simp add: unat_of_nat_u64)
    have "slice ?buf (?at + length ?l) (length b) = Some b"
      using slice_append [of "pre @ tag @ ?l" b post] bd by (simp add: add.assoc)
    with V_Len vi [OF bd] t tg n u bd show ?thesis
      by (simp add: read_field_def f Let_def reader_take_def)
  qed
  then show ?thesis by (simp add: fb)
qed

lemma field_bytes_nonempty: "field_bytes f \<noteq> []"
  by (simp add: field_bytes_def field_ops_def varint_bytes_nonempty)

interpretation fld: self_delimiting field_bytes read_field field_valid
  by unfold_locales (fact read_field_enc, rule field_bytes_nonempty)

lemma read_varint_advance:
  "read_varint buf at = Inr (v, at') \<Longrightarrow> at < at' \<and> at' \<le> length buf"
  using read_varint_sound(1,2) by blast

text \<open>Every field read moves the position on, and never past the end of the message.\<close>

lemma reader_take_sound:
  "reader_take buf at len = Inr (b, at') \<Longrightarrow>
     at' = at + len \<and> at' \<le> length buf \<and> slice buf at len = Some b \<and> length b = len"
  using length_slice by (fastforce simp: reader_take_def result_iff)

lemma read_field_sound:
  assumes "read_field buf at = Inr (f, at')"
  shows "at < at' \<and> at' \<le> length buf \<and> f_number f \<noteq> 0 \<and>
    (\<forall>b. f_value f = V_Len b \<longrightarrow> slice buf (at' - length b) (length b) = Some b)"
proof -
  obtain raw at1 where t: "read_varint buf at = Inr (raw, at1)"
    using assms by (auto simp: read_field_def result_iff)
  note at1 = read_varint_advance [OF t]
  from assms t show ?thesis
    using at1
    by (auto simp: read_field_def result_iff Let_def split: if_splits wire_type.splits
        dest!: reader_take_sound read_varint_advance)
qed

text \<open>The loop of a generated \<open>decode\<close>: \<open>next\<close> until the end of the message or the first fault.\<close>

function read_all :: "reader \<Rightarrow> malformed + field list" where
  "read_all r =
     (case next_field r of
        (None, _) \<Rightarrow> Inr []
      | (Some (Inl e), _) \<Rightarrow> Inl e
      | (Some (Inr f), r') \<Rightarrow> rbind (read_all r') (\<lambda>fs. Inr (f # fs)))"
  by pat_completeness auto
termination
  by (relation "measure (\<lambda>r. length (r_buf r) - r_at r)")
    (auto simp: next_field_def split: if_splits sum.splits dest!: read_field_sound)

declare read_all.simps [simp del]

lemma read_all_run:
  "length (r_buf r) - r_at r < n \<Longrightarrow> read_all r = fld.rd_run n (r_buf r) (r_at r)"
proof (induction n arbitrary: r)
  case (Suc n)
  show ?case
  proof (cases "length (r_buf r) \<le> r_at r \<or> (\<exists>e. read_field (r_buf r) (r_at r) = Inl e)")
    case True
    then show ?thesis by (auto simp: read_all.simps [of r] next_field_def)
  next
    case False
    then obtain f at where f: "read_field (r_buf r) (r_at r) = Inr (f, at)"
      by (metis prod.collapse sum.exhaust)
    have "read_all (r\<lparr>r_at := at\<rparr>) = fld.rd_run n (r_buf r) at"
      using Suc.IH [of "r\<lparr>r_at := at\<rparr>"] Suc.prems read_field_sound [OF f] by fastforce
    then show ?thesis using False f by (simp add: read_all.simps [of r] next_field_def)
  qed
qed simp

lemma length_fields: "length fs \<le> length (concat (map field_bytes fs))"
proof (induction fs)
  case (Cons f fs)
  then show ?case using field_bytes_nonempty [of f] by (cases "field_bytes f") auto
qed simp

lemma read_all_fields:
  assumes "\<forall>f \<in> set fs. field_valid f" "length (concat (map field_bytes fs)) \<le> usize_max"
  shows "read_all (reader_new (concat (map field_bytes fs))) = Inr fs"
  using fld.rd_run_concat [OF assms(1), of "Suc (length (concat (map field_bytes fs)))" "[]"]
    read_all_run [of "reader_new (concat (map field_bytes fs))" "Suc (length (concat (map field_bytes fs)))"]
    assms(2) length_fields [of fs]
  by (simp add: reader_new_def)

section \<open>The writer as an append\<close>

text \<open>
  \<open>written out asked w\<close>: the writer over the slice \<open>out\<close> was asked for the bytes \<open>asked\<close> in all,
  and holds as many of them as fit, in front of what the slice held.
\<close>

definition written :: "bytes \<Rightarrow> bytes \<Rightarrow> writer \<Rightarrow> bool" where
  "written out asked w \<longleftrightarrow>
     w_out w = take (length out) asked @ drop (length asked) out \<and>
     w_used w = min (length asked) (length out) \<and>
     w_needed w = min (length asked) usize_max"

lemma written_new: "written out [] (writer_new out)"
  by (simp add: written_def writer_new_def)

lemma written_push:
  assumes "written out asked w"
  shows "written out (asked @ b) (writer_push w b)"
proof (cases "length asked \<le> length out")
  case True
  define fits where "fits = (if length b < length out - length asked then length b else length out - length asked)"
  have w: "w_out w = asked @ drop (length asked) out" "w_used w = length asked"
    "w_needed w = min (length asked) usize_max"
    using assms True by (simp_all add: written_def)
  have "put_at (w_out w) (w_used w) (take fits b) =
      take (length out) (asked @ b) @ drop (length (asked @ b)) out"
    using True by (auto simp: w put_at_def fits_def add.commute)
  then show ?thesis using True w
    by (auto simp: written_def writer_push_def Let_def fits_def saturating_add_usize_def min_def)
next
  case False
  then show ?thesis using assms
    by (auto simp: written_def writer_push_def Let_def put_at_def saturating_add_usize_def min_def)
qed

lemma written_varint:
  "written out asked w \<Longrightarrow> written out (asked @ varint_bytes v) (writer_varint w v)"
proof (induction v arbitrary: asked w rule: varint_bytes.induct)
  case (1 v)
  show ?case
  proof (cases "drop_bit 7 v = 0")
    case True
    then show ?thesis
      using written_push [OF "1.prems"] by (simp add: writer_varint.simps [of w v] varint_bytes.simps [of v])
  next
    case False
    then show ?thesis
      using "1.IH" [OF False written_push [OF "1.prems", of "[ucast (v AND 0x7f) OR 0x80]"]]
      by (simp add: writer_varint.simps [of w v] varint_bytes.simps [of v] Let_def)
  qed
qed

lemma written_step: "written out asked w \<Longrightarrow> written out (asked @ op_bytes x) (writer_step w x)"
  by (cases x) (simp_all add: writer_tag_def writer_fixed32_def writer_fixed64_def writer_bytes_def
      written_push written_varint)

lemma written_run:
  "written out asked w \<Longrightarrow>
     written out (asked @ concat (map op_bytes ops)) (fold (\<lambda>x w. writer_step w x) ops w)"
proof (induction ops arbitrary: asked w)
  case (Cons x ops)
  then show ?case using Cons.IH [OF written_step [OF Cons.prems, of x]] by simp
qed simp

lemma written_finish:
  assumes "written out asked w" "length out < usize_max"
  shows "writer_finish w =
    (if length asked \<le> length out then Inr asked
     else Inl (Capacity (min (length asked) usize_max) (length out)))"
  using assms by (auto simp: written_def writer_finish_def min_def)

lemma concat_field_bytes: "concat (map op_bytes (concat (map field_ops fs))) = concat (map field_bytes fs)"
  by (induction fs) (simp_all add: field_bytes_def)

section \<open>Properties\<close>

text \<open>
  A varint takes exactly the bytes \<open>varint_len\<close> counts, between one and ten, and
  \<open>read_varint\<close> reads the value back from any place in any buffer.
\<close>

lemma varint_roundtrip:
  assumes "length (pre @ varint_bytes v @ post) \<le> usize_max"
  shows "read_varint (pre @ varint_bytes v @ post) (length pre) = Inr (v, length pre + varint_len v) \<and>
    length (varint_bytes v) = varint_len v \<and> 1 \<le> varint_len v \<and> varint_len v \<le> 10"
  using vi.rd_enc [OF _ assms] varint_len_bounds [of v] by (simp add: varint_len_eq)

text \<open>
  what \<open>read_varint\<close> accepts is in bounds: the position moves past at least as many bytes as
  the value needs, at most ten, and stays in the buffer.
\<close>

lemma read_varint_bounds:
  assumes "read_varint buf at = Inr (v, at')"
  shows "at + varint_len v \<le> at' \<and> at' \<le> at + 10 \<and> at' \<le> length buf"
  using read_varint_sound [OF assms] by linarith

text \<open>
  zigzag is a bijection between the signed and the unsigned integers of either width.
\<close>

lemma zigzag_bijection:
  "bij zigzag32 \<and> inv zigzag32 = unzigzag32 \<and> bij zigzag64 \<and> inv zigzag64 = unzigzag64"
proof -
  have "bij zigzag32" "bij zigzag64"
    by (rule o_bij [of unzigzag32] o_bij [of unzigzag64];
        auto simp: fun_eq_iff unzigzag_zigzag zigzag_unzigzag)+
  moreover have "inv zigzag32 = unzigzag32" "inv zigzag64 = unzigzag64"
    by (rule inv_unique_comp; auto simp: fun_eq_iff unzigzag_zigzag zigzag_unzigzag)+
  ultimately show ?thesis by blast
qed

text \<open>
  The writer refuses exactly the messages that do not fit: after any sequence of writes,
  \<open>finish\<close> returns the bytes asked for, in order, when they fit the slice, and otherwise the
  capacity error with the total asked for.
\<close>

lemma writer_finish_exact:
  assumes "length out < usize_max"
  shows "writer_finish (fold (\<lambda>x w. writer_step w x) ops (writer_new out)) =
    (let asked = concat (map op_bytes ops) in
     if length asked \<le> length out then Inr asked
     else Inl (Capacity (min (length asked) usize_max) (length out)))"
  using written_finish [OF written_run [OF written_new, of out ops] assms] by (simp add: Let_def)

text \<open>
  C34: a message of fields is read back. The writes of a generated encoder into a slice with
  room, then the fields the reader hands back from the bytes written, are the fields encoded,
  in order, with no fault.
\<close>

theorem fields_roundtrip:
  assumes "\<forall>f \<in> set fs. field_valid f"
    and "length (concat (map field_bytes fs)) \<le> length out" "length out < usize_max"
  shows "\<exists>m. writer_finish (fold (\<lambda>x w. writer_step w x) (concat (map field_ops fs)) (writer_new out)) = Inr m \<and>
    read_all (reader_new m) = Inr fs"
  using written_finish [OF written_run [OF written_new, of out "concat (map field_ops fs)"] assms(3)]
    read_all_fields [OF assms(1)] assms(2,3) by (simp add: concat_field_bytes)

theorem fields_roundtrip_witness:
  "\<exists>m. writer_finish (fold (\<lambda>x w. writer_step w x)
      (concat (map field_ops [\<lparr>f_number = 1, f_value = V_I32 7\<rparr>, \<lparr>f_number = 2, f_value = V_Len [1, 2]\<rparr>]))
      (writer_new (replicate 9 0))) = Inr m \<and>
    read_all (reader_new m) = Inr [\<lparr>f_number = 1, f_value = V_I32 7\<rparr>, \<lparr>f_number = 2, f_value = V_Len [1, 2]\<rparr>]"
  by (rule fields_roundtrip)
    (simp_all add: field_valid_def field_bytes_def field_ops_def varint_bytes.simps)

text \<open>
  The reader makes progress on every input: each call of \<open>next\<close> at a position in the message
  returns a field or a fault, moves the position on and never past the end, a fault ends the
  walk, and the bytes of a length-delimited value are a slice of the message.
\<close>

lemma next_progress:
  assumes "r_at r < length (r_buf r)" "next_field r = (res, r')"
  shows "r_buf r' = r_buf r \<and> r_at r < r_at r' \<and> r_at r' \<le> length (r_buf r) \<and>
    ((\<exists>e. res = Some (Inl e)) \<and> next_field r' = (None, r') \<or>
     (\<exists>f. res = Some (Inr f) \<and> f_number f \<noteq> 0 \<and>
        (\<forall>b. f_value f = V_Len b \<longrightarrow> slice (r_buf r) (r_at r' - length b) (length b) = Some b)))"
proof (cases "read_field (r_buf r) (r_at r)")
  case (Inl e)
  then show ?thesis using assms by (auto simp: next_field_def)
next
  case (Inr x)
  then obtain f at where f: "read_field (r_buf r) (r_at r) = Inr (f, at)" by (cases x) auto
  then show ?thesis using assms read_field_sound [OF f] by (auto simp: next_field_def)
qed

end
