(* ===== verification/Rt_Podbuf.thy ===== *)
theory Rt_Podbuf
  imports Rt_Contract
begin

text \<open>
  The podbuf codec's shared reading and writing (\<open>crates/ridl-rt/src/podbuf.rs\<close>). The address
  of a slice matters to podbuf, so a function that reads \<open>as_ptr()\<close> takes it as an argument, and
  a writer keeps the address of its output. A signed or a floating load has the bits of the
  unsigned one of its width. The writer is that of a release build: a store outside the written
  bytes is dropped and remembered, and \<open>finish\<close> reports it (a debug build panics at the store).
\<close>

section \<open>Reading\<close>

definition PREAMBLE_SIZE :: nat where "PREAMBLE_SIZE = 8"

definition BUFFER_ALIGN :: nat where "BUFFER_ALIGN = 8"

record region =
  rg_buf :: bytes
  rg_start :: nat
  rg_size :: nat

definition region_new :: "bytes \<Rightarrow> nat \<Rightarrow> nat \<Rightarrow> region" where
  "region_new buf start sz = \<lparr>rg_buf = buf, rg_start = start, rg_size = sz\<rparr>"

definition region_u8_at :: "region \<Rightarrow> nat \<Rightarrow> u8" where
  "region_u8_at r off =
     (if off \<ge> rg_size r then 0
      else case checked_add_usize (rg_start r) off of
             Some at \<Rightarrow> if at < length (rg_buf r) then rg_buf r ! at else 0
           | None \<Rightarrow> 0)"

definition region_array :: "region \<Rightarrow> nat \<Rightarrow> nat \<Rightarrow> bytes" where
  "region_array r n off = map (\<lambda>i. region_u8_at r (saturating_add_usize off i)) [0..<n]"

definition region_u16_at :: "region \<Rightarrow> nat \<Rightarrow> u16" where
  "region_u16_at r off = le_word (region_array r 2 off)"

definition region_u32_at :: "region \<Rightarrow> nat \<Rightarrow> u32" where
  "region_u32_at r off = le_word (region_array r 4 off)"

definition region_u64_at :: "region \<Rightarrow> nat \<Rightarrow> u64" where
  "region_u64_at r off = le_word (region_array r 8 off)"

definition region_bytes_at :: "region \<Rightarrow> nat \<Rightarrow> nat \<Rightarrow> bytes" where
  "region_bytes_at r off n = map (\<lambda>i. region_u8_at r (saturating_add_usize off i)) [0..<n]"

definition preamble_read :: "nat \<Rightarrow> bytes \<Rightarrow> verify_error + u32" where
  "preamble_read addr buf =
     (if addr mod BUFFER_ALIGN \<noteq> 0 then Inl (Structure Unaligned)
      else let head_size = region_u32_at (region_new buf 0 (length buf)) 0 in
        if length buf < PREAMBLE_SIZE \<or> unat head_size mod 8 \<noteq> 0 then Inl (Structure Preamble)
        else case checked_add_usize PREAMBLE_SIZE (unat head_size) of
               Some stop \<Rightarrow> if stop \<le> length buf then Inr head_size else Inl (Structure Preamble)
             | None \<Rightarrow> Inl (Structure Preamble))"

record desc =
  ds_off :: u32
  ds_len :: u32

definition desc_read :: "region \<Rightarrow> nat \<Rightarrow> desc" where
  "desc_read r at = \<lparr>ds_off = region_u32_at r at, ds_len = region_u32_at r (saturating_add_usize at 4)\<rparr>"

definition desc_is_zero :: "desc \<Rightarrow> bool" where
  "desc_is_zero d \<longleftrightarrow> ds_off d = 0 \<and> ds_len d = 0"

record array_desc =
  ad_off :: u32
  ad_len :: u16
  ad_elem_size :: u16

definition array_desc_read :: "region \<Rightarrow> nat \<Rightarrow> array_desc" where
  "array_desc_read r at =
     \<lparr>ad_off = region_u32_at r at, ad_len = region_u16_at r (saturating_add_usize at 4),
      ad_elem_size = region_u16_at r (saturating_add_usize at 6)\<rparr>"

definition array_desc_is_zero :: "array_desc \<Rightarrow> bool" where
  "array_desc_is_zero d \<longleftrightarrow> ad_off d = 0 \<and> ad_len d = 0 \<and> ad_elem_size d = 0"

definition tail_range :: "u32 \<Rightarrow> u64 \<Rightarrow> nat \<Rightarrow> nat \<Rightarrow> nat \<Rightarrow> verify_error + (nat \<times> nat)" where
  "tail_range off n buf_len min_off align =
     (let start = unat off in
      if start < min_off then Inl (Structure OutOfBounds)
      else if \<not> (start + unat n < 2 ^ 64 \<and> start + unat n \<le> usize_max \<and> start + unat n \<le> buf_len)
      then Inl (Structure OutOfBounds)
      else if start mod max align 1 \<noteq> 0 then Inl (Structure Unaligned)
      else Inr (start, start + unat n))"

definition pod_text :: "bytes \<Rightarrow> verify_error + bytes" where
  "pod_text bs =
     (if bs \<noteq> [] \<and> last bs = 0 \<and> 0 \<notin> set (butlast bs)
      then if utf8_valid (butlast bs) then Inr (butlast bs) else Inl (Structure Utf8)
      else Inl (Structure Terminator))"

definition scalar_count :: "bytes \<Rightarrow> nat" where
  "scalar_count s = chars_count s"

section \<open>Writing\<close>

record pod_writer =
  pw_addr :: nat
  pw_out :: bytes
  pw_len :: nat
  pw_defect :: "nat option"

definition pod_new :: "nat \<Rightarrow> bytes \<Rightarrow> pod_writer" where
  "pod_new addr out = \<lparr>pw_addr = addr, pw_out = out, pw_len = 0, pw_defect = None\<rparr>"

definition pod_reserve_head :: "pod_writer \<Rightarrow> u32 \<Rightarrow> encode_error + (nat \<times> pod_writer)" where
  "pod_reserve_head w sz =
     (if pw_addr w mod BUFFER_ALIGN \<noteq> 0 then Inl EncodeUnaligned
      else if unat sz mod 8 \<noteq> 0 then Inl (Layout (unat sz))
      else let stop = saturating_add_usize PREAMBLE_SIZE (unat sz) in
        if stop \<le> length (pw_out w) then
          Inr (PREAMBLE_SIZE,
               w\<lparr>pw_out := put_at (put_at (pw_out w) 0 (replicate stop 0)) 0 (le_bytes 4 sz),
                 pw_len := stop, pw_defect := None\<rparr>)
        else Inl (Capacity stop (length (pw_out w))))"

definition pod_tail :: "pod_writer \<Rightarrow> u64 \<Rightarrow> nat \<Rightarrow> encode_error + (nat \<times> pod_writer)" where
  "pod_tail w n align =
     (let a = max align 1;
          start = saturating_mul_usize (div_ceil (pw_len w) a) a;
          stop = min (start + unat n) usize_max in
      if pw_len w \<le> stop \<and> stop \<le> length (pw_out w) then
        Inr (start, w\<lparr>pw_out := put_at (pw_out w) (pw_len w) (replicate (stop - pw_len w) 0), pw_len := stop\<rparr>)
      else Inl (Capacity stop (length (pw_out w))))"

definition pod_store :: "pod_writer \<Rightarrow> nat \<Rightarrow> bytes \<Rightarrow> pod_writer" where
  "pod_store w at bs =
     (case checked_add_usize at (length bs) of
        Some stop \<Rightarrow>
          if stop \<le> pw_len w \<and> stop \<le> length (pw_out w) then w\<lparr>pw_out := put_at (pw_out w) at bs\<rparr>
          else w\<lparr>pw_defect := (case pw_defect w of None \<Rightarrow> Some at | Some d \<Rightarrow> Some d)\<rparr>
      | None \<Rightarrow> w\<lparr>pw_defect := (case pw_defect w of None \<Rightarrow> Some at | Some d \<Rightarrow> Some d)\<rparr>)"

definition pod_put_u8 :: "pod_writer \<Rightarrow> nat \<Rightarrow> u8 \<Rightarrow> pod_writer" where
  "pod_put_u8 w at v = pod_store w at [v]"

definition pod_put_bytes :: "pod_writer \<Rightarrow> nat \<Rightarrow> bytes \<Rightarrow> pod_writer" where
  "pod_put_bytes w at bs = pod_store w at bs"

definition pod_put_u16 :: "pod_writer \<Rightarrow> nat \<Rightarrow> u16 \<Rightarrow> pod_writer" where
  "pod_put_u16 w at v = pod_store w at (le_bytes 2 v)"

definition pod_put_u32 :: "pod_writer \<Rightarrow> nat \<Rightarrow> u32 \<Rightarrow> pod_writer" where
  "pod_put_u32 w at v = pod_store w at (le_bytes 4 v)"

definition pod_put_u64 :: "pod_writer \<Rightarrow> nat \<Rightarrow> u64 \<Rightarrow> pod_writer" where
  "pod_put_u64 w at v = pod_store w at (le_bytes 8 v)"

definition pod_put_desc :: "pod_writer \<Rightarrow> nat \<Rightarrow> desc \<Rightarrow> pod_writer" where
  "pod_put_desc w at d = pod_put_u32 (pod_put_u32 w at (ds_off d)) (saturating_add_usize at 4) (ds_len d)"

definition pod_put_array_desc :: "pod_writer \<Rightarrow> nat \<Rightarrow> array_desc \<Rightarrow> pod_writer" where
  "pod_put_array_desc w at d =
     pod_put_u16 (pod_put_u16 (pod_put_u32 w at (ad_off d)) (saturating_add_usize at 4) (ad_len d))
       (saturating_add_usize at 6) (ad_elem_size d)"

definition pod_finish :: "pod_writer \<Rightarrow> encode_error + bytes" where
  "pod_finish w =
     (case pw_defect w of
        Some at \<Rightarrow> Inl (Layout at)
      | None \<Rightarrow>
          if pw_len w < PREAMBLE_SIZE then Inl (Capacity PREAMBLE_SIZE (length (pw_out w)))
          else if pw_len w \<le> length (pw_out w) then Inr (take (pw_len w) (pw_out w))
          else Inl (Capacity (pw_len w) (length (pw_out w))))"

section \<open>A region is the producer's bytes with zeros after them\<close>

definition window :: "region \<Rightarrow> bytes" where
  "window r = take (rg_size r) (drop (rg_start r) (rg_buf r))"

lemma region_u8_window:
  assumes "length (rg_buf r) \<le> usize_max"
  shows "region_u8_at r off = (if off < length (window r) then window r ! off else 0)"
  using assms by (auto simp: region_u8_at_def window_def checked_add_usize_def)

lemma region_array_window:
  assumes "length (rg_buf r) \<le> usize_max"
  shows "region_array r n off = take n (drop off (window r) @ replicate n 0)"
proof (rule nth_equalityI)
  show "length (region_array r n off) = length (take n (drop off (window r) @ replicate n 0))"
    by (simp add: region_array_def)
next
  fix i assume "i < length (region_array r n off)"
  then have i: "i < n" by (simp add: region_array_def)
  have le: "length (window r) \<le> usize_max" using assms by (simp add: window_def)
  have "region_array r n off ! i = region_u8_at r (saturating_add_usize off i)" using i by (simp add: region_array_def)
  also have "\<dots> = (if off + i < length (window r) then window r ! (off + i) else 0)"
    using region_u8_window [OF assms] le by (auto simp: saturating_add_usize_def min_def)
  also have "\<dots> = take n (drop off (window r) @ replicate n 0) ! i"
    using i by (auto simp: nth_append)
  finally show "region_array r n off ! i = take n (drop off (window r) @ replicate n 0) ! i" .
qed

section \<open>The writer is a zeroed memory\<close>

text \<open>
  What a generated encoder does after it reserved the head: a sequence of stores and of tail blocks,
  which stops at the first block that does not fit.
\<close>

datatype pod_op = Pod_Store nat bytes | Pod_Tail u64 nat

fun pod_run :: "pod_writer \<Rightarrow> pod_op list \<Rightarrow> encode_error + pod_writer" where
  "pod_run w [] = Inr w"
| "pod_run w (Pod_Store at bs # ops) = pod_run (pod_store w at bs) ops"
| "pod_run w (Pod_Tail n align # ops) = rbind (pod_tail w n align) (\<lambda>(_, w1). pod_run w1 ops)"

text \<open>
  The specification: a length, a memory that is zero where nothing was stored, and the first store
  outside the length. A tail block starts at the least multiple of its alignment.
\<close>

definition overwrite :: "(nat \<Rightarrow> u8) \<Rightarrow> nat \<Rightarrow> bytes \<Rightarrow> nat \<Rightarrow> u8" where
  "overwrite mem at bs i = (if at \<le> i \<and> i < at + length bs then bs ! (i - at) else mem i)"

definition round_up :: "nat \<Rightarrow> nat \<Rightarrow> nat" where
  "round_up len align = (len + max align 1 - 1) div max align 1 * max align 1"

fun mem_run :: "nat \<Rightarrow> nat \<Rightarrow> (nat \<Rightarrow> u8) \<Rightarrow> nat option \<Rightarrow> pod_op list \<Rightarrow>
    encode_error + (nat \<times> (nat \<Rightarrow> u8) \<times> nat option)" where
  "mem_run av len mem df [] = Inr (len, mem, df)"
| "mem_run av len mem df (Pod_Store at bs # ops) =
     (if at + length bs \<le> len then mem_run av len (overwrite mem at bs) df ops
      else mem_run av len mem (if df = None then Some at else df) ops)"
| "mem_run av len mem df (Pod_Tail n align # ops) =
     (let stop = round_up len align + unat n in
      if stop \<le> av then mem_run av stop mem df ops else Inl (Capacity (min stop usize_max) av))"

definition mem_result :: "nat \<times> (nat \<Rightarrow> u8) \<times> nat option \<Rightarrow> encode_error + bytes" where
  "mem_result r = (case r of (len, mem, df) \<Rightarrow>
     (case df of Some at \<Rightarrow> Inl (Layout at) | None \<Rightarrow> Inr (map mem [0..<len])))"

definition holds_mem :: "pod_writer \<Rightarrow> nat \<Rightarrow> nat \<Rightarrow> (nat \<Rightarrow> u8) \<Rightarrow> nat option \<Rightarrow> bool" where
  "holds_mem w av len mem df \<longleftrightarrow> pw_len w = len \<and> pw_defect w = df \<and> length (pw_out w) = av \<and> len \<le> av \<and>
     PREAMBLE_SIZE \<le> len \<and> (\<forall>i < len. pw_out w ! i = mem i) \<and> (\<forall>i \<ge> len. mem i = 0)"

lemma round_up_ge: "len \<le> round_up len align"
proof -
  let ?a = "max align 1"
  have "(len + ?a - 1) mod ?a < ?a" by simp
  moreover have "(len + ?a - 1) div ?a * ?a + (len + ?a - 1) mod ?a = len + ?a - 1" by (rule div_mult_mod_eq)
  ultimately show ?thesis unfolding round_up_def by linarith
qed

lemma holds_finish: "holds_mem w av len mem df \<Longrightarrow> pod_finish w = mem_result (len, mem, df)"
  by (auto simp: holds_mem_def pod_finish_def mem_result_def intro!: nth_equalityI split: option.split)

lemma holds_store:
  assumes "holds_mem w av len mem df" "av < usize_max"
  shows "if at + length bs \<le> len then holds_mem (pod_store w at bs) av len (overwrite mem at bs) df
    else holds_mem (pod_store w at bs) av len mem (if df = None then Some at else df)"
proof (cases "at + length bs \<le> len")
  case True
  then show ?thesis
    using assms by (auto simp: holds_mem_def pod_store_def overwrite_def checked_add_usize_def nth_put_at)
next
  case False
  then show ?thesis
    using assms by (auto simp: holds_mem_def pod_store_def checked_add_usize_def split: option.split)
qed

lemma holds_tail:
  assumes h: "holds_mem w av len mem df" and av: "av < usize_max"
  shows "if round_up len align + unat n \<le> av
    then \<exists>w1. pod_tail w n align = Inr (round_up len align, w1) \<and> holds_mem w1 av (round_up len align + unat n) mem df
    else pod_tail w n align = Inl (Capacity (min (round_up len align + unat n) usize_max) av)"
proof -
  have start: "saturating_mul_usize (div_ceil (pw_len w) (max align 1)) (max align 1) = min (round_up len align) usize_max"
    using h by (simp add: saturating_mul_usize_def div_ceil_def round_up_def holds_mem_def)
  note ge = round_up_ge [of len align]
  show ?thesis
  proof (cases "round_up len align + unat n \<le> av")
    case True
    let ?stop = "round_up len align + unat n"
    let ?w = "w\<lparr>pw_out := put_at (pw_out w) len (replicate (?stop - len) 0), pw_len := ?stop\<rparr>"
    have "pod_tail w n align = Inr (round_up len align, ?w)"
      unfolding pod_tail_def Let_def start using True av ge h by (simp add: holds_mem_def)
    moreover have "holds_mem ?w av ?stop mem df"
      using h True ge by (auto simp: holds_mem_def nth_put_at)
    ultimately show ?thesis using True by auto
  next
    case False
    then show ?thesis
      unfolding pod_tail_def Let_def start using av h by (auto simp: holds_mem_def min_def)
  qed
qed

lemma pod_run_mem:
  "holds_mem w av len mem df \<Longrightarrow> av < usize_max \<Longrightarrow>
     rbind (pod_run w ops) pod_finish = rbind (mem_run av len mem df ops) mem_result"
proof (induction ops arbitrary: w len mem df)
  case Nil
  then show ?case by (simp add: holds_finish)
next
  case (Cons op ops)
  show ?case
  proof (cases op)
    case (Pod_Store at bs)
    then show ?thesis
      using holds_store [OF Cons.prems, of at bs] Cons.IH [OF _ Cons.prems(2)] by (auto split: if_splits)
  next
    case (Pod_Tail n align)
    then show ?thesis
      using holds_tail [OF Cons.prems, of align n] Cons.IH [OF _ Cons.prems(2)] by (auto simp: Let_def split: if_splits)
  qed
qed

lemma holds_reserve:
  assumes "pod_reserve_head (pod_new addr out) sz = Inr (at0, w0)"
  shows "holds_mem w0 (length out) (PREAMBLE_SIZE + unat sz) (overwrite (\<lambda>_. 0) 0 (le_bytes 4 sz)) None"
proof -
  have "unat sz < 2 ^ 32" by (rule unat_bound_u32)
  then have "saturating_add_usize PREAMBLE_SIZE (unat sz) = PREAMBLE_SIZE + unat sz"
    by (simp add: saturating_add_usize_def PREAMBLE_SIZE_def)
  then have len: "PREAMBLE_SIZE + unat sz \<le> length out"
    and w0: "w0 = (pod_new addr out)\<lparr>pw_out := put_at (put_at out 0 (replicate (PREAMBLE_SIZE + unat sz) 0)) 0 (le_bytes 4 sz),
        pw_len := PREAMBLE_SIZE + unat sz, pw_defect := None\<rparr>"
    using assms by (auto simp: pod_reserve_head_def Let_def pod_new_def split: if_splits)
  then show ?thesis
    by (auto simp: holds_mem_def overwrite_def nth_put_at PREAMBLE_SIZE_def)
qed

text \<open>
  C24: Whatever bytes the output slice held, and whatever stores and tail blocks an encoder issues
  after it reserved the head, the buffer \<open>finish\<close> returns is a zeroed memory with the stores applied
  in order: the same for every slice of that length. A store outside the bytes written is never
  returned as data: the first one is reported as the layout defect. A block that does not fit is
  the capacity error with the total asked for.
\<close>

theorem pod_writer_memory:
  assumes "pod_reserve_head (pod_new addr out) sz = Inr (at0, w0)" "length out < usize_max"
  shows "rbind (pod_run w0 ops) pod_finish =
    rbind (mem_run (length out) (PREAMBLE_SIZE + unat sz) (overwrite (\<lambda>_. 0) 0 (le_bytes 4 sz)) None ops) mem_result"
  by (rule pod_run_mem [OF holds_reserve [OF assms(1)] assms(2)])

theorem pod_writer_memory_witness:
  "\<exists>w0. pod_reserve_head (pod_new 0 (replicate 24 7)) 8 = Inr (8, w0) \<and>
     rbind (pod_run w0 [Pod_Store 8 [1, 2], Pod_Tail 3 4, Pod_Store 17 [5]]) pod_finish =
       Inr [8, 0, 0, 0, 0, 0, 0, 0, 1, 2, 0, 0, 0, 0, 0, 0, 0, 5, 0]"
proof -
  let ?ops = "[Pod_Store 8 [1, 2], Pod_Tail 3 4, Pod_Store 17 [5]]"
  obtain w0 where w0: "pod_reserve_head (pod_new 0 (replicate 24 7)) 8 = Inr (8, w0)"
    by (simp add: pod_reserve_head_def pod_new_def BUFFER_ALIGN_def PREAMBLE_SIZE_def saturating_add_usize_def Let_def)
  have "length (replicate 24 (7 :: u8)) < usize_max" "PREAMBLE_SIZE + unat (8 :: u32) = 16"
    by (simp_all add: PREAMBLE_SIZE_def)
  from pod_writer_memory [OF w0 this(1), of ?ops] this(2) have "rbind (pod_run w0 ?ops) pod_finish =
      rbind (mem_run 24 16 (overwrite (\<lambda>_. 0) 0 (le_bytes 4 (8 :: u32))) None ?ops) mem_result"
    by (simp only: length_replicate)
  also have "\<dots> = Inr [8, 0, 0, 0, 0, 0, 0, 0, 1, 2, 0, 0, 0, 0, 0, 0, 0, 5, 0]"
    by code_simp
  finally show ?thesis using w0 by blast
qed


section \<open>What is stored is read back\<close>

definition apart :: "nat \<Rightarrow> nat \<Rightarrow> pod_op \<Rightarrow> bool" where
  "apart at n op \<longleftrightarrow> (case op of Pod_Store a bs \<Rightarrow> a + length bs \<le> at \<or> at + n \<le> a | Pod_Tail _ _ \<Rightarrow> True)"

lemma mem_run_append:
  "mem_run av len mem df (ops @ ops') =
     rbind (mem_run av len mem df ops) (\<lambda>(len, mem, df). mem_run av len mem df ops')"
proof (induction ops arbitrary: len mem df)
  case (Cons op ops)
  then show ?case by (cases op) (simp_all add: Let_def)
qed simp

lemma mem_run_keeps:
  "mem_run av len mem df ops = Inr (len', mem', df') \<Longrightarrow> list_all (apart at n) ops \<Longrightarrow>
     len \<le> len' \<and> (df' = None \<longrightarrow> df = None) \<and> (\<forall>i. at \<le> i \<and> i < at + n \<longrightarrow> mem' i = mem i)"
proof (induction ops arbitrary: len mem df)
  case (Cons op ops)
  have rest: "list_all (apart at n) ops" and op: "apart at n op" using Cons.prems(2) by simp_all
  show ?case
  proof (cases op)
    case (Pod_Store a bs)
    show ?thesis
    proof (cases "a + length bs \<le> len")
      case True
      then have "mem_run av len (overwrite mem a bs) df ops = Inr (len', mem', df')" using Cons.prems(1) Pod_Store by simp
      moreover have "\<forall>i. at \<le> i \<and> i < at + n \<longrightarrow> overwrite mem a bs i = mem i"
        using op Pod_Store by (auto simp: apart_def overwrite_def)
      ultimately show ?thesis using Cons.IH rest by metis
    next
      case False
      then have "mem_run av len mem (if df = None then Some a else df) ops = Inr (len', mem', df')"
        using Cons.prems(1) Pod_Store by simp
      then show ?thesis using Cons.IH rest by (metis option.distinct(1))
    qed
  next
    case (Pod_Tail k align)
    then have "mem_run av (round_up len align + unat k) mem df ops = Inr (len', mem', df')"
      using Cons.prems(1) by (simp add: Let_def split: if_splits)
    then show ?thesis using Cons.IH rest round_up_ge [of len align] by (meson add_leD1 order_trans)
  qed
qed simp

lemma mem_run_stored:
  assumes run: "rbind (mem_run av len mem df (pre @ Pod_Store at bs # post)) mem_result = Inr buf"
    and apart: "list_all (apart at (length bs)) post"
  shows "at + length bs \<le> length buf \<and> (\<forall>j < length bs. buf ! (at + j) = bs ! j)"
proof -
  obtain len1 mem1 df1 where pre: "mem_run av len mem df pre = Inr (len1, mem1, df1)"
    using run by (auto simp: mem_run_append result_iff)
  obtain len2 mem2 where all: "mem_run av len mem df (pre @ Pod_Store at bs # post) = Inr (len2, mem2, None)"
    and buf: "buf = map mem2 [0..<len2]"
    using run by (auto simp: result_iff mem_result_def split: option.splits)
  have post: "mem_run av len1 mem1 df1 (Pod_Store at bs # post) = Inr (len2, mem2, None)"
    using all pre by (simp add: mem_run_append)
  show ?thesis
  proof (cases "at + length bs \<le> len1")
    case True
    then have "mem_run av len1 (overwrite mem1 at bs) df1 post = Inr (len2, mem2, None)" using post by simp
    from mem_run_keeps [OF this apart] True show ?thesis by (auto simp: buf overwrite_def)
  next
    case False
    then have "mem_run av len1 mem1 (if df1 = None then Some at else df1) post = Inr (len2, mem2, None)" using post by simp
    from mem_run_keeps [OF this apart] show ?thesis by (auto split: if_splits)
  qed
qed

lemma mem_run_head:
  assumes run: "rbind (mem_run av len mem df ops) mem_result = Inr buf"
    and apart: "list_all (apart 0 n) ops" and n: "n \<le> len"
  shows "n \<le> length buf \<and> len \<le> length buf \<and> (\<forall>i < n. buf ! i = mem i)"
proof -
  obtain len2 mem2 where all: "mem_run av len mem df ops = Inr (len2, mem2, None)" and buf: "buf = map mem2 [0..<len2]"
    using run by (auto simp: result_iff mem_result_def split: option.splits)
  from mem_run_keeps [OF all apart] n show ?thesis by (auto simp: buf)
qed

lemma mem_run_bound: "mem_run av len mem df ops = Inr (len', mem', df') \<Longrightarrow> len \<le> av \<Longrightarrow> len' \<le> av"
proof (induction ops arbitrary: len mem df)
  case (Cons op ops)
  then show ?case by (cases op) (auto simp: Let_def split: if_splits)
qed simp

lemma region_array_at:
  assumes "length buf \<le> usize_max" "off + n \<le> sz" "start + off + n \<le> length buf"
  shows "region_array (region_new buf start sz) n off = take n (drop (start + off) buf)"
proof -
  have "n \<le> sz - off" "n \<le> length buf - (start + off)" using assms by arith+
  then show ?thesis
    using assms region_array_window [of "region_new buf start sz" n off]
    by (simp add: window_def region_new_def drop_take min_absorb1 add.commute [of off start])
qed

lemma preamble_accepted:
  assumes addr: "addr mod BUFFER_ALIGN = 0" and sz: "unat sz mod 8 = 0"
    and len: "PREAMBLE_SIZE + unat sz \<le> length buf" "length buf \<le> usize_max" and hd: "take 4 buf = le_bytes 4 sz"
  shows "preamble_read addr buf = Inr sz"
proof -
  have "region_array (region_new buf 0 (length buf)) 4 0 = le_bytes 4 sz"
    using region_array_at [of buf 0 4 "length buf" 0] len hd by (simp add: PREAMBLE_SIZE_def)
  then show ?thesis
    using assms by (simp add: preamble_read_def region_u32_at_def checked_add_usize_def Let_def)
qed

text \<open>
  C25: What an encoder stored is what a reader loads. When the encoder finishes, the bytes it stored at a
  place that no later store touches are the bytes a region over the buffer loads from there. When no
  store touches the preamble, the buffer's preamble is accepted and states the head size reserved.
\<close>

theorem pod_read_back:
  assumes head: "pod_reserve_head (pod_new addr out) sz = Inr (at0, w0)" "length out < usize_max"
    and finish: "rbind (pod_run w0 (pre @ Pod_Store at bs # post)) pod_finish = Inr buf"
    and apart: "list_all (apart at (length bs)) post"
    and place: "start + off = at" "off + length bs \<le> n"
    and preamble: "list_all (apart 0 PREAMBLE_SIZE) (pre @ Pod_Store at bs # post)"
  shows "region_array (region_new buf start n) (length bs) off = bs \<and> preamble_read addr buf = Inr sz"
proof
  let ?mem = "overwrite (\<lambda>_. 0) 0 (le_bytes 4 sz)"
  have fit: "PREAMBLE_SIZE + unat sz \<le> length out" "addr mod BUFFER_ALIGN = 0" "unat sz mod 8 = 0"
    using head(1) holds_reserve [OF head(1)]
    by (auto simp: holds_mem_def pod_reserve_head_def pod_new_def Let_def split: if_splits)
  have mem: "rbind (mem_run (length out) (PREAMBLE_SIZE + unat sz) ?mem None (pre @ Pod_Store at bs # post)) mem_result = Inr buf"
    using finish pod_run_mem [OF holds_reserve [OF head(1)] head(2)] by metis
  have len: "length buf \<le> usize_max"
    using mem head(2) fit(1) by (auto simp: result_iff mem_result_def dest!: mem_run_bound split: option.splits)
  show "region_array (region_new buf start n) (length bs) off = bs"
    using mem_run_stored [OF mem apart] region_array_at [OF len place(2)] place(1)
    by (auto intro!: nth_equalityI)
  have "take 4 buf = le_bytes 4 sz" "PREAMBLE_SIZE + unat sz \<le> length buf"
    using mem_run_head [OF mem preamble]
    by (auto simp: PREAMBLE_SIZE_def overwrite_def intro!: nth_equalityI)
  then show "preamble_read addr buf = Inr sz" using preamble_accepted [OF fit(2,3) _ len] by blast
qed

theorem pod_read_back_witness:
  "\<exists>w0 buf. pod_reserve_head (pod_new 0 (replicate 16 7)) 8 = Inr (8, w0) \<and>
     rbind (pod_run w0 ([] @ Pod_Store 12 (le_bytes 4 (9 :: u32)) # [Pod_Store 8 [1]])) pod_finish = Inr buf \<and>
     region_u32_at (region_new buf 8 8) 4 = 9 \<and> preamble_read 0 buf = Inr 8"
proof -
  let ?post = "[Pod_Store 8 [1]]"
  have "\<exists>w0. pod_reserve_head (pod_new 0 (replicate 16 7)) 8 = Inr (8, w0) \<and>
      (\<exists>buf. rbind (pod_run w0 ([] @ Pod_Store 12 (le_bytes 4 (9 :: u32)) # ?post)) pod_finish = Inr buf)"
    by (simp add: pod_reserve_head_def pod_new_def BUFFER_ALIGN_def PREAMBLE_SIZE_def saturating_add_usize_def
        pod_store_def checked_add_usize_def pod_finish_def Let_def)
  then obtain w0 buf where w0: "pod_reserve_head (pod_new 0 (replicate 16 7)) 8 = Inr (8, w0)"
    and buf: "rbind (pod_run w0 ([] @ Pod_Store 12 (le_bytes 4 (9 :: u32)) # ?post)) pod_finish = Inr buf" by blast
  have out: "length (replicate 16 (7 :: u8)) < usize_max" by simp
  have "region_array (region_new buf 8 8) (length (le_bytes 4 (9 :: u32))) 4 = le_bytes 4 (9 :: u32) \<and> preamble_read 0 buf = Inr 8"
    by (rule pod_read_back [OF w0 out buf]) (simp_all add: apart_def PREAMBLE_SIZE_def)
  then show ?thesis using w0 buf by (auto simp: region_u32_at_def)
qed

text \<open>
  \<open>tail_range\<close> accepts a descriptor's data exactly when it lies in the tail of the buffer and starts at
  its alignment, and then returns its range: no accepted descriptor reads outside the buffer, and no
  sum in the check wraps.
\<close>

lemma tail_range_exact:
  assumes "buf_len \<le> usize_max"
  shows "tail_range off n buf_len min_off align = Inr (a, b) \<longleftrightarrow>
    a = unat off \<and> b = unat off + unat n \<and> min_off \<le> a \<and> b \<le> buf_len \<and> max align 1 dvd a"
  using assms by (auto simp: tail_range_def Let_def dvd_eq_mod_eq_0)

end
