(* ===== verification/Rt_Flatbuffers.thy ===== *)
theory Rt_Flatbuffers
  imports Rt_Contract
begin

text \<open>
  The FlatBuffers codec's shared reading and writing (\<open>crates/ridl-rt/src/flatbuffers.rs\<close>).
  Positions are natural numbers; a signed or floating scalar is the word of its width with the same
  bits. The builder is that of a release build (its \<open>debug_assert\<close>s are the preconditions of the
  theorems): an operation returns \<open>None\<close> when it panics, as an index out of range and a remainder by
  zero do, and otherwise the \<open>Result\<close>. A mutable slice lent by \<open>reserve\<close> is a copy of those bytes,
  which \<open>write_back\<close> puts in their place when the loan ends.
\<close>

section \<open>Reading\<close>

definition OFFSET_SIZE :: nat where "OFFSET_SIZE = 4"

definition VOFFSET_SIZE :: nat where "VOFFSET_SIZE = 2"

definition VTABLE_HEADER :: nat where "VTABLE_HEADER = 4"

definition fb_at :: "bytes \<Rightarrow> nat \<Rightarrow> nat \<Rightarrow> malformed + bytes" where
  "fb_at buf from len =
     (if from \<le> length buf \<and> len \<le> length buf - from then Inr (take len (drop from buf)) else Inl OutOfBounds)"

definition read_scalar :: "nat \<Rightarrow> bytes \<Rightarrow> nat \<Rightarrow> malformed + 'a::len word" where
  "read_scalar n buf from = rbind (fb_at buf from n) (\<lambda>b. Inr (le_word b))"

definition read_u8 :: "bytes \<Rightarrow> nat \<Rightarrow> malformed + u8" where
  "read_u8 = read_scalar 1"

definition read_u16 :: "bytes \<Rightarrow> nat \<Rightarrow> malformed + u16" where
  "read_u16 = read_scalar 2"

definition read_u32 :: "bytes \<Rightarrow> nat \<Rightarrow> malformed + u32" where
  "read_u32 = read_scalar 4"

definition read_u64 :: "bytes \<Rightarrow> nat \<Rightarrow> malformed + u64" where
  "read_u64 = read_scalar 8"

definition read_i32 :: "bytes \<Rightarrow> nat \<Rightarrow> malformed + i32" where
  "read_i32 = read_scalar 4"

definition read_bool :: "bytes \<Rightarrow> nat \<Rightarrow> malformed + bool" where
  "read_bool buf from = rbind (read_u8 buf from) (\<lambda>b. Inr (b \<noteq> 0))"

definition follow :: "bytes \<Rightarrow> nat \<Rightarrow> malformed + nat" where
  "follow buf from = rbind (read_u32 buf from) (\<lambda>relative.
     let target = from + unat relative in
     if target \<ge> length buf then Inl OutOfBounds else Inr target)"

definition fb_root :: "bytes \<Rightarrow> malformed + nat" where
  "fb_root buf = follow buf 0"

definition fb_field :: "bytes \<Rightarrow> nat \<Rightarrow> u16 \<Rightarrow> nat \<Rightarrow> malformed + nat option" where
  "fb_field buf table slot width = rbind (read_i32 buf table) (\<lambda>soffset.
     let vt = int table - sint soffset in
     if vt < 0 \<or> nat vt \<ge> length buf then Inl OutOfBounds
     else let vtable = nat vt in
       rbind (read_u16 buf vtable) (\<lambda>vb.
       let vtable_bytes = unat vb in
       if vtable_bytes < VTABLE_HEADER then Inl OutOfBounds
       else rbind (fb_at buf vtable vtable_bytes) (\<lambda>_.
         rbind (read_u16 buf (vtable + VOFFSET_SIZE)) (\<lambda>tb.
         let table_bytes = unat tb; entry = vtable + VTABLE_HEADER + unat slot * VOFFSET_SIZE in
         if entry + VOFFSET_SIZE > vtable + vtable_bytes then Inr None
         else rbind (read_u16 buf entry) (\<lambda>off.
           let offset = unat off in
           if offset = 0 then Inr None
           else if offset < OFFSET_SIZE \<or> offset + width > table_bytes then Inl OutOfBounds
           else let position = table + offset in
             if position \<ge> length buf then Inl OutOfBounds else Inr (Some position))))))"

definition fb_string :: "bytes \<Rightarrow> nat \<Rightarrow> malformed + bytes" where
  "fb_string buf from = rbind (follow buf from) (\<lambda>start.
     rbind (read_u32 buf start) (\<lambda>n.
     rbind (fb_at buf (start + OFFSET_SIZE) (unat n)) (\<lambda>bs.
     rbind (fb_at buf (start + OFFSET_SIZE + unat n) 1) (\<lambda>z.
     if z ! 0 \<noteq> 0 then Inl OutOfBounds
     else if utf8_valid bs then Inr bs else Inl Utf8))))"

record fb_vec =
  vec_len :: nat
  vec_first :: nat

definition vec_element :: "fb_vec \<Rightarrow> nat \<Rightarrow> nat \<Rightarrow> nat" where
  "vec_element v index stride = vec_first v + index * stride"

definition fb_vector :: "bytes \<Rightarrow> nat \<Rightarrow> nat \<Rightarrow> malformed + fb_vec" where
  "fb_vector buf from stride = rbind (follow buf from) (\<lambda>start.
     rbind (read_u32 buf start) (\<lambda>n.
     let first = start + OFFSET_SIZE in
     case checked_mul_usize (unat n) stride of
       None \<Rightarrow> Inl OutOfBounds
     | Some span \<Rightarrow> rbind (fb_at buf first span) (\<lambda>_. Inr \<lparr>vec_len = unat n, vec_first = first\<rparr>)))"

section \<open>Writing\<close>

text \<open>A \<open>Pos\<close> is measured backwards from the end of the builder's slice.\<close>

type_synonym pos = nat

datatype fb_value = FBool bool | FU8 u8 | FI8 u8 | FU16 u16 | FI16 u16 | FU32 u32 | FI32 u32
  | FU64 u64 | FI64 u64 | FF32 u32 | FF64 u64 | FOffset pos

fun value_size :: "fb_value \<Rightarrow> nat" where
  "value_size (FBool _) = 1" | "value_size (FU8 _) = 1" | "value_size (FI8 _) = 1"
| "value_size (FU16 _) = 2" | "value_size (FI16 _) = 2"
| "value_size (FU32 _) = 4" | "value_size (FI32 _) = 4" | "value_size (FF32 _) = 4" | "value_size (FOffset _) = 4"
| "value_size (FU64 _) = 8" | "value_size (FI64 _) = 8" | "value_size (FF64 _) = 8"

record table_field =
  tf_slot :: u16
  tf_offset :: u16
  tf_value :: fb_value

record builder =
  b_out :: bytes
  b_used :: nat

type_synonym 'a build = "(encode_error + 'a) option"

definition bbind :: "'a build \<Rightarrow> ('a \<Rightarrow> 'b build) \<Rightarrow> 'b build" where
  "bbind m f = (case m of None \<Rightarrow> None | Some (Inl e) \<Rightarrow> Some (Inl e) | Some (Inr x) \<Rightarrow> f x)"

text \<open>\<open>bytes[at..at + n].copy_from_slice\<close>, and the end of the loan of the bytes at a position.\<close>

definition copy_into :: "bytes \<Rightarrow> nat \<Rightarrow> bytes \<Rightarrow> bytes option" where
  "copy_into bs at src = (if at + length src \<le> length bs then Some (put_at bs at src) else None)"

definition write_back :: "builder \<Rightarrow> pos \<Rightarrow> bytes \<Rightarrow> builder" where
  "write_back b p obj = b\<lparr>b_out := put_at (b_out b) (length (b_out b) - p) obj\<rparr>"

definition builder_new :: "bytes \<Rightarrow> builder" where
  "builder_new out = \<lparr>b_out = out, b_used = 0\<rparr>"

definition padding :: "nat \<Rightarrow> nat \<Rightarrow> nat \<Rightarrow> nat" where
  "padding align skew unpadded = (align + skew mod align - unpadded mod align) mod align"

definition reserve_skewed :: "builder \<Rightarrow> nat \<Rightarrow> nat \<Rightarrow> nat \<Rightarrow> (pos \<times> bytes \<times> builder) build" where
  "reserve_skewed b sz align skew =
     (let capacity = length (b_out b) in
      case checked_add_usize (b_used b) sz of
        None \<Rightarrow> Some (Inl (Capacity usize_max capacity))
      | Some unpadded \<Rightarrow>
          if align = 0 then None
          else let pad = padding align skew unpadded in
            case checked_add_usize unpadded pad of
              None \<Rightarrow> Some (Inl (Capacity usize_max capacity))
            | Some need \<Rightarrow>
                if need > capacity then Some (Inl (Capacity need capacity))
                else let start = capacity - need;
                         out = put_at (b_out b) start (replicate (sz + pad) 0) in
                  Some (Inr (need, take sz (drop start out), \<lparr>b_out = out, b_used = need\<rparr>)))"

definition reserve :: "builder \<Rightarrow> nat \<Rightarrow> nat \<Rightarrow> (pos \<times> bytes \<times> builder) build" where
  "reserve b sz align = reserve_skewed b sz align 0"

definition delta :: "pos \<Rightarrow> pos \<Rightarrow> nat" where
  "delta from to = from - to"

definition push_scalar :: "nat \<Rightarrow> builder \<Rightarrow> 'a::len word \<Rightarrow> (pos \<times> builder) build" where
  "push_scalar n b v = bbind (reserve b n n) (\<lambda>(p, obj, b).
     case copy_into obj 0 (le_bytes n v) of None \<Rightarrow> None | Some obj \<Rightarrow> Some (Inr (p, write_back b p obj)))"

definition push_offset :: "builder \<Rightarrow> pos \<Rightarrow> (pos \<times> builder) build" where
  "push_offset b target = bbind (reserve b OFFSET_SIZE OFFSET_SIZE) (\<lambda>(p, obj, b).
     case copy_into obj 0 (le_bytes 4 (of_nat (delta p target) :: u32)) of
       None \<Rightarrow> None | Some obj \<Rightarrow> Some (Inr (p, write_back b p obj)))"

definition push_string :: "builder \<Rightarrow> bytes \<Rightarrow> (pos \<times> builder) build" where
  "push_string b s =
     (let len = length s; sz = OFFSET_SIZE + len + 1 in
      bbind (reserve b sz OFFSET_SIZE) (\<lambda>(p, obj, b).
        case copy_into obj 0 (le_bytes 4 (of_nat len :: u32)) of None \<Rightarrow> None | Some obj \<Rightarrow>
        (case copy_into obj OFFSET_SIZE s of None \<Rightarrow> None | Some obj \<Rightarrow>
         Some (Inr (p, write_back b p obj)))))"

definition push_vector :: "builder \<Rightarrow> bytes \<Rightarrow> nat \<Rightarrow> (pos \<times> builder) build" where
  "push_vector b elements stride =
     (if stride = 0 then None
      else let count = length elements div stride;
               sz = OFFSET_SIZE + length elements;
               (align, skew) = (if stride > OFFSET_SIZE then (stride, OFFSET_SIZE) else (OFFSET_SIZE, 0)) in
        bbind (reserve_skewed b sz align skew) (\<lambda>(p, obj, b).
          case copy_into obj 0 (le_bytes 4 (of_nat count :: u32)) of None \<Rightarrow> None | Some obj \<Rightarrow>
          (case copy_into obj OFFSET_SIZE elements of None \<Rightarrow> None | Some obj \<Rightarrow>
           Some (Inr (p, write_back b p obj)))))"

fun write_offsets :: "pos \<Rightarrow> nat \<Rightarrow> pos list \<Rightarrow> bytes \<Rightarrow> bytes option" where
  "write_offsets p index [] obj = Some obj"
| "write_offsets p index (target # ts) obj =
     (let at = OFFSET_SIZE * (index + 1); here = p - at in
      case copy_into obj at (le_bytes 4 (of_nat (delta here target) :: u32)) of
        None \<Rightarrow> None | Some obj \<Rightarrow> write_offsets p (index + 1) ts obj)"

definition push_offset_vector :: "builder \<Rightarrow> pos list \<Rightarrow> (pos \<times> builder) build" where
  "push_offset_vector b targets =
     (let capacity = length (b_out b); count = length targets in
      case Option.bind (checked_add_usize count 1) (\<lambda>slots. checked_mul_usize slots OFFSET_SIZE) of
        None \<Rightarrow> Some (Inl (Capacity usize_max capacity))
      | Some sz \<Rightarrow> bbind (reserve b sz OFFSET_SIZE) (\<lambda>(p, obj, b).
          case copy_into obj 0 (le_bytes 4 (of_nat count :: u32)) of None \<Rightarrow> None | Some obj \<Rightarrow>
          (case write_offsets p 0 targets obj of None \<Rightarrow> None | Some obj \<Rightarrow>
           Some (Inr (p, write_back b p obj)))))"

fun value_bytes :: "pos \<Rightarrow> fb_value \<Rightarrow> bytes" where
  "value_bytes here (FBool v) = le_bytes 1 (if v then 1 else 0 :: u8)"
| "value_bytes here (FU8 v) = le_bytes 1 v"
| "value_bytes here (FI8 v) = le_bytes 1 v"
| "value_bytes here (FU16 v) = le_bytes 2 v"
| "value_bytes here (FI16 v) = le_bytes 2 v"
| "value_bytes here (FU32 v) = le_bytes 4 v"
| "value_bytes here (FI32 v) = le_bytes 4 v"
| "value_bytes here (FU64 v) = le_bytes 8 v"
| "value_bytes here (FI64 v) = le_bytes 8 v"
| "value_bytes here (FF32 v) = le_bytes 4 v"
| "value_bytes here (FF64 v) = le_bytes 8 v"
| "value_bytes here (FOffset target) = le_bytes 4 (of_nat (delta here target) :: u32)"

fun write_fields :: "pos \<Rightarrow> table_field list \<Rightarrow> bytes \<Rightarrow> bytes option" where
  "write_fields table [] obj = Some obj"
| "write_fields table (f # fs) obj =
     (let from = unat (tf_offset f) in
      case copy_into obj from (value_bytes (table - from) (tf_value f)) of
        None \<Rightarrow> None | Some obj \<Rightarrow> write_fields table fs obj)"

fun write_entries :: "table_field list \<Rightarrow> bytes \<Rightarrow> bytes option" where
  "write_entries [] obj = Some obj"
| "write_entries (f # fs) obj =
     (let entry = VTABLE_HEADER + unat (tf_slot f) * VOFFSET_SIZE in
      case copy_into obj entry (le_bytes 2 (tf_offset f)) of
        None \<Rightarrow> None | Some obj \<Rightarrow> write_entries fs obj)"

definition push_table :: "builder \<Rightarrow> nat \<Rightarrow> nat \<Rightarrow> u16 \<Rightarrow> table_field list \<Rightarrow> (pos \<times> builder) build" where
  "push_table b sz align slots fs =
     bbind (reserve b sz align) (\<lambda>(table, obj, b).
     case write_fields table fs obj of None \<Rightarrow> None | Some obj \<Rightarrow>
     (let b = write_back b table obj; vtable_bytes = VTABLE_HEADER + unat slots * VOFFSET_SIZE in
      bbind (reserve b vtable_bytes VOFFSET_SIZE) (\<lambda>(vtable, vobj, b).
      case copy_into vobj 0 (le_bytes 2 (of_nat vtable_bytes :: u16)) of None \<Rightarrow> None | Some vobj \<Rightarrow>
      (case copy_into vobj VOFFSET_SIZE (le_bytes 2 (of_nat sz :: u16)) of None \<Rightarrow> None | Some vobj \<Rightarrow>
      (case write_entries fs vobj of None \<Rightarrow> None | Some vobj \<Rightarrow>
      (let b = write_back b vtable vobj; start = length (b_out b) - table in
       case copy_into (b_out b) start (le_bytes 4 (of_nat (vtable - table) :: i32)) of
         None \<Rightarrow> None | Some out \<Rightarrow> Some (Inr (table, b\<lparr>b_out := out\<rparr>))))))))"

definition fb_finish :: "builder \<Rightarrow> pos \<Rightarrow> nat \<Rightarrow> bytes build" where
  "fb_finish b root align =
     (let align = (if align > OFFSET_SIZE then align else OFFSET_SIZE) in
      bbind (reserve b OFFSET_SIZE align) (\<lambda>(p, obj, b).
        case copy_into obj 0 (le_bytes 4 (of_nat (delta p root) :: u32)) of None \<Rightarrow> None | Some obj \<Rightarrow>
        (let b = write_back b p obj in Some (Inr (drop (length (b_out b) - p) (b_out b))))))"

section \<open>The builder prepends\<close>

text \<open>
  The bytes written so far, and what holds between the operations. Every operation puts bytes in
  front of them, so an object keeps its distance from the end of the buffer.
\<close>

definition contents :: "builder \<Rightarrow> bytes" where
  "contents b = drop (length (b_out b) - b_used b) (b_out b)"

definition wf_builder :: "builder \<Rightarrow> bool" where
  "wf_builder b \<longleftrightarrow> b_used b \<le> length (b_out b) \<and> length (b_out b) \<le> usize_max"

definition extends :: "builder \<Rightarrow> builder \<Rightarrow> bool" where
  "extends b b' \<longleftrightarrow> (\<exists>pre. contents b' = pre @ contents b) \<and> length (b_out b') = length (b_out b) \<and> wf_builder b'"

lemma length_contents [simp]: "wf_builder b \<Longrightarrow> length (contents b) = b_used b"
  by (simp add: contents_def wf_builder_def)

lemma wf_builder_new: "length out \<le> usize_max \<Longrightarrow> wf_builder (builder_new out)"
  by (simp add: wf_builder_def builder_new_def)

lemma extends_refl [simp]: "wf_builder b \<Longrightarrow> extends b b"
  by (simp add: extends_def)

lemma extends_trans: "extends a b \<Longrightarrow> extends b c \<Longrightarrow> extends a c"
  by (auto simp: extends_def)

lemma bbind_Inr_iff [result_iff]: "bbind m f = Some (Inr y) \<longleftrightarrow> (\<exists>x. m = Some (Inr x) \<and> f x = Some (Inr y))"
  by (auto simp: bbind_def split: option.splits sum.splits)

lemma case_Some_iff [result_iff]: "(case m of None \<Rightarrow> None | Some x \<Rightarrow> f x) = Some y \<longleftrightarrow> (\<exists>x. m = Some x \<and> f x = Some y)"
  by (auto split: option.splits)

lemma bbind_simps [simp]:
  "bbind None f = None"
  "bbind (Some (Inl e)) f = Some (Inl e)"
  "bbind (Some (Inr x)) f = f x"
  by (simp_all add: bbind_def)

lemma length_value_bytes [simp]: "length (value_bytes here v) = value_size v"
  by (cases v) auto

lemma copy_into_iff: "copy_into bs at src = Some r \<longleftrightarrow> at + length src \<le> length bs \<and> r = put_at bs at src"
  by (auto simp: copy_into_def)

lemma case_case_option:
  "(case m of None \<Rightarrow> None | Some x \<Rightarrow> (case f x of None \<Rightarrow> None | Some y \<Rightarrow> h y)) =
   (case Option.bind m f of None \<Rightarrow> None | Some y \<Rightarrow> h y)"
  by (cases m) simp_all

lemma copy_into_length: "copy_into obj at bs = Some obj' \<Longrightarrow> length obj' = length obj"
  by (auto simp: copy_into_iff)

lemma reserve_ok:
  assumes "reserve_skewed b sz align skew = Some (Inr (p, obj, b'))" "wf_builder b"
  defines "pad \<equiv> padding align skew (b_used b + sz)"
  shows "align \<noteq> 0" "p = b_used b + sz + pad" "obj = replicate sz 0" "b_used b' = p" "wf_builder b'"
    "length (b_out b') = length (b_out b)" "contents b' = replicate (sz + pad) 0 @ contents b"
proof -
  let ?start = "length (b_out b) - (b_used b + sz + pad)"
  have *: "align \<noteq> 0" "p = b_used b + sz + pad" "p \<le> length (b_out b)"
      "b' = \<lparr>b_out = put_at (b_out b) ?start (replicate (sz + pad) 0), b_used = p\<rparr>"
      "obj = take sz (drop ?start (put_at (b_out b) ?start (replicate (sz + pad) 0)))"
    using assms(1) by (auto simp: reserve_skewed_def Let_def checked_add_usize_def pad_def split: if_splits)
  then show "align \<noteq> 0" "p = b_used b + sz + pad" "b_used b' = p" by simp_all
  show "obj = replicate sz 0" using * by (simp add: put_at_def)
  show len: "length (b_out b') = length (b_out b)" using * by simp
  then show "wf_builder b'" using * assms(2) by (simp add: wf_builder_def)
  have "length (b_out b) - (b_used b + sz + pad) + (sz + pad) = length (b_out b) - b_used b" using * by simp
  then show "contents b' = replicate (sz + pad) 0 @ contents b"
    using * by (simp add: contents_def len [unfolded *(4)] put_at_def)
qed

lemma write_back_ok:
  assumes "wf_builder b" "length obj \<le> b_used b"
  shows "contents (write_back b (b_used b) obj) = obj @ drop (length obj) (contents b)"
    "b_used (write_back b (b_used b) obj) = b_used b" "wf_builder (write_back b (b_used b) obj)"
    "length (b_out (write_back b (b_used b) obj)) = length (b_out b)"
proof -
  have le: "length (b_out b) - b_used b + length obj \<le> length (b_out b)" using assms by (simp add: wf_builder_def)
  then show "length (b_out (write_back b (b_used b) obj)) = length (b_out b)" by (simp add: write_back_def)
  then show "wf_builder (write_back b (b_used b) obj)" using assms by (simp add: wf_builder_def write_back_def)
  show "b_used (write_back b (b_used b) obj) = b_used b" by (simp add: write_back_def)
  show "contents (write_back b (b_used b) obj) = obj @ drop (length obj) (contents b)"
    using le by (simp add: contents_def write_back_def put_at_def add.commute)
qed

text \<open>An object put into the bytes just reserved for it.\<close>

lemma reserve_write_back:
  assumes "reserve_skewed b sz align skew = Some (Inr (p, obj0, b0))" "wf_builder b" "length obj = sz"
  defines "pad \<equiv> padding align skew (b_used b + sz)" and "b' \<equiv> write_back b0 p obj"
  shows "contents b' = obj @ replicate pad 0 @ contents b" "b_used b' = p" "wf_builder b'"
    "length (b_out b') = length (b_out b)" "extends b b'"
proof -
  note r = reserve_ok [OF assms(1,2), folded pad_def]
  have "length obj \<le> b_used b0" using r(2,4) assms(3) by simp
  note w = write_back_ok [OF r(5) this, unfolded r(4)]
  show c: "contents b' = obj @ replicate pad 0 @ contents b"
    using w(1) assms(3) by (simp add: b'_def r(7) replicate_add)
  show "b_used b' = p" "wf_builder b'" "length (b_out b') = length (b_out b)"
    using w(2,3,4) r(6) by (simp_all add: b'_def r(4))
  then show "extends b b'" using c by (simp add: extends_def)
qed

lemma string_object:
  "length l = OFFSET_SIZE \<Longrightarrow>
     put_at (put_at (replicate (OFFSET_SIZE + n) 0) 0 l) OFFSET_SIZE (s :: bytes) =
       l @ s @ replicate (n - length s) 0"
  by (simp add: put_at_def OFFSET_SIZE_def)

lemma push_scalar_ok:
  assumes "push_scalar n b v = Some (Inr (p, b'))" "wf_builder b"
  shows "extends b b'" "p = b_used b'" "contents b' = le_bytes n v @ replicate (padding n 0 (b_used b + n)) 0 @ contents b"
proof -
  obtain obj b0 where r: "reserve_skewed b n n 0 = Some (Inr (p, obj, b0))"
    and b': "b' = write_back b0 p (put_at obj 0 (le_bytes n v))"
    using assms by (auto simp: push_scalar_def reserve_def result_iff copy_into_iff)
  have obj: "obj = replicate n 0" using reserve_ok(3) [OF r assms(2)] .
  have "put_at obj 0 (le_bytes n v) = le_bytes n v" by (simp add: put_at_def obj)
  then show "extends b b'" "p = b_used b'" "contents b' = le_bytes n v @ replicate (padding n 0 (b_used b + n)) 0 @ contents b"
    using reserve_write_back [OF r assms(2), of "le_bytes n v"] by (simp_all add: b')
qed

lemma push_offset_scalar: "push_offset b target = push_scalar 4 b (of_nat (delta (b_used b + 4 + padding 4 0 (b_used b + 4)) target) :: u32)"
proof (cases "reserve b 4 4")
  case (Some r)
  then show ?thesis
  proof (cases r)
    case (Inr x)
    then have "fst x = b_used b + 4 + padding 4 0 (b_used b + 4)"
      using Some by (auto simp: reserve_def reserve_skewed_def Let_def checked_add_usize_def split: if_splits)
    then show ?thesis using Some Inr by (simp add: push_offset_def push_scalar_def OFFSET_SIZE_def split_beta)
  qed (simp add: push_offset_def push_scalar_def OFFSET_SIZE_def)
qed (simp add: push_offset_def push_scalar_def OFFSET_SIZE_def)

lemma push_string_ok:
  assumes "push_string b s = Some (Inr (p, b'))" "wf_builder b"
  shows "extends b b'" "p = b_used b'"
    "contents b' = le_bytes 4 (of_nat (length s) :: u32) @ s @ 0 #
       replicate (padding OFFSET_SIZE 0 (b_used b + (OFFSET_SIZE + length s + 1))) 0 @ contents b"
proof -
  let ?l = "le_bytes 4 (of_nat (length s) :: u32)"
  obtain obj b0 where r: "reserve_skewed b (OFFSET_SIZE + length s + 1) OFFSET_SIZE 0 = Some (Inr (p, obj, b0))"
    and b': "b' = write_back b0 p (put_at (put_at obj 0 ?l) OFFSET_SIZE s)"
    using assms by (auto simp: push_string_def reserve_def result_iff copy_into_iff Let_def)
  have obj: "obj = replicate (OFFSET_SIZE + (length s + 1)) 0" using reserve_ok(3) [OF r assms(2)] by simp
  have "put_at (put_at obj 0 ?l) OFFSET_SIZE s = ?l @ s @ [0]"
    unfolding obj by (subst string_object) (simp_all add: OFFSET_SIZE_def)
  then show "extends b b'" "p = b_used b'"
    "contents b' = ?l @ s @ 0 # replicate (padding OFFSET_SIZE 0 (b_used b + (OFFSET_SIZE + length s + 1))) 0 @ contents b"
    using reserve_write_back [OF r assms(2), of "?l @ s @ [0]"] by (simp_all add: b' OFFSET_SIZE_def)
qed

lemma push_vector_ok:
  assumes "push_vector b els stride = Some (Inr (p, b'))" "wf_builder b"
  shows "extends b b'" "p = b_used b'" "stride \<noteq> 0"
    "\<exists>pad. contents b' = le_bytes 4 (of_nat (length els div stride) :: u32) @ els @ replicate pad 0 @ contents b"
proof -
  let ?l = "le_bytes 4 (of_nat (length els div stride) :: u32)"
  obtain align skew obj b0 where r: "reserve_skewed b (OFFSET_SIZE + length els) align skew = Some (Inr (p, obj, b0))"
    and stride: "stride \<noteq> 0" and b': "b' = write_back b0 p (put_at (put_at obj 0 ?l) OFFSET_SIZE els)"
    using assms by (auto simp: push_vector_def result_iff copy_into_iff Let_def split: if_splits)
  have obj: "obj = replicate (OFFSET_SIZE + length els) 0" using reserve_ok(3) [OF r assms(2)] .
  have "put_at (put_at obj 0 ?l) OFFSET_SIZE els = ?l @ els"
    unfolding obj by (subst string_object) (simp_all add: OFFSET_SIZE_def)
  then show "extends b b'" "p = b_used b'" "stride \<noteq> 0"
    "\<exists>pad. contents b' = ?l @ els @ replicate pad 0 @ contents b"
    using reserve_write_back [OF r assms(2), of "?l @ els"] stride by (auto simp: b' OFFSET_SIZE_def)
qed

lemma write_offsets_length: "write_offsets p i ts obj = Some obj' \<Longrightarrow> length obj' = length obj"
  by (induction ts arbitrary: i obj) (auto simp: Let_def copy_into_iff split: option.splits)

lemma push_offset_vector_ok:
  assumes "push_offset_vector b ts = Some (Inr (p, b'))" "wf_builder b"
  shows "extends b b'" "p = b_used b'"
proof -
  obtain sz obj0 obj1 obj b0 where r: "reserve_skewed b sz OFFSET_SIZE 0 = Some (Inr (p, obj0, b0))"
    and obj1: "copy_into obj0 0 (le_bytes 4 (of_nat (length ts) :: u32)) = Some obj1"
    and obj: "write_offsets p 0 ts obj1 = Some obj" and b': "b' = write_back b0 p obj"
    using assms(1) by (cases "Option.bind (checked_add_usize (length ts) 1) (\<lambda>slots. checked_mul_usize slots OFFSET_SIZE)")
      (auto simp: push_offset_vector_def reserve_def result_iff Let_def)
  have "length obj = sz"
    using write_offsets_length [OF obj] obj1 reserve_ok(3) [OF r assms(2)] by (auto simp: copy_into_iff)
  then show "extends b b'" "p = b_used b'"
    using reserve_write_back [OF r assms(2), of obj] by (simp_all add: b')
qed

lemma write_fields_length: "write_fields t fs obj = Some obj' \<Longrightarrow> length obj' = length obj"
  by (induction fs arbitrary: obj) (auto simp: Let_def copy_into_iff split: option.splits)

lemma write_entries_length: "write_entries fs obj = Some obj' \<Longrightarrow> length obj' = length obj"
  by (induction fs arbitrary: obj) (auto simp: Let_def copy_into_iff split: option.splits)

text \<open>
  A table is written behind its vtable: the vtable, the padding of the table's alignment to the
  vtable's, the offset back to the vtable, and the fields.
\<close>

definition vtable_blank :: "nat \<Rightarrow> u16 \<Rightarrow> bytes" where
  "vtable_blank sz slots = le_bytes 2 (of_nat (VTABLE_HEADER + unat slots * VOFFSET_SIZE) :: u16) @
     le_bytes 2 (of_nat sz :: u16) @ replicate (unat slots * VOFFSET_SIZE) 0"

lemma push_table_ok:
  assumes "push_table b sz align slots fs = Some (Inr (p, b'))" "wf_builder b" "OFFSET_SIZE \<le> sz"
  shows "extends b b'" "b_used b + sz \<le> p"
    "\<exists>tobj vobj vpad tpad. write_fields p fs (replicate sz 0) = Some tobj \<and>
       write_entries fs (vtable_blank sz slots) = Some vobj \<and>
       contents b' = (vobj @ replicate vpad 0) @
         le_bytes 4 (of_nat (length vobj + vpad) :: i32) @ drop 4 tobj @ replicate tpad 0 @ contents b \<and>
       p = sz + tpad + b_used b"
proof -
  let ?vb = "VTABLE_HEADER + unat slots * VOFFSET_SIZE"
  let ?vh = "le_bytes 2 (of_nat ?vb :: u16)" and ?th = "le_bytes 2 (of_nat sz :: u16)"
  obtain tobj0 b0 tobj v vobj0 b1 vobj b2
    where r: "reserve_skewed b sz align 0 = Some (Inr (p, tobj0, b0))" and t: "write_fields p fs tobj0 = Some tobj"
      and rv: "reserve_skewed (write_back b0 p tobj) ?vb VOFFSET_SIZE 0 = Some (Inr (v, vobj0, b1))"
      and v: "write_entries fs (put_at (put_at vobj0 0 ?vh) VOFFSET_SIZE ?th) = Some vobj"
      and b2: "b2 = write_back b1 v vobj"
      and b': "copy_into (b_out b2) (length (b_out b2) - p) (le_bytes 4 (of_nat (v - p) :: i32)) = Some (b_out b')"
        "b_used b' = b_used b2"
    using assms(1) by (auto simp: push_table_def reserve_def result_iff Let_def copy_into_iff)
  note r0 = reserve_ok [OF r assms(2)]
  have tl: "length tobj = sz" using write_fields_length [OF t] r0(3) by simp
  note w = reserve_write_back [OF r assms(2) tl]
  note rv0 = reserve_ok [OF rv w(3)]
  have vobj0: "put_at (put_at vobj0 0 ?vh) VOFFSET_SIZE ?th = ?vh @ ?th @ replicate (unat slots * VOFFSET_SIZE) 0"
    unfolding rv0(3) by (simp add: put_at_def VTABLE_HEADER_def VOFFSET_SIZE_def)
  have vl: "length vobj = ?vb" using write_entries_length [OF v [unfolded vobj0]] by (simp add: VTABLE_HEADER_def)
  note wv = reserve_write_back [OF rv w(3) vl, folded b2]
  define vpad where "vpad = padding VOFFSET_SIZE 0 (b_used (write_back b0 p tobj) + ?vb)"
  define tpad where "tpad = padding align 0 (b_used b + sz)"
  have p: "p = sz + tpad + b_used b" using r0(2) by (simp add: tpad_def)
  have vp: "v = length vobj + vpad + p" using rv0(2) w(2) vl by (simp add: vpad_def)
  have c2: "contents b2 = vobj @ replicate vpad 0 @ tobj @ replicate tpad 0 @ contents b"
    using wv(1) w(1) by (simp add: vpad_def tpad_def)
  have used: "b_used b2 = v" "v \<le> length (b_out b2)" using wv(2,3) by (auto simp: wf_builder_def)
  let ?so = "le_bytes 4 (of_nat (v - p) :: i32)"
  have out': "b_out b' = put_at (b_out b2) (length (b_out b2) - p) ?so" and le: "length (b_out b2) - p + 4 \<le> length (b_out b2)"
    using b'(1) by (auto simp: copy_into_iff)
  have split: "b_out b2 = take (length (b_out b2) - v) (b_out b2) @ contents b2" using used by (simp add: contents_def)
  have at: "length (b_out b2) - p = length (b_out b2) - v + (length vobj + vpad)" using vp used by simp
  have "b_out b' = take (length (b_out b2) - v) (b_out b2) @ vobj @ replicate vpad 0 @ ?so @ drop 4 tobj @ replicate tpad 0 @ contents b"
    unfolding out' at using assms(3) tl used le
    by (subst (1) split) (simp add: put_at_def c2 OFFSET_SIZE_def)
  moreover have l': "length (b_out b') = length (b_out b2)" unfolding out' using le by simp
  ultimately have c': "contents b' = vobj @ replicate vpad 0 @ ?so @ drop 4 tobj @ replicate tpad 0 @ contents b"
    unfolding contents_def [of b'] b'(2) used(1) l' by (metis append_eq_conv_conj length_take min_absorb2 diff_le_self)
  with l' show "extends b b'" using w wv b'(2) by (simp add: extends_def wf_builder_def)
  show "b_used b + sz \<le> p" using p by simp
  show "\<exists>tobj vobj vpad tpad. write_fields p fs (replicate sz 0) = Some tobj \<and>
       write_entries fs (vtable_blank sz slots) = Some vobj \<and>
       contents b' = (vobj @ replicate vpad 0) @
         le_bytes 4 (of_nat (length vobj + vpad) :: i32) @ drop 4 tobj @ replicate tpad 0 @ contents b \<and>
       p = sz + tpad + b_used b"
    using t v c' p vp unfolding vobj0 r0(3) vtable_blank_def by (intro exI [of _ tobj] exI [of _ vobj] exI [of _ vpad] exI [of _ tpad]) simp
qed

section \<open>Reads are relative\<close>

text \<open>
  A reader of an object that is given the object's position: what it accepts in a buffer it accepts
  when bytes are put in front, with the positions it returns moved by as many. So an object reads in
  the finished buffer, at its distance from the end, as it read when it was written.
\<close>

locale relative_read =
  fixes rd :: "bytes \<Rightarrow> nat \<Rightarrow> malformed + 'v" and moved :: "nat \<Rightarrow> 'v \<Rightarrow> 'v"
  assumes rd_moved: "rd c k = Inr v \<Longrightarrow> rd (pre @ c) (length pre + k) = Inr (moved (length pre) v)"
begin

lemma rd_from_end:
  assumes "rd c (length c - p) = Inr v" "p \<le> length c"
  shows "rd (pre @ c) (length (pre @ c) - p) = Inr (moved (length pre) v)"
  using rd_moved [OF assms(1), of pre] assms(2) by simp

lemma rd_kept:
  assumes "extends b b'" "wf_builder b" "rd (contents b) (b_used b - p) = Inr v" "p \<le> b_used b"
  shows "rd (contents b') (b_used b' - p) = Inr (moved (b_used b' - b_used b) v)"
proof -
  obtain pre where pre: "contents b' = pre @ contents b" and wf: "wf_builder b'" using assms(1) by (auto simp: extends_def)
  have "b_used b' = length pre + b_used b" using arg_cong [OF pre, of length] assms(2) wf by simp
  then show ?thesis
    using rd_from_end [of "contents b" p v pre] assms(2,3,4) by (simp add: pre)
qed

end

definition moved_opt :: "nat \<Rightarrow> nat option \<Rightarrow> nat option" where
  "moved_opt n = map_option ((+) n)"

definition moved_vec :: "nat \<Rightarrow> fb_vec \<Rightarrow> fb_vec" where
  "moved_vec n v = v\<lparr>vec_first := n + vec_first v\<rparr>"

lemma fb_at_shift [simp]: "fb_at (pre @ c) (length pre + k) n = fb_at c k n"
  by (simp add: fb_at_def)

lemma read_shift [simp]:
  "read_u8 (pre @ c) (length pre + k) = read_u8 c k" "read_u16 (pre @ c) (length pre + k) = read_u16 c k"
  "read_u32 (pre @ c) (length pre + k) = read_u32 c k" "read_u64 (pre @ c) (length pre + k) = read_u64 c k"
  "read_i32 (pre @ c) (length pre + k) = read_i32 c k"
  by (simp_all add: read_u8_def read_u16_def read_u32_def read_u64_def read_i32_def read_scalar_def)

lemma follow_shift: "follow (pre @ c) (length pre + k) = rbind (follow c k) (\<lambda>t. Inr (length pre + t))"
  by (auto simp: follow_def rbind_def Let_def split: sum.splits)

interpretation rel_at: relative_read "\<lambda>c k. fb_at c k n" "\<lambda>_ v. v"
  by unfold_locales simp

interpretation rel_follow: relative_read follow "(+)"
  by unfold_locales (simp add: follow_shift)

lemma fb_string_shift: "fb_string (pre @ c) (length pre + k) = fb_string c k"
  by (cases "follow c k") (simp_all add: fb_string_def follow_shift add.assoc)

interpretation rel_string: relative_read fb_string "\<lambda>_ v. v"
  by unfold_locales (simp add: fb_string_shift)

interpretation rel_vector: relative_read "\<lambda>c k. fb_vector c k stride" moved_vec
proof
  fix c k v and pre :: bytes
  assume v: "fb_vector c k stride = Inr v"
  then obtain start n span bs where "follow c k = Inr start" "read_u32 c start = Inr n"
      "checked_mul_usize (unat n) stride = Some span" "fb_at c (start + OFFSET_SIZE) span = Inr bs"
      "v = \<lparr>vec_len = unat n, vec_first = start + OFFSET_SIZE\<rparr>"
    by (auto simp: fb_vector_def result_iff Let_def split: option.splits)
  then show "fb_vector (pre @ c) (length pre + k) stride = Inr (moved_vec (length pre) v)"
    by (simp add: fb_vector_def follow_shift Let_def add.assoc moved_vec_def)
qed

text \<open>The vtable walk, one fact per read.\<close>

lemma fb_field_walk:
  assumes "read_i32 buf table = Inr so" "int table - sint so = int vt" "vt < length buf"
    "read_u16 buf vt = Inr vb" "VTABLE_HEADER \<le> unat vb" "vt + unat vb \<le> length buf" "read_u16 buf (vt + VOFFSET_SIZE) = Inr tb"
  shows "fb_field buf table slot width =
     (let entry = VTABLE_HEADER + unat slot * VOFFSET_SIZE in
      if entry + VOFFSET_SIZE > unat vb then Inr None
      else rbind (read_u16 buf (vt + entry)) (\<lambda>off.
        if unat off = 0 then Inr None
        else if unat off < OFFSET_SIZE \<or> unat off + width > unat tb then Inl OutOfBounds
        else if table + unat off \<ge> length buf then Inl OutOfBounds else Inr (Some (table + unat off))))"
proof -
  have "rbind (fb_at buf vt (unat vb)) f = f (take (unat vb) (drop vt buf))" for f :: "bytes \<Rightarrow> malformed + nat option"
    using assms(6) by (auto simp: fb_at_def)
  then show ?thesis
    using assms(2,3,5) unfolding fb_field_def assms(1,4) rbind_simps Let_def
    by (simp add: assms(4,7) add.assoc)
qed

lemma fb_field_Inr:
  assumes "fb_field buf table slot width = Inr v"
  obtains so vt vb tb where "read_i32 buf table = Inr so" "int table - sint so = int vt" "vt < length buf"
    "read_u16 buf vt = Inr vb" "VTABLE_HEADER \<le> unat vb" "vt + unat vb \<le> length buf" "read_u16 buf (vt + VOFFSET_SIZE) = Inr tb"
proof -
  obtain so where so: "read_i32 buf table = Inr so" using assms by (auto simp: fb_field_def result_iff)
  define vt where "vt = nat (int table - sint so)"
  have vt: "int table - sint so = int vt" "vt < length buf"
    using assms so by (auto simp: fb_field_def Let_def vt_def split: if_splits)
  obtain vb where vb: "read_u16 buf vt = Inr vb"
    using assms vt by (auto simp: fb_field_def Let_def so result_iff split: if_splits)
  have le: "VTABLE_HEADER \<le> unat vb" using assms vt vb by (auto simp: fb_field_def Let_def so split: if_splits)
  have "fb_at buf vt (unat vb) \<noteq> Inl OutOfBounds"
    using assms vt vb le by (auto simp: fb_field_def Let_def so)
  then have at: "vt + unat vb \<le> length buf" using vt(2) by (auto simp: fb_at_def split: if_splits)
  then obtain bs where bs: "fb_at buf vt (unat vb) = Inr bs" using vt(2) by (simp add: fb_at_def le_diff_conv2 add.commute)
  obtain tb where "read_u16 buf (vt + VOFFSET_SIZE) = Inr tb"
    using assms vt vb le bs by (auto simp: fb_field_def Let_def so result_iff)
  then show ?thesis using that so vt vb le at by blast
qed

interpretation rel_field: relative_read "\<lambda>c k. fb_field c k slot width" moved_opt
proof
  fix c k v and pre :: bytes
  assume v: "fb_field c k slot width = Inr v"
  from v obtain so vt vb tb where w: "read_i32 c k = Inr so" "int k - sint so = int vt" "vt < length c"
    "read_u16 c vt = Inr vb" "VTABLE_HEADER \<le> unat vb" "vt + unat vb \<le> length c" "read_u16 c (vt + VOFFSET_SIZE) = Inr tb"
    by (rule fb_field_Inr)
  have "fb_field (pre @ c) (length pre + k) slot width = rbind (fb_field c k slot width) (\<lambda>v. Inr (moved_opt (length pre) v))"
    unfolding fb_field_walk [OF w] using w
    by (subst fb_field_walk [of _ _ so "length pre + vt" vb tb])
      (auto simp: add.assoc Let_def moved_opt_def rbind_def split: sum.splits)
  then show "fb_field (pre @ c) (length pre + k) slot width = Inr (moved_opt (length pre) v)" by (simp add: v)
qed

section \<open>What a reader accepts lies in the buffer\<close>

lemma fb_at_iff [result_iff]: "fb_at buf from n = Inr bs \<longleftrightarrow> from + n \<le> length buf \<and> bs = take n (drop from buf)"
  by (auto simp: fb_at_def)

text \<open>
  What it is for slot \<open>slot\<close> of a table to be found at \<open>p\<close>: the table begins with the signed distance
  back to its vtable, which lies in the buffer with as many bytes as it states; the entry of the slot is
  one of them and is the field's offset in the table, which is past the vtable offset, leaves \<open>width\<close>
  bytes before the end of the table the vtable states, and is in the buffer.
\<close>

lemma fb_field_found:
  "fb_field buf table slot width = Inr (Some p) \<longleftrightarrow>
    (\<exists>so vt vb tb off. read_i32 buf table = Inr so \<and> int vt = int table - sint so \<and>
      read_u16 buf vt = Inr vb \<and> VTABLE_HEADER \<le> unat vb \<and> vt + unat vb \<le> length buf \<and>
      read_u16 buf (vt + VOFFSET_SIZE) = Inr tb \<and>
      VTABLE_HEADER + unat slot * VOFFSET_SIZE + VOFFSET_SIZE \<le> unat vb \<and>
      read_u16 buf (vt + VTABLE_HEADER + unat slot * VOFFSET_SIZE) = Inr off \<and>
      OFFSET_SIZE \<le> unat off \<and> unat off + width \<le> unat tb \<and> p = table + unat off \<and> p < length buf)"
  (is "?L \<longleftrightarrow> ?R")
proof
  assume l: ?L
  then obtain so vt vb tb where w: "read_i32 buf table = Inr so" "int table - sint so = int vt" "vt < length buf"
    "read_u16 buf vt = Inr vb" "VTABLE_HEADER \<le> unat vb" "vt + unat vb \<le> length buf" "read_u16 buf (vt + VOFFSET_SIZE) = Inr tb"
    by (rule fb_field_Inr)
  have "\<exists>off. VTABLE_HEADER + unat slot * VOFFSET_SIZE + VOFFSET_SIZE \<le> unat vb \<and>
      read_u16 buf (vt + VTABLE_HEADER + unat slot * VOFFSET_SIZE) = Inr off \<and>
      OFFSET_SIZE \<le> unat off \<and> unat off + width \<le> unat tb \<and> p = table + unat off \<and> p < length buf"
    using l unfolding fb_field_walk [OF w] by (auto simp: Let_def result_iff add.assoc split: if_splits)
  then show ?R using w by (metis (no_types))
next
  assume ?R
  then obtain so vt vb tb off where w: "read_i32 buf table = Inr so" "int vt = int table - sint so"
    "read_u16 buf vt = Inr vb" "VTABLE_HEADER \<le> unat vb" "vt + unat vb \<le> length buf" "read_u16 buf (vt + VOFFSET_SIZE) = Inr tb"
    and f: "VTABLE_HEADER + unat slot * VOFFSET_SIZE + VOFFSET_SIZE \<le> unat vb"
      "read_u16 buf (vt + VTABLE_HEADER + unat slot * VOFFSET_SIZE) = Inr off"
      "OFFSET_SIZE \<le> unat off" "unat off + width \<le> unat tb" "p = table + unat off" "p < length buf" by blast
  have "vt < length buf" using w(4,5) by (simp add: VTABLE_HEADER_def)
  from fb_field_walk [OF w(1) w(2) [symmetric] this w(3-6), of slot width] f show ?L
    by (simp add: OFFSET_SIZE_def add.assoc)
qed

text \<open>
  C23: What a reader accepts lies in the buffer. A field is found at \<open>p\<close> exactly when it is where the
  table's own vtable places it: the vtable is the signed offset at the table's start before the table
  and lies in the buffer whole, the slot's entry in it gives the field's offset in the table, the field
  is after the vtable offset and ends inside the table the vtable states, and it starts in the buffer.
  A string found is the bytes of the buffer the length before it states, followed by a zero, and is
  UTF-8. A vector found has the length stated before its first element, and every element of it is
  inside the buffer.
\<close>

theorem fb_reads_in_bounds:
  shows "(fb_field buf table slot width = Inr (Some p) \<longleftrightarrow>
      (\<exists>so vt vb tb off. read_i32 buf table = Inr so \<and> int vt = int table - sint so \<and>
        read_u16 buf vt = Inr vb \<and> VTABLE_HEADER \<le> unat vb \<and> vt + unat vb \<le> length buf \<and>
        read_u16 buf (vt + VOFFSET_SIZE) = Inr tb \<and>
        VTABLE_HEADER + unat slot * VOFFSET_SIZE + VOFFSET_SIZE \<le> unat vb \<and>
        read_u16 buf (vt + VTABLE_HEADER + unat slot * VOFFSET_SIZE) = Inr off \<and>
        OFFSET_SIZE \<le> unat off \<and> unat off + width \<le> unat tb \<and> p = table + unat off \<and> p < length buf)) \<and>
    (fb_string buf from = Inr s \<longrightarrow>
      (\<exists>start n. follow buf from = Inr start \<and> read_u32 buf start = Inr n \<and> length s = unat n \<and>
        start + OFFSET_SIZE + length s + 1 \<le> length buf \<and>
        s = take (length s) (drop (start + OFFSET_SIZE) buf) \<and> buf ! (start + OFFSET_SIZE + length s) = 0 \<and> utf8_valid s)) \<and>
    (fb_vector buf from stride = Inr v \<longrightarrow>
      (\<exists>start n. follow buf from = Inr start \<and> read_u32 buf start = Inr n \<and> vec_len v = unat n \<and>
        (\<forall>i < vec_len v. vec_element v i stride = start + OFFSET_SIZE + i * stride \<and>
          vec_element v i stride + stride \<le> length buf)))"
proof (intro conjI impI fb_field_found)
  show "\<exists>start n. follow buf from = Inr start \<and> read_u32 buf start = Inr n \<and> length s = unat n \<and>
      start + OFFSET_SIZE + length s + 1 \<le> length buf \<and>
      s = take (length s) (drop (start + OFFSET_SIZE) buf) \<and> buf ! (start + OFFSET_SIZE + length s) = 0 \<and> utf8_valid s"
    if "fb_string buf from = Inr s"
    using that by (auto simp: fb_string_def result_iff split: if_splits)
  assume v: "fb_vector buf from stride = Inr v"
  then obtain start n span where n: "follow buf from = Inr start" "read_u32 buf start = Inr n" "vec_len v = unat n"
      "vec_first v = start + OFFSET_SIZE"
    and span: "checked_mul_usize (unat n) stride = Some span" "vec_first v + span \<le> length buf"
    by (auto simp: fb_vector_def result_iff Let_def split: option.splits)
  have "vec_element v i stride + stride \<le> length buf" if i: "i < vec_len v" for i
  proof -
    have "Suc i * stride \<le> vec_len v * stride" using i by (intro mult_le_mono1) simp
    then show ?thesis using span n(3) by (auto simp: vec_element_def checked_mul_usize_def split: if_splits)
  qed
  then show "\<exists>start n. follow buf from = Inr start \<and> read_u32 buf start = Inr n \<and> vec_len v = unat n \<and>
      (\<forall>i < vec_len v. vec_element v i stride = start + OFFSET_SIZE + i * stride \<and>
        vec_element v i stride + stride \<le> length buf)"
    using n by (auto simp: vec_element_def)
qed

text \<open>
  One buffer with all three: a vtable of one entry at 0, its table at 6 with a one-byte field at 10,
  and at 11 the offset of a string at 15, read as a vector of its one byte too.
\<close>

lemma sample_reads:
  "fb_field [6, 0, 5, 0, 4, 0, 6, 0, 0, 0, 9, 4, 0, 0, 0, 1, 0, 0, 0, 65, 0] 6 0 1 = Inr (Some 10)"
  "fb_string [6, 0, 5, 0, 4, 0, 6, 0, 0, 0, 9, 4, 0, 0, 0, 1, 0, 0, 0, 65, 0] 11 = Inr [65]"
  "fb_vector [6, 0, 5, 0, 4, 0, 6, 0, 0, 0, 9, 4, 0, 0, 0, 1, 0, 0, 0, 65, 0] 11 1 = Inr \<lparr>vec_len = 1, vec_first = 19\<rparr>"
  by (simp_all add: fb_field_def fb_string_def fb_vector_def follow_def read_u16_def read_i32_def read_u32_def
      read_scalar_def fb_at_def checked_mul_usize_def OFFSET_SIZE_def VTABLE_HEADER_def VOFFSET_SIZE_def Let_def)

theorem fb_reads_in_bounds_witness:
  "let buf = [6, 0, 5, 0, 4, 0, 6, 0, 0, 0, 9, 4, 0, 0, 0, 1, 0, 0, 0, 65, 0] in
     (\<exists>so vt tb. read_i32 buf 6 = Inr so \<and> int vt = int 6 - sint so \<and> read_u16 buf (vt + VOFFSET_SIZE) = Inr tb \<and>
        4 + 1 \<le> unat tb) \<and>
     (\<exists>start. follow buf 11 = Inr start \<and> start + OFFSET_SIZE + 1 + 1 \<le> length buf \<and>
        [65] = take 1 (drop (start + OFFSET_SIZE) buf) \<and> buf ! (start + OFFSET_SIZE + 1) = 0) \<and>
     vec_element \<lparr>vec_len = 1, vec_first = 19\<rparr> 0 1 + 1 \<le> length buf"
proof -
  let ?buf = "[6, 0, 5, 0, 4, 0, 6, 0, 0, 0, 9, 4, 0, 0, 0, 1, 0, 0, 0, 65, 0] :: bytes"
  note all = fb_reads_in_bounds [of ?buf 6 0 1 10 11 "[65]" 1 "\<lparr>vec_len = 1, vec_first = 19\<rparr>"]
  from all [THEN conjunct1, THEN iffD1, OF sample_reads(1)] obtain so vt tb and off :: u16 where f: "read_i32 ?buf 6 = Inr so"
    "int vt = int 6 - sint so" "read_u16 ?buf (vt + VOFFSET_SIZE) = Inr tb" "unat off + 1 \<le> unat tb" "10 = 6 + unat off"
    by (elim exE conjE) blast
  from all [THEN conjunct2, THEN conjunct1, THEN mp, OF sample_reads(2)] obtain start where st: "follow ?buf 11 = Inr start" "start + OFFSET_SIZE + length [65 :: u8] + 1 \<le> length ?buf"
    "[65] = take (length [65 :: u8]) (drop (start + OFFSET_SIZE) ?buf)" "?buf ! (start + OFFSET_SIZE + length [65 :: u8]) = 0"
    by (elim exE conjE) blast
  have "0 < vec_len \<lparr>vec_len = 1, vec_first = 19\<rparr>" by simp
  then have "vec_element \<lparr>vec_len = 1, vec_first = 19\<rparr> 0 1 + 1 \<le> length ?buf"
    using all [THEN conjunct2, THEN conjunct2, THEN mp, OF sample_reads(3)] by (elim exE conjE allE impE)
  moreover have "4 + 1 \<le> unat tb" using f(4,5) by simp
  ultimately show ?thesis using f(1-3) st by (simp add: Let_def) blast
qed

end
