(* ===== verification/Rt_Fb_Roundtrip.thy ===== *)
theory Rt_Fb_Roundtrip
  imports Rt_Flatbuffers
begin

text \<open>
  The FlatBuffers builder and reader together: a table, a string and a vector read back what was
  pushed, objects lie on their boundaries, an encode neither panics nor shows what the slice held.
\<close>

section \<open>What was written is what is read\<close>

text \<open>The debug assertions of \<open>push_table\<close>.\<close>

definition table_fits :: "nat \<Rightarrow> u16 \<Rightarrow> table_field list \<Rightarrow> bool" where
  "table_fits sz slots fs \<longleftrightarrow> OFFSET_SIZE \<le> sz \<and> sz \<le> 65535 \<and> VTABLE_HEADER + unat slots * VOFFSET_SIZE \<le> 65535 \<and>
     (\<forall>f \<in> set fs. OFFSET_SIZE \<le> unat (tf_offset f) \<and> unat (tf_offset f) + value_size (tf_value f) \<le> sz \<and>
        unat (tf_slot f) < unat slots)"

text \<open>
  What a projection promises beyond them, and what reading the fields back needs: fields that do not
  overlap and have slots of their own. The builder does not check it.
\<close>

definition fields_apart :: "table_field \<Rightarrow> table_field \<Rightarrow> bool" where
  "fields_apart f g \<longleftrightarrow> tf_slot f \<noteq> tf_slot g \<and>
     (unat (tf_offset f) + value_size (tf_value f) \<le> unat (tf_offset g) \<or>
      unat (tf_offset g) + value_size (tf_value g) \<le> unat (tf_offset f))"

definition table_ok :: "nat \<Rightarrow> u16 \<Rightarrow> table_field list \<Rightarrow> bool" where
  "table_ok sz slots fs \<longleftrightarrow> table_fits sz slots fs \<and> sorted_wrt fields_apart fs"

lemma table_ok_fits: "table_ok sz slots fs \<Longrightarrow> table_fits sz slots fs"
  by (simp add: table_ok_def)

lemma take_drop_put_at:
  assumes "at + length ys \<le> length xs" "i + n \<le> at \<or> at + length ys \<le> i"
  shows "take n (drop i (put_at xs at ys)) = take n (drop i xs)"
  using assms by (intro nth_equalityI) (auto simp: nth_put_at)

lemma take_drop_put_at_same:
  "at + length ys \<le> length xs \<Longrightarrow> take (length ys) (drop at (put_at xs at ys)) = ys"
  by (simp add: put_at_def)

lemma write_fields_other:
  "write_fields t fs obj = Some obj' \<Longrightarrow>
   \<forall>f \<in> set fs. i + n \<le> unat (tf_offset f) \<or> unat (tf_offset f) + value_size (tf_value f) \<le> i \<Longrightarrow>
   take n (drop i obj') = take n (drop i obj)"
  by (induction fs arbitrary: obj) (auto simp: Let_def copy_into_iff result_iff take_drop_put_at)

lemma write_fields_at:
  "write_fields t fs obj = Some obj' \<Longrightarrow> sorted_wrt fields_apart fs \<Longrightarrow> f \<in> set fs \<Longrightarrow>
   take (value_size (tf_value f)) (drop (unat (tf_offset f)) obj') = value_bytes (t - unat (tf_offset f)) (tf_value f)"
proof (induction fs arbitrary: obj)
  case (Cons g fs)
  let ?g = "value_bytes (t - unat (tf_offset g)) (tf_value g)"
  from Cons.prems(1) have le: "unat (tf_offset g) + length ?g \<le> length obj"
    and w: "write_fields t fs (put_at obj (unat (tf_offset g)) ?g) = Some obj'"
    by (auto simp: Let_def copy_into_iff result_iff)
  show ?case
  proof (cases "f = g \<and> f \<notin> set fs")
    case True
    have "\<forall>h \<in> set fs. unat (tf_offset g) + value_size (tf_value g) \<le> unat (tf_offset h) \<or>
        unat (tf_offset h) + value_size (tf_value h) \<le> unat (tf_offset g)"
      using Cons.prems(2) by (auto simp: fields_apart_def)
    from write_fields_other [OF w this] take_drop_put_at_same [OF le] show ?thesis using True by simp
  next
    case False
    then show ?thesis using Cons.IH [OF w] Cons.prems(2,3) by auto
  qed
qed simp

lemma write_entries_other:
  "write_entries fs obj = Some obj' \<Longrightarrow>
   \<forall>f \<in> set fs. i + n \<le> VTABLE_HEADER + unat (tf_slot f) * VOFFSET_SIZE \<or> VTABLE_HEADER + unat (tf_slot f) * VOFFSET_SIZE + 2 \<le> i \<Longrightarrow>
   take n (drop i obj') = take n (drop i obj)"
  by (induction fs arbitrary: obj) (auto simp: Let_def copy_into_iff result_iff take_drop_put_at)

lemma slots_apart: "s \<noteq> (t :: u16) \<Longrightarrow> VTABLE_HEADER + unat s * VOFFSET_SIZE + 2 \<le> VTABLE_HEADER + unat t * VOFFSET_SIZE \<or>
    VTABLE_HEADER + unat t * VOFFSET_SIZE + 2 \<le> VTABLE_HEADER + unat s * VOFFSET_SIZE"
  using word_unat_eq_iff [of s t] by (auto simp: VOFFSET_SIZE_def)

lemma write_entries_at:
  "write_entries fs obj = Some obj' \<Longrightarrow> sorted_wrt fields_apart fs \<Longrightarrow> f \<in> set fs \<Longrightarrow>
   take 2 (drop (VTABLE_HEADER + unat (tf_slot f) * VOFFSET_SIZE) obj') = le_bytes 2 (tf_offset f)"
proof (induction fs arbitrary: obj)
  case (Cons g fs)
  let ?at = "VTABLE_HEADER + unat (tf_slot g) * VOFFSET_SIZE" and ?g = "le_bytes 2 (tf_offset g)"
  from Cons.prems(1) have le: "?at + length ?g \<le> length obj" and w: "write_entries fs (put_at obj ?at ?g) = Some obj'"
    by (auto simp: Let_def copy_into_iff result_iff)
  show ?case
  proof (cases "f = g \<and> f \<notin> set fs")
    case True
    have "\<forall>h \<in> set fs. ?at + 2 \<le> VTABLE_HEADER + unat (tf_slot h) * VOFFSET_SIZE \<or> VTABLE_HEADER + unat (tf_slot h) * VOFFSET_SIZE + 2 \<le> ?at"
      using Cons.prems(2) slots_apart by (auto simp: fields_apart_def)
    from write_entries_other [OF w this] take_drop_put_at_same [OF le] show ?thesis using True by simp
  next
    case False
    then show ?thesis using Cons.IH [OF w] Cons.prems(2,3) by auto
  qed
qed simp

lemma read_scalar_at: "fb_at buf from n = Inr (le_bytes n w) \<Longrightarrow> LENGTH('a) \<le> 8 * n \<Longrightarrow> read_scalar n buf from = Inr (w :: 'a::len word)"
  by (simp add: read_scalar_def le_word_le_bytes)

lemma fb_at_take: "take n (drop from buf) = bs \<Longrightarrow> from + n \<le> length buf \<Longrightarrow> fb_at buf from n = Inr bs"
  by (simp add: fb_at_def le_diff_conv2 add.commute)

abbreviation entry_of_slot :: "u16 \<Rightarrow> nat" where
  "entry_of_slot slot \<equiv> VTABLE_HEADER + unat slot * VOFFSET_SIZE"

lemma vtable_written:
  assumes "write_entries fs (vtable_blank sz slots) = Some vobj" "sorted_wrt fields_apart fs"
  shows "length vobj = VTABLE_HEADER + unat slots * VOFFSET_SIZE"
    "take 2 vobj = le_bytes 2 (of_nat (VTABLE_HEADER + unat slots * VOFFSET_SIZE) :: u16)"
    "take 2 (drop VOFFSET_SIZE vobj) = le_bytes 2 (of_nat sz :: u16)"
    "f \<in> set fs \<Longrightarrow> take 2 (drop (entry_of_slot (tf_slot f)) vobj) = le_bytes 2 (tf_offset f)"
    "slot \<notin> tf_slot ` set fs \<Longrightarrow> unat slot < unat slots \<Longrightarrow> take 2 (drop (entry_of_slot slot) vobj) = le_bytes 2 (0 :: u16)"
proof -
  show "length vobj = VTABLE_HEADER + unat slots * VOFFSET_SIZE"
    using write_entries_length [OF assms(1)] by (simp add: vtable_blank_def VTABLE_HEADER_def)
  have keep: "\<forall>f \<in> set fs. i + n \<le> entry_of_slot (tf_slot f) \<or> entry_of_slot (tf_slot f) + 2 \<le> i"
    if "i + n \<le> VTABLE_HEADER" for i n using that by auto
  show "take 2 vobj = le_bytes 2 (of_nat (VTABLE_HEADER + unat slots * VOFFSET_SIZE) :: u16)"
    using write_entries_other [OF assms(1) keep, of 0 2] by (simp add: vtable_blank_def VTABLE_HEADER_def)
  show "take 2 (drop VOFFSET_SIZE vobj) = le_bytes 2 (of_nat sz :: u16)"
    using write_entries_other [OF assms(1) keep, of VOFFSET_SIZE 2] by (simp add: vtable_blank_def VTABLE_HEADER_def VOFFSET_SIZE_def)
  show "f \<in> set fs \<Longrightarrow> take 2 (drop (entry_of_slot (tf_slot f)) vobj) = le_bytes 2 (tf_offset f)"
    by (rule write_entries_at [OF assms])
  assume slot: "slot \<notin> tf_slot ` set fs" "unat slot < unat slots"
  have "\<forall>f \<in> set fs. entry_of_slot slot + 2 \<le> entry_of_slot (tf_slot f) \<or> entry_of_slot (tf_slot f) + 2 \<le> entry_of_slot slot"
  proof
    fix f assume "f \<in> set fs"
    with slot(1) have "slot \<noteq> tf_slot f" by auto
    then show "entry_of_slot slot + 2 \<le> entry_of_slot (tf_slot f) \<or> entry_of_slot (tf_slot f) + 2 \<le> entry_of_slot slot"
      by (rule slots_apart)
  qed
  note write_entries_other [OF assms(1) this]
  also have "take 2 (drop (entry_of_slot slot) (vtable_blank sz slots)) = replicate 2 0"
    using slot(2) by (simp add: vtable_blank_def VTABLE_HEADER_def VOFFSET_SIZE_def min_absorb1)
  also have "\<dots> = le_bytes 2 (0 :: u16)" by (simp add: numeral_2_eq_2)
  finally show "take 2 (drop (entry_of_slot slot) vobj) = le_bytes 2 (0 :: u16)" .
qed

text \<open>A table behind its vtable, in the bytes written when the table is done.\<close>

lemma table_walk:
  assumes ok: "table_ok sz slots fs" and v: "write_entries fs (vtable_blank sz slots) = Some vobj"
    and c: "c = (vobj @ replicate vpad 0) @ le_bytes 4 (of_nat table :: i32) @ rest" and table: "table = length vobj + vpad"
    and len: "length c < 2 ^ 31"
  shows "fb_field c table slot width =
     (if unat slot < unat slots then
        rbind (read_scalar 2 vobj (entry_of_slot slot)) (\<lambda>off :: u16.
        if unat off = 0 then Inr None
        else if unat off < OFFSET_SIZE \<or> unat off + width > sz then Inl OutOfBounds
        else if table + unat off \<ge> length c then Inl OutOfBounds else Inr (Some (table + unat off)))
      else Inr None)"
proof -
  let ?vb = "VTABLE_HEADER + unat slots * VOFFSET_SIZE"
  have bound: "sz \<le> 65535" "?vb \<le> 65535" and "sorted_wrt fields_apart fs" using ok by (simp_all add: table_ok_def table_fits_def)
  note w = vtable_written [OF v this(3)]
  have at: "fb_at c i n = fb_at vobj i n" if "i + n \<le> ?vb" for i n
    using that w(1) by (auto simp: c fb_at_def le_diff_conv2)
  have so: "read_i32 c table = Inr (of_nat table)"
    unfolding read_i32_def by (rule read_scalar_at, rule fb_at_take) (simp_all add: c table)
  have "table < 2 ^ 31" using len by (simp add: c table)
  then have vt: "int table - sint (of_nat table :: i32) = int 0" using sint_word_of_int_i32 [of "int table"] by simp
  have vb: "read_u16 c 0 = Inr (of_nat ?vb)"
    unfolding read_u16_def
    by (rule read_scalar_at, subst at, simp add: VTABLE_HEADER_def, rule fb_at_take) (use w(1,2) in \<open>simp_all add: VTABLE_HEADER_def\<close>)
  have tb: "read_u16 c (0 + VOFFSET_SIZE) = Inr (of_nat sz)"
    unfolding read_u16_def add_0
    by (rule read_scalar_at, subst at, simp add: VTABLE_HEADER_def VOFFSET_SIZE_def, rule fb_at_take)
      (use w(1,3) in \<open>simp_all add: VTABLE_HEADER_def VOFFSET_SIZE_def\<close>)
  have un: "unat (of_nat ?vb :: u16) = ?vb" "unat (of_nat sz :: u16) = sz" by (rule unat_of_nat_u16; use bound in simp)+
  have "?vb \<le> length c" "0 < length c" using w(1) by (simp_all add: c VTABLE_HEADER_def)
  moreover have "read_u16 c (entry_of_slot slot) = read_scalar 2 vobj (entry_of_slot slot)" if "unat slot < unat slots"
    unfolding read_u16_def read_scalar_def using that by (subst at) (simp_all add: VOFFSET_SIZE_def)
  moreover have "(?vb < entry_of_slot slot + VOFFSET_SIZE) = (\<not> unat slot < unat slots)" by (auto simp: VOFFSET_SIZE_def)
  ultimately show ?thesis
    using fb_field_walk [OF so vt _ vb _ _ tb, of slot width] unfolding un by simp
qed

lemma table_reads:
  assumes ok: "table_ok sz slots fs" and t: "write_fields p fs (replicate sz 0) = Some tobj"
    and v: "write_entries fs (vtable_blank sz slots) = Some vobj"
    and c: "c = (vobj @ replicate vpad 0) @ le_bytes 4 (of_nat table :: i32) @ drop 4 tobj @ rest"
    and table: "table = length vobj + vpad" and len: "length c < 2 ^ 31"
  shows "f \<in> set fs \<Longrightarrow> fb_field c table (tf_slot f) (value_size (tf_value f)) = Inr (Some (table + unat (tf_offset f)))"
    "f \<in> set fs \<Longrightarrow> fb_at c (table + unat (tf_offset f)) (value_size (tf_value f)) =
       Inr (value_bytes (p - unat (tf_offset f)) (tf_value f))"
    "slot \<notin> tf_slot ` set fs \<Longrightarrow> fb_field c table slot width = Inr None"
proof -
  have tl: "length tobj = sz" "4 \<le> sz" and apart: "sorted_wrt fields_apart fs"
    using write_fields_length [OF t] ok by (simp_all add: table_ok_def table_fits_def OFFSET_SIZE_def)
  have fin: "OFFSET_SIZE \<le> unat (tf_offset f) \<and> unat (tf_offset f) + value_size (tf_value f) \<le> sz \<and> unat (tf_slot f) < unat slots"
    if "f \<in> set fs" for f using ok that by (simp add: table_ok_def table_fits_def)
  have lc: "table + sz \<le> length c" using tl by (simp add: c table)
  note w = vtable_written [OF v apart] and walk = table_walk [OF ok v c table len]
  have entry: "read_scalar 2 vobj (entry_of_slot slot) = Inr off"
    if "take 2 (drop (entry_of_slot slot) vobj) = le_bytes 2 off" "unat slot < unat slots" for slot and off :: u16
    using that w(1) by (intro read_scalar_at fb_at_take) (simp_all add: VOFFSET_SIZE_def)
  show "fb_field c table slot width = Inr None" if "slot \<notin> tf_slot ` set fs"
    using entry [OF w(5) [OF that]] by (simp add: walk)
  assume f: "f \<in> set fs"
  have "unat (tf_offset f) + 1 \<le> sz" using fin [OF f] by (cases "tf_value f") auto
  then show "fb_field c table (tf_slot f) (value_size (tf_value f)) = Inr (Some (table + unat (tf_offset f)))"
    using fin [OF f] lc by (simp add: walk entry [OF w(4) [OF f]] OFFSET_SIZE_def)
  have "drop (table + unat (tf_offset f)) c = drop (unat (tf_offset f)) tobj @ rest"
    using fin [OF f] tl by (simp add: c table OFFSET_SIZE_def)
  then show "fb_at c (table + unat (tf_offset f)) (value_size (tf_value f)) = Inr (value_bytes (p - unat (tf_offset f)) (tf_value f))"
    using fin [OF f] tl lc write_fields_at [OF t apart f] by (intro fb_at_take) simp_all
qed

text \<open>What a generated encoder does: pushes one object after another, and stops at the first that does not fit.\<close>

datatype fb_op = Push_U8 u8 | Push_U16 u16 | Push_U32 u32 | Push_U64 u64 | Push_Offset pos | Push_String bytes
  | Push_Vector bytes nat | Push_Offset_Vector "pos list" | Push_Table nat nat u16 "table_field list"

fun fb_step :: "builder \<Rightarrow> fb_op \<Rightarrow> (pos \<times> builder) build" where
  "fb_step b (Push_U8 v) = push_scalar 1 b v"
| "fb_step b (Push_U16 v) = push_scalar 2 b v"
| "fb_step b (Push_U32 v) = push_scalar 4 b v"
| "fb_step b (Push_U64 v) = push_scalar 8 b v"
| "fb_step b (Push_Offset target) = push_offset b target"
| "fb_step b (Push_String s) = push_string b s"
| "fb_step b (Push_Vector els stride) = push_vector b els stride"
| "fb_step b (Push_Offset_Vector ts) = push_offset_vector b ts"
| "fb_step b (Push_Table sz align slots fs) = push_table b sz align slots fs"

fun fb_run :: "builder \<Rightarrow> fb_op list \<Rightarrow> (pos list \<times> builder) build" where
  "fb_run b [] = Some (Inr ([], b))"
| "fb_run b (op # ops) = bbind (fb_step b op) (\<lambda>(p, b). bbind (fb_run b ops) (\<lambda>(ps, b). Some (Inr (p # ps, b))))"

lemma read_u32_prefix: "buf = le_bytes 4 (d :: u32) @ rest \<Longrightarrow> read_u32 buf 0 = Inr d"
  unfolding read_u32_def by (rule read_scalar_at, rule fb_at_take) simp_all

text \<open>The debug assertions on the operations.\<close>

fun op_ok :: "fb_op \<Rightarrow> bool" where
  "op_ok (Push_Vector els stride) \<longleftrightarrow> 0 < stride \<and> stride dvd length els"
| "op_ok (Push_Table sz align slots fs) \<longleftrightarrow> 0 < align \<and> table_fits sz slots fs"
| "op_ok _ \<longleftrightarrow> True"

lemma fb_step_extends: "fb_step b op = Some (Inr (p, b')) \<Longrightarrow> wf_builder b \<Longrightarrow> op_ok op \<Longrightarrow> extends b b'"
  by (cases op) (auto simp: push_offset_scalar table_ok_def table_fits_def
      intro: push_scalar_ok(1) push_string_ok(1) push_vector_ok(1) push_offset_vector_ok(1) push_table_ok(1))

lemma fb_run_extends: "fb_run b ops = Some (Inr (ps, b')) \<Longrightarrow> wf_builder b \<Longrightarrow> list_all op_ok ops \<Longrightarrow> extends b b'"
proof (induction ops arbitrary: b ps)
  case (Cons op ops)
  then obtain p b1 ps' where "fb_step b op = Some (Inr (p, b1))" "fb_run b1 ops = Some (Inr (ps', b'))" by (auto simp: result_iff)
  then show ?case using Cons fb_step_extends [of b op p b1] extends_trans [of b b1 b'] by (auto simp: extends_def)
qed simp

lemma fb_finish_ok:
  assumes "fb_finish b r align = Some (Inr buf)" "wf_builder b"
  shows "\<exists>b' pad. contents b' = buf \<and> extends b b' \<and> b_used b' = length buf \<and>
     buf = le_bytes 4 (of_nat (delta (length buf) r) :: u32) @ replicate pad 0 @ contents b \<and>
     length buf = b_used b + OFFSET_SIZE + padding (max align OFFSET_SIZE) 0 (b_used b + OFFSET_SIZE)"
proof -
  let ?al = "if align > OFFSET_SIZE then align else OFFSET_SIZE"
  obtain p obj b0 where res: "reserve_skewed b OFFSET_SIZE ?al 0 = Some (Inr (p, obj, b0))"
    and buf: "buf = contents (write_back b0 p (put_at obj 0 (le_bytes 4 (of_nat (delta p r) :: u32))))"
  proof -
    from assms(1) obtain p obj b0 where res: "reserve_skewed b OFFSET_SIZE ?al 0 = Some (Inr (p, obj, b0))"
      and fin: "(let b = write_back b0 p (put_at obj 0 (le_bytes 4 (of_nat (delta p r) :: u32)))
        in drop (length (b_out b) - p) (b_out b)) = buf"
      by (auto simp: fb_finish_def reserve_def result_iff copy_into_iff Let_def)
    have "b_used b0 = p" by (rule reserve_ok(4) [OF res assms(2)])
    with fin show ?thesis by (intro that [OF res]) (simp add: contents_def Let_def write_back_def)
  qed
  note ok = reserve_ok [OF res assms(2)]
  let ?l = "le_bytes 4 (of_nat (delta p r) :: u32)"
  have obj: "put_at obj 0 ?l = ?l" by (simp add: ok(3) put_at_def OFFSET_SIZE_def)
  have "length ?l = OFFSET_SIZE" by (simp add: OFFSET_SIZE_def)
  note w = reserve_write_back [OF res assms(2) this]
  have buf: "buf = contents (write_back b0 p ?l)" by (simp only: buf obj)
  have len: "length buf = p" unfolding buf using w(2,3) by simp
  have al: "?al = max align OFFSET_SIZE" by auto
  have c: "buf = ?l @ replicate (padding ?al 0 (b_used b + OFFSET_SIZE)) 0 @ contents b" using w(1) by (simp only: buf)
  show ?thesis
  proof (intro exI conjI)
    show "contents (write_back b0 p ?l) = buf" by (simp only: buf)
    show "extends b (write_back b0 p ?l)" by (rule w(5))
    show "b_used (write_back b0 p ?l) = length buf" using w(2) len by simp
    show "length buf = b_used b + OFFSET_SIZE + padding (max align OFFSET_SIZE) 0 (b_used b + OFFSET_SIZE)"
      unfolding len al [symmetric] by (rule ok(2))
  qed (subst len, rule c)
qed

lemma finished:
  assumes "fb_run b1 ops = Some (Inr (ps, b2))" "wf_builder b1" "list_all op_ok ops" "fb_finish b2 r al = Some (Inr buf)"
  obtains b3 where "contents b3 = buf" "extends b1 b3" "wf_builder b2" "length (b_out b2) = length (b_out b1)"
proof -
  have e: "extends b1 b2" by (rule fb_run_extends [OF assms(1,2,3)])
  then have wf: "wf_builder b2" by (simp add: extends_def)
  obtain b3 where "contents b3 = buf" "extends b2 b3" using fb_finish_ok [OF assms(4) wf] by blast
  then show ?thesis using that e wf extends_trans [OF e] by (auto simp: extends_def)
qed

section \<open>No panic\<close>

lemma reserve_total:
  assumes "wf_builder b" "0 < align"
  shows "(\<exists>e. reserve_skewed b sz align skew = Some (Inl e)) \<or>
    (\<exists>p b'. reserve_skewed b sz align skew = Some (Inr (p, replicate sz 0, b')) \<and> wf_builder b' \<and> p = b_used b' \<and> b_used b + sz \<le> p)"
proof (cases "reserve_skewed b sz align skew")
  case None
  then show ?thesis using assms by (auto simp: reserve_skewed_def Let_def split: option.splits if_splits)
next
  case (Some r)
  show ?thesis
  proof (cases r)
    case (Inr x)
    obtain p obj b' where "x = (p, obj, b')" by (cases x)
    then have r: "reserve_skewed b sz align skew = Some (Inr (p, obj, b'))" using Some Inr by simp
    show ?thesis using reserve_ok [OF r assms(1)] r by auto
  qed (use Some in simp)
qed

lemma write_fields_total:
  "\<forall>f \<in> set fs. unat (tf_offset f) + value_size (tf_value f) \<le> length obj \<Longrightarrow> \<exists>obj'. write_fields t fs obj = Some obj'"
  by (induction fs arbitrary: obj) (auto simp: Let_def copy_into_def)

lemma write_entries_total:
  "\<forall>f \<in> set fs. entry_of_slot (tf_slot f) + 2 \<le> length obj \<Longrightarrow> \<exists>obj'. write_entries fs obj = Some obj'"
  by (induction fs arbitrary: obj) (auto simp: Let_def copy_into_def)

lemma write_offsets_total:
  "OFFSET_SIZE * (i + 1 + length ts) \<le> length obj \<Longrightarrow> \<exists>obj'. write_offsets p i ts obj = Some obj'"
proof (induction ts arbitrary: i obj)
  case (Cons t ts)
  let ?w = "le_bytes 4 (of_nat (delta (p - OFFSET_SIZE * (i + 1)) t) :: u32)"
  have fit: "OFFSET_SIZE * (i + 1) + 4 \<le> length obj" using Cons.prems by (simp add: OFFSET_SIZE_def)
  then have "\<exists>obj'. write_offsets p (i + 1) ts (put_at obj (OFFSET_SIZE * (i + 1)) ?w) = Some obj'"
    using Cons.prems by (intro Cons.IH) simp
  then show ?case using fit by (simp add: Let_def copy_into_def)
qed simp

lemma push_scalar_total: "wf_builder b \<Longrightarrow> 0 < n \<Longrightarrow> push_scalar n b v \<noteq> None"
  using reserve_total [of b n n 0] by (auto simp: push_scalar_def reserve_def copy_into_def)

lemma push_string_total: "wf_builder b \<Longrightarrow> push_string b s \<noteq> None"
  using reserve_total [of b OFFSET_SIZE "OFFSET_SIZE + length s + 1" 0]
  by (auto simp: push_string_def reserve_def copy_into_def Let_def OFFSET_SIZE_def)

lemma push_vector_total: "wf_builder b \<Longrightarrow> 0 < stride \<Longrightarrow> push_vector b els stride \<noteq> None"
  using reserve_total [of b OFFSET_SIZE "OFFSET_SIZE + length els" 0]
    reserve_total [of b stride "OFFSET_SIZE + length els" OFFSET_SIZE]
  by (auto simp: push_vector_def copy_into_def Let_def OFFSET_SIZE_def)

lemma push_offset_vector_total:
  assumes "wf_builder b"
  shows "push_offset_vector b ts \<noteq> None"
proof (cases "Option.bind (checked_add_usize (length ts) 1) (\<lambda>slots. checked_mul_usize slots OFFSET_SIZE)")
  case None
  then show ?thesis by (simp add: push_offset_vector_def Let_def)
next
  case (Some sz)
  then have sz: "sz = OFFSET_SIZE * (0 + 1 + length ts)"
    by (auto simp: bind_eq_Some_conv checked_add_usize_def checked_mul_usize_def split: if_splits)
  let ?obj = "put_at (replicate sz 0) 0 (le_bytes 4 (of_nat (length ts) :: u32))"
  have fit: "copy_into (replicate sz 0) 0 (le_bytes 4 (of_nat (length ts) :: u32)) = Some ?obj" and len: "length ?obj = sz"
    by (simp_all add: sz copy_into_def OFFSET_SIZE_def)
  have "\<exists>obj'. write_offsets p 0 ts ?obj = Some obj'" for p by (rule write_offsets_total) (simp only: len, simp add: sz)
  then show ?thesis
    using reserve_total [OF assms, of OFFSET_SIZE sz 0] Some
    by (auto simp: push_offset_vector_def reserve_def Let_def OFFSET_SIZE_def fit split: option.split)
qed

lemma vtable_total:
  assumes "table_fits sz slots fs"
  defines "vb \<equiv> VTABLE_HEADER + unat slots * VOFFSET_SIZE"
  shows "\<exists>vobj. Option.bind (copy_into (replicate vb 0) 0 (le_bytes 2 (of_nat vb :: u16)))
      (\<lambda>obj. Option.bind (copy_into obj VOFFSET_SIZE (le_bytes 2 (of_nat sz :: u16))) (write_entries fs)) = Some vobj \<and> length vobj = vb"
proof -
  have blank: "put_at (put_at (replicate vb 0) 0 (le_bytes 2 (of_nat vb :: u16))) VOFFSET_SIZE (le_bytes 2 (of_nat sz :: u16)) =
      vtable_blank sz slots"
    by (simp add: put_at_def vtable_blank_def VTABLE_HEADER_def VOFFSET_SIZE_def vb_def)
  have "\<exists>vobj. write_entries fs (vtable_blank sz slots) = Some vobj"
    using assms by (intro write_entries_total) (auto simp: table_ok_def table_fits_def vtable_blank_def VTABLE_HEADER_def VOFFSET_SIZE_def)
  then obtain vobj where "write_entries fs (vtable_blank sz slots) = Some vobj" ..
  then show ?thesis
    using write_entries_length [of fs "vtable_blank sz slots"] blank
    by (auto simp: copy_into_def vtable_blank_def VTABLE_HEADER_def VOFFSET_SIZE_def vb_def)
qed

lemma push_table_total:
  assumes wf: "wf_builder b" and al: "0 < align" and ok: "table_fits sz slots fs"
  shows "push_table b sz align slots fs \<noteq> None"
  using reserve_total [OF wf al, of sz 0]
proof (elim disjE exE conjE)
  fix p b1 assume r: "reserve_skewed b sz align 0 = Some (Inr (p, replicate sz 0, b1))"
    and b1: "wf_builder b1" "p = b_used b1" "b_used b + sz \<le> p"
  have sz: "4 \<le> p" using ok b1(3) by (simp add: table_ok_def table_fits_def OFFSET_SIZE_def)
  obtain tobj where t: "write_fields p fs (replicate sz 0) = Some tobj"
    using write_fields_total [of fs "replicate sz 0" p] ok by (auto simp: table_ok_def table_fits_def)
  have "length tobj \<le> b_used b1" using write_fields_length [OF t] b1 by simp
  note wb = write_back_ok(2,3) [OF b1(1) this, folded b1(2)]
  let ?b = "write_back b1 p tobj" and ?vb = "VTABLE_HEADER + unat slots * VOFFSET_SIZE"
  obtain vobj where v: "Option.bind (copy_into (replicate ?vb 0) 0 (le_bytes 2 (of_nat ?vb :: u16)))
      (\<lambda>obj. Option.bind (copy_into obj VOFFSET_SIZE (le_bytes 2 (of_nat sz :: u16))) (write_entries fs)) = Some vobj" and vl: "length vobj = ?vb"
    using vtable_total [OF ok] by blast
  have two: "0 < VOFFSET_SIZE" by (simp add: VOFFSET_SIZE_def)
  show ?thesis
    using reserve_total [OF wb(2) two, of ?vb 0]
  proof (elim disjE exE conjE)
    fix v b2 assume rv: "reserve_skewed ?b ?vb VOFFSET_SIZE 0 = Some (Inr (v, replicate ?vb 0, b2))"
      and b2: "wf_builder b2" "v = b_used b2" "b_used ?b + ?vb \<le> v"
    have "length vobj \<le> b_used b2" using vl b2 by simp
    note wv = write_back_ok(2,3) [OF b2(1) this, folded b2(2)]
    have "p \<le> length (b_out (write_back b2 v vobj))" using wv wb(1) b2(3) by (simp add: wf_builder_def)
    then have "copy_into (b_out (write_back b2 v vobj)) (length (b_out (write_back b2 v vobj)) - p) (le_bytes 4 (of_nat (v - p) :: i32)) \<noteq> None"
      using sz by (auto simp: copy_into_def)
    then show ?thesis
      unfolding push_table_def reserve_def r bbind_simps prod.case t option.case Let_def rv case_case_option v by auto
  qed (simp_all add: push_table_def reserve_def r t Let_def VOFFSET_SIZE_def)
qed (simp_all add: push_table_def reserve_def)

lemma fb_step_total: "wf_builder b \<Longrightarrow> op_ok op \<Longrightarrow> fb_step b op \<noteq> None"
  by (cases op) (simp_all add: push_offset_scalar push_scalar_total push_string_total push_vector_total
      push_offset_vector_total push_table_total del: not_None_eq)

lemma fb_run_total: "wf_builder b \<Longrightarrow> list_all op_ok ops \<Longrightarrow> fb_run b ops \<noteq> None"
proof (induction ops arbitrary: b)
  case (Cons op ops)
  then have "fb_step b op \<noteq> None" using fb_step_total by simp
  then obtain r where r: "fb_step b op = Some r" by blast
  show ?case
  proof (cases r)
    case (Inr x)
    then have "wf_builder (snd x)"
      using fb_step_extends [of b op "fst x" "snd x"] r Cons.prems by (simp add: extends_def)
    then have "fb_run (snd x) ops \<noteq> None" using Cons by simp
    then show ?thesis by (auto simp: r Inr bbind_def split: prod.splits sum.splits)
  qed (simp add: r)
qed simp

lemma fb_finish_total: "wf_builder b \<Longrightarrow> fb_finish b r al \<noteq> None"
  using reserve_total [of b "if al > OFFSET_SIZE then al else OFFSET_SIZE" OFFSET_SIZE 0]
  by (auto simp: fb_finish_def reserve_def copy_into_def Let_def OFFSET_SIZE_def split: if_splits)

lemma reserve_fits:
  assumes "wf_builder b" "0 < align" "b_used b + sz + padding align skew (b_used b + sz) \<le> length (b_out b)"
  obtains b' where "reserve_skewed b sz align skew = Some (Inr (b_used b + sz + padding align skew (b_used b + sz), replicate sz 0, b'))"
    "b_used b' = b_used b + sz + padding align skew (b_used b + sz)" "wf_builder b'" "length (b_out b') = length (b_out b)"
proof -
  obtain p obj b' where r: "reserve_skewed b sz align skew = Some (Inr (p, obj, b'))"
    using assms by (auto simp: reserve_skewed_def Let_def checked_add_usize_def wf_builder_def)
  show ?thesis using that r reserve_ok [OF r assms(1)] by auto
qed

lemma push_string_fits:
  assumes "wf_builder b" "q = b_used b + (5 + length s) + padding 4 0 (b_used b + (5 + length s))" "q \<le> length (b_out b)"
  shows "\<exists>b'. push_string b s = Some (Inr (q, b')) \<and> wf_builder b' \<and> b_used b' = q \<and> length (b_out b') = length (b_out b)"
proof -
  have "OFFSET_SIZE + length s + 1 = 5 + length s" by (simp add: OFFSET_SIZE_def)
  note sz = this
  obtain b1 where r: "reserve_skewed b (5 + length s) OFFSET_SIZE 0 = Some (Inr (q, replicate (5 + length s) 0, b1))"
    by (rule reserve_fits [OF assms(1), of OFFSET_SIZE "5 + length s" 0]) (use assms(2,3) in \<open>auto simp: OFFSET_SIZE_def\<close>)
  have "push_string b s \<noteq> None" by (rule push_string_total [OF assms(1)])
  then obtain b' where b': "push_string b s = Some (Inr (q, b'))"
    unfolding push_string_def Let_def reserve_def sz r bbind_simps prod.case by (auto split: option.splits)
  then show ?thesis using push_string_ok(1,2) [OF b' assms(1)] by (auto simp: extends_def)
qed

lemma push_scalar_fits:
  assumes "wf_builder b" "0 < n" "q = b_used b + n + padding n 0 (b_used b + n)" "q \<le> length (b_out b)"
  shows "\<exists>b'. push_scalar n b v = Some (Inr (q, b')) \<and> wf_builder b' \<and> b_used b' = q \<and> length (b_out b') = length (b_out b)"
proof -
  obtain b1 where r: "reserve_skewed b n n 0 = Some (Inr (q, replicate n 0, b1))"
    by (rule reserve_fits [OF assms(1,2), of n 0]) (use assms in auto)
  obtain b' where b': "push_scalar n b v = Some (Inr (q, b'))"
    using push_scalar_total [OF assms(1,2), of v] unfolding push_scalar_def reserve_def r bbind_simps prod.case
    by (auto split: option.splits)
  then show ?thesis using push_scalar_ok(1,2) [OF b' assms(1)] by (auto simp: extends_def)
qed

lemma push_vector_fits:
  assumes "wf_builder b" "0 < stride" "stride \<le> 4" "q = b_used b + (4 + length els) + padding 4 0 (b_used b + (4 + length els))"
    "q \<le> length (b_out b)"
  shows "\<exists>b'. push_vector b els stride = Some (Inr (q, b')) \<and> wf_builder b' \<and> b_used b' = q \<and> length (b_out b') = length (b_out b)"
proof -
  obtain b1 where r: "reserve_skewed b (4 + length els) 4 0 = Some (Inr (q, replicate (4 + length els) 0, b1))"
    by (rule reserve_fits [OF assms(1), of 4 "4 + length els" 0]) (use assms in auto)
  obtain b' where b': "push_vector b els stride = Some (Inr (q, b'))"
    using push_vector_total [OF assms(1,2), of els] assms(2,3)
    by (auto simp: push_vector_def OFFSET_SIZE_def Let_def r split: option.splits)
  then show ?thesis using push_vector_ok(1,2) [OF b' assms(1)] by (auto simp: extends_def)
qed

lemma push_table_fits:
  assumes wf: "wf_builder b" and al: "0 < align" and ok: "table_fits sz slots fs"
    and p: "p = b_used b + sz + padding align 0 (b_used b + sz)"
    and v: "v = p + entry_of_slot slots + padding VOFFSET_SIZE 0 (p + entry_of_slot slots)" "v \<le> length (b_out b)"
  shows "\<exists>b'. push_table b sz align slots fs = Some (Inr (p, b')) \<and> wf_builder b' \<and> b_used b' = v \<and> length (b_out b') = length (b_out b)"
proof -
  obtain b1 where r: "reserve_skewed b sz align 0 = Some (Inr (p, replicate sz 0, b1))"
    and b1: "b_used b1 = p" "wf_builder b1" "length (b_out b1) = length (b_out b)"
    by (rule reserve_fits [OF wf al, of sz 0]) (use p v in auto)
  obtain tobj where t: "write_fields p fs (replicate sz 0) = Some tobj"
    using write_fields_total [of fs "replicate sz 0" p] ok by (auto simp: table_ok_def table_fits_def)
  have "length tobj \<le> b_used b1" using write_fields_length [OF t] b1(1) p by simp
  note wb = write_back_ok(2,3,4) [OF b1(2) this, unfolded b1(1)]
  have two: "0 < VOFFSET_SIZE" by (simp add: VOFFSET_SIZE_def)
  obtain b2 where rv: "reserve_skewed (write_back b1 p tobj) (entry_of_slot slots) VOFFSET_SIZE 0 =
      Some (Inr (v, replicate (entry_of_slot slots) 0, b2))" and b2: "b_used b2 = v"
    by (rule reserve_fits [OF wb(2) two, of "entry_of_slot slots" 0]) (use wb b1 v in auto)
  have "push_table b sz align slots fs \<noteq> None" by (rule push_table_total [OF wf al ok])
  then obtain b' where b': "push_table b sz align slots fs = Some (Inr (p, b'))" "b_used b' = v"
    unfolding push_table_def reserve_def r bbind_simps prod.case t option.case Let_def rv
    by (auto split: option.splits simp: write_back_def b2)
  have "OFFSET_SIZE \<le> sz" using ok by (simp add: table_ok_def table_fits_def)
  from push_table_ok(1) [OF b'(1) wf this] b' show ?thesis by (auto simp: extends_def)
qed

lemma fb_finish_fits:
  assumes "wf_builder b" "b_used b + 4 + padding (max al 4) 0 (b_used b + 4) \<le> length (b_out b)"
  shows "\<exists>buf. fb_finish b r al = Some (Inr buf)"
proof -
  have al: "(if al > OFFSET_SIZE then al else OFFSET_SIZE) = max al 4" by (auto simp: OFFSET_SIZE_def)
  obtain p obj b1 where r: "reserve_skewed b OFFSET_SIZE (max al 4) 0 = Some (Inr (p, obj, b1))"
    by (rule reserve_fits [OF assms(1), of "max al 4" OFFSET_SIZE 0]) (use assms(2) in \<open>auto simp: OFFSET_SIZE_def\<close>)
  have "fb_finish b r al \<noteq> None" by (rule fb_finish_total [OF assms(1)])
  then show ?thesis
    unfolding fb_finish_def Let_def al reserve_def r bbind_simps prod.case by (auto split: option.splits)
qed
text \<open>
  C22: No encode panics. Pushes that meet the builder's debug assertions (a positive stride that
  divides the elements, a positive alignment, and for a table the four assertions of \<open>push_table\<close>:
  nothing is asked of overlapping fields or repeated slots), and \<open>finish\<close> after them, return: what
  does not fit in the slice is the capacity error, never an index out of range.
\<close>

theorem builder_total:
  assumes "length out \<le> usize_max" "list_all op_ok ops"
  shows "bbind (fb_run (builder_new out) ops) (\<lambda>(ps, b). fb_finish b r al) \<noteq> None"
proof -
  have wf: "wf_builder (builder_new out)" by (rule wf_builder_new [OF assms(1)])
  have "wf_builder b" if "fb_run (builder_new out) ops = Some (Inr (ps, b))" for ps b
    using fb_run_extends [OF that wf assms(2)] by (simp add: extends_def)
  then show ?thesis
    using fb_run_total [OF wf assms(2)] fb_finish_total by (auto simp: bbind_def split: option.splits sum.splits)
qed

theorem builder_total_witness:
  "bbind (fb_run (builder_new (replicate 40 7)) [Push_String [65], Push_Offset 8,
       Push_Table 8 4 1 [\<lparr>tf_slot = 0, tf_offset = 4, tf_value = FU32 9\<rparr>, \<lparr>tf_slot = 0, tf_offset = 5, tf_value = FU8 3\<rparr>]])
     (\<lambda>(ps, b). fb_finish b 12 8) \<noteq> None"
  by (rule builder_total) (simp_all add: table_fits_def OFFSET_SIZE_def VTABLE_HEADER_def VOFFSET_SIZE_def)

section \<open>Round trips\<close>

text \<open>A table's reads in any buffer its builder was extended to.\<close>

lemma push_table_reads:
  assumes wf: "wf_builder b" "length (b_out b) < 2 ^ 31" and push: "push_table b sz align slots fs = Some (Inr (p, b1))"
    and ok: "table_ok sz slots fs" and ext: "extends b1 b3" and buf: "contents b3 = buf"
  shows "p \<le> length buf" "0 < p" "wf_builder b1" "extends b b1" "b_used b < p"
    "f \<in> set fs \<Longrightarrow> fb_field buf (length buf - p) (tf_slot f) (value_size (tf_value f)) = Inr (Some (length buf - p + unat (tf_offset f)))"
    "f \<in> set fs \<Longrightarrow> fb_at buf (length buf - p + unat (tf_offset f)) (value_size (tf_value f)) =
       Inr (value_bytes (p - unat (tf_offset f)) (tf_value f))"
    "slot \<notin> tf_slot ` set fs \<Longrightarrow> fb_field buf (length buf - p) slot width = Inr None"
proof -
  have sz: "OFFSET_SIZE \<le> sz" using ok by (simp add: table_ok_def table_fits_def)
  note t = push_table_ok [OF push wf(1) sz]
  obtain tobj vobj vpad tpad where w: "write_fields p fs (replicate sz 0) = Some tobj" "write_entries fs (vtable_blank sz slots) = Some vobj"
    and c: "contents b1 = (vobj @ replicate vpad 0) @ le_bytes 4 (of_nat (length vobj + vpad) :: i32) @ drop 4 tobj @ replicate tpad 0 @ contents b"
    and p: "p = sz + tpad + b_used b" using t(3) by blast
  show wf1: "wf_builder b1" and "extends b b1" using t(1) by (auto simp: extends_def)
  have wf3: "wf_builder b3" using ext by (auto simp: extends_def)
  obtain pre where pre: "buf = pre @ contents b1" using ext buf by (auto simp: extends_def)
  have len: "length buf = b_used b3" using wf3 buf by auto
  have le13: "b_used b1 \<le> b_used b3" using arg_cong [OF pre, of length] wf1 len by simp
  have small: "length (contents b1) < 2 ^ 31" using wf t(1) by (simp add: extends_def wf_builder_def wf1)
  have used: "b_used b1 = length vobj + vpad + p"
    using arg_cong [OF c, of length] wf1 wf(1) write_fields_length [OF w(1)] sz p by (simp add: OFFSET_SIZE_def)
  show "p \<le> length buf" "0 < p" "b_used b < p" using used le13 len p sz by (simp_all add: OFFSET_SIZE_def)
  note r = table_reads [OF ok w c refl small]
  have at: "length vobj + vpad = b_used b1 - p" using used by simp
  show "slot \<notin> tf_slot ` set fs \<Longrightarrow> fb_field buf (length buf - p) slot width = Inr None"
    using rel_field.rd_kept [OF ext wf1 r(3) [unfolded at]] used len buf by (simp add: moved_opt_def)
  assume f: "f \<in> set fs"
  show "fb_field buf (length buf - p) (tf_slot f) (value_size (tf_value f)) = Inr (Some (length buf - p + unat (tf_offset f)))"
    using rel_field.rd_kept [OF ext wf1 r(1) [OF f, unfolded at]] used len le13 buf by (simp add: moved_opt_def)
  have off: "unat (tf_offset f) \<le> p" using ok f p by (auto simp: table_ok_def table_fits_def)
  then have "length vobj + vpad + unat (tf_offset f) = b_used b1 - (p - unat (tf_offset f))" using used by simp
  from rel_at.rd_kept [OF ext wf1 r(2) [OF f, unfolded this]] used off len le13 buf
  show "fb_at buf (length buf - p + unat (tf_offset f)) (value_size (tf_value f)) = Inr (value_bytes (p - unat (tf_offset f)) (tf_value f))"
    by simp
qed

lemma finish_root:
  assumes "fb_finish b r align = Some (Inr buf)" "wf_builder b" "length (b_out b) < 2 ^ 32" "0 < r" "r \<le> length buf"
  shows "fb_root buf = Inr (length buf - r)"
proof -
  obtain b' pad where b': "contents b' = buf" "extends b b'"
    and buf: "buf = le_bytes 4 (of_nat (delta (length buf) r) :: u32) @ replicate pad 0 @ contents b"
    using fb_finish_ok [OF assms(1,2)] by blast
  have "length buf = b_used b'" using b' length_contents [of b'] by (simp add: extends_def)
  then have "length buf \<le> length (b_out b)" using b'(2) by (simp add: extends_def wf_builder_def)
  then have d: "unat (of_nat (delta (length buf) r) :: u32) = length buf - r"
    using assms(3) by (subst unat_of_nat_u32) (simp_all add: delta_def)
  have "read_u32 buf 0 = Inr (of_nat (delta (length buf) r))" by (rule read_u32_prefix [OF buf])
  then show ?thesis using assms(4,5) by (simp add: fb_root_def follow_def d Let_def)
qed

text \<open>
  C19: A table reads back. When \<open>push_table\<close> wrote a table of a layout its assertions admit, whatever
  is pushed after it, and the buffer is finished with the table as its root: the root is the table;
  each field is found at its slot, at its offset, with the bytes of its value; a slot no field has is
  absent. (Offsets are 32 bits, the one to a vtable signed, so the slice is shorter than 2 GiB.)
\<close>

theorem table_roundtrip:
  assumes wf: "wf_builder b" and small: "length (b_out b) < 2 ^ 31"
    and push: "push_table b sz align slots fs = Some (Inr (p, b1))" and ok: "table_ok sz slots fs"
    and run: "fb_run b1 ops = Some (Inr (ps, b2))" "list_all op_ok ops"
    and finish: "fb_finish b2 p al = Some (Inr buf)"
  shows "fb_root buf = Inr (length buf - p) \<and>
    (\<forall>f \<in> set fs.
       fb_field buf (length buf - p) (tf_slot f) (value_size (tf_value f)) = Inr (Some (length buf - p + unat (tf_offset f))) \<and>
       fb_at buf (length buf - p + unat (tf_offset f)) (value_size (tf_value f)) =
         Inr (value_bytes (p - unat (tf_offset f)) (tf_value f))) \<and>
    (\<forall>slot width. slot \<notin> tf_slot ` set fs \<longrightarrow> fb_field buf (length buf - p) slot width = Inr None)"
proof -
  have wf1: "wf_builder b1" "length (b_out b1) = length (b_out b)"
    using push_table_ok(1) [OF push wf] ok by (simp_all add: extends_def table_ok_def table_fits_def)
  obtain b3 where b3: "contents b3 = buf" "extends b1 b3" "wf_builder b2" "length (b_out b2) = length (b_out b1)"
    by (rule finished [OF run(1) wf1(1) run(2) finish])
  note r = push_table_reads [OF wf small push ok b3(2,1)]
  have "fb_root buf = Inr (length buf - p)"
    using finish_root [OF finish b3(3) _ r(2,1)] b3(4) wf1(2) small by simp
  then show ?thesis using r(6,7,8) by blast
qed

theorem table_roundtrip_witness:
  "\<exists>(b1 :: builder) buf. push_table (builder_new (replicate 20 7)) 8 4 2 [\<lparr>tf_slot = 0, tf_offset = 4, tf_value = FU32 9\<rparr>] = Some (Inr (8, b1)) \<and>
     fb_finish b1 8 4 = Some (Inr buf) \<and> fb_root buf = Inr (length buf - 8) \<and>
     fb_field buf (length buf - 8) 0 4 = Inr (Some (length buf - 8 + 4)) \<and> read_u32 buf (length buf - 8 + 4) = Inr 9 \<and>
     fb_field buf (length buf - 8) 1 4 = Inr None"
proof -
  let ?b = "builder_new (replicate 20 7)" and ?fs = "[\<lparr>tf_slot = 0, tf_offset = 4, tf_value = FU32 9\<rparr>]"
  have wf: "wf_builder ?b" "length (b_out ?b) = 20" "b_used ?b = 0" by (simp_all add: wf_builder_def builder_new_def)
  have ok: "table_ok 8 2 ?fs" by (simp add: table_ok_def table_fits_def OFFSET_SIZE_def VTABLE_HEADER_def VOFFSET_SIZE_def)
  obtain b1 where b1: "push_table ?b 8 4 2 ?fs = Some (Inr (8, b1))" "wf_builder b1" "b_used b1 = 16" "length (b_out b1) = 20"
    using push_table_fits [OF wf(1) _ table_ok_fits [OF ok], of 4 8 16] by (auto simp: wf padding_def VTABLE_HEADER_def VOFFSET_SIZE_def)
  obtain buf where buf: "fb_finish b1 8 4 = Some (Inr buf)"
    using fb_finish_fits [OF b1(2), of 4 8] by (auto simp: b1 padding_def)
  have "fb_root buf = Inr (length buf - 8) \<and>
    (\<forall>f \<in> set ?fs. fb_field buf (length buf - 8) (tf_slot f) (value_size (tf_value f)) = Inr (Some (length buf - 8 + unat (tf_offset f))) \<and>
       fb_at buf (length buf - 8 + unat (tf_offset f)) (value_size (tf_value f)) = Inr (value_bytes (8 - unat (tf_offset f)) (tf_value f))) \<and>
    (\<forall>slot width. slot \<notin> tf_slot ` set ?fs \<longrightarrow> fb_field buf (length buf - 8) slot width = Inr None)"
    by (rule table_roundtrip [OF wf(1) _ b1(1) ok _ _ buf, of "[]" "[]"]) (simp_all add: wf)
  then have "fb_root buf = Inr (length buf - 8)" "fb_field buf (length buf - 8) 0 4 = Inr (Some (length buf - 8 + 4))"
    "fb_at buf (length buf - 8 + 4) 4 = Inr (le_bytes 4 (9 :: u32))" "fb_field buf (length buf - 8) 1 4 = Inr None" by simp_all
  then show ?thesis using b1(1) buf by (auto simp: read_u32_def intro!: read_scalar_at)
qed

text \<open>An offset field leads to the object it was given.\<close>

lemma offset_field_followed:
  assumes wf: "wf_builder b" and small: "length (b_out b) < 2 ^ 31" and q: "0 < q" "q \<le> b_used b"
    and push: "push_table b sz align slots fs = Some (Inr (p, b1))" and ok: "table_ok sz slots fs"
    and f: "f \<in> set fs" "tf_value f = FOffset q"
    and run: "fb_run b1 ops = Some (Inr (ps, b2))" "list_all op_ok ops"
    and finish: "fb_finish b2 p al = Some (Inr buf)"
  shows "\<exists>t at pre. fb_root buf = Inr t \<and> fb_field buf t (tf_slot f) 4 = Inr (Some at) \<and>
    follow buf at = Inr (length buf - q) \<and> buf = pre @ contents b"
proof -
  have wf1: "wf_builder b1" "length (b_out b1) = length (b_out b)" "extends b b1"
    using push_table_ok(1) [OF push wf] ok by (simp_all add: extends_def table_ok_def table_fits_def)
  obtain b3 where b3: "contents b3 = buf" "extends b1 b3" "wf_builder b2" "length (b_out b2) = length (b_out b1)"
    by (rule finished [OF run(1) wf1(1) run(2) finish])
  note r = push_table_reads [OF wf small push ok b3(2,1)]
  let ?off = "unat (tf_offset f)" and ?t = "length buf - p"
  have le: "?off + 4 \<le> sz" using ok f by (auto simp: table_ok_def table_fits_def)
  have pb: "b_used b + sz \<le> p" using push_table_ok(2) [OF push wf] ok by (simp add: table_ok_def table_fits_def)
  have "wf_builder b3" "length (b_out b3) = length (b_out b)" using b3(2) wf1(2) by (simp_all add: extends_def)
  then have lb: "length buf < 2 ^ 31" using small length_contents [of b3] b3(1) by (simp add: wf_builder_def)
  have "unat (of_nat (delta (p - ?off) q) :: u32) = p - ?off - q"
    using r(1) lb by (subst unat_of_nat_u32) (simp_all add: delta_def)
  moreover have "read_u32 buf (?t + ?off) = Inr (of_nat (delta (p - ?off) q))"
    unfolding read_u32_def by (rule read_scalar_at) (use r(7) [OF f(1)] f(2) in simp_all)
  moreover have "?t + ?off + (p - ?off - q) = length buf - q" using r(1) le pb q by simp
  ultimately have "follow buf (?t + ?off) = Inr (length buf - q)" using q r(1) pb by (simp add: follow_def Let_def)
  moreover have "fb_root buf = Inr ?t" using finish_root [OF finish b3(3) _ r(2,1)] b3(4) wf1(2) small by simp
  moreover have "\<exists>pre. buf = pre @ contents b" using extends_trans [OF wf1(3) b3(2)] b3(1) by (auto simp: extends_def)
  ultimately show ?thesis using r(6) [OF f(1)] f(2) by auto
qed

lemma named_object:
  assumes wf: "wf_builder b1" "length (b_out b1) < 2 ^ 31" and q: "q = b_used b1" "0 < q"
    and run1: "fb_run b1 ops1 = Some (Inr (ps1, b2))" "list_all op_ok ops1"
    and push: "push_table b2 sz align slots fs = Some (Inr (p, b3))" "table_ok sz slots fs"
    and f: "f \<in> set fs" "tf_value f = FOffset q"
    and run2: "fb_run b3 ops2 = Some (Inr (ps2, b4))" "list_all op_ok ops2"
    and finish: "fb_finish b4 p al = Some (Inr buf)"
  shows "\<exists>t at pre. fb_root buf = Inr t \<and> fb_field buf t (tf_slot f) 4 = Inr (Some at) \<and>
    follow buf at = Inr (length pre) \<and> buf = pre @ contents b1"
proof -
  obtain pre1 where c2: "contents b2 = pre1 @ contents b1" "wf_builder b2" "length (b_out b2) = length (b_out b1)"
    using fb_run_extends [OF run1(1) wf(1) run1(2)] by (auto simp: extends_def)
  have le: "q \<le> b_used b2" using q arg_cong [OF c2(1), of length] c2(2) wf by simp
  obtain t at pre where r: "fb_root buf = Inr t" "fb_field buf t (tf_slot f) 4 = Inr (Some at)"
      "follow buf at = Inr (length buf - q)" "buf = pre @ contents b2"
    using offset_field_followed [OF c2(2) _ q(2) le push f run2 finish] wf(2) c2(3) by auto
  have "length buf - q = length (pre @ pre1)" using q wf(1) by (simp add: r(4) c2(1))
  then show ?thesis using r c2(1) by (intro exI [of _ t] exI [of _ at] exI [of _ "pre @ pre1"]) simp
qed

lemma string_at:
  assumes "buf = pre @ le_bytes 4 (of_nat (length s) :: u32) @ s @ 0 # rest" "follow buf from = Inr (length pre)"
    "length s < 2 ^ 32" "utf8_valid s"
  shows "fb_string buf from = Inr s"
proof -
  have n: "unat (of_nat (length s) :: u32) = length s" by (rule unat_of_nat_u32 [OF assms(3)])
  have "read_u32 buf (length pre + 0) = Inr (of_nat (length s))" unfolding assms(1) read_shift by (rule read_u32_prefix) simp
  moreover have "fb_at buf (length pre + OFFSET_SIZE) (length s) = Inr s" "fb_at buf (length pre + OFFSET_SIZE + length s) 1 = Inr [0]"
    by (rule fb_at_take; simp add: assms(1) OFFSET_SIZE_def)+
  ultimately show ?thesis using assms(2,4) by (simp add: fb_string_def n)
qed

text \<open>
  C20: A string reads back. A string pushed, later named by an offset field of the root table, with
  anything pushed between them and after, is the string a reader finds in the finished buffer by the
  root, the field's slot and the offset.
\<close>

theorem string_field_roundtrip:
  assumes wf: "wf_builder b" and small: "length (b_out b) < 2 ^ 31"
    and str: "push_string b s = Some (Inr (q, b1))" "utf8_valid s"
    and run1: "fb_run b1 ops1 = Some (Inr (ps1, b2))" "list_all op_ok ops1"
    and push: "push_table b2 sz align slots fs = Some (Inr (p, b3))" "table_ok sz slots fs"
    and f: "f \<in> set fs" "tf_value f = FOffset q"
    and run2: "fb_run b3 ops2 = Some (Inr (ps2, b4))" "list_all op_ok ops2"
    and finish: "fb_finish b4 p al = Some (Inr buf)"
  shows "\<exists>t at. fb_root buf = Inr t \<and> fb_field buf t (tf_slot f) 4 = Inr (Some at) \<and> fb_string buf at = Inr s"
proof -
  note o1 = push_string_ok [OF str(1) wf]
  have wf1: "wf_builder b1" "length (b_out b1) < 2 ^ 31" using o1(1) small by (auto simp: extends_def)
  have n: "b_used b1 = length (contents b1)" using wf1(1) by simp
  then have pos: "0 < q" "length s < 2 ^ 32" using o1(2,3) wf1 by (auto simp: wf_builder_def)
  obtain t at pre where r: "fb_root buf = Inr t" "fb_field buf t (tf_slot f) 4 = Inr (Some at)"
      "follow buf at = Inr (length pre)" "buf = pre @ contents b1"
    using named_object [OF wf1 o1(2) pos(1) run1 push f run2 finish] by blast
  then show ?thesis using string_at [OF r(4) [unfolded o1(3)] r(3) pos(2) str(2)] by blast
qed

theorem string_field_roundtrip_witness:
  "\<exists>(b1 :: builder) (b3 :: builder) buf t at. push_string (builder_new (replicate 28 7)) [65] = Some (Inr (8, b1)) \<and>
     push_table b1 8 4 1 [\<lparr>tf_slot = 0, tf_offset = 4, tf_value = FOffset 8\<rparr>] = Some (Inr (16, b3)) \<and>
     fb_finish b3 16 4 = Some (Inr buf) \<and>
     fb_root buf = Inr t \<and> fb_field buf t 0 4 = Inr (Some at) \<and> fb_string buf at = Inr [65]"
proof -
  let ?b = "builder_new (replicate 28 7)" and ?fs = "[\<lparr>tf_slot = 0, tf_offset = 4, tf_value = FOffset 8\<rparr>]"
  have wf: "wf_builder ?b" "length (b_out ?b) = 28" "b_used ?b = 0" by (simp_all add: wf_builder_def builder_new_def)
  have ok: "table_ok 8 1 ?fs" by (simp add: table_ok_def table_fits_def OFFSET_SIZE_def VTABLE_HEADER_def VOFFSET_SIZE_def)
  obtain b1 where b1: "push_string ?b [65] = Some (Inr (8, b1))" "wf_builder b1" "b_used b1 = 8" "length (b_out b1) = 28"
    using push_string_fits [OF wf(1), of 8 "[65]"] by (auto simp: wf padding_def)
  obtain b3 where b3: "push_table b1 8 4 1 ?fs = Some (Inr (16, b3))" "wf_builder b3" "b_used b3 = 22" "length (b_out b3) = 28"
    using push_table_fits [OF b1(2) _ table_ok_fits [OF ok], of 4 16 22] by (auto simp: b1 padding_def VTABLE_HEADER_def VOFFSET_SIZE_def)
  obtain buf where buf: "fb_finish b3 16 4 = Some (Inr buf)"
    using fb_finish_fits [OF b3(2), of 4 16] by (auto simp: b3 padding_def)
  let ?f = "\<lparr>tf_slot = 0, tf_offset = 4, tf_value = FOffset 8\<rparr>"
  have "\<exists>t at. fb_root buf = Inr t \<and> fb_field buf t (tf_slot ?f) 4 = Inr (Some at) \<and> fb_string buf at = Inr [65]"
    by (rule string_field_roundtrip [OF wf(1) _ b1(1) _ _ _ b3(1) ok _ _ _ _ buf, of "[]" "[]" _ "[]" "[]"]) (simp_all add: wf)
  then show ?thesis using b1(1) b3(1) buf by auto
qed

lemma vector_at:
  assumes buf: "buf = pre @ le_bytes 4 (of_nat n :: u32) @ els @ rest" and "follow buf from = Inr (length pre)"
    and n: "n < 2 ^ 32" and els: "length els = n * stride" "length els \<le> usize_max"
  shows "fb_vector buf from stride = Inr \<lparr>vec_len = n, vec_first = length pre + OFFSET_SIZE\<rparr>"
    "i < n \<Longrightarrow> fb_at buf (length pre + OFFSET_SIZE + i * stride) stride = Inr (take stride (drop (i * stride) els))"
proof -
  have un: "unat (of_nat n :: u32) = n" by (rule unat_of_nat_u32 [OF n])
  have "read_u32 buf (length pre + 0) = Inr (of_nat n)" unfolding buf read_shift by (rule read_u32_prefix) simp
  moreover have "fb_at buf (length pre + OFFSET_SIZE) (n * stride) = Inr els"
    by (rule fb_at_take) (simp_all add: buf OFFSET_SIZE_def els(1) [symmetric])
  ultimately show "fb_vector buf from stride = Inr \<lparr>vec_len = n, vec_first = length pre + OFFSET_SIZE\<rparr>"
    using assms(2) els by (simp add: fb_vector_def un checked_mul_usize_def Let_def)
  assume "i < n"
  then have "i * stride + stride \<le> n * stride" using mult_le_mono1 [of "Suc i" n stride] by simp
  then show "fb_at buf (length pre + OFFSET_SIZE + i * stride) stride = Inr (take stride (drop (i * stride) els))"
    by (intro fb_at_take) (simp_all add: buf OFFSET_SIZE_def els(1))
qed

text \<open>
  A vector reads back. A vector pushed and later named by an offset field of the root table is
  found by a reader with its length, and with each element's bytes at the element's position.
\<close>

lemma vector_field_roundtrip:
  assumes wf: "wf_builder b" and small: "length (b_out b) < 2 ^ 31"
    and vec: "push_vector b els stride = Some (Inr (q, b1))" "length els = n * stride"
    and run1: "fb_run b1 ops1 = Some (Inr (ps1, b2))" "list_all op_ok ops1"
    and push: "push_table b2 sz align slots fs = Some (Inr (p, b3))" "table_ok sz slots fs"
    and f: "f \<in> set fs" "tf_value f = FOffset q"
    and run2: "fb_run b3 ops2 = Some (Inr (ps2, b4))" "list_all op_ok ops2"
    and finish: "fb_finish b4 p al = Some (Inr buf)"
  shows "\<exists>t at v. fb_root buf = Inr t \<and> fb_field buf t (tf_slot f) 4 = Inr (Some at) \<and>
    fb_vector buf at stride = Inr v \<and> vec_len v = n \<and>
    (\<forall>i < n. fb_at buf (vec_element v i stride) stride = Inr (take stride (drop (i * stride) els)))"
proof -
  note o1 = push_vector_ok [OF vec(1) wf]
  obtain pad where c1: "contents b1 = le_bytes 4 (of_nat n :: u32) @ els @ replicate pad 0 @ contents b"
    using o1(3,4) vec(2) by auto
  have wf1: "wf_builder b1" "length (b_out b1) < 2 ^ 31" using o1(1) small by (auto simp: extends_def)
  have "b_used b1 = length (contents b1)" using wf1(1) by simp
  then have pos: "0 < q" "length els < 2 ^ 31" using o1(2) c1 wf1 by (auto simp: wf_builder_def)
  moreover have "n \<le> length els" using vec(2) o1(3) by simp
  ultimately have n: "n < 2 ^ 32" "length els \<le> usize_max" by simp_all
  obtain t at pre where r: "fb_root buf = Inr t" "fb_field buf t (tf_slot f) 4 = Inr (Some at)"
      "follow buf at = Inr (length pre)" "buf = pre @ contents b1"
    using named_object [OF wf1 o1(2) pos(1) run1 push f run2 finish] by blast
  from vector_at [OF r(4) [unfolded c1] r(3) n(1) vec(2) n(2)] show ?thesis
    using r(1,2) by (intro exI [of _ t] exI [of _ at] exI [of _ "\<lparr>vec_len = n, vec_first = length pre + OFFSET_SIZE\<rparr>"])
      (simp add: vec_element_def)
qed

section \<open>Alignment\<close>

lemma padding_aligned:
  assumes "0 < align"
  shows "(u + padding align skew u) mod align = skew mod align"
proof -
  have "u mod align \<le> align + skew mod align" using assms by (simp add: trans_le_add1)
  then have "u + (align + skew mod align - u mod align) = align * (u div align + 1) + skew mod align"
    using mult_div_mod_eq [of align u] unfolding distrib_left by linarith
  then show ?thesis by (simp add: padding_def mod_add_right_eq add.assoc)
qed

text \<open>The alignment of an object and the byte of it that lies on the boundary.\<close>

fun op_align :: "fb_op \<Rightarrow> nat \<times> nat" where
  "op_align (Push_U8 _) = (1, 0)" | "op_align (Push_U16 _) = (2, 0)" | "op_align (Push_U32 _) = (4, 0)"
| "op_align (Push_U64 _) = (8, 0)" | "op_align (Push_Offset _) = (4, 0)" | "op_align (Push_String _) = (4, 0)"
| "op_align (Push_Vector _ stride) = (if stride > 4 then (stride, 4) else (4, 0))"
| "op_align (Push_Offset_Vector _) = (4, 0)" | "op_align (Push_Table _ align _ _) = (align, 0)"

lemma reserve_aligned:
  "reserve_skewed b sz align skew = Some (Inr (p, obj, b')) \<Longrightarrow> wf_builder b \<Longrightarrow> p mod align = skew mod align"
  using reserve_ok(1,2) [of b sz align skew p obj b'] padding_aligned [of align "b_used b + sz" skew] by simp

lemma fb_step_aligned:
  assumes "fb_step b op = Some (Inr (p, b'))" "wf_builder b"
  shows "p mod fst (op_align op) = snd (op_align op) mod fst (op_align op)"
proof -
  have "\<exists>sz obj b0. reserve_skewed b sz (fst (op_align op)) (snd (op_align op)) = Some (Inr (p, obj, b0))"
    using assms(1)
    by (cases op; simp add: push_scalar_def push_offset_def push_string_def push_vector_def push_offset_vector_def push_table_def
        reserve_def OFFSET_SIZE_def result_iff Let_def split: if_splits option.splits) (auto simp: result_iff)
  then show ?thesis using reserve_aligned assms(2) by blast
qed

lemma fb_step_pos: "fb_step b op = Some (Inr (p, b')) \<Longrightarrow> op_ok op \<Longrightarrow> wf_builder b \<Longrightarrow> p \<le> b_used b'"
proof (cases op)
  case (Push_Table sz align slots fs)
  assume "fb_step b op = Some (Inr (p, b'))" "op_ok op" "wf_builder b"
  then have push: "push_table b sz align slots fs = Some (Inr (p, b'))" and ok: "OFFSET_SIZE \<le> sz" and wf: "wf_builder b"
    by (simp_all add: Push_Table table_ok_def table_fits_def)
  note t = push_table_ok [OF push wf ok]
  obtain tobj where "write_fields p fs (replicate sz 0) = Some tobj" "p = sz + (p - sz - b_used b) + b_used b"
      "p \<le> length (contents b')"
    using t(3) write_fields_length ok by (fastforce simp: OFFSET_SIZE_def wf)
  then show ?thesis using t(1) by (simp add: extends_def)
qed (auto simp: push_offset_scalar dest: push_scalar_ok(2) push_string_ok(2) push_vector_ok(2) push_offset_vector_ok(2))

text \<open>
  The finished buffer's length is a multiple of its alignment, and every object pushed lies on its
  own boundary in it when that divides the buffer's alignment: a scalar, a string, an offset and a
  table at its first byte, a vector of elements wider than four bytes at its first element.
\<close>

lemma objects_aligned:
  assumes wf: "wf_builder b" and step: "fb_step b op = Some (Inr (p, b1))" "op_ok op"
    and run: "fb_run b1 ops = Some (Inr (ps, b2))" "list_all op_ok ops"
    and finish: "fb_finish b2 r al = Some (Inr buf)" and al: "fst (op_align op) dvd max al 4"
  shows "max al 4 dvd length buf \<and> fst (op_align op) dvd length buf - p + snd (op_align op)"
proof
  have e: "extends b b1" by (rule fb_step_extends [OF step(1) wf step(2)])
  then have wf1: "wf_builder b1" by (simp add: extends_def)
  have wf2: "wf_builder b2" using fb_run_extends [OF run(1) wf1 run(2)] by (simp add: extends_def)
  have "length buf = b_used b2 + OFFSET_SIZE + padding (max al OFFSET_SIZE) 0 (b_used b2 + OFFSET_SIZE)"
    using fb_finish_ok [OF finish wf2] by blast
  then show dvd: "max al 4 dvd length buf"
    using padding_aligned [of "max al 4" "b_used b2 + OFFSET_SIZE" 0] by (simp add: OFFSET_SIZE_def dvd_eq_mod_eq_0)
  show "fst (op_align op) dvd length buf - p + snd (op_align op)"
  proof (cases "p \<le> length buf")
    case True
    obtain k where k: "length buf = fst (op_align op) * k" using dvd_trans [OF al dvd] by (auto simp: dvd_def)
    have "(length buf - p + snd (op_align op)) mod fst (op_align op) = (length buf - p + p) mod fst (op_align op)"
      by (rule mod_add_cong [OF refl fb_step_aligned [OF step(1) wf, symmetric]])
    then show ?thesis using True by (simp add: k dvd_eq_mod_eq_0)
  next
    case False
    obtain b3 where "contents b3 = buf" "extends b1 b3" by (rule finished [OF run(1) wf1 run(2) finish])
    moreover have "p \<le> b_used b1" by (rule fb_step_pos [OF step wf])
    ultimately show ?thesis using False wf1 by (auto simp: extends_def)
  qed
qed

section \<open>Nothing of the slice's old contents\<close>

text \<open>Two builders that differ at most in the bytes not yet written, and results that agree up to that.\<close>

definition same_built :: "builder \<Rightarrow> builder \<Rightarrow> bool" where
  "same_built b c \<longleftrightarrow> wf_builder b \<and> wf_builder c \<and> length (b_out b) = length (b_out c) \<and>
     b_used b = b_used c \<and> contents b = contents c"

definition build_rel :: "('a \<Rightarrow> 'b \<Rightarrow> bool) \<Rightarrow> 'a build \<Rightarrow> 'b build \<Rightarrow> bool" where
  "build_rel R = rel_option (rel_sum (=) R)"

definition same_reserved :: "nat \<Rightarrow> pos \<times> bytes \<times> builder \<Rightarrow> pos \<times> bytes \<times> builder \<Rightarrow> bool" where
  "same_reserved n x y \<longleftrightarrow> (case (x, y) of ((p, obj, b), (q, obj', c)) \<Rightarrow>
     p = q \<and> obj = obj' \<and> same_built b c \<and> b_used b = p \<and> length obj \<le> p \<and> n \<le> p)"

definition same_pushed :: "pos \<times> builder \<Rightarrow> pos \<times> builder \<Rightarrow> bool" where
  "same_pushed x y \<longleftrightarrow> fst x = fst y \<and> same_built (snd x) (snd y)"

lemma build_rel_bbind:
  "build_rel R m m' \<Longrightarrow> (\<And>x y. R x y \<Longrightarrow> build_rel S (f x) (g y)) \<Longrightarrow> build_rel S (bbind m f) (bbind m' g)"
  by (auto simp: build_rel_def bbind_def elim!: option.rel_cases rel_sum.cases)

lemma build_rel_simps [simp]:
  "build_rel R None None" "build_rel R (Some (Inl e)) (Some (Inl e))"
  "build_rel R (Some (Inr x)) (Some (Inr y)) \<longleftrightarrow> R x y"
  by (simp_all add: build_rel_def)

lemma reserve_same:
  assumes "same_built b c"
  shows "build_rel (same_reserved (b_used b)) (reserve_skewed b sz align skew) (reserve_skewed c sz align skew)"
proof (cases "reserve_skewed b sz align skew")
  case None
  then show ?thesis
    using assms by (auto simp: same_built_def reserve_skewed_def Let_def split: option.splits if_splits)
next
  case (Some r)
  show ?thesis
  proof (cases r)
    case (Inl e)
    then show ?thesis
      using Some assms by (auto simp: same_built_def reserve_skewed_def Let_def split: option.splits if_splits)
  next
    case (Inr x)
    obtain p obj b' where x: "x = (p, obj, b')" by (cases x)
    have b: "reserve_skewed b sz align skew = Some (Inr (p, obj, b'))" using Some Inr x by simp
    then obtain obj2 c' where c: "reserve_skewed c sz align skew = Some (Inr (p, obj2, c'))"
      using assms by (auto simp: same_built_def reserve_skewed_def Let_def split: option.splits if_splits)
    have wf: "wf_builder b" "wf_builder c" using assms by (simp_all add: same_built_def)
    show ?thesis
      using assms reserve_ok [OF b wf(1)] reserve_ok [OF c wf(2)] by (simp add: b c same_reserved_def same_built_def)
  qed
qed

lemma write_back_same:
  "same_built b c \<Longrightarrow> b_used b = p \<Longrightarrow> length obj \<le> p \<Longrightarrow> same_built (write_back b p obj) (write_back c p obj)"
  using write_back_ok [of b obj] write_back_ok [of c obj] by (auto simp: same_built_def)

text \<open>A push whose object is computed from the position and the bytes reserved.\<close>

lemma push_same:
  assumes "same_built b c" "\<And>p obj obj'. g p obj = Some obj' \<Longrightarrow> length obj' = length obj"
  shows "build_rel same_pushed
    (bbind (reserve_skewed b sz align skew) (\<lambda>(p, obj, b). case g p obj of None \<Rightarrow> None | Some obj \<Rightarrow> Some (Inr (p, write_back b p obj))))
    (bbind (reserve_skewed c sz align skew) (\<lambda>(p, obj, b). case g p obj of None \<Rightarrow> None | Some obj \<Rightarrow> Some (Inr (p, write_back b p obj))))"
  using assms(2)
  by (intro build_rel_bbind [OF reserve_same [OF assms(1)]])
    (auto simp: same_reserved_def same_pushed_def intro!: write_back_same split: option.splits)

lemma patch_same:
  assumes "same_built b c" "t \<le> b_used b" "length bs \<le> t"
  shows "same_built (b\<lparr>b_out := put_at (b_out b) (length (b_out b) - t) bs\<rparr>) (c\<lparr>b_out := put_at (b_out c) (length (b_out c) - t) bs\<rparr>)"
proof -
  have "contents (b\<lparr>b_out := put_at (b_out b) (length (b_out b) - t) bs\<rparr>) = put_at (contents b) (b_used b - t) bs"
    if "wf_builder b" "t \<le> b_used b" for b
  proof -
    have "length (b_out b) - b_used b \<le> length (b_out b) - t" "length (b_out b) - t - (length (b_out b) - b_used b) = b_used b - t"
      "length (b_out b) - t + length bs - (length (b_out b) - b_used b) = b_used b - t + length bs"
      using that assms(3) by (auto simp: wf_builder_def)
    then show ?thesis
      using that assms(3) by (simp add: contents_def put_at_def wf_builder_def drop_take add.commute)
  qed
  from this [of b] this [of c] show ?thesis
    using assms unfolding same_built_def by (auto simp: wf_builder_def)
qed

lemma vtable_same:
  assumes "same_built b c" "t \<le> b_used b" "\<And>obj obj'. g obj = Some obj' \<Longrightarrow> length obj' = length obj"
    "\<And>v. length (h v) = 4"
  defines "rest \<equiv> \<lambda>(v, vobj, b). case g vobj of None \<Rightarrow> None | Some vobj \<Rightarrow>
      (case copy_into (b_out (write_back b v vobj)) (length (b_out (write_back b v vobj)) - t) (h v) of
         None \<Rightarrow> None | Some out \<Rightarrow> Some (Inr (t, (write_back b v vobj)\<lparr>b_out := out\<rparr>)))"
  shows "build_rel same_pushed (bbind (reserve_skewed b sz align skew) rest) (bbind (reserve_skewed c sz align skew) rest)"
proof (rule build_rel_bbind [OF reserve_same [OF assms(1)]])
  fix x y assume "same_reserved (b_used b) x y"
  then obtain v obj b1 c1 where xy: "x = (v, obj, b1)" "y = (v, obj, c1)"
    and s: "same_built b1 c1" "b_used b1 = v" "length obj \<le> v" "t \<le> v"
    using assms(2) by (auto simp: same_reserved_def)
  show "build_rel same_pushed (rest x) (rest y)"
  proof (cases "g obj")
    case (Some obj')
    let ?b = "write_back b1 v obj'" and ?c = "write_back c1 v obj'"
    have wb: "same_built ?b ?c" using write_back_same [OF s(1,2)] assms(3) [OF Some] s(3) by simp
    have le: "t \<le> b_used ?b" using s(2,4) by (simp add: write_back_def)
    have len: "t \<le> length (b_out ?b)" "length (b_out ?c) = length (b_out ?b)"
      using wb le by (auto simp: same_built_def wf_builder_def)
    show ?thesis
    proof (cases "4 \<le> t")
      case True
      then have copy: "copy_into (b_out ?b) (length (b_out ?b) - t) (h v) = Some (put_at (b_out ?b) (length (b_out ?b) - t) (h v))"
          "copy_into (b_out ?c) (length (b_out ?c) - t) (h v) = Some (put_at (b_out ?c) (length (b_out ?c) - t) (h v))"
        using len assms(4) by (auto simp: copy_into_iff)
      have "length (h v) \<le> t" using True assms(4) by simp
      from patch_same [OF wb le this] show ?thesis
        unfolding rest_def xy prod.case Some option.case copy by (simp add: same_pushed_def)
    next
      case False
      then have "copy_into (b_out ?b) (length (b_out ?b) - t) (h v) = None" "copy_into (b_out ?c) (length (b_out ?c) - t) (h v) = None"
        using len assms(4) by (auto simp: copy_into_def)
      then show ?thesis by (simp add: xy rest_def Some)
    qed
  qed (simp add: xy rest_def)
qed

lemma push_table_same:
  assumes "same_built b c"
  shows "build_rel same_pushed (push_table b sz align slots fs) (push_table c sz align slots fs)"
  unfolding push_table_def reserve_def
proof (rule build_rel_bbind [OF reserve_same [OF assms]])
  fix x y assume "same_reserved (b_used b) x y"
  then obtain p obj b1 c1 where xy: "x = (p, obj, b1)" "y = (p, obj, c1)"
    and s: "same_built b1 c1" "b_used b1 = p" "length obj \<le> p" by (auto simp: same_reserved_def)
  let ?rest = "\<lambda>(table, obj, b).
     case write_fields table fs obj of None \<Rightarrow> None | Some obj \<Rightarrow>
     (let b = write_back b table obj; vtable_bytes = VTABLE_HEADER + unat slots * VOFFSET_SIZE in
      bbind (reserve_skewed b vtable_bytes VOFFSET_SIZE 0) (\<lambda>(vtable, vobj, b).
      case copy_into vobj 0 (le_bytes 2 (of_nat vtable_bytes :: u16)) of None \<Rightarrow> None | Some vobj \<Rightarrow>
      (case copy_into vobj VOFFSET_SIZE (le_bytes 2 (of_nat sz :: u16)) of None \<Rightarrow> None | Some vobj \<Rightarrow>
      (case write_entries fs vobj of None \<Rightarrow> None | Some vobj \<Rightarrow>
      (let b = write_back b vtable vobj; start = length (b_out b) - table in
       case copy_into (b_out b) start (le_bytes 4 (of_nat (vtable - table) :: i32)) of
         None \<Rightarrow> None | Some out \<Rightarrow> Some (Inr (table, b\<lparr>b_out := out\<rparr>)))))))"
  show "build_rel same_pushed (?rest x) (?rest y)"
  proof (cases "write_fields p fs obj")
    case (Some tobj)
    have wb: "same_built (write_back b1 p tobj) (write_back c1 p tobj)" "p \<le> b_used (write_back b1 p tobj)"
      using s write_fields_length [OF Some] by (simp_all add: write_back_same) (simp add: write_back_def)
    let ?g = "\<lambda>vobj. Option.bind (Option.bind (copy_into vobj 0 (le_bytes 2 (of_nat (VTABLE_HEADER + unat slots * VOFFSET_SIZE) :: u16)))
        (\<lambda>vobj. copy_into vobj VOFFSET_SIZE (le_bytes 2 (of_nat sz :: u16)))) (write_entries fs)"
    have g: "\<And>obj obj'. ?g obj = Some obj' \<Longrightarrow> length obj' = length obj"
      by (auto simp: bind_eq_Some_conv dest!: copy_into_length write_entries_length)
    show ?thesis
      unfolding xy prod.case Some option.case Let_def
      using vtable_same [where g = ?g and h = "\<lambda>v. le_bytes 4 (of_nat (v - p) :: i32)", OF wb g]
      by (simp add: case_case_option)
  qed (simp add: xy)
qed

lemma fb_step_same: "same_built b c \<Longrightarrow> build_rel same_pushed (fb_step b op) (fb_step c op)"
proof (cases op)
  case (Push_Offset_Vector ts)
  assume s: "same_built b c"
  show ?thesis
    unfolding Push_Offset_Vector fb_step.simps push_offset_vector_def reserve_def Let_def case_case_option
    using s by (auto split: option.split intro!: push_same dest!: copy_into_length write_offsets_length
        simp: bind_eq_Some_conv same_built_def)
qed (simp_all add: push_scalar_def push_offset_def push_string_def push_vector_def reserve_def Let_def case_case_option,
    (auto intro!: push_same push_table_same dest!: copy_into_length simp: bind_eq_Some_conv))

lemma fb_run_same:
  "same_built b c \<Longrightarrow> build_rel (\<lambda>x y. fst x = fst y \<and> same_built (snd x) (snd y)) (fb_run b ops) (fb_run c ops)"
proof (induction ops arbitrary: b c)
  case (Cons op ops)
  show ?case
    unfolding fb_run.simps
    by (rule build_rel_bbind [OF fb_step_same [OF Cons.prems]])
      (auto simp: same_pushed_def intro!: build_rel_bbind [OF Cons.IH])
qed simp

lemma fb_finish_same:
  assumes "same_built b c"
  shows "fb_finish b r al = fb_finish c r al"
proof -
  have "build_rel (=) (fb_finish b r al) (fb_finish c r al)"
    unfolding fb_finish_def Let_def reserve_def
  proof (rule build_rel_bbind [OF reserve_same [OF assms]])
    fix x y assume "same_reserved (b_used b) x y"
    then obtain p obj b1 c1 where xy: "x = (p, obj, b1)" "y = (p, obj, c1)"
      and s: "same_built b1 c1" "b_used b1 = p" "length obj \<le> p" by (auto simp: same_reserved_def)
    let ?rest = "\<lambda>(p, obj, b). case copy_into obj 0 (le_bytes 4 (of_nat (delta p r) :: u32)) of None \<Rightarrow> None
      | Some obj \<Rightarrow> Some (Inr (drop (length (b_out (write_back b p obj)) - p) (b_out (write_back b p obj))))"
    show "build_rel (=) (?rest x) (?rest y)"
    proof (cases "copy_into obj 0 (le_bytes 4 (of_nat (delta p r) :: u32))")
      case (Some obj')
      have "same_built (write_back b1 p obj') (write_back c1 p obj')"
        using write_back_same [OF s(1,2)] copy_into_length [OF Some] s(3) by simp
      moreover have "b_used (write_back b1 p obj') = p" "b_used (write_back c1 p obj') = p"
        using s(1,2) by (simp_all add: write_back_def same_built_def)
      ultimately show ?thesis
        unfolding xy prod.case Some option.case build_rel_simps by (simp add: same_built_def contents_def) metis
    qed (simp add: xy)
  qed
  then show ?thesis by (simp add: build_rel_def sum.rel_eq option.rel_eq)
qed

text \<open>
  C21: An encoding depends on the values alone. Two encodes by the same pushes into slices of one length
  give the same positions and the same finished buffer, or the same error, whatever bytes the slices
  held: none of them reaches the buffer.
\<close>

theorem builder_deterministic:
  assumes "length out1 = length out2" "length out1 \<le> usize_max"
  shows "bbind (fb_run (builder_new out1) ops) (\<lambda>(ps, b). bbind (fb_finish b r al) (\<lambda>buf. Some (Inr (ps, buf)))) =
    bbind (fb_run (builder_new out2) ops) (\<lambda>(ps, b). bbind (fb_finish b r al) (\<lambda>buf. Some (Inr (ps, buf))))"
proof -
  have "same_built (builder_new out1) (builder_new out2)"
    using assms by (simp add: same_built_def builder_new_def wf_builder_def contents_def)
  then have "build_rel (=) (bbind (fb_run (builder_new out1) ops) (\<lambda>(ps, b). bbind (fb_finish b r al) (\<lambda>buf. Some (Inr (ps, buf)))))
    (bbind (fb_run (builder_new out2) ops) (\<lambda>(ps, b). bbind (fb_finish b r al) (\<lambda>buf. Some (Inr (ps, buf)))))"
    by (rule build_rel_bbind [OF fb_run_same])
      (auto simp: build_rel_def sum.rel_eq option.rel_eq dest!: fb_finish_same [where r = r and al = al])
  then show ?thesis by (simp add: build_rel_def sum.rel_eq option.rel_eq)
qed

theorem builder_deterministic_witness:
  "bbind (fb_run (builder_new (replicate 20 7)) [Push_U32 5]) (\<lambda>(ps, b). bbind (fb_finish b 4 4) (\<lambda>buf. Some (Inr (ps, buf)))) =
   bbind (fb_run (builder_new (replicate 20 0)) [Push_U32 5]) (\<lambda>(ps, b). bbind (fb_finish b 4 4) (\<lambda>buf. Some (Inr (ps, buf))))"
  by (rule builder_deterministic) simp_all

end
