(* ===== verification/Rt_Port.thy ===== *)
theory Rt_Port
  imports Rt_Sample Rt_Correlate
begin

text \<open>
  The data and the errors of the port traits (\<open>crates/ridl-rt/src/port.rs\<close>) and the trace
  context (\<open>trace.rs\<close>). The traits themselves have no bodies; the loopback implements them. A
  constructor whose name another enum uses carries a prefix of its own enum.
\<close>

record trace_context =
  trace_id :: bytes
  span_id :: bytes
  flags :: u8

type_synonym check = "bytes \<Rightarrow> detection + unit"

definition REPLY_STREAM :: stream_no where "REPLY_STREAM = 0"

record raw_sample =
  rs_provenance :: provenance
  rs_freshness :: freshness
  rs_envelope :: envelope
  rs_len :: nat

record raw_occurrence =
  ro_iface :: interface_no
  ro_ord :: ordinal
  ro_envelope :: envelope
  ro_trace :: "trace_context option"
  ro_len :: nat

record claim =
  cl_id :: claim_id
  cl_iface :: interface_no
  cl_ord :: ordinal
  cl_envelope :: envelope
  cl_trace :: "trace_context option"
  cl_remaining :: "duration option"
  cl_len :: nat

record watermark =
  wm_iface :: interface_no
  wm_generation :: u64

record changed =
  cg_iface :: interface_no
  cg_ord :: ordinal
  cg_seq :: u64

datatype pull = Pull_Chunk nat | Pull_End | Pull_Pending | Pull_Failed call_error

datatype push_error = Push_TooLarge nat | Push_Ended | Push_Failed call_error
  | Push_Contract contract | Push_Detached

datatype read_error = Read_Short nat | Read_ShortClaim claim_id nat "trace_context option"
  | Read_TooFewSamples nat | Read_Contract contract | Read_Detached

datatype write_error = Write_TooLarge nat | Write_NotOwner | Write_Contract contract | Write_Detached

datatype raise_error = Raise_Busy | Raise_TooLarge nat | Raise_NotOwner | Raise_Contract contract
  | Raise_Detached

datatype send_error = Send_Busy | Send_TooLarge nat | Send_Contract contract | Send_Detached

datatype settle_error = Settle_UnknownClaim | Settle_TooLarge nat | Settle_Detached

end
