(* ===== verification/Ws_Frame.thy ===== *)
theory Ws_Frame
  imports Prelude Rt_Contract Rt_Sample
begin

unbundle bit_operations_syntax

text \<open>
  The header codec of the WebSocket binding, \<open>crates/ridl-transport-ws/src/frame.rs\<close>: one frame
  is one message. \<open>frame_decode\<close> reads a message with no session context and \<open>frame_encode\<close>
  writes one at the start of a caller's buffer. The lemmas show that decoding and encoding are
  inverse to each other on the valid frames, in both directions, so that a frame has exactly
  one message; that \<open>encode\<close> writes exactly \<open>encoded_len\<close> bytes and leaves the rest of the buffer
  alone; and that the blocks of a payload cover it without a wrap in \<open>u32\<close>.
\<close>

section \<open>Model\<close>

abbreviation (input) FRAME_VERSION :: u32 where "FRAME_VERSION \<equiv> 2"
abbreviation (input) FRAME_VERSION_3 :: u32 where "FRAME_VERSION_3 \<equiv> 3"
abbreviation (input) INITIAL_CREDIT :: u32 where "INITIAL_CREDIT \<equiv> 4"
abbreviation (input) MIN_MESSAGE_LIMIT :: nat where "MIN_MESSAGE_LIMIT \<equiv> 294"
abbreviation (input) MAX_MESSAGE_LIMIT :: nat where "MAX_MESSAGE_LIMIT \<equiv> 16164"
abbreviation (input) ENVELOPE_BYTES :: nat where "ENVELOPE_BYTES \<equiv> 16"
abbreviation (input) BLOCK_BYTES :: nat where "BLOCK_BYTES \<equiv> 4096"

definition SUBPROTOCOL :: bytes where "SUBPROTOCOL = ascii ''ridl-ws-v2''"
definition SUBPROTOCOL_PROVIDER :: bytes where "SUBPROTOCOL_PROVIDER = ascii ''ridl-ws-v2-provider''"
definition SUBPROTOCOL_V3 :: bytes where "SUBPROTOCOL_V3 = ascii ''ridl-ws-v3''"
definition SUBPROTOCOL_V1 :: bytes where "SUBPROTOCOL_V1 = ascii ''ridl-ws-v1''"

abbreviation (input) FORM_ATTACH :: u8 where "FORM_ATTACH \<equiv> 1"
abbreviation (input) FORM_ATTACHED :: u8 where "FORM_ATTACHED \<equiv> 2"
abbreviation (input) FORM_SUBSCRIBE :: u8 where "FORM_SUBSCRIBE \<equiv> 3"
abbreviation (input) FORM_ANSWER :: u8 where "FORM_ANSWER \<equiv> 4"
abbreviation (input) FORM_UNSUBSCRIBE :: u8 where "FORM_UNSUBSCRIBE \<equiv> 5"
abbreviation (input) FORM_READ :: u8 where "FORM_READ \<equiv> 6"
abbreviation (input) FORM_PUBLISH :: u8 where "FORM_PUBLISH \<equiv> 7"
abbreviation (input) FORM_OCCURRENCE :: u8 where "FORM_OCCURRENCE \<equiv> 8"
abbreviation (input) FORM_REQUEST :: u8 where "FORM_REQUEST \<equiv> 9"
abbreviation (input) FORM_RESPONSE :: u8 where "FORM_RESPONSE \<equiv> 10"
abbreviation (input) FORM_BLOCK :: u8 where "FORM_BLOCK \<equiv> 11"
abbreviation (input) FORM_CHUNK :: u8 where "FORM_CHUNK \<equiv> 12"
abbreviation (input) FORM_STREAM_END :: u8 where "FORM_STREAM_END \<equiv> 13"
abbreviation (input) FORM_STREAM_CREDIT :: u8 where "FORM_STREAM_CREDIT \<equiv> 14"

abbreviation (input) OUT_ACCEPTED :: u8 where "OUT_ACCEPTED \<equiv> 1"
abbreviation (input) OUT_REPLY :: u8 where "OUT_REPLY \<equiv> 2"
abbreviation (input) OUT_INVALID_VALUE :: u8 where "OUT_INVALID_VALUE \<equiv> 3"
abbreviation (input) OUT_PRECONDITION_FAILED :: u8 where "OUT_PRECONDITION_FAILED \<equiv> 4"
abbreviation (input) OUT_CONTRACT_BROKEN :: u8 where "OUT_CONTRACT_BROKEN \<equiv> 5"
abbreviation (input) OUT_UNKNOWN_INTERACTION :: u8 where "OUT_UNKNOWN_INTERACTION \<equiv> 6"
abbreviation (input) OUT_CORRUPT :: u8 where "OUT_CORRUPT \<equiv> 7"
abbreviation (input) OUT_BUSY :: u8 where "OUT_BUSY \<equiv> 8"
abbreviation (input) OUT_REFUSED :: u8 where "OUT_REFUSED \<equiv> 9"
abbreviation (input) OUT_END :: u8 where "OUT_END \<equiv> 10"
abbreviation (input) OUT_INTERRUPTED :: u8 where "OUT_INTERRUPTED \<equiv> 11"

abbreviation (input) PROV_INIT :: u8 where "PROV_INIT \<equiv> 1"
abbreviation (input) PROV_LIVE :: u8 where "PROV_LIVE \<equiv> 2"
abbreviation (input) PROV_INVALID_DECLARED :: u8 where "PROV_INVALID_DECLARED \<equiv> 3"

text \<open>The header lengths: the sums of the field widths the source writes, 10, 3, 12 and so on.\<close>

abbreviation (input) COMMON :: nat where "COMMON \<equiv> 10"
abbreviation (input) ATTACHED_LEN :: nat where "ATTACHED_LEN \<equiv> 3"
abbreviation (input) ANSWER_LEN :: nat where "ANSWER_LEN \<equiv> 12"
abbreviation (input) PUBLISH_LEN :: nat where "PUBLISH_LEN \<equiv> 27"
abbreviation (input) DATA_LEN :: nat where "DATA_LEN \<equiv> 26"
abbreviation (input) RESPONSE_LEN :: nat where "RESPONSE_LEN \<equiv> 36"
abbreviation (input) BLOCK_LEN :: nat where "BLOCK_LEN \<equiv> 34"
abbreviation (input) CHUNK_LEN :: nat where "CHUNK_LEN \<equiv> 35"
abbreviation (input) STREAM_END_LEN :: nat where "STREAM_END_LEN \<equiv> 37"
abbreviation (input) STREAM_CREDIT_LEN :: nat where "STREAM_CREDIT_LEN \<equiv> 23"
abbreviation (input) ATTACH_FIXED :: nat where "ATTACH_FIXED \<equiv> 39"

record target =
  t_kind :: kind
  t_iface :: interface_no
  t_ord :: ordinal

datatype attach_error = AttachEmpty | AttachTooLong nat | AttachUnknownEncoding u8

record attach =
  a_frame_version :: u32
  a_encoding :: u8
  a_hash :: catalog_hash
  a_name :: bytes

definition attach_new ::
    "u32 \<Rightarrow> u8 \<Rightarrow> catalog_hash \<Rightarrow> bytes \<Rightarrow> attach_error + attach" where
  "attach_new frame_version encoding hash name =
     (if \<not> (1 \<le> encoding \<and> encoding \<le> 3) then Inl (AttachUnknownEncoding encoding)
      else if length name = 0 then Inl AttachEmpty
      else if length name \<le> 255 then
        Inr \<lparr>a_frame_version = frame_version, a_encoding = encoding, a_hash = hash, a_name = name\<rparr>
      else Inl (AttachTooLong (length name)))"

datatype reason = UnknownCatalog | CatalogMismatch | EncodingUnsupported
  | FrameVersionUnsupported | Reason_Range

datatype attach_outcome = Attach_Accepted | Attach_Refused reason

datatype answer_outcome = Answer_Accepted | Answer_Contract contract

datatype publish_state = Pub_Init | Pub_Live bytes | Pub_InvalidDeclared

datatype response_outcome = Resp_Accepted | Resp_Reply bytes | Resp_Contract contract
  | Resp_Corrupt | Resp_Busy

datatype stream_outcome = Stream_End | Stream_Contract contract | Stream_Corrupt | Stream_Busy
  | Stream_Interrupted

datatype frame =
    F_Attach attach
  | F_Attached attach_outcome
  | F_Subscribe target
  | F_Unsubscribe target
  | F_Read target
  | F_Answer target answer_outcome
  | F_Publish target envelope publish_state
  | F_Occurrence target envelope bytes
  | F_Request target envelope bytes
  | F_Response target envelope u64 response_outcome
  | F_Block target envelope u32 u32 bytes
  | F_Chunk target envelope u64 u8 bytes
  | F_StreamEnd target envelope u64 u8 stream_outcome
  | F_StreamCredit target u64 u8 u32

datatype short = Short (short_needed: nat)

datatype protocol_violation = TooShort | ControlTooLong | UnknownCode | OutcomeNotAllowed
  | NonzeroDetail | ZeroNumber | BadNameLength | BadName | BadBlock | BadStream

datatype discarded = UnexpectedPayload

datatype decode_error = Violation protocol_violation | Discard discarded

definition encoding_tag :: "bytes \<Rightarrow> u8 option" where
  "encoding_tag name =
     (if name = ascii ''flatbuffers'' then Some 1
      else if name = ascii ''proto3'' then Some 2
      else if name = ascii ''podbuf'' then Some 3
      else None)"

fun kind_code :: "kind \<Rightarrow> u8" where
  "kind_code Signal = 1"
| "kind_code Event = 2"
| "kind_code Command = 3"
| "kind_code Query = 4"
| "kind_code Fixed = 5"

definition kind_from :: "u8 \<Rightarrow> protocol_violation + kind" where
  "kind_from code =
     (if code = 1 then Inr Signal
      else if code = 2 then Inr Event
      else if code = 3 then Inr Command
      else if code = 4 then Inr Query
      else if code = 5 then Inr Fixed
      else Inl UnknownCode)"

text \<open>Every \<open>Rule\<close> of this version has a tag; \<open>None\<close> stands for a variant a later version adds.\<close>

fun rule_tag :: "rule \<Rightarrow> u8 option" where
  "rule_tag Rule_Range = Some 1"
| "rule_tag Rule_Step = Some 2"
| "rule_tag Rule_Length = Some 3"
| "rule_tag Rule_Pattern = Some 4"
| "rule_tag Rule_Variant = Some 5"
| "rule_tag Rule_Unique = Some 6"
| "rule_tag Rule_Utf8 = Some 7"

definition rule_code :: "rule \<Rightarrow> u8" where
  "rule_code r = (case rule_tag r of Some t \<Rightarrow> t | None \<Rightarrow> 0)"

definition rule_from :: "u8 \<Rightarrow> protocol_violation + rule" where
  "rule_from code =
     (if code = 1 then Inr Rule_Range
      else if code = 2 then Inr Rule_Step
      else if code = 3 then Inr Rule_Length
      else if code = 4 then Inr Rule_Pattern
      else if code = 5 then Inr Rule_Variant
      else if code = 6 then Inr Rule_Unique
      else if code = 7 then Inr Rule_Utf8
      else Inl UnknownCode)"

fun reason_code :: "reason \<Rightarrow> u8" where
  "reason_code UnknownCatalog = 1"
| "reason_code CatalogMismatch = 2"
| "reason_code EncodingUnsupported = 3"
| "reason_code FrameVersionUnsupported = 4"
| "reason_code Reason_Range = 5"

definition reason_from :: "u8 \<Rightarrow> protocol_violation + reason" where
  "reason_from code =
     (if code = 1 then Inr UnknownCatalog
      else if code = 2 then Inr CatalogMismatch
      else if code = 3 then Inr EncodingUnsupported
      else if code = 4 then Inr FrameVersionUnsupported
      else if code = 5 then Inr Reason_Range
      else Inl UnknownCode)"

fun contract_codes :: "contract \<Rightarrow> u8 \<times> u8" where
  "contract_codes (InvalidValue v) = (OUT_INVALID_VALUE, rule_code (v_rule v))"
| "contract_codes PreconditionFailed = (OUT_PRECONDITION_FAILED, 0)"
| "contract_codes ContractBroken = (OUT_CONTRACT_BROKEN, 0)"
| "contract_codes UnknownInteraction = (OUT_UNKNOWN_INTERACTION, 0)"

definition contract_from :: "u8 \<Rightarrow> u8 \<Rightarrow> protocol_violation + contract" where
  "contract_from outcome detail =
     (if outcome = OUT_INVALID_VALUE then
        rbind (rule_from detail) (\<lambda>r. Inr (InvalidValue \<lparr>v_type_name = None, v_rule = r\<rparr>))
      else if detail \<noteq> 0 then Inl NonzeroDetail
      else if outcome = OUT_PRECONDITION_FAILED then Inr PreconditionFailed
      else if outcome = OUT_CONTRACT_BROKEN then Inr ContractBroken
      else Inr UnknownInteraction)"

fun stream_codes :: "stream_outcome \<Rightarrow> u8 \<times> u8" where
  "stream_codes Stream_End = (OUT_END, 0)"
| "stream_codes (Stream_Contract c) = contract_codes c"
| "stream_codes Stream_Corrupt = (OUT_CORRUPT, 0)"
| "stream_codes Stream_Busy = (OUT_BUSY, 0)"
| "stream_codes Stream_Interrupted = (OUT_INTERRUPTED, 0)"

definition stream_from :: "u8 \<Rightarrow> u8 \<Rightarrow> protocol_violation + stream_outcome" where
  "stream_from outcome detail =
     (if OUT_INVALID_VALUE \<le> outcome \<and> outcome \<le> OUT_UNKNOWN_INTERACTION then
        rbind (contract_from outcome detail) (\<lambda>c. Inr (Stream_Contract c))
      else if outcome = OUT_ACCEPTED \<or> outcome = OUT_REPLY \<or> outcome = OUT_REFUSED then
        Inl OutcomeNotAllowed
      else if outcome = OUT_CORRUPT \<or> outcome = OUT_BUSY \<or> outcome = OUT_END \<or>
              outcome = OUT_INTERRUPTED then
        (if detail \<noteq> 0 then Inl NonzeroDetail
         else if outcome = OUT_CORRUPT then Inr Stream_Corrupt
         else if outcome = OUT_BUSY then Inr Stream_Busy
         else if outcome = OUT_END then Inr Stream_End
         else Inr Stream_Interrupted)
      else Inl UnknownCode)"

definition outcome_known :: "u8 \<Rightarrow> protocol_violation + unit" where
  "outcome_known outcome =
     (if OUT_ACCEPTED \<le> outcome \<and> outcome \<le> OUT_REFUSED then Inr () else Inl UnknownCode)"

text \<open>\<open>msg[at..at + 4]\<close> and \<open>msg[at..at + 8]\<close>; every caller has checked the length.\<close>

definition u32_at :: "bytes \<Rightarrow> nat \<Rightarrow> u32" where
  "u32_at msg at = le_word (take 4 (drop at msg))"

definition u64_at :: "bytes \<Rightarrow> nat \<Rightarrow> u64" where
  "u64_at msg at = le_word (take 8 (drop at msg))"

definition target_at :: "bytes \<Rightarrow> protocol_violation + target" where
  "target_at msg =
     rbind (kind_from (msg ! 1)) (\<lambda>kind.
       let iface = u32_at msg 2; ord = u32_at msg 6 in
       if iface = 0 \<or> ord = 0 then Inl ZeroNumber
       else Inr \<lparr>t_kind = kind, t_iface = iface, t_ord = ord\<rparr>)"

definition stream_target_at :: "bytes \<Rightarrow> protocol_violation + target" where
  "stream_target_at msg =
     rbind (target_at msg) (\<lambda>target.
       case t_kind target of
         Command \<Rightarrow> Inr target
       | Query \<Rightarrow> Inr target
       | _ \<Rightarrow> Inl BadStream)"

definition envelope_at :: "bytes \<Rightarrow> nat \<Rightarrow> envelope" where
  "envelope_at msg at = \<lparr>stamp = u64_at msg at, seq = u64_at msg (at + 8)\<rparr>"

definition block_len :: "u32 \<Rightarrow> u32 \<Rightarrow> u32 option" where
  "block_len tot index =
     (if tot = 0 then None
      else let count = of_nat (div_ceil (unat tot) BLOCK_BYTES) in
        if count \<le> index then None
        else if index < count - 1 then Some (of_nat BLOCK_BYTES)
        else Some (tot - of_nat BLOCK_BYTES * index))"

definition need :: "bytes \<Rightarrow> nat \<Rightarrow> protocol_violation + unit" where
  "need msg len = (if length msg < len then Inl TooShort else Inr ())"

definition control :: "bytes \<Rightarrow> nat \<Rightarrow> protocol_violation + unit" where
  "control msg len =
     rbind (need msg len) (\<lambda>_. if length msg > len then Inl ControlTooLong else Inr ())"

text \<open>The \<open>?\<close> of \<open>decode\<close>: a protocol violation becomes a decode error.\<close>

definition try_v :: "protocol_violation + 'a \<Rightarrow> ('a \<Rightarrow> decode_error + 'b) \<Rightarrow> decode_error + 'b" where
  "try_v m f = rbind (map_err Violation m) f"

definition decode_attach :: "bytes \<Rightarrow> decode_error + frame" where
  "decode_attach msg =
     try_v (need msg ATTACH_FIXED) (\<lambda>_.
       let name_len = unat (msg ! (ATTACH_FIXED - 1)); name = drop ATTACH_FIXED msg in
       if name_len = 0 \<or> length msg \<noteq> ATTACH_FIXED + name_len then Inl (Violation BadNameLength)
       else if \<not> utf8_valid name then Inl (Violation BadName)
       else if \<not> (1 \<le> msg ! 5 \<and> msg ! 5 \<le> 3) then Inl (Violation UnknownCode)
       else Inr (F_Attach \<lparr>a_frame_version = u32_at msg 1, a_encoding = msg ! 5,
                           a_hash = take 32 (drop 6 msg), a_name = name\<rparr>))"

text \<open>One definition per arm of the match of \<open>decode\<close>.\<close>

definition decode_attached :: "bytes \<Rightarrow> decode_error + frame" where
  "decode_attached msg =
     try_v (control msg ATTACHED_LEN) (\<lambda>_.
     try_v (outcome_known (msg ! 1)) (\<lambda>_.
       if msg ! 1 = OUT_ACCEPTED then
         (if msg ! 2 = 0 then Inr (F_Attached Attach_Accepted) else Inl (Violation NonzeroDetail))
       else if msg ! 1 = OUT_REFUSED then
         try_v (reason_from (msg ! 2)) (\<lambda>r. Inr (F_Attached (Attach_Refused r)))
       else Inl (Violation OutcomeNotAllowed)))"

definition decode_target :: "u8 \<Rightarrow> bytes \<Rightarrow> decode_error + frame" where
  "decode_target form msg =
     try_v (control msg COMMON) (\<lambda>_.
     try_v (target_at msg) (\<lambda>target.
       if form = FORM_SUBSCRIBE then Inr (F_Subscribe target)
       else if form = FORM_UNSUBSCRIBE then Inr (F_Unsubscribe target)
       else Inr (F_Read target)))"

definition decode_answer :: "bytes \<Rightarrow> decode_error + frame" where
  "decode_answer msg =
     try_v (control msg ANSWER_LEN) (\<lambda>_.
     try_v (target_at msg) (\<lambda>target.
       let code = msg ! 10; detail = msg ! 11 in
       try_v (outcome_known code) (\<lambda>_.
         if code = OUT_ACCEPTED then
           (if detail = 0 then Inr (F_Answer target Answer_Accepted)
            else Inl (Violation NonzeroDetail))
         else if OUT_INVALID_VALUE \<le> code \<and> code \<le> OUT_UNKNOWN_INTERACTION then
           try_v (contract_from code detail) (\<lambda>c. Inr (F_Answer target (Answer_Contract c)))
         else Inl (Violation OutcomeNotAllowed))))"

definition publish_from :: "u8 \<Rightarrow> bytes \<Rightarrow> decode_error + publish_state" where
  "publish_from prov rest =
     (if prov = PROV_INIT then Inr Pub_Init
      else if prov = PROV_LIVE then Inr (Pub_Live rest)
      else if prov = PROV_INVALID_DECLARED then Inr Pub_InvalidDeclared
      else Inl (Violation UnknownCode))"

definition is_live :: "publish_state \<Rightarrow> bool" where
  "is_live state = (case state of Pub_Live _ \<Rightarrow> True | _ \<Rightarrow> False)"

definition decode_publish :: "bytes \<Rightarrow> decode_error + frame" where
  "decode_publish msg =
     try_v (need msg PUBLISH_LEN) (\<lambda>_.
     try_v (target_at msg) (\<lambda>target.
       let envelope = envelope_at msg COMMON; rest = drop PUBLISH_LEN msg in
       rbind (publish_from (msg ! (PUBLISH_LEN - 1)) rest) (\<lambda>state.
         if \<not> is_live state \<and> rest \<noteq> [] then Inl (Discard UnexpectedPayload)
         else Inr (F_Publish target envelope state))))"

definition decode_data :: "u8 \<Rightarrow> bytes \<Rightarrow> decode_error + frame" where
  "decode_data form msg =
     try_v (need msg DATA_LEN) (\<lambda>_.
     try_v (target_at msg) (\<lambda>target.
       let envelope = envelope_at msg COMMON; payload = drop DATA_LEN msg in
       if form = FORM_OCCURRENCE then Inr (F_Occurrence target envelope payload)
       else Inr (F_Request target envelope payload)))"

definition is_reply :: "response_outcome \<Rightarrow> bool" where
  "is_reply outcome = (case outcome of Resp_Reply _ \<Rightarrow> True | _ \<Rightarrow> False)"

definition response_from :: "u8 \<Rightarrow> u8 \<Rightarrow> bytes \<Rightarrow> decode_error + response_outcome" where
  "response_from code detail rest =
     (if code = OUT_REFUSED then Inl (Violation OutcomeNotAllowed)
      else if OUT_INVALID_VALUE \<le> code \<and> code \<le> OUT_UNKNOWN_INTERACTION then
        try_v (contract_from code detail) (\<lambda>c. Inr (Resp_Contract c))
      else if detail \<noteq> 0 then Inl (Violation NonzeroDetail)
      else if code = OUT_ACCEPTED then Inr Resp_Accepted
      else if code = OUT_REPLY then Inr (Resp_Reply rest)
      else if code = OUT_CORRUPT then Inr Resp_Corrupt
      else Inr Resp_Busy)"

definition decode_response :: "bytes \<Rightarrow> decode_error + frame" where
  "decode_response msg =
     try_v (need msg RESPONSE_LEN) (\<lambda>_.
     try_v (target_at msg) (\<lambda>target.
       let envelope = envelope_at msg COMMON;
           correlation = u64_at msg (COMMON + ENVELOPE_BYTES);
           code = msg ! (RESPONSE_LEN - 2); detail = msg ! (RESPONSE_LEN - 1);
           rest = drop RESPONSE_LEN msg in
       try_v (outcome_known code) (\<lambda>_.
       rbind (response_from code detail rest)
         (\<lambda>outcome. if \<not> is_reply outcome \<and> rest \<noteq> [] then Inl (Discard UnexpectedPayload)
                    else Inr (F_Response target envelope correlation outcome)))))"

definition decode_block :: "bytes \<Rightarrow> decode_error + frame" where
  "decode_block msg =
     try_v (need msg BLOCK_LEN) (\<lambda>_.
     try_v (target_at msg) (\<lambda>target.
       if t_kind target \<noteq> Fixed then Inl (Violation BadBlock)
       else
         let envelope = envelope_at msg COMMON;
             tot = u32_at msg (COMMON + ENVELOPE_BYTES);
             index = u32_at msg (COMMON + ENVELOPE_BYTES + 4);
             payload = drop BLOCK_LEN msg in
         case block_len tot index of
           Some len \<Rightarrow> if length payload = unat len
                       then Inr (F_Block target envelope tot index payload)
                       else Inl (Violation BadBlock)
         | None \<Rightarrow> Inl (Violation BadBlock)))"

definition decode_chunk :: "bytes \<Rightarrow> decode_error + frame" where
  "decode_chunk msg =
     try_v (need msg CHUNK_LEN) (\<lambda>_.
     try_v (stream_target_at msg) (\<lambda>target.
       Inr (F_Chunk target (envelope_at msg COMMON) (u64_at msg (COMMON + ENVELOPE_BYTES))
              (msg ! (CHUNK_LEN - 1)) (drop CHUNK_LEN msg))))"

definition decode_stream_end :: "bytes \<Rightarrow> decode_error + frame" where
  "decode_stream_end msg =
     try_v (need msg STREAM_END_LEN) (\<lambda>_.
     try_v (stream_target_at msg) (\<lambda>target.
     try_v (stream_from (msg ! (STREAM_END_LEN - 2)) (msg ! (STREAM_END_LEN - 1))) (\<lambda>outcome.
       if length msg > STREAM_END_LEN then Inl (Violation BadStream)
       else Inr (F_StreamEnd target (envelope_at msg COMMON) (u64_at msg (COMMON + ENVELOPE_BYTES))
              (msg ! (STREAM_END_LEN - 3)) outcome))))"

definition decode_stream_credit :: "bytes \<Rightarrow> decode_error + frame" where
  "decode_stream_credit msg =
     try_v (need msg STREAM_CREDIT_LEN) (\<lambda>_.
     try_v (stream_target_at msg) (\<lambda>target.
       let credit = u32_at msg (STREAM_CREDIT_LEN - 4) in
       if credit = 0 then Inl (Violation ZeroNumber)
       else if length msg > STREAM_CREDIT_LEN then Inl (Violation BadStream)
       else Inr (F_StreamCredit target (u64_at msg COMMON) (msg ! (STREAM_CREDIT_LEN - 5)) credit)))"

definition frame_decode :: "bytes \<Rightarrow> decode_error + frame" where
  "frame_decode msg =
     (case msg of
        [] \<Rightarrow> Inl (Violation TooShort)
      | form # _ \<Rightarrow>
          if form = FORM_ATTACH then decode_attach msg
          else if form = FORM_ATTACHED then decode_attached msg
          else if form = FORM_SUBSCRIBE \<or> form = FORM_UNSUBSCRIBE \<or> form = FORM_READ then
            decode_target form msg
          else if form = FORM_ANSWER then decode_answer msg
          else if form = FORM_PUBLISH then decode_publish msg
          else if form = FORM_OCCURRENCE \<or> form = FORM_REQUEST then decode_data form msg
          else if form = FORM_RESPONSE then decode_response msg
          else if form = FORM_BLOCK then decode_block msg
          else if form = FORM_CHUNK then decode_chunk msg
          else if form = FORM_STREAM_END then decode_stream_end msg
          else if form = FORM_STREAM_CREDIT then decode_stream_credit msg
          else Inl (Violation UnknownCode))"

text \<open>The cursor of \<open>encode\<close> over the output buffer.\<close>

record cursor =
  c_out :: bytes
  c_at :: nat

definition cur_bytes :: "bytes \<Rightarrow> cursor \<Rightarrow> cursor" where
  "cur_bytes b w = \<lparr>c_out = put_at (c_out w) (c_at w) b, c_at = c_at w + length b\<rparr>"

definition cur_u8 :: "u8 \<Rightarrow> cursor \<Rightarrow> cursor" where
  "cur_u8 v w = cur_bytes [v] w"

definition cur_target :: "u8 \<Rightarrow> target \<Rightarrow> cursor \<Rightarrow> cursor" where
  "cur_target form t w =
     cur_bytes (le_bytes 4 (t_ord t)) (cur_bytes (le_bytes 4 (t_iface t))
       (cur_u8 (kind_code (t_kind t)) (cur_u8 form w)))"

definition cur_envelope :: "envelope \<Rightarrow> cursor \<Rightarrow> cursor" where
  "cur_envelope e w = cur_bytes (le_bytes 8 (seq e)) (cur_bytes (le_bytes 8 (stamp e)) w)"

fun encoded_len :: "frame \<Rightarrow> nat" where
  "encoded_len (F_Attach a) = ATTACH_FIXED + length (a_name a)"
| "encoded_len (F_Attached _) = ATTACHED_LEN"
| "encoded_len (F_Subscribe _) = COMMON"
| "encoded_len (F_Unsubscribe _) = COMMON"
| "encoded_len (F_Read _) = COMMON"
| "encoded_len (F_Answer _ _) = ANSWER_LEN"
| "encoded_len (F_Publish _ _ state) =
     PUBLISH_LEN + (case state of Pub_Live p \<Rightarrow> length p | _ \<Rightarrow> 0)"
| "encoded_len (F_Occurrence _ _ payload) = DATA_LEN + length payload"
| "encoded_len (F_Request _ _ payload) = DATA_LEN + length payload"
| "encoded_len (F_Response _ _ _ outcome) =
     RESPONSE_LEN + (case outcome of Resp_Reply p \<Rightarrow> length p | _ \<Rightarrow> 0)"
| "encoded_len (F_Block _ _ _ _ payload) = BLOCK_LEN + length payload"
| "encoded_len (F_Chunk _ _ _ _ payload) = CHUNK_LEN + length payload"
| "encoded_len (F_StreamEnd _ _ _ _ _) = STREAM_END_LEN"
| "encoded_len (F_StreamCredit _ _ _ _) = STREAM_CREDIT_LEN"

fun answer_codes :: "answer_outcome \<Rightarrow> u8 \<times> u8" where
  "answer_codes Answer_Accepted = (OUT_ACCEPTED, 0)"
| "answer_codes (Answer_Contract c) = contract_codes c"

fun response_codes :: "response_outcome \<Rightarrow> u8 \<times> u8" where
  "response_codes Resp_Accepted = (OUT_ACCEPTED, 0)"
| "response_codes (Resp_Reply _) = (OUT_REPLY, 0)"
| "response_codes (Resp_Contract c) = contract_codes c"
| "response_codes Resp_Corrupt = (OUT_CORRUPT, 0)"
| "response_codes Resp_Busy = (OUT_BUSY, 0)"

definition cur_codes :: "u8 \<times> u8 \<Rightarrow> cursor \<Rightarrow> cursor" where
  "cur_codes cd w = cur_u8 (snd cd) (cur_u8 (fst cd) w)"

fun encode_into :: "frame \<Rightarrow> cursor \<Rightarrow> cursor" where
  "encode_into (F_Attach a) w =
     cur_bytes (a_name a) (cur_u8 (of_nat (length (a_name a))) (cur_bytes (a_hash a)
       (cur_u8 (a_encoding a) (cur_bytes (le_bytes 4 (a_frame_version a)) (cur_u8 FORM_ATTACH w)))))"
| "encode_into (F_Attached Attach_Accepted) w =
     cur_u8 0 (cur_u8 OUT_ACCEPTED (cur_u8 FORM_ATTACHED w))"
| "encode_into (F_Attached (Attach_Refused r)) w =
     cur_u8 (reason_code r) (cur_u8 OUT_REFUSED (cur_u8 FORM_ATTACHED w))"
| "encode_into (F_Subscribe t) w = cur_target FORM_SUBSCRIBE t w"
| "encode_into (F_Unsubscribe t) w = cur_target FORM_UNSUBSCRIBE t w"
| "encode_into (F_Read t) w = cur_target FORM_READ t w"
| "encode_into (F_Answer t outcome) w = cur_codes (answer_codes outcome) (cur_target FORM_ANSWER t w)"
| "encode_into (F_Publish t e state) w =
     (let w = cur_envelope e (cur_target FORM_PUBLISH t w) in
      case state of
        Pub_Init \<Rightarrow> cur_u8 PROV_INIT w
      | Pub_Live p \<Rightarrow> cur_bytes p (cur_u8 PROV_LIVE w)
      | Pub_InvalidDeclared \<Rightarrow> cur_u8 PROV_INVALID_DECLARED w)"
| "encode_into (F_Occurrence t e payload) w =
     cur_bytes payload (cur_envelope e (cur_target FORM_OCCURRENCE t w))"
| "encode_into (F_Request t e payload) w =
     cur_bytes payload (cur_envelope e (cur_target FORM_REQUEST t w))"
| "encode_into (F_Response t e c outcome) w =
     (let w = cur_codes (response_codes outcome) (cur_bytes (le_bytes 8 c)
                (cur_envelope e (cur_target FORM_RESPONSE t w))) in
      case outcome of Resp_Reply p \<Rightarrow> cur_bytes p w | _ \<Rightarrow> w)"
| "encode_into (F_Block t e tot index payload) w =
     cur_bytes payload (cur_bytes (le_bytes 4 index) (cur_bytes (le_bytes 4 tot)
       (cur_envelope e (cur_target FORM_BLOCK t w))))"
| "encode_into (F_Chunk t e c stream payload) w =
     cur_bytes payload (cur_u8 stream (cur_bytes (le_bytes 8 c)
       (cur_envelope e (cur_target FORM_CHUNK t w))))"
| "encode_into (F_StreamEnd t e c stream outcome) w =
     cur_codes (stream_codes outcome) (cur_u8 stream (cur_bytes (le_bytes 8 c)
       (cur_envelope e (cur_target FORM_STREAM_END t w))))"
| "encode_into (F_StreamCredit t c stream credit) w =
     cur_bytes (le_bytes 4 credit) (cur_u8 stream (cur_bytes (le_bytes 8 c)
       (cur_target FORM_STREAM_CREDIT t w)))"

text \<open>The bytes written and the buffer after, or the length needed with the buffer untouched.\<close>

definition frame_encode :: "frame \<Rightarrow> bytes \<Rightarrow> short + (nat \<times> bytes)" where
  "frame_encode f out =
     (let n = encoded_len f in
      if length out < n then Inl (Short n)
      else let w = encode_into f \<lparr>c_out = out, c_at = 0\<rparr> in Inr (c_at w, c_out w))"

section \<open>The message of a frame\<close>

definition target_bytes :: "u8 \<Rightarrow> target \<Rightarrow> bytes" where
  "target_bytes form t =
     form # kind_code (t_kind t) # le_bytes 4 (t_iface t) @ le_bytes 4 (t_ord t)"

definition envelope_bytes :: "envelope \<Rightarrow> bytes" where
  "envelope_bytes e = le_bytes 8 (stamp e) @ le_bytes 8 (seq e)"

definition code_bytes :: "u8 \<times> u8 \<Rightarrow> bytes" where
  "code_bytes cd = [fst cd, snd cd]"

fun state_bytes :: "publish_state \<Rightarrow> bytes" where
  "state_bytes Pub_Init = [PROV_INIT]"
| "state_bytes (Pub_Live p) = PROV_LIVE # p"
| "state_bytes Pub_InvalidDeclared = [PROV_INVALID_DECLARED]"

fun reply_bytes :: "response_outcome \<Rightarrow> bytes" where
  "reply_bytes (Resp_Reply p) = p"
| "reply_bytes _ = []"

fun frame_bytes :: "frame \<Rightarrow> bytes" where
  "frame_bytes (F_Attach a) =
     FORM_ATTACH # le_bytes 4 (a_frame_version a) @ a_encoding a # a_hash a @
       of_nat (length (a_name a)) # a_name a"
| "frame_bytes (F_Attached Attach_Accepted) = [FORM_ATTACHED, OUT_ACCEPTED, 0]"
| "frame_bytes (F_Attached (Attach_Refused r)) = [FORM_ATTACHED, OUT_REFUSED, reason_code r]"
| "frame_bytes (F_Subscribe t) = target_bytes FORM_SUBSCRIBE t"
| "frame_bytes (F_Unsubscribe t) = target_bytes FORM_UNSUBSCRIBE t"
| "frame_bytes (F_Read t) = target_bytes FORM_READ t"
| "frame_bytes (F_Answer t out) = target_bytes FORM_ANSWER t @ code_bytes (answer_codes out)"
| "frame_bytes (F_Publish t e state) =
     target_bytes FORM_PUBLISH t @ envelope_bytes e @ state_bytes state"
| "frame_bytes (F_Occurrence t e payload) =
     target_bytes FORM_OCCURRENCE t @ envelope_bytes e @ payload"
| "frame_bytes (F_Request t e payload) = target_bytes FORM_REQUEST t @ envelope_bytes e @ payload"
| "frame_bytes (F_Response t e c out) =
     target_bytes FORM_RESPONSE t @ envelope_bytes e @ le_bytes 8 c @
       code_bytes (response_codes out) @ reply_bytes out"
| "frame_bytes (F_Block t e tot index payload) =
     target_bytes FORM_BLOCK t @ envelope_bytes e @ le_bytes 4 tot @ le_bytes 4 index @ payload"
| "frame_bytes (F_Chunk t e c stream payload) =
     target_bytes FORM_CHUNK t @ envelope_bytes e @ le_bytes 8 c @ stream # payload"
| "frame_bytes (F_StreamEnd t e c stream out) =
     target_bytes FORM_STREAM_END t @ envelope_bytes e @ le_bytes 8 c @ stream #
       code_bytes (stream_codes out)"
| "frame_bytes (F_StreamCredit t c stream credit) =
     target_bytes FORM_STREAM_CREDIT t @ le_bytes 8 c @ stream # le_bytes 4 credit"

text \<open>
  The frames a receiver accepts. A \<open>contract(InvalidValue)\<close> on the wire names the rule only, so
  its type name is \<open>None\<close>.
\<close>

definition target_valid :: "target \<Rightarrow> bool" where
  "target_valid t \<longleftrightarrow> t_iface t \<noteq> 0 \<and> t_ord t \<noteq> 0"

definition stream_valid :: "target \<Rightarrow> bool" where
  "stream_valid t \<longleftrightarrow> target_valid t \<and> (t_kind t = Command \<or> t_kind t = Query)"

fun contract_valid :: "contract \<Rightarrow> bool" where
  "contract_valid (InvalidValue v) = (v_type_name v = None)"
| "contract_valid _ = True"

definition attach_valid :: "attach \<Rightarrow> bool" where
  "attach_valid a \<longleftrightarrow> 1 \<le> a_encoding a \<and> a_encoding a \<le> 3 \<and> length (a_hash a) = 32 \<and>
     1 \<le> length (a_name a) \<and> length (a_name a) \<le> 255 \<and> utf8_valid (a_name a)"

fun frame_valid :: "frame \<Rightarrow> bool" where
  "frame_valid (F_Attach a) = attach_valid a"
| "frame_valid (F_Attached _) = True"
| "frame_valid (F_Subscribe t) = target_valid t"
| "frame_valid (F_Unsubscribe t) = target_valid t"
| "frame_valid (F_Read t) = target_valid t"
| "frame_valid (F_Answer t out) =
     (target_valid t \<and> (case out of Answer_Contract c \<Rightarrow> contract_valid c | _ \<Rightarrow> True))"
| "frame_valid (F_Publish t e state) = target_valid t"
| "frame_valid (F_Occurrence t e payload) = target_valid t"
| "frame_valid (F_Request t e payload) = target_valid t"
| "frame_valid (F_Response t e c out) =
     (target_valid t \<and> (case out of Resp_Contract c \<Rightarrow> contract_valid c | _ \<Rightarrow> True))"
| "frame_valid (F_Block t e tot index payload) =
     (target_valid t \<and> t_kind t = Fixed \<and> block_len tot index = Some (of_nat (length payload)) \<and>
      length payload < 2 ^ 32)"
| "frame_valid (F_Chunk t e c stream payload) = stream_valid t"
| "frame_valid (F_StreamEnd t e c stream out) =
     (stream_valid t \<and> (case out of Stream_Contract c \<Rightarrow> contract_valid c | _ \<Rightarrow> True))"
| "frame_valid (F_StreamCredit t c stream credit) = (stream_valid t \<and> credit \<noteq> 0)"

text \<open>
  A frame whose outcome, if it is a \<open>contract(InvalidValue)\<close>, has no type name: the wire carries the
  rule's tag only, so \<open>encode\<close> drops a type name.
\<close>

fun names_rule_only :: "frame \<Rightarrow> bool" where
  "names_rule_only (F_Answer t (Answer_Contract c)) = contract_valid c"
| "names_rule_only (F_Response t e c (Resp_Contract k)) = contract_valid k"
| "names_rule_only (F_StreamEnd t e c s (Stream_Contract k)) = contract_valid k"
| "names_rule_only _ = True"

section \<open>Encoding\<close>

text \<open>The cursor after the bytes \<open>a\<close> over the buffer \<open>out\<close>.\<close>

definition cur_after :: "bytes \<Rightarrow> bytes \<Rightarrow> cursor" where
  "cur_after out a = \<lparr>c_out = a @ drop (length a) out, c_at = length a\<rparr>"

lemma cur_after_Nil: "\<lparr>c_out = out, c_at = 0\<rparr> = cur_after out []"
  by (simp add: cur_after_def)

lemma cur_after_bytes: "cur_bytes b (cur_after out a) = cur_after out (a @ b)"
  by (simp add: cur_bytes_def cur_after_def put_at_def add.commute)

lemma cur_after_parts:
  "cur_u8 v (cur_after out a) = cur_after out (a @ [v])"
  "cur_target form t (cur_after out a) = cur_after out (a @ target_bytes form t)"
  "cur_envelope e (cur_after out a) = cur_after out (a @ envelope_bytes e)"
  "cur_codes cd (cur_after out a) = cur_after out (a @ code_bytes cd)"
  by (simp_all add: cur_u8_def cur_target_def cur_envelope_def cur_codes_def cur_after_bytes
      target_bytes_def envelope_bytes_def code_bytes_def)

lemma encode_into_eq: "encode_into f (cur_after out []) = cur_after out (frame_bytes f)"
proof (cases f)
  case (F_Attached x)
  then show ?thesis by (cases x) (simp_all add: cur_after_parts)
qed (simp_all add: cur_after_bytes cur_after_parts Let_def split: publish_state.split response_outcome.split)

lemma length_parts [simp]:
  "length (target_bytes form t) = 10" "length (envelope_bytes e) = 16" "length (code_bytes cd) = 2"
  by (simp_all add: target_bytes_def envelope_bytes_def code_bytes_def)

text \<open>\<open>encoded_len\<close> is the length of the message, for every frame whose hash has its 32 bytes.\<close>

fun hash_sized :: "frame \<Rightarrow> bool" where
  "hash_sized (F_Attach a) = (length (a_hash a) = 32)"
| "hash_sized _ = True"

lemma length_frame_bytes: "hash_sized f \<Longrightarrow> length (frame_bytes f) = encoded_len f"
proof (cases f)
  case (F_Attached x)
  then show ?thesis by (cases x) simp_all
qed (simp_all split: publish_state.split response_outcome.split)

lemma frame_encode_eq:
  assumes "hash_sized f"
  shows "frame_encode f out =
    (if length out < length (frame_bytes f) then Inl (Short (length (frame_bytes f)))
     else Inr (length (frame_bytes f), frame_bytes f @ drop (length (frame_bytes f)) out))"
  unfolding frame_encode_def cur_after_Nil encode_into_eq
  by (simp add: length_frame_bytes [OF assms] Let_def cur_after_def)

section \<open>Codes\<close>

lemma try_v_simps [simp]: "try_v (Inl e) f = Inl (Violation e)" "try_v (Inr x) f = f x"
  by (simp_all add: try_v_def)

lemma try_v_Inr_iff [result_iff]: "try_v m f = Inr y \<longleftrightarrow> (\<exists>x. m = Inr x \<and> f x = Inr y)"
  by (cases m) auto

lemma need_Inr_iff [result_iff]: "need msg n = Inr u \<longleftrightarrow> n \<le> length msg"
  by (auto simp: need_def)

lemma control_Inr_iff [result_iff]: "control msg n = Inr u \<longleftrightarrow> length msg = n"
  by (auto simp: control_def result_iff)

lemma kind_from_iff [result_iff]: "kind_from c = Inr k \<longleftrightarrow> c = kind_code k"
  by (cases k) (auto simp: kind_from_def)

lemma kind_from_code [simp]: "kind_from (kind_code k) = Inr k"
  by (simp add: kind_from_iff)

lemma rule_from_iff [result_iff]: "rule_from c = Inr r \<longleftrightarrow> c = rule_code r"
  by (cases r) (auto simp: rule_from_def rule_code_def)

lemma reason_from_iff [result_iff]: "reason_from c = Inr r \<longleftrightarrow> c = reason_code r"
  by (cases r) (auto simp: reason_from_def)

lemma contract_range:
  "OUT_INVALID_VALUE \<le> c \<and> c \<le> OUT_UNKNOWN_INTERACTION \<longleftrightarrow> c \<in> {3, 4, 5, 6}"
proof
  assume "OUT_INVALID_VALUE \<le> c \<and> c \<le> OUT_UNKNOWN_INTERACTION"
  then have "unat c = 3 \<or> unat c = 4 \<or> unat c = 5 \<or> unat c = 6"
    by (auto simp: word_le_nat_alt)
  then show "c \<in> {3, 4, 5, 6}"
    by (auto simp: word_eq_iff_unsigned [where 'a = nat])
qed auto

lemma outcome_range: "OUT_ACCEPTED \<le> c \<and> c \<le> OUT_REFUSED \<longleftrightarrow> c \<in> {1, 2, 3, 4, 5, 6, 7, 8, 9}"
proof
  assume "OUT_ACCEPTED \<le> c \<and> c \<le> OUT_REFUSED"
  then have "unat c \<in> {1, 2, 3, 4, 5, 6, 7, 8, 9}" by (auto simp: word_le_nat_alt)
  then show "c \<in> {1, 2, 3, 4, 5, 6, 7, 8, 9}"
    by (auto simp: word_eq_iff_unsigned [where 'a = nat])
qed auto

lemma contract_codes_range: "fst (contract_codes c) \<in> {3, 4, 5, 6}"
  by (cases c) simp_all

lemma contract_from_iff:
  assumes "code \<in> {3, 4, 5, 6}"
  shows "contract_from code detail = Inr c \<longleftrightarrow> contract_codes c = (code, detail) \<and> contract_valid c"
proof (cases c)
  case (InvalidValue v)
  then show ?thesis using assms by (cases v) (auto simp: contract_from_def result_iff)
qed (use assms in \<open>auto simp: contract_from_def result_iff\<close>)

lemma contract_from_codes:
  "contract_valid c \<Longrightarrow> contract_from (fst (contract_codes c)) (snd (contract_codes c)) = Inr c"
  by (simp add: contract_from_iff [OF contract_codes_range])

lemma stream_from_iff:
  "stream_from code detail = Inr out \<longleftrightarrow> stream_codes out = (code, detail) \<and>
     (case out of Stream_Contract c \<Rightarrow> contract_valid c | _ \<Rightarrow> True)"
proof (cases "code \<in> {3, 4, 5, 6}")
  case True
  then show ?thesis
    using contract_from_iff [OF True]
    by (cases out) (auto simp: stream_from_def contract_range result_iff)
next
  case False
  have "contract_codes c \<noteq> (code, detail)" for c
    using contract_codes_range [of c] False by auto
  then show ?thesis
    using False by (cases out) (auto simp: stream_from_def contract_range)
qed

lemma publish_from_Inr:
  "publish_from prov rest = Inr st \<Longrightarrow>
     state_bytes st = prov # (if is_live st then rest else [])"
  by (auto simp: publish_from_def is_live_def split: if_splits)

lemma response_from_Inr:
  assumes "response_from code detail rest = Inr x" "outcome_known code = Inr ()"
  shows "response_codes x = (code, detail)" "reply_bytes x = (if is_reply x then rest else [])"
    "case x of Resp_Contract c \<Rightarrow> contract_valid c | _ \<Rightarrow> True"
  using assms
  by (auto simp: response_from_def outcome_known_def outcome_range contract_range contract_from_iff
      result_iff is_reply_def split: if_splits)

section \<open>Decoding what was encoded\<close>

lemma target_at_target_bytes:
  assumes "target_valid t"
  shows "target_at (target_bytes form t @ rest) = Inr t"
  using assms by (simp add: target_at_def target_bytes_def u32_at_def target_valid_def Let_def)

lemma stream_target_at_target_bytes:
  assumes "stream_valid t"
  shows "stream_target_at (target_bytes form t @ rest) = Inr t"
  using assms by (auto simp: stream_target_at_def stream_valid_def target_at_target_bytes)

lemma envelope_at_envelope_bytes:
  "envelope_at (target_bytes form t @ envelope_bytes e @ rest) 10 = e"
  by (simp add: envelope_at_def envelope_bytes_def u64_at_def)

text \<open>The first byte chooses the arm of \<open>decode\<close>.\<close>

lemma frame_decode_target_bytes:
  "frame_decode (target_bytes FORM_SUBSCRIBE t @ r) = decode_target FORM_SUBSCRIBE (target_bytes FORM_SUBSCRIBE t @ r)"
  "frame_decode (target_bytes FORM_UNSUBSCRIBE t @ r) = decode_target FORM_UNSUBSCRIBE (target_bytes FORM_UNSUBSCRIBE t @ r)"
  "frame_decode (target_bytes FORM_READ t @ r) = decode_target FORM_READ (target_bytes FORM_READ t @ r)"
  "frame_decode (target_bytes FORM_ANSWER t @ r) = decode_answer (target_bytes FORM_ANSWER t @ r)"
  "frame_decode (target_bytes FORM_PUBLISH t @ r) = decode_publish (target_bytes FORM_PUBLISH t @ r)"
  "frame_decode (target_bytes FORM_OCCURRENCE t @ r) = decode_data FORM_OCCURRENCE (target_bytes FORM_OCCURRENCE t @ r)"
  "frame_decode (target_bytes FORM_REQUEST t @ r) = decode_data FORM_REQUEST (target_bytes FORM_REQUEST t @ r)"
  "frame_decode (target_bytes FORM_RESPONSE t @ r) = decode_response (target_bytes FORM_RESPONSE t @ r)"
  "frame_decode (target_bytes FORM_BLOCK t @ r) = decode_block (target_bytes FORM_BLOCK t @ r)"
  "frame_decode (target_bytes FORM_CHUNK t @ r) = decode_chunk (target_bytes FORM_CHUNK t @ r)"
  "frame_decode (target_bytes FORM_STREAM_END t @ r) = decode_stream_end (target_bytes FORM_STREAM_END t @ r)"
  "frame_decode (target_bytes FORM_STREAM_CREDIT t @ r) = decode_stream_credit (target_bytes FORM_STREAM_CREDIT t @ r)"
  by (simp_all add: frame_decode_def target_bytes_def)

lemmas decode_arm_facts = target_at_target_bytes stream_target_at_target_bytes
  envelope_at_envelope_bytes need_def control_def outcome_known_def Let_def nth_append

lemma decode_attach_bytes:
  "attach_valid a \<Longrightarrow> frame_decode (frame_bytes (F_Attach a)) = Inr (F_Attach a)"
  by (simp add: frame_decode_def decode_attach_def attach_valid_def need_def Let_def u32_at_def
      nth_append unat_of_nat_u8) auto

lemma decode_attached_bytes: "frame_decode (frame_bytes (F_Attached x)) = Inr (F_Attached x)"
proof (cases x)
  case (Attach_Refused r)
  have "reason_from (reason_code r) = Inr r" by (simp add: reason_from_iff)
  with Attach_Refused show ?thesis
    by (simp add: frame_decode_def decode_attached_def control_def need_def outcome_known_def)
qed (simp add: frame_decode_def decode_attached_def control_def need_def outcome_known_def)

lemma decode_answer_bytes:
  "frame_valid (F_Answer t x) \<Longrightarrow> frame_decode (frame_bytes (F_Answer t x)) = Inr (F_Answer t x)"
proof (cases x)
  case (Answer_Contract c)
  assume v: "frame_valid (F_Answer t x)"
  then show ?thesis
    using contract_codes_range [of c] contract_from_codes [of c] Answer_Contract
    by (auto simp: frame_decode_target_bytes decode_answer_def decode_arm_facts code_bytes_def contract_range)
qed (simp add: frame_decode_target_bytes decode_answer_def decode_arm_facts code_bytes_def)

lemma decode_publish_bytes:
  "target_valid t \<Longrightarrow> frame_decode (frame_bytes (F_Publish t e x)) = Inr (F_Publish t e x)"
  by (cases x) (simp_all add: frame_decode_target_bytes decode_publish_def decode_arm_facts
      publish_from_def is_live_def)

lemma decode_response_bytes:
  assumes "frame_valid (F_Response t e c x)"
  shows "frame_decode (frame_bytes (F_Response t e c x)) = Inr (F_Response t e c x)"
proof -
  have t: "target_valid t" using assms by simp
  have u: "u64_at (target_bytes FORM_RESPONSE t @ envelope_bytes e @ le_bytes 8 c @ r) 26 = c" for r
    by (simp add: u64_at_def)
  show ?thesis
  proof (cases x)
    case (Resp_Contract k)
    then show ?thesis
      using assms contract_codes_range [of k] contract_from_codes [of k]
      by (auto simp: frame_decode_target_bytes decode_response_def response_from_def decode_arm_facts code_bytes_def
          contract_range u is_reply_def)
  qed (simp_all add: frame_decode_target_bytes decode_response_def response_from_def decode_arm_facts code_bytes_def u t
      is_reply_def word_le_nat_alt)
qed

lemma decode_block_bytes:
  assumes "frame_valid (F_Block t e tot index payload)"
  shows "frame_decode (frame_bytes (F_Block t e tot index payload)) = Inr (F_Block t e tot index payload)"
  using assms
  by (simp add: frame_decode_target_bytes decode_block_def decode_arm_facts u32_at_def unat_of_nat_u32)

lemma decode_stream_bytes:
  "stream_valid t \<Longrightarrow> frame_decode (frame_bytes (F_Chunk t e c s payload)) = Inr (F_Chunk t e c s payload)"
  "frame_valid (F_StreamEnd t e c s x) \<Longrightarrow>
     frame_decode (frame_bytes (F_StreamEnd t e c s x)) = Inr (F_StreamEnd t e c s x)"
  "frame_valid (F_StreamCredit t c s credit) \<Longrightarrow>
     frame_decode (frame_bytes (F_StreamCredit t c s credit)) = Inr (F_StreamCredit t c s credit)"
proof -
  show "stream_valid t \<Longrightarrow> frame_decode (frame_bytes (F_Chunk t e c s payload)) = Inr (F_Chunk t e c s payload)"
    by (simp add: frame_decode_target_bytes decode_chunk_def decode_arm_facts u64_at_def)
  assume v: "frame_valid (F_StreamEnd t e c s x)"
  then have "stream_from (fst (stream_codes x)) (snd (stream_codes x)) = Inr x"
    by (simp add: stream_from_iff)
  with v show "frame_decode (frame_bytes (F_StreamEnd t e c s x)) = Inr (F_StreamEnd t e c s x)"
    by (simp add: frame_decode_target_bytes decode_stream_end_def decode_arm_facts u64_at_def code_bytes_def)
next
  assume "frame_valid (F_StreamCredit t c s credit)"
  then show "frame_decode (frame_bytes (F_StreamCredit t c s credit)) = Inr (F_StreamCredit t c s credit)"
    by (simp add: frame_decode_target_bytes decode_stream_credit_def decode_arm_facts u32_at_def u64_at_def)
qed

lemma decode_plain_bytes:
  assumes "target_valid t"
  shows "frame_decode (frame_bytes (F_Subscribe t)) = Inr (F_Subscribe t)"
    "frame_decode (frame_bytes (F_Unsubscribe t)) = Inr (F_Unsubscribe t)"
    "frame_decode (frame_bytes (F_Read t)) = Inr (F_Read t)"
    "frame_decode (frame_bytes (F_Occurrence t e payload)) = Inr (F_Occurrence t e payload)"
    "frame_decode (frame_bytes (F_Request t e payload)) = Inr (F_Request t e payload)"
  using frame_decode_target_bytes(1-3) [of t "[]"] target_at_target_bytes [OF assms, of _ "[]"] assms
  by (simp_all add: frame_decode_target_bytes decode_target_def decode_data_def decode_arm_facts)

lemma decode_frame_bytes: "frame_valid f \<Longrightarrow> frame_decode (frame_bytes f) = Inr f"
  by (cases f) (simp_all add: decode_attach_bytes decode_attached_bytes decode_answer_bytes
      decode_publish_bytes decode_response_bytes decode_block_bytes decode_stream_bytes
      decode_plain_bytes del: frame_bytes.simps)

section \<open>Encoding what was decoded\<close>

lemma drop_step: "k < length m \<Longrightarrow> drop k m = m ! k # drop (k + 1) m"
  by (simp add: Cons_nth_drop_Suc)

lemma drop_two: "2 \<le> length m \<Longrightarrow> m = m ! 0 # m ! 1 # drop 2 m"
  by (cases m; cases "tl m") auto

lemma le_bytes_at:
  "k + 4 \<le> length m \<Longrightarrow> le_bytes 4 (u32_at m k) @ drop (k + 4) m = drop k m"
  "k + 8 \<le> length m \<Longrightarrow> le_bytes 8 (u64_at m k) @ drop (k + 8) m = drop k m"
proof -
  assume "k + 4 \<le> length m"
  then have "length (take 4 (drop k m)) = 4" by simp
  then have "le_bytes 4 (u32_at m k) = take 4 (drop k m)"
    using le_bytes_le_word [of "take 4 (drop k m)", where 'a = 32] unfolding u32_at_def by simp
  then show "le_bytes 4 (u32_at m k) @ drop (k + 4) m = drop k m"
    by (metis add.commute append_take_drop_id drop_drop)
next
  assume "k + 8 \<le> length m"
  then have "length (take 8 (drop k m)) = 8" by simp
  then have "le_bytes 8 (u64_at m k) = take 8 (drop k m)"
    using le_bytes_le_word [of "take 8 (drop k m)", where 'a = 64] unfolding u64_at_def by simp
  then show "le_bytes 8 (u64_at m k) @ drop (k + 8) m = drop k m"
    by (metis add.commute append_take_drop_id drop_drop)
qed

lemma target_bytes_at:
  assumes "target_at m = Inr t" "10 \<le> length m"
  shows "target_valid t" "target_bytes (hd m) t @ drop 10 m = m"
proof -
  from assms(1) have t: "kind_code (t_kind t) = m ! 1" "t_iface t = u32_at m 2" "t_ord t = u32_at m 6"
    "target_valid t"
    by (auto simp: target_at_def result_iff Let_def target_valid_def split: if_splits)
  show "target_valid t" by fact
  have "m = m ! 0 # m ! 1 # drop 2 m" using assms(2) by (intro drop_two) simp
  moreover have "drop 2 m = le_bytes 4 (u32_at m 2) @ le_bytes 4 (u32_at m 6) @ drop 10 m"
    using assms(2) le_bytes_at(1) [of 2 m] le_bytes_at(1) [of 6 m] by simp
  moreover have "hd m = m ! 0" using assms(2) by (cases m) simp_all
  ultimately show "target_bytes (hd m) t @ drop 10 m = m" by (simp add: target_bytes_def t)
qed

lemma stream_target_at_iff [result_iff]:
  "stream_target_at m = Inr t \<longleftrightarrow> target_at m = Inr t \<and> (t_kind t = Command \<or> t_kind t = Query)"
proof (cases "target_at m")
  case (Inr x)
  then show ?thesis by (cases "t_kind x") (auto simp: stream_target_at_def)
qed (simp add: stream_target_at_def)

lemma stream_target_bytes_at:
  assumes "stream_target_at m = Inr t" "10 \<le> length m"
  shows "stream_valid t" "target_bytes (hd m) t @ drop 10 m = m"
  using target_bytes_at [of m t] assms by (auto simp: result_iff stream_valid_def)

lemma envelope_bytes_at:
  "26 \<le> length m \<Longrightarrow> envelope_bytes (envelope_at m 10) @ drop 26 m = drop 10 m"
  using le_bytes_at(2) [of 10 m] le_bytes_at(2) [of 18 m]
  by (simp add: envelope_bytes_def envelope_at_def)

lemma attach_sound:
  assumes "decode_attach m = Inr f" "hd m = FORM_ATTACH"
  shows "frame_valid f \<and> frame_bytes f = m"
proof -
  let ?n = "unat (m ! 38)"
  from assms(1) have len: "39 \<le> length m" "0 < ?n" "length m = 39 + ?n" "utf8_valid (drop 39 m)"
    "1 \<le> m ! 5" "m ! 5 \<le> 3" and
    f: "f = F_Attach \<lparr>a_frame_version = u32_at m 1, a_encoding = m ! 5, a_hash = take 32 (drop 6 m),
                      a_name = drop 39 m\<rparr>"
    by (auto simp: decode_attach_def result_iff Let_def split: if_splits)
  have "m ! 0 = 1" using assms(2) len(1) by (cases m) simp_all
  then have "m = 1 # drop 1 m" using len(1) by (cases m) simp_all
  moreover have "drop 1 m = le_bytes 4 (u32_at m 1) @ m ! 5 # drop 6 m"
    using len(1) le_bytes_at(1) [of 1 m] drop_step [of 5 m] by simp
  moreover have "drop 6 m = take 32 (drop 6 m) @ m ! 38 # drop 39 m"
    using len(1) append_take_drop_id [of 32 "drop 6 m"] drop_step [of 38 m] by simp
  moreover have "(of_nat (length (drop 39 m)) :: u8) = m ! 38" using len(3) by simp
  ultimately have "frame_bytes f = m" by (simp add: f)
  moreover have "frame_valid f"
    using len unat_bound_u8 [of "m ! 38"] by (simp add: f attach_valid_def)
  ultimately show ?thesis by blast
qed

lemma attached_sound:
  assumes "decode_attached m = Inr f" "hd m = FORM_ATTACHED"
  shows "frame_valid f \<and> frame_bytes f = m"
proof -
  have len: "length m = 3" using assms(1) by (auto simp: decode_attached_def result_iff)
  then have "m = [m ! 0, m ! 1, m ! 2]"
    using drop_two [of m] drop_step [of 2 m] by simp
  moreover have "m ! 0 = 2" using assms(2) len by (cases m) simp_all
  ultimately have "m = [2, m ! 1, m ! 2]" by simp
  then show ?thesis
    using assms(1) by (auto simp: decode_attached_def result_iff split: if_splits)
qed

lemma target_sound:
  assumes "decode_target (hd m) m = Inr f" "hd m \<in> {FORM_SUBSCRIBE, FORM_UNSUBSCRIBE, FORM_READ}"
  shows "frame_valid f \<and> frame_bytes f = m"
proof -
  obtain t where t: "length m = 10" "target_at m = Inr t" and
    f: "f = (if hd m = FORM_SUBSCRIBE then F_Subscribe t
             else if hd m = FORM_UNSUBSCRIBE then F_Unsubscribe t else F_Read t)"
    using assms(1) by (auto simp: decode_target_def result_iff split: if_splits)
  show ?thesis using target_bytes_at [OF t(2)] t(1) f assms(2) by auto
qed

lemma answer_sound:
  assumes "decode_answer m = Inr f" "hd m = FORM_ANSWER"
  shows "frame_valid f \<and> frame_bytes f = m"
proof -
  obtain t where t: "length m = 12" "target_at m = Inr t"
    using assms(1) by (auto simp: decode_answer_def result_iff Let_def)
  note tb = target_bytes_at [OF t(2)]
  have d: "drop 10 m = [m ! 10, m ! 11]"
    using t(1) drop_step [of 10 m] drop_step [of 11 m] by simp
  have "m ! 10 = 1 \<and> m ! 11 = 0 \<and> f = F_Answer t Answer_Accepted \<or>
    (\<exists>c. contract_codes c = (m ! 10, m ! 11) \<and> contract_valid c \<and> f = F_Answer t (Answer_Contract c))"
    using assms(1) t
    by (auto simp: decode_answer_def result_iff Let_def contract_range contract_from_iff
        simp del: insert_iff split: if_splits)
  then show ?thesis using tb t(1) assms(2) d by (auto simp: code_bytes_def)
qed

lemma publish_sound:
  assumes "decode_publish m = Inr f" "hd m = FORM_PUBLISH"
  shows "frame_valid f \<and> frame_bytes f = m"
proof -
  obtain t where t: "27 \<le> length m" "target_at m = Inr t"
    using assms(1) by (auto simp: decode_publish_def result_iff Let_def)
  from assms(1) t obtain st where f: "f = F_Publish t (envelope_at m 10) st"
    and st: "publish_from (m ! 26) (drop 27 m) = Inr st" "is_live st \<or> drop 27 m = []"
    by (auto simp: decode_publish_def result_iff Let_def split: if_splits)
  from publish_from_Inr [OF st(1)] st(2) have "state_bytes st = drop 26 m"
    using drop_step [of 26 m] t(1) by auto
  then show ?thesis
    using target_bytes_at [OF t(2)] envelope_bytes_at [of m] t(1) assms(2) f by simp
qed

lemma data_sound:
  assumes "decode_data (hd m) m = Inr f" "hd m \<in> {FORM_OCCURRENCE, FORM_REQUEST}"
  shows "frame_valid f \<and> frame_bytes f = m"
proof -
  obtain t where t: "26 \<le> length m" "target_at m = Inr t" and
    f: "f = (if hd m = FORM_OCCURRENCE then F_Occurrence t (envelope_at m 10) (drop 26 m)
             else F_Request t (envelope_at m 10) (drop 26 m))"
    using assms(1) by (auto simp: decode_data_def result_iff Let_def split: if_splits)
  show ?thesis using target_bytes_at [OF t(2)] envelope_bytes_at [of m] t(1) f assms(2) by auto
qed

lemma response_sound:
  assumes "decode_response m = Inr f" "hd m = FORM_RESPONSE"
  shows "frame_valid f \<and> frame_bytes f = m"
proof -
  obtain t where t: "36 \<le> length m" "target_at m = Inr t"
    using assms(1) by (auto simp: decode_response_def result_iff Let_def)
  from assms(1) t obtain x where f: "f = F_Response t (envelope_at m 10) (u64_at m 26) x"
    and x: "response_from (m ! 34) (m ! 35) (drop 36 m) = Inr x" "outcome_known (m ! 34) = Inr ()"
      "is_reply x \<or> drop 36 m = []"
    by (auto simp: decode_response_def result_iff Let_def split: if_splits)
  have "drop 34 m = m ! 34 # m ! 35 # drop 36 m"
    using t(1) drop_step [of 34 m] drop_step [of 35 m] by simp
  then show ?thesis
    using target_bytes_at [OF t(2)] envelope_bytes_at [of m] le_bytes_at(2) [of 26 m] t(1) assms(2)
      response_from_Inr [OF x(1,2)] x(3) f
    by (auto simp: code_bytes_def)
qed

lemma block_sound:
  assumes "decode_block m = Inr f" "hd m = FORM_BLOCK"
  shows "frame_valid f \<and> frame_bytes f = m"
proof -
  obtain t where t: "34 \<le> length m" "target_at m = Inr t"
    using assms(1) by (auto simp: decode_block_def result_iff Let_def)
  from assms(1) t obtain len where
    f: "f = F_Block t (envelope_at m 10) (u32_at m 26) (u32_at m 30) (drop 34 m)" and
    len: "t_kind t = Fixed" "block_len (u32_at m 26) (u32_at m 30) = Some len"
      "length (drop 34 m) = unat len"
    by (auto simp: decode_block_def result_iff Let_def split: if_splits option.splits)
  have "of_nat (length (drop 34 m)) = len" unfolding len(3) by simp
  then show ?thesis
    using target_bytes_at [OF t(2)] envelope_bytes_at [of m] le_bytes_at(1) [of 26 m]
      le_bytes_at(1) [of 30 m] t(1) assms(2) f len unat_bound_u32 [of len] by simp
qed

lemma chunk_sound:
  assumes "decode_chunk m = Inr f" "hd m = FORM_CHUNK"
  shows "frame_valid f \<and> frame_bytes f = m"
proof -
  obtain t where t: "35 \<le> length m" "stream_target_at m = Inr t" and
    f: "f = F_Chunk t (envelope_at m 10) (u64_at m 26) (m ! 34) (drop 35 m)"
    using assms(1) by (auto simp: decode_chunk_def result_iff)
  show ?thesis
    using stream_target_bytes_at [OF t(2)] envelope_bytes_at [of m] le_bytes_at(2) [of 26 m]
      drop_step [of 34 m] t(1) assms(2) f by simp
qed

lemma stream_end_sound:
  assumes "decode_stream_end m = Inr f" "hd m = FORM_STREAM_END"
  shows "frame_valid f \<and> frame_bytes f = m"
proof -
  obtain t x where t: "length m = 37" "stream_target_at m = Inr t" "stream_from (m ! 35) (m ! 36) = Inr x"
    and f: "f = F_StreamEnd t (envelope_at m 10) (u64_at m 26) (m ! 34) x"
    using assms(1) by (auto simp: decode_stream_end_def result_iff split: if_splits)
  have "drop 34 m = m ! 34 # m ! 35 # [m ! 36]"
    using t(1) drop_step [of 34 m] drop_step [of 35 m] drop_step [of 36 m] by simp
  then show ?thesis
    using stream_target_bytes_at [OF t(2)] envelope_bytes_at [of m] le_bytes_at(2) [of 26 m]
      t(1,3) assms(2) f by (simp add: stream_from_iff code_bytes_def)
qed

lemma stream_credit_sound:
  assumes "decode_stream_credit m = Inr f" "hd m = FORM_STREAM_CREDIT"
  shows "frame_valid f \<and> frame_bytes f = m"
proof -
  obtain t where t: "length m = 23" "stream_target_at m = Inr t" "u32_at m 19 \<noteq> 0"
    and f: "f = F_StreamCredit t (u64_at m 10) (m ! 18) (u32_at m 19)"
    using assms(1) by (auto simp: decode_stream_credit_def result_iff Let_def split: if_splits)
  have "drop 18 m = m ! 18 # le_bytes 4 (u32_at m 19)"
    using t(1) drop_step [of 18 m] le_bytes_at(1) [of 19 m] by simp
  then show ?thesis
    using stream_target_bytes_at [OF t(2)] le_bytes_at(2) [of 10 m] t(1,3) assms(2) f by simp
qed

lemma frame_decode_sound:
  assumes "frame_decode m = Inr f"
  shows "frame_valid f \<and> frame_bytes f = m"
proof (cases m)
  case (Cons form r)
  then have "hd m = form" by simp
  with assms Cons show ?thesis
    using attach_sound [of m f] attached_sound [of m f] target_sound [of m f] answer_sound [of m f]
      publish_sound [of m f] data_sound [of m f] response_sound [of m f] block_sound [of m f]
      chunk_sound [of m f] stream_end_sound [of m f] stream_credit_sound [of m f]
    by (auto simp: frame_decode_def split: if_splits)
qed (use assms in \<open>simp add: frame_decode_def\<close>)

interpretation fc: wire_codec frame_bytes frame_decode frame_valid
  by unfold_locales (fact decode_frame_bytes, fact frame_decode_sound)

section \<open>Blocks\<close>

lemma div_ceil_bounds: "0 < t \<Longrightarrow> 0 < div_ceil t 4096 \<and> 4096 * (div_ceil t 4096 - 1) < t \<and> t \<le> 4096 * div_ceil t 4096"
  by (simp add: div_ceil_def) linarith

lemma block_count:
  fixes tot :: u32
  assumes "tot \<noteq> 0"
  defines "n \<equiv> div_ceil (unat tot) BLOCK_BYTES"
  shows "0 < n" "n \<le> 2 ^ 20" "unat (of_nat n :: u32) = n" "unat (of_nat n - 1 :: u32) = n - 1"
proof -
  have t: "0 < unat tot" "unat tot < 2 ^ 32" using assms(1) unat_bound_u32 [of tot] by (simp_all add: unat_gt_0)
  show n: "0 < n" using div_ceil_bounds [OF t(1)] by (simp add: n_def)
  have "4096 * (n - 1) < 2 ^ 32" using div_ceil_bounds [OF t(1)] t(2) unfolding n_def by linarith
  then show le: "n \<le> 2 ^ 20" by simp
  show u: "unat (of_nat n :: u32) = n" using le by (simp add: unat_of_nat_u32)
  have "(of_nat n - 1 :: u32) = of_nat (n - 1)" using n by (simp add: of_nat_diff)
  then show "unat (of_nat n - 1 :: u32) = n - 1" using le by (simp add: unat_of_nat_u32)
qed

lemma block_len_nth:
  assumes "tot \<noteq> 0" "i < 2 ^ 32"
  defines "n \<equiv> div_ceil (unat tot) BLOCK_BYTES"
  shows "map_option unat (block_len tot (of_nat i)) =
    (if i < n then Some (min BLOCK_BYTES (unat tot - BLOCK_BYTES * i)) else None)"
proof -
  have t: "0 < unat tot" "unat tot < 2 ^ 32" using assms(1) unat_bound_u32 [of tot] by (simp_all add: unat_gt_0)
  note n = block_count [OF assms(1), folded n_def] and b = div_ceil_bounds [OF t(1), folded n_def]
  have i: "unat (of_nat i :: u32) = i" using assms(2) by (simp add: unat_of_nat_u32)
  have le: "(of_nat n :: u32) \<le> of_nat i \<longleftrightarrow> n \<le> i" by (simp add: word_le_nat_alt n i)
  have lt: "(of_nat i :: u32) < of_nat n - 1 \<longleftrightarrow> i < n - 1" by (simp add: word_less_nat_alt n i)
  have last: "unat (tot - 4096 * of_nat i) = unat tot - 4096 * i" if "i < n"
  proof -
    have le: "4096 * i \<le> unat tot" using that b by linarith
    then have u: "unat (4096 * of_nat i :: u32) = 4096 * i"
      using t(2) unat_of_nat_u32 [of "4096 * i"] by simp
    show ?thesis using le u by (subst unat_sub) (simp_all add: word_le_nat_alt)
  qed
  show ?thesis
  proof (cases "i < n - 1")
    case True
    then have "4096 * i + 4096 \<le> unat tot" using b by linarith
    with True show ?thesis using assms(1) le lt by (simp add: block_len_def n_def [symmetric] Let_def)
  next
    case False
    then have "i < n \<Longrightarrow> unat tot \<le> 4096 * i + 4096" using b n(1) by linarith
    with False show ?thesis
      using assms(1) le lt last by (auto simp: block_len_def n_def [symmetric] Let_def min_def)
  qed
qed

lemma blocks_sum:
  assumes "0 < t"
  shows "sum_list (map (\<lambda>i. min BLOCK_BYTES (t - BLOCK_BYTES * i)) [0..<div_ceil t BLOCK_BYTES]) = t"
proof -
  define n where "n = div_ceil t BLOCK_BYTES"
  note b = div_ceil_bounds [OF assms, folded n_def]
  have "sum_list (map (\<lambda>i. min BLOCK_BYTES (t - BLOCK_BYTES * i)) [0..<k]) = 4096 * k" if "k \<le> n - 1" for k
    using that
  proof (induction k)
    case (Suc k)
    then have "4096 * k + 4096 \<le> 4096 * (n - 1)" by simp
    then have "4096 * k + 4096 \<le> t" using b by simp
    with Suc show ?case by simp
  qed simp
  from this [of "n - 1"] have "sum_list (map (\<lambda>i. min BLOCK_BYTES (t - BLOCK_BYTES * i)) [0..<n - 1]) = 4096 * (n - 1)"
    by simp
  moreover have "[0..<n] = [0..<n - 1] @ [n - 1]" using b by (metis Suc_pred' upt_Suc_append zero_le)
  moreover have "min 4096 (t - 4096 * (n - 1)) = t - 4096 * (n - 1)" using b by linarith
  ultimately show ?thesis using b by (simp add: n_def [symmetric])
qed

fun payload_len :: "frame \<Rightarrow> nat" where
  "payload_len (F_Publish _ _ (Pub_Live p)) = length p"
| "payload_len (F_Occurrence _ _ p) = length p"
| "payload_len (F_Request _ _ p) = length p"
| "payload_len (F_Response _ _ _ (Resp_Reply p)) = length p"
| "payload_len (F_Block _ _ _ _ p) = length p"
| "payload_len (F_Chunk _ _ _ _ p) = length p"
| "payload_len _ = 0"

section \<open>Discarded frames\<close>

lemma try_v_Discard_iff [result_iff]:
  "try_v m f = Inl (Discard d) \<longleftrightarrow> (\<exists>x. m = Inr x \<and> f x = Inl (Discard d))"
  by (cases m) auto

lemma publish_discard:
  assumes "decode_publish m = Inl (Discard d)" "hd m = FORM_PUBLISH"
  shows "27 < length m \<and> (\<exists>f. frame_decode (take 27 m) = Inr f \<and> encoded_len f = 27)"
proof -
  obtain t st where t: "27 \<le> length m" "target_at m = Inr t" "drop 27 m \<noteq> []"
    and p: "publish_from (m ! 26) (drop 27 m) = Inr st" "\<not> is_live st"
    using assms(1) by (auto simp: decode_publish_def result_iff Let_def publish_from_def split: if_splits)
  have st: "state_bytes st = [m ! 26]" using publish_from_Inr [OF p(1)] p(2) by simp
  let ?f = "F_Publish t (envelope_at m 10) st"
  have "m = frame_bytes ?f @ drop 27 m"
    using target_bytes_at(2) [OF t(2)] envelope_bytes_at [of m] drop_step [of 26 m] t(1) st assms(2)
    by simp
  moreover have "frame_valid ?f" "encoded_len ?f = 27" "length (frame_bytes ?f) = 27"
    using target_bytes_at(1) [OF t(2)] t(1) st p(2)
    by (auto simp: is_live_def split: publish_state.splits)
  ultimately have "frame_decode (take 27 m) = Inr ?f" by (metis append_eq_conv_conj decode_frame_bytes)
  with t(1,3) \<open>encoded_len ?f = 27\<close> show ?thesis by fastforce
qed

lemma response_discard:
  assumes "decode_response m = Inl (Discard d)" "hd m = FORM_RESPONSE"
  shows "36 < length m \<and> (\<exists>f. frame_decode (take 36 m) = Inr f \<and> encoded_len f = 36)"
proof -
  obtain t x where t: "36 \<le> length m" "target_at m = Inr t" "drop 36 m \<noteq> []"
    and p: "response_from (m ! 34) (m ! 35) (drop 36 m) = Inr x" "outcome_known (m ! 34) = Inr ()"
      "\<not> is_reply x"
    using assms(1)
    by (auto simp: decode_response_def result_iff Let_def response_from_def split: if_splits)
  have x: "response_codes x = (m ! 34, m ! 35)" "reply_bytes x = []" "\<not> is_reply x"
    "case x of Resp_Contract c \<Rightarrow> contract_valid c | _ \<Rightarrow> True"
    using response_from_Inr [OF p(1,2)] p(3) by simp_all
  let ?f = "F_Response t (envelope_at m 10) (u64_at m 26) x"
  have "drop 34 m = m ! 34 # m ! 35 # drop 36 m"
    using t(1) drop_step [of 34 m] drop_step [of 35 m] by simp
  then have "m = frame_bytes ?f @ drop 36 m"
    using target_bytes_at(2) [OF t(2)] envelope_bytes_at [of m] le_bytes_at(2) [of 26 m] t(1) x(1,2) assms(2)
    by (simp add: code_bytes_def)
  moreover have "frame_valid ?f" "encoded_len ?f = 36" "length (frame_bytes ?f) = 36"
    using target_bytes_at(1) [OF t(2)] t(1) x by (auto simp: is_reply_def split: response_outcome.splits)
  ultimately have "frame_decode (take 36 m) = Inr ?f" by (metis append_eq_conv_conj decode_frame_bytes)
  with t(1,3) \<open>encoded_len ?f = 36\<close> show ?thesis by fastforce
qed

lemma discard_arms:
  assumes "frame_decode m = Inl (Discard d)"
  shows "(hd m = FORM_PUBLISH \<and> decode_publish m = Inl (Discard d)) \<or>
    (hd m = FORM_RESPONSE \<and> decode_response m = Inl (Discard d))"
proof (cases m)
  case (Cons form r)
  with assms show ?thesis
    by (auto simp: frame_decode_def decode_attach_def decode_attached_def decode_target_def
        decode_answer_def decode_data_def decode_block_def decode_chunk_def decode_stream_end_def
        decode_stream_credit_def result_iff Let_def split: if_splits option.splits)
qed (use assms in \<open>simp add: frame_decode_def\<close>)

section \<open>One frame per message\<close>

lemma frame_valid_names: "frame_valid f \<Longrightarrow> names_rule_only f"
  by (cases f rule: names_rule_only.cases) simp_all

lemma le_bytes_inj: "le_bytes 4 (x :: u32) = le_bytes 4 y \<longleftrightarrow> x = y" "le_bytes 8 (z :: u64) = le_bytes 8 w \<longleftrightarrow> z = w"
  by (metis le_word_le_bytes_32, metis le_word_le_bytes_64)

lemma target_bytes_inj: "target_bytes c t @ r = target_bytes c u @ s \<longleftrightarrow> t = u \<and> r = s" "target_bytes c t = target_bytes c u \<longleftrightarrow> t = u"
proof -
  have "kind_code k = kind_code l \<longleftrightarrow> k = l" for k l by (metis kind_from_code sum.inject(2))
  then show "target_bytes c t @ r = target_bytes c u @ s \<longleftrightarrow> t = u \<and> r = s" "target_bytes c t = target_bytes c u \<longleftrightarrow> t = u"
    by (cases t; cases u; auto simp: target_bytes_def le_bytes_inj)+
qed

lemma hd_target_bytes [simp]: "hd (target_bytes c t @ r) = c" "hd (target_bytes c t) = c"
  by (simp_all add: target_bytes_def)

lemma envelope_bytes_inj: "envelope_bytes d @ r = envelope_bytes e @ s \<longleftrightarrow> d = e \<and> r = s"
  by (cases d; cases e) (auto simp: envelope_bytes_def le_bytes_inj)

lemma code_bytes_inj: "code_bytes a @ r = code_bytes b @ s \<longleftrightarrow> a = b \<and> r = s" "code_bytes a = code_bytes b \<longleftrightarrow> a = b"
  by (auto simp: code_bytes_def prod_eq_iff)

lemma contract_codes_inj: "contract_valid c \<Longrightarrow> contract_valid d \<Longrightarrow> contract_codes c = contract_codes d \<longleftrightarrow> c = d"
  by (metis contract_from_codes sum.inject(2))

lemma contract_codes_neq: "code \<notin> {3, 4, 5, 6} \<Longrightarrow> contract_codes c \<noteq> (code, d)" "code \<notin> {3, 4, 5, 6} \<Longrightarrow> (code, d) \<noteq> contract_codes c"
  using contract_codes_range [of c] by (metis fst_conv)+

lemma answer_codes_inj:
  "names_rule_only (F_Answer t x) \<Longrightarrow> names_rule_only (F_Answer t y) \<Longrightarrow> answer_codes x = answer_codes y \<Longrightarrow> x = y"
  by (cases x; cases y) (simp_all add: contract_codes_inj contract_codes_neq)

lemma response_codes_inj:
  "names_rule_only (F_Response t e c x) \<Longrightarrow> names_rule_only (F_Response t e c y) \<Longrightarrow> response_codes x = response_codes y \<Longrightarrow>
     reply_bytes x = reply_bytes y \<Longrightarrow> x = y"
  by (cases x; cases y) (simp_all add: contract_codes_inj contract_codes_neq)

lemma stream_codes_inj:
  "names_rule_only (F_StreamEnd t e c s x) \<Longrightarrow> names_rule_only (F_StreamEnd t e c s y) \<Longrightarrow> stream_codes x = stream_codes y \<Longrightarrow> x = y"
  by (cases x; cases y) (simp_all add: contract_codes_inj contract_codes_neq)

lemma state_bytes_inj: "state_bytes x = state_bytes y \<longleftrightarrow> x = y"
  by (cases x; cases y) simp_all

lemma reason_code_inj: "reason_code r = reason_code q \<longleftrightarrow> r = q"
  by (metis reason_from_iff sum.inject(2))

lemma attached_bytes_inj: "frame_bytes (F_Attached x) = frame_bytes (F_Attached y) \<Longrightarrow> x = y" "hd (frame_bytes (F_Attached x)) = 2"
  by (cases x; cases y; simp add: reason_code_inj) (cases x; simp)

lemma attach_bytes_inj:
  "length (a_hash a) = 32 \<Longrightarrow> length (a_hash b) = 32 \<Longrightarrow> frame_bytes (F_Attach a) = frame_bytes (F_Attach b) \<Longrightarrow> a = b"
  by (cases a; cases b) (auto simp: le_bytes_inj)

text \<open>
  Two frames with the same message are the same frame, unless a type name that the wire does not
  carry tells them apart.
\<close>

lemmas frame_parts_inj = target_bytes_inj envelope_bytes_inj code_bytes_inj le_bytes_inj state_bytes_inj

lemma frame_bytes_inj:
  assumes eq: "frame_bytes f = frame_bytes g" and h: "hash_sized f" "hash_sized g" and n: "names_rule_only f" "names_rule_only g"
  shows "f = g"
proof -
  have hd: "hd (frame_bytes f) = hd (frame_bytes g)" by (simp add: eq)
  show ?thesis
  proof (cases f)
    case (F_Attach a)
    with hd attached_bytes_inj(2) obtain b where "g = F_Attach b" by (cases g) auto
    then show ?thesis using attach_bytes_inj eq h F_Attach by auto
  next
    case (F_Attached x)
    with hd attached_bytes_inj(2) obtain y where "g = F_Attached y" by (cases g) auto
    then show ?thesis using attached_bytes_inj(1) eq F_Attached by auto
  next
    case (F_Answer t x)
    with hd attached_bytes_inj(2) obtain u y where "g = F_Answer u y" by (cases g) auto
    then show ?thesis using answer_codes_inj [of t x y] eq n F_Answer by (auto simp: frame_parts_inj)
  next
    case (F_Response t e c x)
    with hd attached_bytes_inj(2) obtain u d k y where "g = F_Response u d k y" by (cases g) auto
    then show ?thesis using response_codes_inj [of t e c x y] eq n F_Response by (auto simp: frame_parts_inj)
  next
    case (F_StreamEnd t e c s x)
    with hd attached_bytes_inj(2) obtain u d k r y where "g = F_StreamEnd u d k r y" by (cases g) auto
    then show ?thesis using stream_codes_inj [of t e c s x y] eq n F_StreamEnd by (auto simp: frame_parts_inj)
  qed (use hd attached_bytes_inj(2) eq in \<open>cases g; auto simp: frame_parts_inj\<close>)+
qed

section \<open>Properties\<close>

text \<open>
  C35: decoding and encoding are inverse. A message decodes to a frame exactly when the frame is
  one a receiver accepts and the message is what \<open>encode\<close> writes for it, so a valid frame has
  one message and a message at most one frame.
\<close>

theorem frame_bijection:
  "frame_decode m = Inr f \<longleftrightarrow>
     frame_valid f \<and> frame_encode f (replicate (encoded_len f) 0) = Inr (length m, m)"
proof (cases "frame_valid f")
  case True
  then have "hash_sized f" by (cases f) (simp_all add: attach_valid_def)
  then show ?thesis using True by (auto simp: fc.decode_iff frame_encode_eq length_frame_bytes)
qed (simp add: fc.decode_iff)

text \<open>
  C36: \<open>encode\<close> is exact. A buffer too small is refused with the length needed. Otherwise
  \<open>encoded_len\<close> bytes are written, and the buffer keeps its length and every byte after them. The
  bytes written decode to the frame exactly when the frame is a valid one. \<open>encode\<close> checks none of
  this: it writes a block out of range, a stream frame of a wrong kind or a zero number too, and
  every receiver refuses the bytes of such a frame. The one invalid frame it may still read as
  another is a \<open>contract(InvalidValue)\<close> with a type name, which the wire does not carry. (Every rule
  the crate has is tagged, so the untagged rule \<open>encode\<close> documents does not occur.)
\<close>

theorem frame_encode_exact:
  assumes "hash_sized f"
  shows "if length out < encoded_len f then frame_encode f out = Inl (Short (encoded_len f))
    else \<exists>out'. frame_encode f out = Inr (encoded_len f, out') \<and> length out' = length out \<and>
      drop (encoded_len f) out' = drop (encoded_len f) out \<and>
      (frame_decode (take (encoded_len f) out') = Inr f \<longleftrightarrow> frame_valid f) \<and>
      (\<not> frame_valid f \<and> names_rule_only f \<longrightarrow> (\<exists>e. frame_decode (take (encoded_len f) out') = Inl e))"
proof -
  have "\<exists>e. frame_decode (frame_bytes f) = Inl e" if "\<not> frame_valid f" "names_rule_only f"
  proof (rule ccontr)
    assume "\<not> ?thesis"
    then obtain g where "frame_decode (frame_bytes f) = Inr g" by (cases "frame_decode (frame_bytes f)") auto
    then have g: "frame_valid g" "frame_bytes g = frame_bytes f" using fc.decode_iff by blast+
    then have "hash_sized g" by (cases g) (simp_all add: attach_valid_def)
    then have "f = g" using frame_bytes_inj [of f g] g frame_valid_names assms that(2) by simp
    then show False using g(1) that(1) by simp
  qed
  moreover have "frame_decode (frame_bytes f) = Inr f \<longleftrightarrow> frame_valid f" using fc.decode_iff by blast
  ultimately show ?thesis
    using length_frame_bytes [OF assms] by (auto simp: frame_encode_eq [OF assms])
qed

theorem frame_encode_exact_witness:
  "frame_encode (F_Read \<lparr>t_kind = Signal, t_iface = 1, t_ord = 2\<rparr>) (replicate 4 0) = Inl (Short 10) \<and>
   (\<exists>out'. frame_encode (F_Read \<lparr>t_kind = Signal, t_iface = 1, t_ord = 2\<rparr>) (replicate 12 7) = Inr (10, out') \<and>
      drop 10 out' = [7, 7] \<and> frame_decode (take 10 out') = Inr (F_Read \<lparr>t_kind = Signal, t_iface = 1, t_ord = 2\<rparr>)) \<and>
   (\<exists>out' e. frame_encode (F_Read \<lparr>t_kind = Signal, t_iface = 0, t_ord = 2\<rparr>) (replicate 10 7) = Inr (10, out') \<and>
      frame_decode (take 10 out') = Inl e)"
proof -
  let ?f = "\<lambda>i. F_Read \<lparr>t_kind = Signal, t_iface = i, t_ord = 2\<rparr>"
  have "frame_encode (?f 1) (replicate 4 0) = Inl (Short 10)"
    using frame_encode_exact [of "?f 1" "replicate 4 0"] by simp
  moreover have "\<exists>out'. frame_encode (?f 1) (replicate 12 7) = Inr (10, out') \<and> drop 10 out' = [7, 7] \<and>
      frame_decode (take 10 out') = Inr (?f 1)"
    using frame_encode_exact [of "?f 1" "replicate 12 7"] by (auto simp: target_valid_def replicate_2)
  moreover have "\<exists>out' e. frame_encode (?f 0) (replicate 10 7) = Inr (10, out') \<and> frame_decode (take 10 out') = Inl e"
    using frame_encode_exact [of "?f 0" "replicate 10 7"] by (auto simp: target_valid_def)
  ultimately show ?thesis by blast
qed

text \<open>
  the blocks of a payload cover it. The indices \<open>block_len\<close> answers for are \<open>0\<close> up to the
  block count, each block has between 1 and 4,096 bytes, their lengths add up to \<open>total\<close>, and no
  step wraps in \<open>u32\<close>.
\<close>

lemma block_len_partition:
  assumes "tot \<noteq> 0"
  shows "(\<forall>i < 2 ^ 32. block_len tot (of_nat i) \<noteq> None \<longleftrightarrow> i < div_ceil (unat tot) BLOCK_BYTES) \<and>
    (\<forall>i < div_ceil (unat tot) BLOCK_BYTES. \<exists>len. block_len tot (of_nat i) = Some len \<and>
       1 \<le> unat len \<and> unat len \<le> BLOCK_BYTES) \<and>
    sum_list (map (\<lambda>i. unat (the (block_len tot (of_nat i)))) [0..<div_ceil (unat tot) BLOCK_BYTES]) = unat tot"
proof -
  define n where "n = div_ceil (unat tot) BLOCK_BYTES"
  have t: "0 < unat tot" using assms by (simp add: unat_gt_0)
  note nth = block_len_nth [OF assms, folded n_def]
  have len: "\<exists>len. block_len tot (of_nat i) = Some len \<and> unat len = min BLOCK_BYTES (unat tot - BLOCK_BYTES * i)"
    if "i < n" for i
    using nth [of i] that block_count(2) [OF assms, folded n_def] by (simp add: map_option_eq_Some)
  have "unat (the (block_len tot (of_nat i))) = min BLOCK_BYTES (unat tot - BLOCK_BYTES * i)" if "i < n" for i
    using len [OF that] by auto
  then have "map (\<lambda>i. unat (the (block_len tot (of_nat i)))) [0..<n] =
      map (\<lambda>i. min BLOCK_BYTES (unat tot - BLOCK_BYTES * i)) [0..<n]" (is "?l = ?r") by simp
  moreover have "sum_list ?r = unat tot" using blocks_sum [OF t] by (simp add: n_def)
  ultimately have "sum_list (map (\<lambda>i. unat (the (block_len tot (of_nat i)))) [0..<n]) = unat tot" by (simp only:)
  moreover have "\<forall>i < 2 ^ 32. block_len tot (of_nat i) \<noteq> None \<longleftrightarrow> i < n"
    using nth by (metis option.distinct(1) option.map_disc_iff)
  moreover have "\<forall>i < n. \<exists>len. block_len tot (of_nat i) = Some len \<and> 1 \<le> unat len \<and> unat len \<le> BLOCK_BYTES"
  proof (intro allI impI)
    fix i assume i: "i < n"
    have "4096 * i < unat tot" using i div_ceil_bounds [OF t, folded n_def] by linarith
    then show "\<exists>len. block_len tot (of_nat i) = Some len \<and> 1 \<le> unat len \<and> unat len \<le> BLOCK_BYTES"
      using len [OF i] by auto
  qed
  ultimately show ?thesis by (simp add: n_def)
qed

text \<open>
  the message limits hold every frame. A valid frame with an empty payload fits the smallest
  limit a receiver may configure, and one whose payload is within the default ceiling of a call
  fits the largest.
\<close>

lemma message_limits:
  assumes "frame_valid f"
  shows "(payload_len f = 0 \<longrightarrow> encoded_len f \<le> MIN_MESSAGE_LIMIT) \<and>
    (payload_len f \<le> CALL_CEILING \<longrightarrow> encoded_len f \<le> MAX_MESSAGE_LIMIT)"
  using assms by (cases f)
    (auto simp: CALL_CEILING_def attach_valid_def split: publish_state.splits response_outcome.splits)

text \<open>
  a frame is recorded and dropped only for a payload its header rules out. A discarded
  message is longer than its header, and the header alone is a message the receiver accepts.
\<close>

lemma discard_only_payload:
  assumes "frame_decode m = Inl (Discard d)"
  shows "\<exists>n \<in> {PUBLISH_LEN, RESPONSE_LEN}. n < length m \<and>
    (\<exists>f. frame_decode (take n m) = Inr f \<and> encoded_len f = n)"
  using discard_arms [OF assms] publish_discard [of m d] response_discard [of m d] by blast

end
