(* ===== verification/Ws_Crypto.thy ===== *)
theory Ws_Crypto
  imports Prelude
begin

unbundle bit_operations_syntax

text \<open>
  The two encodings of the opening handshake: base64
  (\<open>crates/ridl-transport-ws/src/ws/base64.rs\<close>) and SHA-1
  (\<open>crates/ridl-transport-ws/src/ws/sha1.rs\<close>). The lemmas show that base64 text decodes to the
  bytes it was made from, and that the padding of SHA-1 is whole blocks that end in the bit
  length, distinct for distinct messages.
\<close>

section \<open>Model\<close>

text \<open>\<open>chunks(n)\<close>: runs of \<open>n\<close> elements, the last possibly shorter.\<close>

function chunks :: "nat \<Rightarrow> 'a list \<Rightarrow> 'a list list" where
  "chunks n xs = (if xs = [] \<or> n = 0 then [] else take n xs # chunks n (drop n xs))"
  by pat_completeness auto
termination
  by (relation "measure (\<lambda>(_, xs). length xs)") (auto simp: neq_Nil_conv)

declare chunks.simps [simp del]

definition ALPHABET :: bytes where
  "ALPHABET = ascii ''ABCDEFGHIJKLMNOPQRSTUVWXYZabcdefghijklmnopqrstuvwxyz0123456789+/''"

definition PAD :: u8 where "PAD = 0x3D"

text \<open>One group of one to three bytes of \<open>encode\<close>.\<close>

definition encode_group :: "bytes \<Rightarrow> bytes" where
  "encode_group grp =
     (let b0 = grp ! 0;
          b1 = (if 1 < length grp then grp ! 1 else 0);
          b2 = (if 2 < length grp then grp ! 2 else 0);
          n = push_bit 16 (ucast b0) OR push_bit 8 (ucast b1) OR ucast b2 :: u32;
          sextet = \<lambda>shift. ALPHABET ! unat (drop_bit shift n AND 0x3F)
      in [sextet 18, sextet 12,
          if length grp > 1 then sextet 6 else PAD,
          if length grp > 2 then sextet 0 else PAD])"

definition base64_encode :: "bytes \<Rightarrow> bytes" where
  "base64_encode data = concat (map encode_group (chunks 3 data))"

definition sextet :: "u8 \<Rightarrow> u8 option" where
  "sextet b =
     (if 0x41 \<le> b \<and> b \<le> 0x5A then Some (b - 0x41)
      else if 0x61 \<le> b \<and> b \<le> 0x7A then Some (b - 0x61 + 26)
      else if 0x30 \<le> b \<and> b \<le> 0x39 then Some (b - 0x30 + 52)
      else if b = 0x2B then Some 62
      else if b = 0x2F then Some 63
      else None)"

text \<open>The loop over the bytes of a group that are not padding.\<close>

fun sextets :: "u32 \<Rightarrow> bytes \<Rightarrow> u32 option" where
  "sextets n [] = Some n"
| "sextets n (b # bs) =
     (case sextet b of None \<Rightarrow> None | Some v \<Rightarrow> sextets (push_bit 6 n OR ucast v) bs)"

text \<open>The loop over the groups; \<open>i + 1 != groups\<close> is that another group follows.\<close>

fun decode_groups :: "bytes list \<Rightarrow> bytes option" where
  "decode_groups [] = Some []"
| "decode_groups (grp # rest) =
     (let pad = length (takeWhile (\<lambda>b. b = PAD) (rev grp)) in
      if pad > 2 \<or> (pad > 0 \<and> rest \<noteq> []) then None
      else case sextets 0 (take (4 - pad) grp) of
        None \<Rightarrow> None
      | Some n0 \<Rightarrow>
          (let n = push_bit (6 * pad) n0;
               out = [ucast (drop_bit 16 n)] @ (if pad < 2 then [ucast (drop_bit 8 n)] else [])
                       @ (if pad < 1 then [ucast n] else [])
           in map_option (\<lambda>r. out @ r) (decode_groups rest)))"

definition base64_decode :: "bytes \<Rightarrow> bytes option" where
  "base64_decode text = (if length text mod 4 \<noteq> 0 then None else decode_groups (chunks 4 text))"

type_synonym sha1_state = "u32 \<times> u32 \<times> u32 \<times> u32 \<times> u32"

definition sha1_init :: sha1_state where
  "sha1_init = (0x67452301, 0xEFCDAB89, 0x98BADCFE, 0x10325476, 0xC3D2E1F0)"

lemma pad_distance_decreases:
  assumes "l mod 64 \<noteq> 56"
  shows "(120 - Suc l mod 64) mod 64 < (120 - l mod 64 :: nat) mod 64"
proof -
  define r where "r = l mod 64"
  have r: "r < 64" "r \<noteq> 56" using assms by (simp_all add: r_def)
  have d: "(120 - k) mod 64 = (if k \<le> 56 then 56 - k else 120 - k)" if "k < 64" for k :: nat
  proof (cases "k \<le> 56")
    case True
    then have "120 - k = 64 + (56 - k)" by simp
    then have "(120 - k) mod 64 = (64 + (56 - k)) mod 64" by (simp only:)
    also have "\<dots> = 56 - k" by simp
    finally show ?thesis using True by simp
  qed (use that in simp)
  have "Suc l mod 64 = (if r = 63 then 0 else Suc r)" by (simp add: mod_Suc r_def)
  then show ?thesis using r d [of r] d [of "Suc r"] by (cases "r = 63") (auto simp: r_def [symmetric])
qed

text \<open>\<open>while padded.len() % 64 != 56 { padded.push(0) }\<close>\<close>

function pad_zeros :: "bytes \<Rightarrow> bytes" where
  "pad_zeros padded = (if length padded mod 64 \<noteq> 56 then pad_zeros (padded @ [0]) else padded)"
  by pat_completeness auto
termination
  by (relation "measure (\<lambda>xs. (120 - length xs mod 64) mod 64)") (simp_all add: pad_distance_decreases)

declare pad_zeros.simps [simp del]

definition sha1_padded :: "bytes \<Rightarrow> bytes" where
  "sha1_padded data =
     (let bit_len = of_nat (length data) * 8 :: u64 in
      pad_zeros (data @ [0x80]) @ be_bytes 8 bit_len)"

text \<open>The schedule of a block: sixteen words of it, then sixty-four computed ones.\<close>

definition sha1_extend :: "u32 list \<Rightarrow> nat \<Rightarrow> u32 list" where
  "sha1_extend w i =
     w @ [word_rotl 1 (w ! (i - 3) XOR w ! (i - 8) XOR w ! (i - 14) XOR w ! (i - 16))]"

definition sha1_schedule :: "bytes \<Rightarrow> u32 list" where
  "sha1_schedule block = foldl sha1_extend (map be_word (chunks 4 block)) [16..<80]"

definition sha1_round :: "sha1_state \<Rightarrow> nat \<times> u32 \<Rightarrow> sha1_state" where
  "sha1_round s x =
     (let (a, b, c, d, e) = s; (i, wi) = x;
          (f, k) = (if i \<le> 19 then ((b AND c) OR (NOT b AND d), 0x5A827999)
                    else if i \<le> 39 then (b XOR c XOR d, 0x6ED9EBA1)
                    else if i \<le> 59 then ((b AND c) OR (b AND d) OR (c AND d), 0x8F1BBCDC)
                    else (b XOR c XOR d, 0xCA62C1D6));
          t = word_rotl 5 a + f + e + k + wi
      in (t, a, word_rotl 30 b, c, d))"

definition sha1_block :: "sha1_state \<Rightarrow> bytes \<Rightarrow> sha1_state" where
  "sha1_block h block =
     (let (h0, h1, h2, h3, h4) = h;
          (a, b, c, d, e) = foldl sha1_round h (enumerate 0 (sha1_schedule block))
      in (h0 + a, h1 + b, h2 + c, h3 + d, h4 + e))"

definition sha1_digest :: "bytes \<Rightarrow> bytes" where
  "sha1_digest data =
     (let (a, b, c, d, e) = foldl sha1_block sha1_init (chunks 64 (sha1_padded data))
      in be_bytes 4 a @ be_bytes 4 b @ be_bytes 4 c @ be_bytes 4 d @ be_bytes 4 e)"

section \<open>Base64\<close>

lemma chunks_append:
  assumes "length xs = n" "0 < n"
  shows "chunks n (xs @ ys) = xs # chunks n ys"
  using assms by (subst chunks.simps) auto

lemma chunks_short: "xs \<noteq> [] \<Longrightarrow> length xs \<le> n \<Longrightarrow> chunks n xs = [xs]"
  by (cases xs) (simp_all add: chunks.simps [of n "_ # _"] chunks.simps [of n "[]"])

lemma chunks_Nil [simp]: "chunks n [] = []"
  by (simp add: chunks.simps)

text \<open>The alphabet and \<open>sextet\<close> are inverse, and the padding is not in the alphabet.\<close>

lemma map_sextet_ALPHABET: "map sextet ALPHABET = map (\<lambda>k. Some (of_nat k)) [0..<64]"
  by code_simp

lemma PAD_ALPHABET: "PAD \<notin> set ALPHABET"
  by code_simp

lemma sextet_ALPHABET_nth:
  assumes "k < 64"
  shows "sextet (ALPHABET ! k) = Some (of_nat k)" "ALPHABET ! k \<noteq> PAD"
proof -
  have len: "length ALPHABET = 64" using arg_cong [OF map_sextet_ALPHABET, of length] by simp
  have "map sextet ALPHABET ! k = Some (of_nat k)" unfolding map_sextet_ALPHABET using assms by simp
  then show "sextet (ALPHABET ! k) = Some (of_nat k)" using assms len by simp
  show "ALPHABET ! k \<noteq> PAD" using PAD_ALPHABET assms len by (metis nth_mem)
qed

definition sext :: "nat \<Rightarrow> u32 \<Rightarrow> u32" where
  "sext shift n = ucast (ucast (drop_bit shift n AND 0x3F) :: u8)"

lemma mask6: "(0x3F :: u32) = mask 6"
  by (simp add: mask_eq_exp_minus_1)

lemma bit_sext: "bit (sext shift n) i \<longleftrightarrow> i < 6 \<and> bit n (shift + i)"
  unfolding sext_def mask6 by (auto simp: bit_simps)

lemma sextet_ALPHABET:
  fixes n :: u32
  shows "sextet (ALPHABET ! unat (drop_bit shift n AND 0x3F)) = Some (ucast (drop_bit shift n AND 0x3F))"
    "ALPHABET ! unat (drop_bit shift n AND 0x3F) \<noteq> PAD"
proof -
  let ?w = "drop_bit shift n AND 0x3F :: u32"
  have "unat ?w < 2 ^ 6" unfolding unat_less_exp_iff_bits mask6 by (simp add: bit_simps)
  then have "unat ?w < 64" by simp
  note sextet_ALPHABET_nth [OF this]
  then show "sextet (ALPHABET ! unat ?w) = Some (ucast ?w)" "ALPHABET ! unat ?w \<noteq> PAD"
    by (simp_all add: unsigned_ucast_eq)
qed

text \<open>Joining the sextets of a number of 24 bits gives the number back.\<close>

lemma join_sextets:
  assumes "\<forall>i. bit n i \<longrightarrow> i < 24"
  shows "push_bit 6 (push_bit 6 (push_bit 6 (sext 18 n) OR sext 12 n) OR sext 6 n) OR sext 0 n = n"
    "\<forall>i. bit n i \<longrightarrow> 8 \<le> i \<Longrightarrow>
       push_bit 6 (push_bit 6 (push_bit 6 (sext 18 n) OR sext 12 n) OR sext 6 n) = n"
    "\<forall>i. bit n i \<longrightarrow> 16 \<le> i \<Longrightarrow> push_bit 12 (push_bit 6 (sext 18 n) OR sext 12 n) = n"
proof -
  note simps = bit_or_iff bit_push_bit_iff bit_sext
  show join: "push_bit 6 (push_bit 6 (push_bit 6 (sext 18 n) OR sext 12 n) OR sext 6 n) OR sext 0 n = n"
  proof (rule bit_word_eqI)
    fix i assume "i < LENGTH(32)"
    have "18 + (i - 18) = i" if "18 \<le> i" using that by simp
    moreover have "12 + (i - 12) = i" if "12 \<le> i" using that by simp
    moreover have "6 + (i - 6) = i" if "6 \<le> i" using that by simp
    ultimately show "bit (push_bit 6 (push_bit 6 (push_bit 6 (sext 18 n) OR sext 12 n) OR sext 6 n) OR sext 0 n) i = bit n i"
      using assms \<open>i < LENGTH(32)\<close>
      by (cases "i < 6"; cases "i < 12"; cases "i < 18") (auto simp: simps)
  qed
  have zero: "sext k n = 0" if "\<forall>i. bit n i \<longrightarrow> k + 6 \<le> i" for k
    by (rule bit_word_eqI) (use that in \<open>fastforce simp: bit_sext\<close>)
  show "push_bit 6 (push_bit 6 (push_bit 6 (sext 18 n) OR sext 12 n) OR sext 6 n) = n"
    if "\<forall>i. bit n i \<longrightarrow> 8 \<le> i"
    using join zero [of 0] that by fastforce
  show "push_bit 12 (push_bit 6 (sext 18 n) OR sext 12 n) = n" if "\<forall>i. bit n i \<longrightarrow> 16 \<le> i"
  proof -
    have "sext 0 n = 0" "sext 6 n = 0" using zero [of 0] zero [of 6] that by fastforce+
    then show ?thesis using join by (simp add: push_bit_push_bit)
  qed
qed

definition joined :: "u8 \<Rightarrow> u8 \<Rightarrow> u8 \<Rightarrow> u32" where
  "joined x y z = push_bit 16 (ucast x) OR push_bit 8 (ucast y) OR ucast z"

lemma bit_u8_less: "bit (x :: u8) i \<Longrightarrow> i < 8"
  using bit_imp_le_length [of x i] by simp

lemma bit_joined:
  "bit (joined x y z) i \<longleftrightarrow>
     (if i < 8 then bit z i else if i < 16 then bit y (i - 8) else if i < 24 then bit x (i - 16) else False)"
proof -
  have "\<not> bit x (i - 16)" if "24 \<le> i" using that bit_u8_less [of x "i - 16"] by linarith
  moreover have "\<not> bit y (i - 8)" if "16 \<le> i" using that bit_u8_less [of y "i - 8"] by linarith
  moreover have "\<not> bit z i" if "8 \<le> i" using that bit_u8_less [of z i] by linarith
  ultimately show ?thesis
    unfolding joined_def bit_or_iff bit_push_bit_iff bit_unsigned_iff by auto
qed

lemma joined_bits:
  "\<forall>i. bit (joined x y z) i \<longrightarrow> i < 24"
  "\<forall>i. bit (joined x y 0) i \<longrightarrow> 8 \<le> i"
  "\<forall>i. bit (joined x 0 0) i \<longrightarrow> 16 \<le> i"
  by (simp_all add: bit_joined)

lemma joined_parts:
  "ucast (drop_bit 16 (joined x y z)) = x" "ucast (drop_bit 8 (joined x y z)) = y" "ucast (joined x y z) = z"
  by (rule bit_word_eqI; simp add: bit_ucast_iff bit_drop_bit_eq bit_joined)+

lemmas joined_join = join_sextets(1) [OF joined_bits(1)]
  join_sextets(2) [OF joined_bits(1) joined_bits(2)] join_sextets(3) [OF joined_bits(1) joined_bits(3)]

lemma encode_group_eq:
  "encode_group [x] = [ALPHABET ! unat (drop_bit 18 (joined x 0 0) AND 0x3F),
     ALPHABET ! unat (drop_bit 12 (joined x 0 0) AND 0x3F), PAD, PAD]"
  "encode_group [x, y] = [ALPHABET ! unat (drop_bit 18 (joined x y 0) AND 0x3F),
     ALPHABET ! unat (drop_bit 12 (joined x y 0) AND 0x3F),
     ALPHABET ! unat (drop_bit 6 (joined x y 0) AND 0x3F), PAD]"
  "encode_group [x, y, z] = [ALPHABET ! unat (drop_bit 18 (joined x y z) AND 0x3F),
     ALPHABET ! unat (drop_bit 12 (joined x y z) AND 0x3F),
     ALPHABET ! unat (drop_bit 6 (joined x y z) AND 0x3F),
     ALPHABET ! unat (drop_bit 0 (joined x y z) AND 0x3F)]"
  by (simp_all only: encode_group_def joined_def Let_def) simp_all

lemma sextets_Cons:
  "sextets n (ALPHABET ! unat (drop_bit shift m AND 0x3F) # bs) = sextets (push_bit 6 n OR sext shift m) bs"
  by (simp add: sextet_ALPHABET sext_def)

lemma decode_encode_group:
  assumes "grp \<noteq> []" "length grp \<le> 3" "length grp < 3 \<Longrightarrow> rest = []"
  shows "decode_groups (encode_group grp # rest) = map_option (\<lambda>r. grp @ r) (decode_groups rest)"
proof -
  consider (one) x where "grp = [x]" | (two) x y where "grp = [x, y]"
    | (three) x y z where "grp = [x, y, z]"
    using assms(1,2) by (cases grp; cases "tl grp"; cases "tl (tl grp)") auto
  then show ?thesis
  proof cases
    case one
    with assms(3) show ?thesis
      by (simp add: encode_group_eq sextet_ALPHABET(2) sextets_Cons joined_join joined_parts Let_def
          del: sextets.simps(2) push_bit_or drop_bit_or cong: if_cong)
  next
    case two
    with assms(3) show ?thesis
      by (simp add: encode_group_eq sextet_ALPHABET(2) sextets_Cons joined_join joined_parts Let_def
          del: sextets.simps(2) push_bit_or drop_bit_or cong: if_cong)
  next
    case three
    then show ?thesis
      by (cases "decode_groups rest") (simp_all add: encode_group_eq sextet_ALPHABET(2) sextets_Cons
          joined_join joined_parts Let_def
          del: sextets.simps(2) push_bit_or drop_bit_or drop_bit_0 cong: if_cong)
  qed
qed

lemma length_encode_group [simp]: "length (encode_group grp) = 4"
  by (simp add: encode_group_def Let_def)

lemma div_ceil_3:
  assumes "0 < n"
  shows "div_ceil n 3 = Suc (div_ceil (n - 3) 3)"
proof (cases "n \<le> 3")
  case True
  then have "n = 1 \<or> n = 2 \<or> n = 3" using assms by linarith
  then show ?thesis by (auto simp: div_ceil_def)
next
  case False
  then obtain m where "n = m + 3" by (metis add.commute le_Suc_ex nat_le_linear)
  then show ?thesis by (simp add: div_ceil_def)
qed

lemma encode_chunks:
  "length (concat (map encode_group (chunks 3 d))) mod 4 = 0 \<and>
   decode_groups (chunks 4 (concat (map encode_group (chunks 3 d)))) = Some d \<and>
   length (concat (map encode_group (chunks 3 d))) = 4 * div_ceil (length d) 3"
proof (induction "length d" arbitrary: d rule: less_induct)
  case less
  show ?case
  proof (cases "d = []")
    case False
    let ?g = "take 3 d" and ?r = "drop 3 d"
    have c: "chunks 3 d = ?g # chunks 3 ?r" using False by (simp add: chunks.simps [of 3 d])
    have ih: "length (concat (map encode_group (chunks 3 ?r))) mod 4 = 0"
      "decode_groups (chunks 4 (concat (map encode_group (chunks 3 ?r)))) = Some ?r"
      "length (concat (map encode_group (chunks 3 ?r))) = 4 * div_ceil (length ?r) 3"
      using less [of ?r] False by (cases d; simp)+
    have r: "length ?g < 3 \<Longrightarrow> chunks 4 (concat (map encode_group (chunks 3 ?r))) = []" by simp
    have "decode_groups (chunks 4 (encode_group ?g @ concat (map encode_group (chunks 3 ?r)))) = Some d"
      using decode_encode_group [of ?g, OF _ _ r] False ih(2) by (simp add: chunks_append)
    moreover have "div_ceil (length d) 3 = Suc (div_ceil (length ?r) 3)"
      using div_ceil_3 [of "length d"] False by simp
    ultimately show ?thesis using ih(1,3) by (simp add: c mod_add_eq)
  qed (simp add: div_ceil_def)
qed

section \<open>SHA-1\<close>

lemma pad_zeros_mod: "length (pad_zeros xs) mod 64 = 56"
proof (induction xs rule: pad_zeros.induct)
  case (1 xs)
  then show ?case by (cases "length xs mod 64 = 56") (simp_all add: pad_zeros.simps [of xs])
qed

lemma pad_zeros_prefix: "\<exists>k. pad_zeros xs = xs @ replicate k 0"
proof (induction xs rule: pad_zeros.induct)
  case (1 xs)
  show ?case
  proof (cases "length xs mod 64 = 56")
    case True
    then show ?thesis by (intro exI [of _ 0]) (simp add: pad_zeros.simps [of xs])
  next
    case False
    from 1 [OF False] obtain k where "pad_zeros (xs @ [0]) = xs @ [0] @ replicate k 0" by auto
    then show ?thesis using False by (intro exI [of _ "Suc k"]) (simp add: pad_zeros.simps [of xs])
  qed
qed

lemma sha1_padded_shape:
  "\<exists>k. sha1_padded data = data @ [0x80] @ replicate k 0 @ be_bytes 8 (of_nat (length data) * 8 :: u64)"
  using pad_zeros_prefix [of "data @ [0x80]"] by (auto simp: sha1_padded_def Let_def)

lemma sha1_padded_length: "length (sha1_padded data) mod 64 = 0"
  using pad_zeros_mod [of "data @ [0x80]"] by (simp add: sha1_padded_def Let_def mod_add_left_eq [symmetric])

lemma unat_bit_length: "n < 2 ^ 61 \<Longrightarrow> unat (of_nat n * 8 :: u64) = n * 8"
  using unat_of_nat_u64 [of "n * 8"] by simp

lemma sha1_padded_inj:
  assumes "sha1_padded a = sha1_padded b" "length a < 2 ^ 61" "length b < 2 ^ 61"
  shows "a = b"
proof -
  obtain k where a: "sha1_padded a = (a @ [0x80] @ replicate k 0) @ be_bytes 8 (of_nat (length a) * 8 :: u64)"
    using sha1_padded_shape [of a] by auto
  obtain l where b: "sha1_padded b = (b @ [0x80] @ replicate l 0) @ be_bytes 8 (of_nat (length b) * 8 :: u64)"
    using sha1_padded_shape [of b] by auto
  have eq: "be_bytes 8 (of_nat (length a) * 8 :: u64) = be_bytes 8 (of_nat (length b) * 8 :: u64)"
      "a @ [0x80] @ replicate k 0 = b @ [0x80] @ replicate l 0"
    using append_eq_append_conv [THEN iffD1, OF disjI2 assms(1) [unfolded a b]] by simp_all
  have "be_word (be_bytes 8 w) = w" for w :: u64 by (rule be_word_be_bytes) simp
  then have "(of_nat (length a) * 8 :: u64) = of_nat (length b) * 8"
    using eq(1) by metis
  then have "length a = length b" using unat_bit_length assms(2,3) by (metis mult_right_cancel zero_neq_numeral)
  with eq(2) show ?thesis by simp
qed

section \<open>Properties\<close>

text \<open>
  Base64 text decodes to the bytes it was made from, and has four characters for every
  group of three bytes begun.
\<close>

lemma base64_roundtrip:
  "base64_decode (base64_encode d) = Some d \<and> length (base64_encode d) = 4 * div_ceil (length d) 3"
  using encode_chunks [of d] by (simp add: base64_decode_def base64_encode_def)

text \<open>
  the padding of SHA-1 is unambiguous: it fills whole blocks of 64 bytes, and two messages
  the length field can count are padded to the same bytes only when they are the same.
\<close>

lemma sha1_padding_injective:
  assumes "length a < 2 ^ 61" "length b < 2 ^ 61"
  shows "length (sha1_padded a) mod 64 = 0 \<and> (sha1_padded a = sha1_padded b \<longleftrightarrow> a = b)"
  using sha1_padded_length sha1_padded_inj assms by blast

end
