(* ===== verification/Ws_Parser.thy ===== *)
theory Ws_Parser
  imports Prelude
begin

unbundle bit_operations_syntax

text \<open>
  The reading and the writing of WebSocket frames, \<open>Parser\<close>, \<open>close_event\<close> and \<open>FrameWriter\<close> of
  \<open>crates/ridl-transport-ws/src/ws.rs\<close>. The parser is fed bytes in any pieces and returns whole
  messages and control frames. The lemmas relate it to a function of the unread bytes alone and
  show that the events do not depend on how the bytes were cut into reads, that a fragmented
  message is joined, and that no message passes the limit.
\<close>

section \<open>Model\<close>

type_synonym close_code = u16

abbreviation (input) CLOSE_NORMAL :: close_code where "CLOSE_NORMAL \<equiv> 1000"
abbreviation (input) CLOSE_GOING_AWAY :: close_code where "CLOSE_GOING_AWAY \<equiv> 1001"
abbreviation (input) CLOSE_PROTOCOL :: close_code where "CLOSE_PROTOCOL \<equiv> 1002"
abbreviation (input) CLOSE_UNSUPPORTED :: close_code where "CLOSE_UNSUPPORTED \<equiv> 1003"
abbreviation (input) CLOSE_POLICY :: close_code where "CLOSE_POLICY \<equiv> 1008"
abbreviation (input) CLOSE_TOO_BIG :: close_code where "CLOSE_TOO_BIG \<equiv> 1009"

datatype ws_event = Ev_Binary bytes | Ev_Ping bytes | Ev_Pong | Ev_Close "u16 option"

abbreviation (input) OP_CONTINUATION :: u8 where "OP_CONTINUATION \<equiv> 0x0"
abbreviation (input) OP_TEXT :: u8 where "OP_TEXT \<equiv> 0x1"
abbreviation (input) OP_BINARY :: u8 where "OP_BINARY \<equiv> 0x2"
abbreviation (input) OP_CLOSE :: u8 where "OP_CLOSE \<equiv> 0x8"
abbreviation (input) OP_PING :: u8 where "OP_PING \<equiv> 0x9"
abbreviation (input) OP_PONG :: u8 where "OP_PONG \<equiv> 0xA"

abbreviation (input) MAX_CONTROL_PAYLOAD :: nat where "MAX_CONTROL_PAYLOAD \<equiv> 125"

record parser =
  p_max :: nat
  p_buf :: bytes
  p_pos :: nat
  p_message :: "bytes option"
  p_finished :: bool

record header =
  h_fin :: bool
  h_opcode :: u8
  h_mask :: bytes
  h_payload_len :: u64
  h_header_len :: nat

definition parser_new :: "nat \<Rightarrow> parser" where
  "parser_new max_message_bytes =
     \<lparr>p_max = max_message_bytes, p_buf = [], p_pos = 0, p_message = None, p_finished = False\<rparr>"

definition parser_feed :: "parser \<Rightarrow> bytes \<Rightarrow> parser" where
  "parser_feed p b =
     (if p_finished p then p
      else p\<lparr>p_buf := drop (p_pos p) (p_buf p) @ b, p_pos := 0\<rparr>)"

definition is_control :: "u8 \<Rightarrow> bool" where
  "is_control opcode \<longleftrightarrow> opcode = OP_CLOSE \<or> opcode = OP_PING \<or> opcode = OP_PONG"

text \<open>The checks of \<open>header\<close> that need the first two bytes only.\<close>

definition header_refusal :: "bytes option \<Rightarrow> u8 \<Rightarrow> u8 \<Rightarrow> close_code option" where
  "header_refusal message b0 b1 =
     (let fin = (b0 AND 0x80 \<noteq> 0); opcode = b0 AND 0x0F; len7 = b1 AND 0x7F in
      if b0 AND 0x70 \<noteq> 0 \<or> b1 AND 0x80 = 0 then Some CLOSE_PROTOCOL
      else if is_control opcode then
        (if \<not> fin \<or> unat len7 > MAX_CONTROL_PAYLOAD then Some CLOSE_PROTOCOL else None)
      else if opcode = OP_TEXT \<and> message = None then Some CLOSE_UNSUPPORTED
      else if opcode = OP_BINARY \<and> message = None then None
      else if opcode = OP_CONTINUATION \<and> message \<noteq> None then None
      else Some CLOSE_PROTOCOL)"

text \<open>The payload length and the bytes of its extended field, when they are there.\<close>

definition header_length :: "bytes \<Rightarrow> u8 \<Rightarrow> (u64 \<times> nat) option" where
  "header_length buf len7 =
     (if len7 = 126 then map_option (\<lambda>b. (ucast (be_word b :: u16), 2)) (slice buf 2 2)
      else if len7 = 127 then map_option (\<lambda>b. (be_word b, 8)) (slice buf 2 8)
      else Some (ucast len7, 0))"

definition header_of :: "nat \<Rightarrow> bytes option \<Rightarrow> bytes \<Rightarrow> (close_code + header) option" where
  "header_of max_message_bytes message buf =
     (case buf of
        b0 # b1 # _ \<Rightarrow>
          (case header_refusal message b0 b1 of
             Some code \<Rightarrow> Some (Inl code)
           | None \<Rightarrow>
               (case header_length buf (b1 AND 0x7F) of
                  None \<Rightarrow> None
                | Some (payload_len, len_bytes) \<Rightarrow>
                    if drop_bit 63 payload_len \<noteq> 0 then Some (Inl CLOSE_PROTOCOL)
                    else
                      (let opcode = b0 AND 0x0F;
                           opened = (case message of None \<Rightarrow> 0 | Some m \<Rightarrow> length m);
                           header_len = 2 + len_bytes + 4 in
                       if \<not> is_control opcode \<and> unat payload_len > max_message_bytes - opened
                       then Some (Inl CLOSE_TOO_BIG)
                       else map_option
                         (\<lambda>key. Inr \<lparr>h_fin = (b0 AND 0x80 \<noteq> 0), h_opcode = opcode, h_mask = key,
                                      h_payload_len = payload_len, h_header_len = header_len\<rparr>)
                         (slice buf (2 + len_bytes) 4))))
      | _ \<Rightarrow> None)"

definition parser_header :: "parser \<Rightarrow> (close_code + header) option" where
  "parser_header p = header_of (p_max p) (p_message p) (drop (p_pos p) (p_buf p))"

definition close_event :: "bytes \<Rightarrow> close_code + ws_event" where
  "close_event payload =
     (case payload of
        [] \<Rightarrow> Inr (Ev_Close None)
      | [_] \<Rightarrow> Inl CLOSE_PROTOCOL
      | hi # lo # reason \<Rightarrow>
          (let code = be_word [hi, lo] :: u16;
               valid = (1000 \<le> code \<and> code \<le> 1003 \<or> 1007 \<le> code \<and> code \<le> 1014 \<or>
                        3000 \<le> code \<and> code \<le> 4999) in
           if valid \<and> utf8_valid reason then Inr (Ev_Close (Some code)) else Inl CLOSE_PROTOCOL))"

definition unmask :: "bytes \<Rightarrow> bytes \<Rightarrow> bytes" where
  "unmask key payload = map (\<lambda>(i, b). b XOR key ! (i mod 4)) (enumerate 0 payload)"

definition frame_total :: "header \<Rightarrow> nat" where
  "frame_total h = h_header_len h + unat (h_payload_len h)"

lemma header_of_len: "header_of mx m u = Some (Inr h) \<Longrightarrow> 6 \<le> h_header_len h \<and> h_header_len h \<le> length u"
  by (auto simp: header_of_def header_length_def Let_def slice_def
      split: list.splits option.splits if_splits)

text \<open>The loop of \<open>step\<close>: a fragment that does not end its message goes round again.\<close>

function parser_step :: "parser \<Rightarrow> (close_code + ws_event) option \<times> parser" where
  "parser_step p =
     (case parser_header p of
        None \<Rightarrow> (None, p)
      | Some (Inl code) \<Rightarrow> (Some (Inl code), p)
      | Some (Inr h) \<Rightarrow>
          (case slice (p_buf p) (p_pos p) (frame_total h) of
             None \<Rightarrow> (None, p)
           | Some frame \<Rightarrow>
               (let payload = unmask (h_mask h) (drop (h_header_len h) frame);
                    p' = p\<lparr>p_pos := p_pos p + frame_total h\<rparr> in
                if h_opcode h = OP_PING then (Some (Inr (Ev_Ping payload)), p')
                else if h_opcode h = OP_PONG then (Some (Inr Ev_Pong), p')
                else if h_opcode h = OP_CLOSE then (Some (close_event payload), p')
                else if h_opcode h = OP_BINARY then
                  (if h_fin h then (Some (Inr (Ev_Binary payload)), p')
                   else parser_step (p'\<lparr>p_message := Some payload\<rparr>))
                else
                  (let message = (case p_message p of None \<Rightarrow> [] | Some m \<Rightarrow> m) @ payload in
                   if h_fin h then (Some (Inr (Ev_Binary message)), p'\<lparr>p_message := None\<rparr>)
                   else parser_step (p'\<lparr>p_message := Some message\<rparr>)))))"
  by pat_completeness auto
termination
proof (relation "measure (\<lambda>p. length (p_buf p) - p_pos p)")
qed (auto simp: parser_header_def frame_total_def slice_def dest!: header_of_len split: if_splits)

declare parser_step.simps [simp del]

definition ends_session :: "close_code + ws_event \<Rightarrow> bool" where
  "ends_session r = (case r of Inl _ \<Rightarrow> True | Inr (Ev_Close _) \<Rightarrow> True | _ \<Rightarrow> False)"

definition parser_next :: "parser \<Rightarrow> (close_code + ws_event) option \<times> parser" where
  "parser_next p =
     (if p_finished p then (None, p)
      else (let (result, p') = parser_step p in
            case result of
              Some r \<Rightarrow>
                if ends_session r
                then (result, p'\<lparr>p_finished := True, p_buf := [], p_pos := 0, p_message := None\<rparr>)
                else (result, p')
            | None \<Rightarrow> (result, p')))"

text \<open>\<open>FrameWriter::frame\<close>: the bytes handed to \<open>write_all\<close> for one server frame.\<close>

definition server_frame :: "u8 \<Rightarrow> bytes \<Rightarrow> bytes" where
  "server_frame opcode payload =
     (0x80 OR opcode) #
     (let n = length payload in
      if n \<le> 125 then [of_nat n]
      else if n \<le> 0xFFFF then 126 # be_bytes 2 (of_nat n :: u16)
      else 127 # be_bytes 8 (of_nat n :: u64)) @ payload"

definition write_binary :: "bytes \<Rightarrow> bytes" where "write_binary msg = server_frame OP_BINARY msg"
definition write_ping :: bytes where "write_ping = server_frame OP_PING []"
definition write_pong :: "bytes \<Rightarrow> bytes" where "write_pong payload = server_frame OP_PONG payload"
definition write_close :: "close_code \<Rightarrow> bytes" where
  "write_close code = server_frame OP_CLOSE (be_bytes 2 code)"

section \<open>The parser as a function of the unread bytes\<close>

text \<open>
  \<open>step_of\<close> is \<open>step\<close> on the open message and the bytes not consumed yet; it returns the event,
  the open message and the bytes left.
\<close>

function step_of ::
    "nat \<Rightarrow> bytes option \<Rightarrow> bytes \<Rightarrow> (close_code + ws_event) option \<times> bytes option \<times> bytes" where
  "step_of mx m u =
     (case header_of mx m u of
        None \<Rightarrow> (None, m, u)
      | Some (Inl code) \<Rightarrow> (Some (Inl code), m, u)
      | Some (Inr h) \<Rightarrow>
          if length u < frame_total h then (None, m, u)
          else
            (let payload = unmask (h_mask h) (drop (h_header_len h) (take (frame_total h) u));
                 r = drop (frame_total h) u in
             if h_opcode h = OP_PING then (Some (Inr (Ev_Ping payload)), m, r)
             else if h_opcode h = OP_PONG then (Some (Inr Ev_Pong), m, r)
             else if h_opcode h = OP_CLOSE then (Some (close_event payload), m, r)
             else if h_opcode h = OP_BINARY then
               (if h_fin h then (Some (Inr (Ev_Binary payload)), m, r) else step_of mx (Some payload) r)
             else
               (let message = (case m of None \<Rightarrow> [] | Some x \<Rightarrow> x) @ payload in
                if h_fin h then (Some (Inr (Ev_Binary message)), None, r)
                else step_of mx (Some message) r)))"
  by pat_completeness auto
termination
proof (relation "measure (\<lambda>(_, _, u). length u)")
qed (auto simp: frame_total_def dest!: header_of_len)

declare step_of.simps [simp del]

definition unread :: "parser \<Rightarrow> bytes" where
  "unread p = drop (p_pos p) (p_buf p)"

definition parser_ok :: "parser \<Rightarrow> bool" where
  "parser_ok p \<longleftrightarrow> p_pos p \<le> length (p_buf p)"

lemma slice_unread:
  "parser_ok p \<Longrightarrow> slice (p_buf p) (p_pos p) n = (if length (unread p) < n then None else Some (take n (unread p)))"
  by (auto simp: slice_def unread_def parser_ok_def)

lemma parser_step_of:
  assumes "parser_ok p" "parser_step p = (r, p')"
  shows "step_of (p_max p) (p_message p) (unread p) = (r, p_message p', unread p') \<and>
    parser_ok p' \<and> p_max p' = p_max p \<and> p_finished p' = p_finished p \<and> p_pos p \<le> p_pos p' \<and>
    p_buf p' = p_buf p \<and> (r \<noteq> None \<longrightarrow> (\<exists>c. r = Some (Inl c)) \<or> p_pos p < p_pos p')"
  using assms
proof (induction p rule: parser_step.induct)
  case (1 p)
  have hd: "parser_header p = header_of (p_max p) (p_message p) (unread p)"
    by (simp add: parser_header_def unread_def)
  consider (none) "parser_header p = None" | (err) c where "parser_header p = Some (Inl c)"
    | (short) h where "parser_header p = Some (Inr h)" "length (unread p) < frame_total h"
    | (whole) h where "parser_header p = Some (Inr h)" "\<not> length (unread p) < frame_total h"
    by (metis not_None_eq sum.exhaust)
  then show ?case
  proof cases
    case none
    then show ?thesis using 1(3,4) hd by (simp add: parser_step.simps [of p] step_of.simps)
  next
    case err
    then show ?thesis using 1(3,4) hd by (auto simp: parser_step.simps [of p] step_of.simps)
  next
    case short
    then show ?thesis using 1(3,4) hd by (simp add: parser_step.simps [of p] step_of.simps slice_unread)
  next
    case whole
    let ?f = "take (frame_total h) (unread p)"
    let ?payload = "unmask (h_mask h) (drop (h_header_len h) ?f)"
    let ?p = "p\<lparr>p_pos := p_pos p + frame_total h\<rparr>"
    let ?msg = "(case p_message p of None \<Rightarrow> [] | Some m \<Rightarrow> m) @ ?payload"
    have sl: "slice (p_buf p) (p_pos p) (frame_total h) = Some ?f" using whole 1(3) by (simp add: slice_unread)
    have un: "unread ?p = drop (frame_total h) (unread p)"
      "unread (?p\<lparr>p_message := x\<rparr>) = drop (frame_total h) (unread p)" for x
      by (simp_all add: unread_def add.commute)
    have ok: "parser_ok ?p" "parser_ok (?p\<lparr>p_message := x\<rparr>)" for x
      using whole(2) 1(3) by (simp_all add: unread_def parser_ok_def)
    have pos: "0 < frame_total h" using header_of_len whole(1) hd by (fastforce simp: frame_total_def)
    note st = parser_step.simps [of p] step_of.simps [of "p_max p" "p_message p" "unread p"]
    consider (last) "h_opcode h \<in> {OP_PING, OP_PONG, OP_CLOSE} \<or> h_fin h"
      | (first) "h_opcode h = OP_BINARY" "\<not> h_fin h"
      | (cont) "h_opcode h \<notin> {OP_PING, OP_PONG, OP_CLOSE, OP_BINARY}" "\<not> h_fin h" by blast
    then show ?thesis
    proof cases
      case last
      then show ?thesis
        using 1(4) whole hd sl un ok pos
        by (auto simp: st Let_def split: if_splits)
    next
      case first
      have "parser_step (?p\<lparr>p_message := Some ?payload\<rparr>) = (r, p')"
        using 1(4) first whole(1) sl by (simp add: st Let_def)
      from 1(1) [OF whole(1) refl sl refl refl _ _ _ _ _ _ this] first ok whole hd un pos show ?thesis
        by (auto simp: st Let_def)
    next
      case cont
      have "parser_step (?p\<lparr>p_message := Some ?msg\<rparr>) = (r, p')"
        using 1(4) cont whole(1) sl by (simp add: st Let_def)
      from 1(2) [OF whole(1) refl sl refl refl _ _ _ _ refl _ _ this] cont ok whole hd un pos show ?thesis
        by (auto simp: st Let_def)
    qed
  qed
qed

section \<open>Reads cut anywhere\<close>

lemma slice_extend: "slice u k n = Some x \<Longrightarrow> slice (u @ v) k n = Some x"
  by (auto simp: slice_def split: if_splits)

lemma header_length_extend: "header_length u l = Some x \<Longrightarrow> header_length (u @ v) l = Some x"
  by (auto simp: header_length_def slice_extend split: if_splits)

text \<open>What \<open>header\<close> answers on a prefix it answers on every extension.\<close>

lemma header_of_extend:
  assumes "header_of mx m u = Some x"
  shows "header_of mx m (u @ v) = Some x"
proof -
  obtain b0 b1 r where u: "u = b0 # b1 # r"
    using assms by (auto simp: header_of_def split: list.splits)
  show ?thesis
    using assms header_length_extend [of u _ _ v] slice_extend [of u _ _ _ v]
    by (auto simp: u header_of_def Let_def split: option.splits if_splits)
qed

lemma step_of_extend:
  "step_of mx m u = (r, m', u') \<Longrightarrow>
     step_of mx m (u @ v) = (case r of None \<Rightarrow> step_of mx m' (u' @ v) | Some x \<Rightarrow> (Some x, m', u' @ v))"
proof (induction mx m u rule: step_of.induct)
  case (1 mx m u)
  consider (none) "header_of mx m u = None" | (err) c where "header_of mx m u = Some (Inl c)"
    | (short) h where "header_of mx m u = Some (Inr h)" "length u < frame_total h"
    | (whole) h where "header_of mx m u = Some (Inr h)" "\<not> length u < frame_total h"
    by (metis not_None_eq sum.exhaust)
  then show ?case
  proof cases
    case whole
    let ?payload = "unmask (h_mask h) (drop (h_header_len h) (take (frame_total h) u))"
    let ?msg = "(case m of None \<Rightarrow> [] | Some x \<Rightarrow> x) @ ?payload"
    note ext = header_of_extend [OF whole(1), of v]
    note st = step_of.simps [of mx m "u @ v"] and su = step_of.simps [of mx m u]
    consider (last) "h_opcode h \<in> {OP_PING, OP_PONG, OP_CLOSE} \<or> h_fin h"
      | (first) "h_opcode h = OP_BINARY" "\<not> h_fin h"
      | (cont) "h_opcode h \<notin> {OP_PING, OP_PONG, OP_CLOSE, OP_BINARY}" "\<not> h_fin h" by blast
    then show ?thesis
    proof cases
      case last
      then show ?thesis using 1(3) whole ext by (auto simp: st su Let_def split: if_splits)
    next
      case first
      have "step_of mx (Some ?payload) (drop (frame_total h) u) = (r, m', u')"
        using 1(3) first whole by (simp add: su Let_def)
      from 1(1) [OF whole(1) refl whole(2) refl refl _ _ _ _ _ this] first whole ext show ?thesis
        by (simp add: st Let_def)
    next
      case cont
      have "step_of mx (Some ?msg) (drop (frame_total h) u) = (r, m', u')"
        using 1(3) cont whole by (simp add: su Let_def)
      from 1(2) [OF whole(1) refl whole(2) refl refl _ _ _ _ refl _ this] cont whole ext show ?thesis
        by (simp add: st Let_def)
    qed
  next
    case err
    then show ?thesis
      using 1(3) header_of_extend [OF err, of v]
      by (auto simp: step_of.simps [of mx m u] step_of.simps [of mx m' "u' @ v"])
  qed (use 1(3) in \<open>auto simp: step_of.simps [of mx m u]\<close>)
qed

text \<open>A step that returns an event other than an error has consumed a frame.\<close>

lemma step_of_consumes:
  "step_of mx m u = (Some (Inr e), m', u') \<Longrightarrow> length u' < length u"
proof (induction mx m u rule: step_of.induct)
  case (1 mx m u)
  then obtain h where h: "header_of mx m u = Some (Inr h)" "\<not> length u < frame_total h"
    by (auto simp: step_of.simps [of mx m u] split: option.splits sum.splits if_splits)
  have pos: "0 < frame_total h" using header_of_len [OF h(1)] by (simp add: frame_total_def)
  with 1(3) h 1(1) [OF h(1) refl h(2) refl refl] 1(2) [OF h(1) refl h(2) refl refl] show ?case
    by (auto simp: step_of.simps [of mx m u] Let_def split: if_splits)
qed

function drain_of :: "nat \<Rightarrow> bytes option \<Rightarrow> bytes \<Rightarrow> (close_code + ws_event) list \<times> (bytes option \<times> bytes) option" where
  "drain_of mx m u =
     (case step_of mx m u of
        (None, m', u') \<Rightarrow> ([], Some (m', u'))
      | (Some r, m', u') \<Rightarrow>
          if ends_session r then ([r], None)
          else (let (rs, st) = drain_of mx m' u' in (r # rs, st)))"
  by pat_completeness auto
termination
proof (relation "measure (\<lambda>(_, _, u). length u)")
qed (auto simp: ends_session_def dest!: sym [of "(Some _, _)"] step_of_consumes split: sum.splits)

declare drain_of.simps [simp del]

lemma drain_of_extend:
  "drain_of mx m (u @ v) =
     (case drain_of mx m u of
        (rs, None) \<Rightarrow> (rs, None)
      | (rs, Some (m', u')) \<Rightarrow> (let (rs', st) = drain_of mx m' (u' @ v) in (rs @ rs', st)))"
proof (induction mx m u rule: drain_of.induct)
  case (1 mx m u)
  obtain r m' u' where s: "step_of mx m u = (r, m', u')" by (cases "step_of mx m u")
  note ext = step_of_extend [OF s, of v]
  show ?case
  proof (cases r)
    case None
    then show ?thesis
      using s ext by (simp add: drain_of.simps [of mx m u] drain_of.simps [of mx m "u @ v"]
          drain_of.simps [of mx m' "u' @ v"] split: prod.splits)
  next
    case (Some x)
    with 1 [OF s [symmetric]] s ext show ?thesis
      by (auto simp: drain_of.simps [of mx m u] drain_of.simps [of mx m "u @ v"] Let_def
          split: prod.splits option.splits)
  qed
qed

text \<open>
  The loop of the connection: \<open>next\<close> until it returns \<open>None\<close>. The position is never past the
  buffer (\<open>parser_ok\<close>); the guard makes the loop total.
\<close>

lemma parser_next_measure:
  assumes "parser_next p = (Some r, p')"
  shows "\<not> p_finished p" "p_finished p' \<or> (\<exists>q. parser_step p = (Some r, q) \<and> p' = q \<and> \<not> ends_session r)"
  using assms by (auto simp: parser_next_def Let_def split: if_splits prod.splits option.splits)

function drain :: "parser \<Rightarrow> (close_code + ws_event) list \<times> parser" where
  "drain p =
     (if \<not> parser_ok p then ([], p)
      else case parser_next p of
        (None, p') \<Rightarrow> ([], p')
      | (Some r, p') \<Rightarrow> (let (rs, q) = drain p' in (r # rs, q)))"
  by pat_completeness auto
termination
proof (relation "measure (\<lambda>p. if p_finished p then 0 else Suc (length (p_buf p) - p_pos p))")
  fix p x y xa assume ok: "\<not> \<not> parser_ok p" and nx: "(x, y) = parser_next p" "x = Some xa"
  from parser_next_measure [of p xa y] nx consider "p_finished y" "\<not> p_finished p"
    | "parser_step p = (Some xa, y)" "\<not> ends_session xa" "\<not> p_finished p" by auto
  then show "(y, p) \<in> measure (\<lambda>p. if p_finished p then 0 else Suc (length (p_buf p) - p_pos p))"
  proof cases
    case 2
    then show ?thesis using parser_step_of [of p "Some xa" y] ok
      by (auto simp: ends_session_def parser_ok_def)
  qed simp
qed simp

declare drain.simps [simp del]

lemma drain_finished: "p_finished p \<Longrightarrow> drain p = ([], p)"
  by (subst drain.simps) (simp add: parser_next_def)

text \<open>The state a drained parser is left in: finished, or with a message and bytes pending.\<close>

definition left_as :: "parser \<Rightarrow> nat \<Rightarrow> (bytes option \<times> bytes) option \<Rightarrow> bool" where
  "left_as p mx st \<longleftrightarrow> parser_ok p \<and> p_max p = mx \<and>
     (case st of None \<Rightarrow> p_finished p | Some (m, u) \<Rightarrow> \<not> p_finished p \<and> p_message p = m \<and> unread p = u)"

lemma drain_left_as:
  "left_as p mx (Some (m, u)) \<Longrightarrow>
     fst (drain p) = fst (drain_of mx m u) \<and> left_as (snd (drain p)) mx (snd (drain_of mx m u))"
proof (induction mx m u arbitrary: p rule: drain_of.induct)
  case (1 mx m u)
  then have p: "parser_ok p" "p_max p = mx" "\<not> p_finished p" "p_message p = m" "unread p = u"
    by (simp_all add: left_as_def)
  obtain r q where st: "parser_step p = (r, q)" by fastforce
  note so = parser_step_of [OF p(1) st, unfolded p(2,4,5)]
  then have so': "step_of mx m u = (r, p_message q, unread q)" by blast
  show ?case
  proof (cases r)
    case None
    then have "parser_next p = (None, q)" using st p(3) by (simp add: parser_next_def)
    then show ?thesis
      using so None p so' by (simp add: drain.simps [of p] drain_of.simps [of mx m u] left_as_def)
  next
    case (Some x)
    show ?thesis
    proof (cases "ends_session x")
      case True
      define q' where "q' = q\<lparr>p_finished := True, p_buf := [], p_pos := 0, p_message := None\<rparr>"
      have "parser_next p = (Some x, q')" using st p(3) Some True by (simp add: parser_next_def q'_def)
      moreover have "drain q' = ([], q')" by (rule drain_finished) (simp add: q'_def)
      ultimately show ?thesis
        using p so so' Some True
        by (simp add: drain.simps [of p] drain_of.simps [of mx m u] left_as_def parser_ok_def q'_def)
    next
      case False
      then have nx: "parser_next p = (Some x, q)" using st p(3) Some by (simp add: parser_next_def)
      have "left_as q mx (Some (p_message q, unread q))" using so p by (simp add: left_as_def)
      from 1(1) [OF so' [symmetric] Some refl False this] nx p(1) so' Some False show ?thesis
        by (auto simp: drain.simps [of p] drain_of.simps [of mx m u] Let_def split: prod.splits)
    qed
  qed
qed

lemma feed_left_as:
  "left_as p mx (Some (m, u)) \<Longrightarrow> left_as (parser_feed p b) mx (Some (m, u @ b))"
  by (auto simp: left_as_def parser_feed_def parser_ok_def unread_def)

lemma feed_finished:
  assumes "left_as p mx None"
  shows "drain (parser_feed p b) = ([], p)"
  using assms by (simp add: left_as_def parser_feed_def drain_finished)

fun feed_all :: "parser \<Rightarrow> bytes list \<Rightarrow> (close_code + ws_event) list \<times> parser" where
  "feed_all p [] = ([], p)"
| "feed_all p (c # cs) =
     (let (rs, q) = drain (parser_feed p c); (rs', q') = feed_all q cs in (rs @ rs', q'))"

lemma feed_all_finished: "left_as p mx None \<Longrightarrow> feed_all p cs = ([], p)"
  by (induction cs) (simp_all add: feed_finished)

lemma feed_all_left_as:
  "left_as p mx (snd (drain_of mx m u)) \<Longrightarrow>
     fst (drain_of mx m (u @ concat cs)) = fst (drain_of mx m u) @ fst (feed_all p cs)"
proof (induction cs arbitrary: p u)
  case (Cons c cs)
  obtain rs st where d: "drain_of mx m u = (rs, st)" by fastforce
  show ?case
  proof (cases st)
    case None
    with Cons.prems d show ?thesis
      using feed_all_finished [of p mx] feed_finished [of p mx c]
        drain_of_extend [of mx m u "c @ concat cs"] by simp
  next
    case (Some x)
    obtain m' u' where x: "x = (m', u')" by fastforce
    let ?p = "parser_feed p c"
    have f: "left_as ?p mx (Some (m', u' @ c))" using feed_left_as Cons.prems d Some x by simp
    note dl = drain_left_as [OF f]
    have uc: "drain_of mx m (u @ c) = (let (rs', st) = drain_of mx m' (u' @ c) in (rs @ rs', st))"
      using drain_of_extend [of mx m u c] d Some x by simp
    then have "left_as (snd (drain ?p)) mx (snd (drain_of mx m (u @ c)))"
      using dl by (simp add: Let_def split: prod.splits)
    from Cons.IH [OF this] uc dl d show ?thesis
      by (auto simp: Let_def split: prod.splits)
  qed
qed simp

lemma left_as_new: "left_as (parser_new mx) mx (Some (None, []))"
  by (simp add: left_as_def parser_new_def parser_ok_def unread_def)

lemma drain_of_Nil: "drain_of mx None [] = ([], Some (None, []))"
  by (simp add: drain_of.simps step_of.simps header_of_def)

lemma feed_all_new: "fst (feed_all (parser_new mx) cs) = fst (drain_of mx None (concat cs))"
  using feed_all_left_as [of "parser_new mx" mx None "[]" cs] left_as_new by (simp add: drain_of_Nil)

section \<open>The limit\<close>

definition opened :: "bytes option \<Rightarrow> nat" where
  "opened m = (case m of None \<Rightarrow> 0 | Some x \<Rightarrow> length x)"

fun within :: "nat \<Rightarrow> close_code + ws_event \<Rightarrow> bool" where
  "within mx (Inr (Ev_Binary b)) = (length b \<le> mx)"
| "within mx (Inr (Ev_Ping b)) = (length b \<le> 125)"
| "within mx _ = True"

lemma length_unmask [simp]: "length (unmask key b) = length b"
  by (simp add: unmask_def)

lemma header_of_limits:
  assumes "header_of mx m u = Some (Inr h)"
  shows "\<not> is_control (h_opcode h) \<Longrightarrow> unat (h_payload_len h) \<le> mx - opened m"
    "is_control (h_opcode h) \<Longrightarrow> unat (h_payload_len h) \<le> 125"
    "h_opcode h = OP_BINARY \<Longrightarrow> m = None"
proof -
  obtain b0 b1 r where u: "u = b0 # b1 # r"
    using assms by (auto simp: header_of_def split: list.splits)
  show "\<not> is_control (h_opcode h) \<Longrightarrow> unat (h_payload_len h) \<le> mx - opened m"
    "h_opcode h = OP_BINARY \<Longrightarrow> m = None"
    using assms by (auto simp: u header_of_def opened_def Let_def header_refusal_def is_control_def
        split: option.splits if_splits)
  assume c: "is_control (h_opcode h)"
  then have l: "unat (b1 AND 0x7F) \<le> 125" "h_payload_len h = ucast (b1 AND 0x7F)"
    using assms by (auto simp: u header_of_def Let_def header_refusal_def header_length_def
        split: option.splits if_splits)
  then show "unat (h_payload_len h) \<le> 125" by (simp add: unsigned_ucast_eq take_bit_nat_less_eq_self [THEN order_trans])
qed

lemma step_of_within:
  "step_of mx m u = (r, m', u') \<Longrightarrow> opened m \<le> mx \<Longrightarrow>
     opened m' \<le> mx \<and> (\<forall>x. r = Some x \<longrightarrow> within mx x)"
proof (induction mx m u rule: step_of.induct)
  case (1 mx m u)
  show ?case
  proof (cases "\<exists>h. header_of mx m u = Some (Inr h) \<and> \<not> length u < frame_total h")
    case True
    then obtain h where h: "header_of mx m u = Some (Inr h)" "\<not> length u < frame_total h" by blast
    let ?payload = "unmask (h_mask h) (drop (h_header_len h) (take (frame_total h) u))"
    let ?msg = "(case m of None \<Rightarrow> [] | Some x \<Rightarrow> x) @ ?payload"
    have len: "length ?payload = unat (h_payload_len h)" using h(2) by (simp add: frame_total_def)
    note lim = header_of_limits [OF h(1)]
    have data: "length ?payload \<le> mx" "length ?msg \<le> mx" if "\<not> is_control (h_opcode h)"
      using lim(1) [OF that] len 1(4) by (auto simp: opened_def split: option.splits)
    have ctl: "within mx (close_event b)" for b by (auto simp: close_event_def Let_def split: list.splits)
    show ?thesis
      using 1(3,4) h 1(1) [OF h(1) refl h(2) refl refl] 1(2) [OF h(1) refl h(2) refl refl]
        data lim(2) len ctl
      by (auto simp: step_of.simps [of mx m u] Let_def is_control_def opened_def split: if_splits)
  next
    case False
    then show ?thesis
      using 1(3,4) by (auto simp: step_of.simps [of mx m u] split: option.splits sum.splits if_splits)
  qed
qed

lemma drain_of_within:
  "opened m \<le> mx \<Longrightarrow> \<forall>x \<in> set (fst (drain_of mx m u)). within mx x"
proof (induction mx m u rule: drain_of.induct)
  case (1 mx m u)
  obtain r m' u' where s: "step_of mx m u = (r, m', u')" by (cases "step_of mx m u")
  note w = step_of_within [OF s 1(2)]
  then show ?case
    using s 1(1) [OF s [symmetric] _ refl]
    by (cases r) (auto simp: drain_of.simps [of mx m u] Let_def split: prod.splits)
qed

section \<open>Client frames\<close>

text \<open>
  What a client sends. Masking is RFC 6455 section 5.3: octet \<open>i\<close> of the payload is combined with
  octet \<open>i mod 4\<close> of the key. A masked frame (section 5.2) has the shortest length field.
\<close>

definition client_mask :: "bytes \<Rightarrow> bytes \<Rightarrow> bytes" where
  "client_mask key payload = map (\<lambda>i. payload ! i XOR key ! (i mod 4)) [0..<length payload]"

definition client_frame :: "bool \<Rightarrow> u8 \<Rightarrow> bytes \<Rightarrow> bytes \<Rightarrow> bytes" where
  "client_frame fin opcode key payload =
     ((if fin then 0x80 else 0) OR opcode) #
     (let n = length payload in
      if n \<le> 125 then [0x80 OR of_nat n]
      else if n \<le> 0xFFFF then (0x80 OR 126) # be_bytes 2 (of_nat n :: u16)
      else (0x80 OR 127) # be_bytes 8 (of_nat n :: u64)) @ key @ client_mask key payload"

lemma nth_unmask: "i < length b \<Longrightarrow> unmask key b ! i = b ! i XOR key ! (i mod 4)"
  by (simp add: unmask_def nth_enumerate_eq)

lemma length_client_mask [simp]: "length (client_mask key b) = length b"
  by (simp add: client_mask_def)

lemma unmask_client_mask: "unmask key (client_mask key b) = b"
  by (rule nth_equalityI) (simp_all add: nth_unmask client_mask_def ac_simps)

lemma len7_mask:
  assumes "n < 128"
  shows "((0x80 OR of_nat n :: u8) AND 0x7F) = of_nat n" "((0x80 OR of_nat n :: u8) AND 0x80) \<noteq> 0"
proof -
  have m: "(0x80 :: u8) = NOT (mask 7)" "(0x7F :: u8) = mask 7"
    by (simp_all add: mask_eq_exp_minus_1)
  define w where "w = (of_nat n :: u8)"
  have "unat w < 2 ^ 7" using assms by (simp add: w_def unat_of_nat_u8)
  then have b: "bit w i \<Longrightarrow> i < 7" for i unfolding unat_less_exp_iff_bits by blast
  show "((0x80 OR of_nat n :: u8) AND 0x7F) = of_nat n"
    unfolding m w_def [symmetric] by (rule bit_word_eqI) (auto simp: bit_simps dest: b)
  have "((0x80 OR of_nat n :: u8) AND 0x80) = 0x80"
    unfolding m w_def [symmetric] by (rule bit_word_eqI) (auto simp: bit_simps)
  then show "((0x80 OR of_nat n :: u8) AND 0x80) \<noteq> 0" by simp
qed

text \<open>When the first two bytes pass, the header of a client frame is read back.\<close>

lemma header_of_client:
  fixes opcode :: u8 and fin :: bool
  defines "b0 \<equiv> (if fin then 0x80 else 0) OR opcode :: u8"
  assumes key: "length key = 4" and n: "length payload < 2 ^ 63"
    and ref: "\<And>l. l \<le> 127 \<Longrightarrow> (is_control opcode \<longrightarrow> l \<le> 125) \<Longrightarrow>
          header_refusal m b0 (0x80 OR of_nat l) = None"
    and ctl: "is_control opcode \<longrightarrow> length payload \<le> 125"
    and op: "b0 AND 0x0F = opcode" "(b0 AND 0x80 \<noteq> 0) = fin"
    and lim: "\<not> is_control opcode \<longrightarrow> opened m + length payload \<le> mx"
  shows "\<exists>h. header_of mx m (client_frame fin opcode key payload @ rest) = Some (Inr h) \<and>
    h_fin h = fin \<and> h_opcode h = opcode \<and> h_mask h = key \<and> unat (h_payload_len h) = length payload \<and>
    frame_total h = length (client_frame fin opcode key payload) \<and>
    drop (h_header_len h) (client_frame fin opcode key payload) = client_mask key payload"
proof -
  let ?n = "length payload"
  have lim': "is_control opcode \<or> \<not> ?n > mx - (case m of None \<Rightarrow> 0 | Some x \<Rightarrow> length x)"
    using lim by (auto simp: opened_def split: option.splits)
  have top: "drop_bit 63 (of_nat k :: u64) = 0" if "k < 2 ^ 63" for k
  proof -
    have "unat (of_nat k :: u64) = k" using that by (simp add: unat_of_nat_u64)
    then have "\<not> bit (of_nat k :: u64) i" if "63 \<le> i" for i
      using \<open>k < 2 ^ 63\<close> that unat_less_exp_iff_bits [of "of_nat k :: u64" 63] by auto
    then show ?thesis by (intro bit_word_eqI) (simp add: bit_drop_bit_eq)
  qed
  have top': "drop_bit 63 (of_nat k :: u64) \<noteq> 0 \<longleftrightarrow> False" if "k < 2 ^ 63" for k using top [OF that] by simp
  have sl: "slice (a # b # c @ key @ x) (2 + length c) 4 = Some key" for a b c x
    using key by (simp add: slice_def)
  consider (short) "?n \<le> 125" | (mid) "125 < ?n" "?n \<le> 0xFFFF" | (long) "0xFFFF < ?n" by linarith
  then show ?thesis
  proof cases
    case short
    have r: "header_refusal m b0 (0x80 OR of_nat ?n) = None" using ref [of ?n] short by simp
    have "header_length (b0 # (0x80 OR of_nat ?n) # key @ client_mask key payload @ rest) (of_nat ?n) = Some (of_nat ?n, 0)"
      using short unat_of_nat_u8 [of ?n] unat_of_nat_u64 [of ?n] take_bit_nat_eq_self [of ?n 64]
      by (auto simp: header_length_def unsigned_ucast_eq word_eq_iff_unsigned [where 'a = nat])
    then show ?thesis
      using short r key top n lim' op len7_mask [of ?n] sl [of b0 "0x80 OR of_nat ?n" "[]"] unat_of_nat_u64 [of ?n]
      by (simp add: header_of_def client_frame_def Let_def b0_def [symmetric] frame_total_def)
  next
    case mid
    then have nc: "\<not> is_control opcode" using ctl by auto
    have r: "header_refusal m b0 (0x80 OR of_nat 126) = None" using ref [of 126] nc by simp
    have "be_word (be_bytes 2 (of_nat ?n :: u16)) = (of_nat ?n :: u16)" by (rule be_word_be_bytes) simp
    then have "header_length (b0 # (0x80 OR 126) # be_bytes 2 (of_nat ?n :: u16) @ key @ client_mask key payload @ rest) 126 = Some (of_nat ?n, 2)"
      using mid unat_of_nat_u16 [of ?n] take_bit_nat_eq_self [of ?n 64]
      by (simp add: header_length_def slice_def word_eq_iff_unsigned [where 'a = nat] unsigned_ucast_eq unat_of_nat_u64)
    then show ?thesis
      using mid r key top n lim' op len7_mask [of 126] sl [of b0 "0x80 OR 126" "be_bytes 2 (of_nat ?n :: u16)"] unat_of_nat_u64 [of ?n]
      by (simp add: header_of_def client_frame_def Let_def b0_def [symmetric] frame_total_def)
  next
    case long
    then have nc: "\<not> is_control opcode" using ctl by auto
    have r: "header_refusal m b0 (0x80 OR of_nat 127) = None" using ref [of 127] nc by simp
    have "be_word (be_bytes 8 (of_nat ?n :: u64)) = (of_nat ?n :: u64)" by (rule be_word_be_bytes) simp
    then have "header_length (b0 # (0x80 OR 127) # be_bytes 8 (of_nat ?n :: u64) @ key @ client_mask key payload @ rest) 127 = Some (of_nat ?n, 8)"
      by (simp add: header_length_def slice_def)
    then show ?thesis
      using long r key top n lim' op len7_mask [of 127] sl [of b0 "0x80 OR 127" "be_bytes 8 (of_nat ?n :: u64)"] unat_of_nat_u64 [of ?n]
      by (simp add: header_of_def client_frame_def Let_def b0_def [symmetric] frame_total_def)
  qed
qed

text \<open>One iteration of the loop on a client frame.\<close>

lemma refusal_client:
  assumes "l \<le> 127"
  shows "header_refusal None ((if fin then 0x80 else 0) OR OP_BINARY) (0x80 OR of_nat l) = None"
    "header_refusal (Some x) ((if fin then 0x80 else 0) OR OP_CONTINUATION) (0x80 OR of_nat l) = None"
    "l \<le> 125 \<Longrightarrow> header_refusal m ((if True then 0x80 else 0) OR OP_PING) (0x80 OR of_nat l) = None"
  using assms len7_mask [of l] unat_of_nat_u8 [of l]
  by (simp_all add: header_refusal_def Let_def is_control_def)

lemma client_b0:
  "((if fin then 0x80 else 0) OR OP_BINARY :: u8) AND 0x0F = OP_BINARY"
  "(((if fin then 0x80 else 0) OR OP_BINARY :: u8) AND 0x80 \<noteq> 0) = fin"
  "((if fin then 0x80 else 0) OR OP_CONTINUATION :: u8) AND 0x0F = OP_CONTINUATION"
  "(((if fin then 0x80 else 0) OR OP_CONTINUATION :: u8) AND 0x80 \<noteq> 0) = fin"
  by (cases fin; simp)+

lemma step_of_frame:
  assumes "header_of mx m (c @ rest) = Some (Inr h)" "frame_total h = length c"
    "drop (h_header_len h) c = client_mask (h_mask h) payload"
  shows "h_opcode h = OP_PING \<Longrightarrow> step_of mx m (c @ rest) = (Some (Inr (Ev_Ping payload)), m, rest)"
    "h_opcode h = OP_BINARY \<Longrightarrow> step_of mx m (c @ rest) =
       (if h_fin h then (Some (Inr (Ev_Binary payload)), m, rest) else step_of mx (Some payload) rest)"
    "h_opcode h = OP_CONTINUATION \<Longrightarrow> step_of mx m (c @ rest) =
       (let msg = (case m of None \<Rightarrow> [] | Some x \<Rightarrow> x) @ payload in
        if h_fin h then (Some (Inr (Ev_Binary msg)), None, rest) else step_of mx (Some msg) rest)"
  using assms by (simp_all add: step_of.simps [of mx m "c @ rest"] Let_def unmask_client_mask)

lemma step_of_ping:
  assumes "length key = 4" "length b \<le> 125"
  shows "step_of mx m (client_frame True OP_PING key b @ rest) = (Some (Inr (Ev_Ping b)), m, rest)"
proof -
  have "is_control OP_PING" by (simp add: is_control_def)
  with header_of_client [of key b OP_PING m True mx rest] assms refusal_client(3) [of _ m]
  obtain h where "header_of mx m (client_frame True OP_PING key b @ rest) = Some (Inr h)"
    "h_opcode h = OP_PING" "h_mask h = key" "frame_total h = length (client_frame True OP_PING key b)"
    "drop (h_header_len h) (client_frame True OP_PING key b) = client_mask key b" by auto
  then show ?thesis using step_of_frame(1) [of mx m _ rest h b] by simp
qed

lemma step_of_first:
  assumes "length key = 4" "length b \<le> mx" "mx < 2 ^ 63"
  shows "step_of mx None (client_frame fin OP_BINARY key b @ rest) =
    (if fin then (Some (Inr (Ev_Binary b)), None, rest) else step_of mx (Some b) rest)"
proof -
  have "\<not> is_control OP_BINARY" by (simp add: is_control_def)
  with header_of_client [of key b OP_BINARY None fin mx rest] assms refusal_client(1) [of _ fin]
    client_b0(1,2) [of fin]
  obtain h where "header_of mx None (client_frame fin OP_BINARY key b @ rest) = Some (Inr h)"
    "h_fin h = fin" "h_opcode h = OP_BINARY" "h_mask h = key"
    "frame_total h = length (client_frame fin OP_BINARY key b)"
    "drop (h_header_len h) (client_frame fin OP_BINARY key b) = client_mask key b" by (auto simp: opened_def)
  then show ?thesis using step_of_frame(2) [of mx None _ rest h b] by simp
qed

lemma step_of_cont:
  assumes "length key = 4" "length x + length b \<le> mx" "mx < 2 ^ 63"
  shows "step_of mx (Some x) (client_frame fin OP_CONTINUATION key b @ rest) =
    (if fin then (Some (Inr (Ev_Binary (x @ b))), None, rest) else step_of mx (Some (x @ b)) rest)"
proof -
  have "\<not> is_control OP_CONTINUATION" by (simp add: is_control_def)
  with header_of_client [of key b OP_CONTINUATION "Some x" fin mx rest] assms refusal_client(2) [of _ x fin]
    client_b0(3,4) [of fin]
  obtain h where "header_of mx (Some x) (client_frame fin OP_CONTINUATION key b @ rest) = Some (Inr h)"
    "h_fin h = fin" "h_opcode h = OP_CONTINUATION" "h_mask h = key"
    "frame_total h = length (client_frame fin OP_CONTINUATION key b)"
    "drop (h_header_len h) (client_frame fin OP_CONTINUATION key b) = client_mask key b" by (auto simp: opened_def)
  then show ?thesis using step_of_frame(3) [of mx "Some x" _ rest h b] by (simp add: Let_def)
qed

text \<open>
  A message in fragments: each fragment has a masking key and a payload, and pings may be sent
  before it. \<open>message_bytes\<close> is what a client sends, \<open>message_events\<close> what the server is to see.
\<close>

type_synonym ping = "bytes \<times> bytes"
type_synonym fragment = "ping list \<times> bytes \<times> bytes"

definition ping_bytes :: "ping list \<Rightarrow> bytes" where
  "ping_bytes ps = concat (map (\<lambda>(key, b). client_frame True OP_PING key b) ps)"

fun message_bytes :: "bool \<Rightarrow> fragment list \<Rightarrow> bytes" where
  "message_bytes first [] = []"
| "message_bytes first ((ps, key, b) # fs) =
     ping_bytes ps @ client_frame (fs = []) (if first then OP_BINARY else OP_CONTINUATION) key b @
       message_bytes False fs"

definition ping_events :: "ping list \<Rightarrow> (close_code + ws_event) list" where
  "ping_events ps = map (\<lambda>(key, b). Inr (Ev_Ping b)) ps"

definition joined_payload :: "fragment list \<Rightarrow> bytes" where
  "joined_payload fs = concat (map (\<lambda>(ps, key, b). b) fs)"

definition message_events :: "fragment list \<Rightarrow> (close_code + ws_event) list" where
  "message_events fs = concat (map (\<lambda>f. ping_events (fst f)) fs) @ [Inr (Ev_Binary (joined_payload fs))]"

definition pings_valid :: "ping list \<Rightarrow> bool" where
  "pings_valid ps \<longleftrightarrow> (\<forall>(key, b) \<in> set ps. length key = 4 \<and> length b \<le> 125)"

definition message_valid :: "nat \<Rightarrow> fragment list \<Rightarrow> bool" where
  "message_valid mx fs \<longleftrightarrow> fs \<noteq> [] \<and> length (joined_payload fs) \<le> mx \<and>
     (\<forall>(ps, key, b) \<in> set fs. pings_valid ps \<and> length key = 4)"

lemma drain_of_event:
  assumes "step_of mx m u = (Some (Inr e), m', u')" "\<not> ends_session (Inr e)"
  shows "drain_of mx m u = (let (rs, st) = drain_of mx m' u' in (Inr e # rs, st))"
  using assms by (simp add: drain_of.simps [of mx m u])

lemma drain_of_skip: "step_of mx m u = step_of mx m' u' \<Longrightarrow> drain_of mx m u = drain_of mx m' u'"
  by (simp add: drain_of.simps [of mx m u] drain_of.simps [of mx m' u'])

lemma drain_of_pings:
  "pings_valid ps \<Longrightarrow>
     drain_of mx m (ping_bytes ps @ u) = (let (rs, st) = drain_of mx m u in (ping_events ps @ rs, st))"
proof (induction ps)
  case (Cons p ps)
  obtain key b where p: "p = (key, b)" by fastforce
  have "step_of mx m (client_frame True OP_PING key b @ ping_bytes ps @ u) =
      (Some (Inr (Ev_Ping b)), m, ping_bytes ps @ u)"
    using Cons.prems by (intro step_of_ping) (simp_all add: p pings_valid_def)
  from drain_of_event [OF this] Cons show ?case
    by (simp add: p ping_bytes_def ping_events_def pings_valid_def ends_session_def Let_def split: prod.splits)
qed (simp add: ping_bytes_def ping_events_def)

lemma drain_of_rest:
  assumes "mx < 2 ^ 63" "fs \<noteq> []" "\<forall>(ps, key, b) \<in> set fs. pings_valid ps \<and> length key = 4"
    "length x + length (joined_payload fs) \<le> mx"
  shows "drain_of mx (Some x) (message_bytes False fs @ u) =
    (let (rs, st) = drain_of mx None u in
     (concat (map (\<lambda>f. ping_events (fst f)) fs) @ Inr (Ev_Binary (x @ joined_payload fs)) # rs, st))"
  using assms(2-)
proof (induction fs arbitrary: x)
  case (Cons f fs)
  obtain ps key b where f: "f = (ps, key, b)" by (cases f)
  have v: "pings_valid ps" "length key = 4" "length x + length b \<le> mx"
    using Cons.prems by (auto simp: f joined_payload_def)
  let ?r = "message_bytes False fs @ u"
  have st: "step_of mx (Some x) (client_frame (fs = []) OP_CONTINUATION key b @ ?r) =
      (if fs = [] then (Some (Inr (Ev_Binary (x @ b))), None, ?r) else step_of mx (Some (x @ b)) ?r)"
    using step_of_cont [OF v(2,3) assms(1)] by simp
  have "drain_of mx (Some x) (client_frame (fs = []) OP_CONTINUATION key b @ ?r) =
    (let (rs, st) = drain_of mx None u in
     (concat (map (\<lambda>f. ping_events (fst f)) fs) @ Inr (Ev_Binary (x @ joined_payload (f # fs))) # rs, st))"
  proof (cases "fs = []")
    case True
    then show ?thesis
      using drain_of_event [of mx "Some x" "client_frame True OP_CONTINUATION key b @ u"] st
      by (simp add: ends_session_def f joined_payload_def)
  next
    case False
    then show ?thesis
      using drain_of_skip [of mx "Some x" _ "Some (x @ b)" ?r] st Cons.IH [of "x @ b"] Cons.prems
      by (simp add: f joined_payload_def)
  qed
  with drain_of_pings [OF v(1)] show ?case by (simp add: f Let_def split: prod.splits)
qed simp

lemma drain_of_message:
  assumes "mx < 2 ^ 63" "message_valid mx fs"
  shows "drain_of mx None (message_bytes True fs @ u) =
    (let (rs, st) = drain_of mx None u in (message_events fs @ rs, st))"
proof (cases fs)
  case (Cons f fs')
  obtain ps key b where f: "f = (ps, key, b)" by (cases f)
  have v: "pings_valid ps" "length key = 4" "length b \<le> mx"
    using assms(2) by (auto simp: Cons f joined_payload_def message_valid_def)
  let ?r = "message_bytes False fs' @ u"
  have st: "step_of mx None (client_frame (fs' = []) OP_BINARY key b @ ?r) =
      (if fs' = [] then (Some (Inr (Ev_Binary b)), None, ?r) else step_of mx (Some b) ?r)"
    using step_of_first [OF v(2,3) assms(1)] by simp
  have "drain_of mx None (client_frame (fs' = []) OP_BINARY key b @ ?r) =
    (let (rs, st) = drain_of mx None u in
     (concat (map (\<lambda>f. ping_events (fst f)) fs') @ Inr (Ev_Binary (joined_payload fs)) # rs, st))"
  proof (cases "fs' = []")
    case True
    then show ?thesis
      using drain_of_event [of mx None "client_frame True OP_BINARY key b @ u"] st
      by (simp add: ends_session_def Cons f joined_payload_def)
  next
    case False
    then show ?thesis
      using drain_of_skip [of mx None _ "Some b" ?r] st drain_of_rest [OF assms(1) False, of b u] assms(2)
      by (simp add: Cons f joined_payload_def message_valid_def)
  qed
  with drain_of_pings [OF v(1)] show ?thesis
    by (simp add: Cons f message_events_def Let_def split: prod.splits)
qed (use assms(2) in \<open>simp add: message_valid_def\<close>)

lemma drain_of_messages:
  "mx < 2 ^ 63 \<Longrightarrow> \<forall>fs \<in> set msgs. message_valid mx fs \<Longrightarrow>
     drain_of mx None (concat (map (message_bytes True) msgs)) = (concat (map message_events msgs), Some (None, []))"
  by (induction msgs) (simp_all add: drain_of_Nil drain_of_message)

section \<open>Properties\<close>

text \<open>
  C37: the events do not depend on how the bytes were cut into reads: feeding a stream piece by
  piece, with every event taken after each piece, gives the events of the whole stream fed at
  once.
\<close>

theorem reads_cut_anywhere:
  "fst (feed_all (parser_new mx) cs) = fst (feed_all (parser_new mx) [concat cs])"
  by (simp add: feed_all_new del: feed_all.simps)

text \<open>
  C38: messages are joined and unmasked. When a client sends messages within the limit, each in
  fragments masked as the RFC says under keys of its choice, with masked pings between them, then in
  whatever pieces the bytes arrive, the server sees exactly the pings and the joined messages as the
  client had them before masking, in order.
\<close>

theorem messages_joined:
  assumes "mx < 2 ^ 63" "\<forall>fs \<in> set msgs. message_valid mx fs"
    and "concat cs = concat (map (message_bytes True) msgs)"
  shows "fst (feed_all (parser_new mx) cs) = concat (map message_events msgs)"
  using feed_all_new [of mx cs] drain_of_messages [OF assms(1,2)] assms(3) by simp

text \<open>
  Two fragments with a ping between them, in bytes and in two reads: 5, 6 under the key 1, 2, 3, 4
  are sent as 4, 4, and 7 under the key 1, 1, 1, 1 as 6.
\<close>

theorem messages_joined_witness:
  "fst (feed_all (parser_new 10) [[0x02, 0x82, 1, 2, 3], [4, 4, 4, 0x89, 0x81, 0, 0, 0, 0, 9, 0x80, 0x81, 1, 1, 1, 1, 6]])
     = [Inr (Ev_Ping [9]), Inr (Ev_Binary [5, 6, 7])]"
  using messages_joined [of 10 "[[([], [1, 2, 3, 4], [5, 6]), ([([0, 0, 0, 0], [9])], [1, 1, 1, 1], [7])]]"
      "[[0x02, 0x82, 1, 2, 3], [4, 4, 4, 0x89, 0x81, 0, 0, 0, 0, 9, 0x80, 0x81, 1, 1, 1, 1, 6]]"]
  by (simp add: message_valid_def joined_payload_def pings_valid_def message_events_def ping_events_def
      ping_bytes_def client_frame_def client_mask_def Let_def del: feed_all.simps)

text \<open>
  On any input, cut into any reads, no message the parser returns passes the limit and no
  ping passes 125 bytes.
\<close>

lemma events_within_limit: "list_all (within mx) (fst (feed_all (parser_new mx) cs))"
  using drain_of_within [of None mx "concat cs"]
  by (simp add: feed_all_new opened_def list_all_iff del: feed_all.simps)

end
