(* ===== verification/Ws_Handshake.thy ===== *)
theory Ws_Handshake
  imports Prelude Ws_Crypto Ws_Frame
begin

text \<open>
  The opening handshake of \<open>crates/ridl-transport-ws/src/ws.rs\<close>: the reading of the request head,
  its checks, the choice of the subprotocol and the answer. The origin check and the choice of
  the backend are the caller's and are parameters. The stream is the sequence of results its
  reads give; what is written is returned, and a write that fails is not modelled. The lemmas
  show that the head takes exactly its bytes from the stream, that the newest subprotocol
  offered is selected, and that nothing is upgraded without its checks.
\<close>

section \<open>Model\<close>

abbreviation (input) FRAME_VERSION_V1 :: u32 where "FRAME_VERSION_V1 \<equiv> 1"

definition MAX_HEAD_BYTES :: nat where "MAX_HEAD_BYTES = 8 * 1024"

definition ACCEPT_GUID :: bytes where "ACCEPT_GUID = ascii ''258EAFA5-E914-47DA-95CA-C5AB0DC85B11''"

definition CRLF :: bytes where "CRLF = [13, 10]"

definition http_response :: "string \<Rightarrow> bytes" where
  "http_response status = ascii ''HTTP/1.1 '' @ ascii status @ CRLF @ ascii ''Connection: close'' @ CRLF @
     ascii ''Content-Length: 0'' @ CRLF @ CRLF"

definition BAD_REQUEST :: bytes where "BAD_REQUEST = http_response ''400 Bad Request''"

definition BAD_VERSION :: bytes where
  "BAD_VERSION = ascii ''HTTP/1.1 400 Bad Request'' @ CRLF @ ascii ''Sec-WebSocket-Version: 13'' @ CRLF @
     ascii ''Connection: close'' @ CRLF @ ascii ''Content-Length: 0'' @ CRLF @ CRLF"

definition FORBIDDEN :: bytes where "FORBIDDEN = http_response ''403 Forbidden''"

datatype upgrade = Accepted u32 | Rejected | Forbidden

datatype role = Consuming | Providing

datatype http_refusal = NotFound | Conflict | RefusedCapacity | Config

datatype read_result = RByte u8 | RInterrupted | RError

datatype io_error = UnexpectedEof | IoError

definition head_ends :: "bytes \<Rightarrow> bool" where
  "head_ends h \<longleftrightarrow> 4 \<le> length h \<and> drop (length h - 4) h = CRLF @ CRLF"

text \<open>The loop of \<open>read_head\<close>; the end of the stream is a read of no bytes.\<close>

fun read_head :: "read_result list \<Rightarrow> bytes \<Rightarrow> (io_error + bytes option) \<times> read_result list" where
  "read_head stream head =
     (if head_ends head then (Inr (Some head), stream)
      else if length head = MAX_HEAD_BYTES then (Inr None, stream)
      else case stream of
          [] \<Rightarrow> (Inl UnexpectedEof, [])
        | RByte b # s \<Rightarrow> read_head s (head @ [b])
        | RInterrupted # s \<Rightarrow> read_head s head
        | RError # s \<Rightarrow> (Inl IoError, s))"

declare read_head.simps [simp del]

record upgrade_req =
  u_key :: bytes
  u_target :: bytes
  u_origin :: "bytes option"
  u_subprotocol :: bytes
  u_frame_version :: u32

datatype reject = RejectBadRequest | RejectVersion

text \<open>\<open>split(c)\<close> of a string at a byte, \<open>split("\\r\\n")\<close>, \<open>split_once(':')\<close> and the trimming.\<close>

fun split_byte :: "u8 \<Rightarrow> bytes \<Rightarrow> bytes list" where
  "split_byte c [] = [[]]"
| "split_byte c (b # r) =
     (if b = c then [] # split_byte c r
      else case split_byte c r of h # t \<Rightarrow> (b # h) # t | [] \<Rightarrow> [[b]])"

fun split_crlf :: "bytes \<Rightarrow> bytes list" where
  "split_crlf [] = [[]]"
| "split_crlf [b] = [[b]]"
| "split_crlf (b # c # r) =
     (if b = 13 \<and> c = 10 then [] # split_crlf r
      else case split_crlf (c # r) of h # t \<Rightarrow> (b # h) # t | [] \<Rightarrow> [[b]])"

fun split_once :: "u8 \<Rightarrow> bytes \<Rightarrow> (bytes \<times> bytes) option" where
  "split_once c [] = None"
| "split_once c (b # r) =
     (if b = c then Some ([], r) else map_option (\<lambda>(h, t). (b # h, t)) (split_once c r))"

definition is_blank :: "u8 \<Rightarrow> bool" where "is_blank b \<longleftrightarrow> b = 32 \<or> b = 9"

definition trim_blank :: "bytes \<Rightarrow> bytes" where
  "trim_blank b = rev (dropWhile is_blank (rev (dropWhile is_blank b)))"

definition to_lower :: "u8 \<Rightarrow> u8" where
  "to_lower b = (if 0x41 \<le> b \<and> b \<le> 0x5A then b + 32 else b)"

definition eq_ignore_case :: "bytes \<Rightarrow> bytes \<Rightarrow> bool" where
  "eq_ignore_case a b \<longleftrightarrow> map to_lower a = map to_lower b"

definition has_token :: "bytes \<Rightarrow> bytes \<Rightarrow> bool" where
  "has_token v token = list_ex (\<lambda>t. eq_ignore_case (trim_blank t) token) (split_byte 44 v)"

definition accept_key :: "bytes \<Rightarrow> bytes" where
  "accept_key key = base64_encode (sha1_digest (key @ ACCEPT_GUID))"

definition strip_head :: "bytes \<Rightarrow> bytes option" where
  "strip_head head = (if head_ends head then Some (take (length head - 4) head) else None)"

text \<open>The request line: the target of a \<open>GET\<close> of HTTP/1.1.\<close>

definition request_target :: "bytes \<Rightarrow> reject + bytes" where
  "request_target line =
     (case split_byte 32 line of
        [meth, target, version] \<Rightarrow>
          if meth \<noteq> ascii ''GET'' \<or> target = [] \<or> version \<noteq> ascii ''HTTP/1.1''
          then Inl RejectBadRequest else Inr target
      | _ \<Rightarrow> Inl RejectBadRequest)"

fun parse_headers :: "bytes list \<Rightarrow> reject + (bytes \<times> bytes) list" where
  "parse_headers [] = Inr []"
| "parse_headers (line # lines) =
     (if line \<noteq> [] \<and> is_blank (hd line) then Inl RejectBadRequest
      else rbind (ok_or RejectBadRequest (split_once 58 line)) (\<lambda>(name, v).
           rbind (parse_headers lines) (\<lambda>hs. Inr ((name, trim_blank v) # hs))))"

definition PROTOCOLS :: "(bytes \<times> u32 \<times> role) list" where
  "PROTOCOLS = [(SUBPROTOCOL_V3, 3, Consuming), (SUBPROTOCOL, 2, Consuming),
     (SUBPROTOCOL_V1, FRAME_VERSION_V1, Consuming), (SUBPROTOCOL_PROVIDER, 2, Providing)]"

record scan_state =
  s_host :: bool
  s_upgrade :: bool
  s_connection :: bool
  s_selected :: "(bytes \<times> u32) option"
  s_key :: "bytes option"
  s_origin :: "bytes option"

definition scan_start :: scan_state where
  "scan_start = \<lparr>s_host = False, s_upgrade = False, s_connection = False, s_selected = None,
     s_key = None, s_origin = None\<rparr>"

definition select_protocol ::
    "role \<Rightarrow> u32 \<Rightarrow> bytes \<Rightarrow> bytes \<times> u32 \<times> role \<Rightarrow> (bytes \<times> u32) option \<Rightarrow> (bytes \<times> u32) option" where
  "select_protocol role max_version offer p selected =
     (let (name, version, client_role) = p in
      if offer = name \<and> client_role = role \<and> version \<le> max_version \<and>
         (case selected of None \<Rightarrow> True | Some (_, previous) \<Rightarrow> version > previous)
      then Some (name, version) else selected)"

definition select_offer ::
    "role \<Rightarrow> u32 \<Rightarrow> bytes \<Rightarrow> (bytes \<times> u32) option \<Rightarrow> (bytes \<times> u32) option" where
  "select_offer role max_version offer selected =
     fold (select_protocol role max_version offer) PROTOCOLS selected"

definition offers_of :: "bytes \<Rightarrow> bytes list" where
  "offers_of v = map trim_blank (split_byte 44 v)"

definition scan_header :: "role \<Rightarrow> u32 \<Rightarrow> scan_state \<Rightarrow> bytes \<times> bytes \<Rightarrow> reject + scan_state" where
  "scan_header role max_version s h =
     (let (name, v) = h in
      if eq_ignore_case name (ascii ''Host'') then Inr (s\<lparr>s_host := True\<rparr>)
      else if eq_ignore_case name (ascii ''Upgrade'') then
        Inr (s\<lparr>s_upgrade := s_upgrade s \<or> has_token v (ascii ''websocket'')\<rparr>)
      else if eq_ignore_case name (ascii ''Connection'') then
        Inr (s\<lparr>s_connection := s_connection s \<or> has_token v (ascii ''upgrade'')\<rparr>)
      else if eq_ignore_case name (ascii ''Sec-WebSocket-Protocol'') then
        Inr (s\<lparr>s_selected := fold (select_offer role max_version) (offers_of v) (s_selected s)\<rparr>)
      else if eq_ignore_case name (ascii ''Sec-WebSocket-Key'') then
        (if s_key s \<noteq> None \<or>
            \<not> (case base64_decode v of Some k \<Rightarrow> length k = 16 | None \<Rightarrow> False)
         then Inl RejectBadRequest else Inr (s\<lparr>s_key := Some v\<rparr>))
      else if eq_ignore_case name (ascii ''Origin'') then
        (if s_origin s \<noteq> None then Inl RejectBadRequest else Inr (s\<lparr>s_origin := Some v\<rparr>))
      else Inr s)"

fun scan_headers :: "role \<Rightarrow> u32 \<Rightarrow> scan_state \<Rightarrow> (bytes \<times> bytes) list \<Rightarrow> reject + scan_state" where
  "scan_headers role max_version s [] = Inr s"
| "scan_headers role max_version s (h # hs) =
     rbind (scan_header role max_version s h) (\<lambda>s. scan_headers role max_version s hs)"

definition version_13 :: "(bytes \<times> bytes) list \<Rightarrow> bool" where
  "version_13 headers =
     list_ex (\<lambda>(name, v). eq_ignore_case name (ascii ''Sec-WebSocket-Version'') \<and> v = ascii ''13'') headers"

definition finish_request :: "bytes \<Rightarrow> scan_state \<Rightarrow> reject + upgrade_req" where
  "finish_request target s =
     (if \<not> (s_host s \<and> s_upgrade s \<and> s_connection s) then Inl RejectBadRequest
      else rbind (ok_or RejectBadRequest (s_selected s)) (\<lambda>(subprotocol, frame_version).
           rbind (ok_or RejectBadRequest (s_key s)) (\<lambda>key.
           Inr \<lparr>u_key = key, u_target = target, u_origin = s_origin s,
                u_subprotocol = subprotocol, u_frame_version = frame_version\<rparr>)))"

definition upgrade_request :: "bytes \<Rightarrow> role \<Rightarrow> u32 \<Rightarrow> reject + upgrade_req" where
  "upgrade_request head role max_version =
     (if \<not> utf8_valid head then Inl RejectBadRequest
      else rbind (ok_or RejectBadRequest (strip_head head)) (\<lambda>body.
        (case split_crlf body of
           [] \<Rightarrow> Inl RejectBadRequest
         | line # lines \<Rightarrow>
             rbind (request_target line) (\<lambda>target.
             rbind (parse_headers lines) (\<lambda>headers.
             if \<not> version_13 headers then Inl RejectVersion
             else rbind (scan_headers role max_version scan_start headers) (finish_request target))))))"

definition response_101 :: "upgrade_req \<Rightarrow> bytes" where
  "response_101 r =
     ascii ''HTTP/1.1 101 Switching Protocols'' @ CRLF @ ascii ''Upgrade: websocket'' @ CRLF @
     ascii ''Connection: Upgrade'' @ CRLF @ ascii ''Sec-WebSocket-Accept: '' @ accept_key (u_key r) @ CRLF @
     ascii ''Sec-WebSocket-Protocol: '' @ u_subprotocol r @ CRLF @ CRLF"

fun refusal_response :: "http_refusal \<Rightarrow> bytes" where
  "refusal_response NotFound = http_response ''404 Not Found''"
| "refusal_response Conflict = http_response ''409 Conflict''"
| "refusal_response RefusedCapacity = BAD_REQUEST"
| "refusal_response Config = BAD_REQUEST"

text \<open>The answer to a head that was read, with the bytes written.\<close>

definition handshake_answer ::
    "role \<Rightarrow> u32 \<Rightarrow> (bytes option \<Rightarrow> bool) \<Rightarrow> (bytes \<Rightarrow> http_refusal option) \<Rightarrow> bytes option \<Rightarrow> upgrade \<times> bytes" where
  "handshake_answer role max_version accept_origin select head =
     (case head of
        None \<Rightarrow> (Rejected, BAD_REQUEST)
      | Some h \<Rightarrow>
          (case upgrade_request h role max_version of
             Inl RejectBadRequest \<Rightarrow> (Rejected, BAD_REQUEST)
           | Inl RejectVersion \<Rightarrow> (Rejected, BAD_VERSION)
           | Inr r \<Rightarrow>
               if \<not> accept_origin (u_origin r) then (Forbidden, FORBIDDEN)
               else case select (u_target r) of
                   Some reason \<Rightarrow> (Rejected, refusal_response reason)
                 | None \<Rightarrow> (Accepted (u_frame_version r), response_101 r)))"

definition handshake_selected ::
    "read_result list \<Rightarrow> role \<Rightarrow> u32 \<Rightarrow> (bytes option \<Rightarrow> bool) \<Rightarrow> (bytes \<Rightarrow> http_refusal option) \<Rightarrow>
     (io_error + upgrade \<times> bytes) \<times> read_result list" where
  "handshake_selected stream role max_version accept_origin select =
     (case read_head stream [] of
        (Inl e, s) \<Rightarrow> (Inl e, s)
      | (Inr head, s) \<Rightarrow> (Inr (handshake_answer role max_version accept_origin select head), s))"

definition handshake ::
    "read_result list \<Rightarrow> u32 \<Rightarrow> (bytes option \<Rightarrow> bool) \<Rightarrow> (io_error + upgrade \<times> bytes) \<times> read_result list" where
  "handshake stream max_version accept_origin =
     handshake_selected stream Consuming max_version accept_origin (\<lambda>_. None)"

section \<open>Reading the head\<close>

definition read_bytes :: "read_result list \<Rightarrow> bytes" where
  "read_bytes rs = List.map_filter (\<lambda>r. case r of RByte b \<Rightarrow> Some b | _ \<Rightarrow> None) rs"

lemma read_bytes_simps [simp]:
  "read_bytes [] = []" "read_bytes (RByte b # rs) = b # read_bytes rs"
  "read_bytes (RInterrupted # rs) = read_bytes rs" "read_bytes (RError # rs) = read_bytes rs"
  by (simp_all add: read_bytes_def List.map_filter_def)

lemma read_head_taken:
  "read_head stream head = (Inr (Some h), s) \<Longrightarrow> length head \<le> MAX_HEAD_BYTES \<Longrightarrow>
     \<exists>taken. stream = taken @ s \<and> h = head @ read_bytes taken \<and> RError \<notin> set taken \<and> head_ends h \<and>
       length h \<le> MAX_HEAD_BYTES \<and> (\<forall>k. length head \<le> k \<and> k < length h \<longrightarrow> \<not> head_ends (take k h))"
proof (induction stream head rule: read_head.induct)
  case (1 stream head)
  show ?case
  proof (cases "head_ends head \<or> length head = MAX_HEAD_BYTES")
    case True
    then have "h = head" "s = stream" "head_ends head"
      using 1(3) by (auto simp: read_head.simps [of stream head] split: if_splits)
    then show ?thesis using 1(4) by (intro exI [of _ "[]"]) simp
  next
    case False
    then obtain r st where st: "stream = r # st"
      using 1(3) by (cases stream) (auto simp: read_head.simps [of "[]"])
    show ?thesis
    proof (cases r)
      case (RByte b)
      have "read_head st (head @ [b]) = (Inr (Some h), s)" "length (head @ [b]) \<le> MAX_HEAD_BYTES"
        using 1(3,4) False st RByte by (simp_all add: read_head.simps [of "_ # _" head])
      from 1(1) [OF _ _ st RByte this] False obtain taken where t: "st = taken @ s"
        "h = (head @ [b]) @ read_bytes taken" "RError \<notin> set taken" "head_ends h" "length h \<le> MAX_HEAD_BYTES"
        "\<forall>k. length (head @ [b]) \<le> k \<and> k < length h \<longrightarrow> \<not> head_ends (take k h)" by blast
      have "\<not> head_ends (take (length head) h)" using t(2) False by simp
      then have "\<forall>k. length head \<le> k \<and> k < length h \<longrightarrow> \<not> head_ends (take k h)"
        using t(6) by (metis Suc_leI le_neq_implies_less length_append_singleton)
      then show ?thesis using t st RByte by (intro exI [of _ "RByte b # taken"]) simp
    next
      case RInterrupted
      have "read_head st head = (Inr (Some h), s)"
        using 1(3) False st RInterrupted by (simp add: read_head.simps [of "_ # _" head])
      from 1(2) [OF _ _ st RInterrupted this 1(4)] False obtain taken where "st = taken @ s"
        "h = head @ read_bytes taken" "RError \<notin> set taken" "head_ends h" "length h \<le> MAX_HEAD_BYTES"
        "\<forall>k. length head \<le> k \<and> k < length h \<longrightarrow> \<not> head_ends (take k h)" by blast
      then show ?thesis using st RInterrupted by (intro exI [of _ "RInterrupted # taken"]) simp
    next
      case RError
      then show ?thesis using 1(3) False st by (simp add: read_head.simps [of "_ # _" head])
    qed
  qed
qed

section \<open>The subprotocol\<close>

text \<open>The names of the role that are offered, with a version the server speaks.\<close>

definition candidates :: "role \<Rightarrow> u32 \<Rightarrow> bytes set \<Rightarrow> (bytes \<times> u32) set" where
  "candidates role mx offers = {(n, v). (n, v, role) \<in> set PROTOCOLS \<and> v \<le> mx \<and> n \<in> offers}"

definition newest :: "(bytes \<times> u32) set \<Rightarrow> (bytes \<times> u32) option \<Rightarrow> bool" where
  "newest c sel \<longleftrightarrow>
     (case sel of None \<Rightarrow> c = {} | Some (n, v) \<Rightarrow> (n, v) \<in> c \<and> (\<forall>(n', v') \<in> c. v' \<le> v))"

lemma newest_protocol:
  assumes "newest c sel"
  shows "newest (c \<union> {(n, v). p = (n, v, role) \<and> n = offer \<and> v \<le> mx}) (select_protocol role mx offer p sel)"
proof -
  obtain n v r where p: "p = (n, v, r)" by (cases p)
  show ?thesis
  proof (cases "offer = n \<and> r = role \<and> v \<le> mx")
    case True
    then have s: "{(n', v'). p = (n', v', role) \<and> n' = offer \<and> v' \<le> mx} = {(n, v)}" by (auto simp: p)
    show ?thesis unfolding s
      using assms True
      by (cases sel) (fastforce simp: newest_def select_protocol_def p Let_def split: if_splits)+
  next
    case False
    then have s: "{(n', v'). p = (n', v', role) \<and> n' = offer \<and> v' \<le> mx} = {}" by (auto simp: p)
    have "select_protocol role mx offer p sel = sel" using False by (auto simp: select_protocol_def p)
    then show ?thesis unfolding s using assms by simp
  qed
qed

lemma newest_fold:
  "newest c sel \<Longrightarrow>
     newest (c \<union> {(n, v). (n, v, role) \<in> set ps \<and> n = offer \<and> v \<le> mx}) (fold (select_protocol role mx offer) ps sel)"
proof (induction ps arbitrary: c sel)
  case (Cons p ps)
  have "{(n, v). (n, v, role) \<in> set (p # ps) \<and> n = offer \<and> v \<le> mx} =
      {(n, v). p = (n, v, role) \<and> n = offer \<and> v \<le> mx} \<union> {(n, v). (n, v, role) \<in> set ps \<and> n = offer \<and> v \<le> mx}"
    by auto
  then show ?case using Cons.IH [OF newest_protocol [OF Cons.prems]] by (simp add: Un_assoc)
qed simp

lemma newest_offer:
  assumes "newest (candidates role mx offers) sel"
  shows "newest (candidates role mx (insert offer offers)) (select_offer role mx offer sel)"
proof -
  have "candidates role mx (insert offer offers) =
      candidates role mx offers \<union> {(n, v). (n, v, role) \<in> set PROTOCOLS \<and> n = offer \<and> v \<le> mx}"
    by (auto simp: candidates_def)
  then show ?thesis using newest_fold [OF assms] by (simp add: select_offer_def)
qed

lemma newest_offers:
  "newest (candidates role mx offers) sel \<Longrightarrow>
     newest (candidates role mx (offers \<union> set os)) (fold (select_offer role mx) os sel)"
proof (induction os arbitrary: offers sel)
  case (Cons x os)
  then show ?case using Cons.IH [OF newest_offer [OF Cons.prems]] by simp
qed simp

definition protocol_offers :: "(bytes \<times> bytes) list \<Rightarrow> bytes set" where
  "protocol_offers headers =
     (\<Union>(name, v) \<in> set headers.
        if eq_ignore_case name (ascii ''Sec-WebSocket-Protocol'') then set (offers_of v) else {})"

lemma eq_ignore_case_length: "eq_ignore_case a b \<Longrightarrow> length a = length b"
  unfolding eq_ignore_case_def by (metis length_map)

definition key_ok :: "bytes option \<Rightarrow> bool" where
  "key_ok key \<longleftrightarrow> (\<forall>v. key = Some v \<longrightarrow> (\<exists>k. base64_decode v = Some k \<and> length k = 16))"

lemma scan_header_inv:
  assumes "scan_header role mx s h = Inr s'" "newest (candidates role mx offers) (s_selected s)" "key_ok (s_key s)"
  shows "newest (candidates role mx (offers \<union> protocol_offers [h])) (s_selected s') \<and> key_ok (s_key s')"
proof -
  obtain name v where h: "h = (name, v)" by fastforce
  show ?thesis
  proof (cases "eq_ignore_case name (ascii ''Sec-WebSocket-Protocol'')")
    case True
    then have "length name = 22" using eq_ignore_case_length by fastforce
    then have "\<not> eq_ignore_case name (ascii ''Host'')" "\<not> eq_ignore_case name (ascii ''Upgrade'')"
      "\<not> eq_ignore_case name (ascii ''Connection'')"
      using eq_ignore_case_length [of name] by fastforce+
    with True assms newest_offers [OF assms(2), of "offers_of v"] show ?thesis
      by (auto simp: scan_header_def h protocol_offers_def)
  next
    case False
    then have "protocol_offers [h] = {}" by (simp add: protocol_offers_def h)
    with False assms show ?thesis
      by (auto simp: scan_header_def h key_ok_def split: if_splits option.splits)
  qed
qed

lemma scan_headers_inv:
  "scan_headers role mx s hs = Inr s' \<Longrightarrow> newest (candidates role mx offers) (s_selected s) \<Longrightarrow> key_ok (s_key s) \<Longrightarrow>
     newest (candidates role mx (offers \<union> protocol_offers hs)) (s_selected s') \<and> key_ok (s_key s')"
proof (induction hs arbitrary: s offers)
  case (Cons h hs)
  then obtain s1 where s1: "scan_header role mx s h = Inr s1" "scan_headers role mx s1 hs = Inr s'"
    by (auto simp: result_iff)
  have "offers \<union> protocol_offers (h # hs) = (offers \<union> protocol_offers [h]) \<union> protocol_offers hs"
    by (auto simp: protocol_offers_def)
  moreover note inv = scan_header_inv [OF s1(1) Cons.prems(2,3)]
  ultimately show ?case using Cons.IH [OF s1(2) inv [THEN conjunct1] inv [THEN conjunct2]] by simp
qed (simp add: protocol_offers_def)

text \<open>The headers of a head that is a request at all.\<close>

definition request_headers :: "bytes \<Rightarrow> (bytes \<times> bytes) list option" where
  "request_headers head =
     (case strip_head head of
        None \<Rightarrow> None
      | Some body \<Rightarrow>
          (case split_crlf body of
             [] \<Rightarrow> None
           | line # lines \<Rightarrow> (case parse_headers lines of Inl _ \<Rightarrow> None | Inr hs \<Rightarrow> Some hs)))"

lemma upgrade_request_inv:
  assumes "upgrade_request head role mx = Inr r"
  shows "\<exists>hs. request_headers head = Some hs \<and> version_13 hs \<and>
    newest (candidates role mx (protocol_offers hs)) (Some (u_subprotocol r, u_frame_version r)) \<and>
    key_ok (Some (u_key r))"
proof -
  from assms obtain body where b: "strip_head head = Some body"
    by (auto simp: upgrade_request_def result_iff split: if_splits)
  show ?thesis
  proof (cases "split_crlf body")
    case Nil
    then show ?thesis using assms b by (simp add: upgrade_request_def split: if_splits)
  next
    case (Cons line lines)
    from assms b Cons obtain target hs s where
      h: "parse_headers lines = Inr hs" "version_13 hs" "scan_headers role mx scan_start hs = Inr s"
        "finish_request target s = Inr r"
      by (auto simp: upgrade_request_def result_iff split: if_splits)
    have "newest (candidates role mx (protocol_offers hs)) (s_selected s) \<and> key_ok (s_key s)"
      using scan_headers_inv [OF h(3), of "{}"] by (simp add: scan_start_def newest_def candidates_def key_ok_def)
    moreover have "s_selected s = Some (u_subprotocol r, u_frame_version r)" "s_key s = Some (u_key r)"
      using h(4) by (auto simp: finish_request_def result_iff split: if_splits)
    ultimately show ?thesis using b Cons h by (simp add: request_headers_def)
  qed
qed

section \<open>What a request says\<close>

text \<open>
  The values of the headers of a name, in order, and a header's line: the name up to the first
  colon, and the value after it without the blanks around it.
\<close>

definition header_values :: "(bytes \<times> bytes) list \<Rightarrow> string \<Rightarrow> bytes list" where
  "header_values hs w = map snd (filter (\<lambda>(name, _). eq_ignore_case name (ascii w)) hs)"

definition header_line :: "bytes \<Rightarrow> bytes \<times> bytes \<Rightarrow> bool" where
  "header_line l h \<longleftrightarrow> (\<exists>raw. l = fst h @ 58 # raw \<and> 58 \<notin> set (fst h) \<and> snd h = trim_blank raw)"

definition opt_values :: "bytes option \<Rightarrow> bytes list" where
  "opt_values x = (case x of None \<Rightarrow> [] | Some v \<Rightarrow> [v])"

lemma header_values_simps [simp]:
  "header_values [] w = []"
  "header_values ((name, v) # hs) w = (if eq_ignore_case name (ascii w) then [v] else []) @ header_values hs w"
  by (simp_all add: header_values_def)

text \<open>One header of the scan: it adds to what was seen of its own name and of no other.\<close>

definition scan_sees :: "scan_state \<Rightarrow> (bytes \<times> bytes) list \<Rightarrow> scan_state \<Rightarrow> bool" where
  "scan_sees s hs s' \<longleftrightarrow>
     opt_values (s_origin s') = opt_values (s_origin s) @ header_values hs ''Origin'' \<and>
     opt_values (s_key s') = opt_values (s_key s) @ header_values hs ''Sec-WebSocket-Key'' \<and>
     (s_host s' \<longleftrightarrow> s_host s \<or> header_values hs ''Host'' \<noteq> []) \<and>
     (s_upgrade s' \<longleftrightarrow> s_upgrade s \<or> (\<exists>v \<in> set (header_values hs ''Upgrade''). has_token v (ascii ''websocket''))) \<and>
     (s_connection s' \<longleftrightarrow> s_connection s \<or> (\<exists>v \<in> set (header_values hs ''Connection''). has_token v (ascii ''upgrade'')))"

lemma header_values_Cons: "header_values (h # hs) w = header_values [h] w @ header_values hs w"
  by (cases h) simp

lemma scan_sees_trans: "scan_sees s [h] s1 \<Longrightarrow> scan_sees s1 hs s2 \<Longrightarrow> scan_sees s (h # hs) s2"
  unfolding scan_sees_def header_values_Cons [of h hs] by (simp add: bex_Un disj_assoc)

lemma header_name_len: "eq_ignore_case name (ascii w) \<Longrightarrow> length name = length w"
  using eq_ignore_case_length by fastforce

lemma scan_header_sees:
  assumes "scan_header role mx s h = Inr s'"
  shows "scan_sees s [h] s'"
proof -
  obtain name v where h: "h = (name, v)" by fastforce
  have other: "\<not> eq_ignore_case name (ascii w)" if "length name \<noteq> length w" for w
    using header_name_len that by blast
  note defs = scan_header_def scan_sees_def opt_values_def h
  consider (host) "eq_ignore_case name (ascii ''Host'')" | (upgrade) "eq_ignore_case name (ascii ''Upgrade'')"
    | (connection) "eq_ignore_case name (ascii ''Connection'')" | (key) "eq_ignore_case name (ascii ''Sec-WebSocket-Key'')"
    | (origin) "eq_ignore_case name (ascii ''Origin'')"
    | (none) "\<not> eq_ignore_case name (ascii ''Host'')" "\<not> eq_ignore_case name (ascii ''Upgrade'')"
        "\<not> eq_ignore_case name (ascii ''Connection'')" "\<not> eq_ignore_case name (ascii ''Sec-WebSocket-Key'')"
        "\<not> eq_ignore_case name (ascii ''Origin'')" by blast
  then show ?thesis
  proof cases
    case host
    then show ?thesis using assms header_name_len [OF host] by (auto simp: defs other)
  next
    case upgrade
    then show ?thesis using assms header_name_len [OF upgrade] by (auto simp: defs other)
  next
    case connection
    then show ?thesis using assms header_name_len [OF connection] by (auto simp: defs other)
  next
    case key
    then show ?thesis using assms header_name_len [OF key] by (auto simp: defs other split: if_splits option.splits)
  next
    case origin
    then show ?thesis using assms header_name_len [OF origin] by (auto simp: defs other split: if_splits option.splits)
  next
    case none
    then show ?thesis using assms by (auto simp: defs split: if_splits)
  qed
qed

lemma scan_headers_sees: "scan_headers role mx s hs = Inr s' \<Longrightarrow> scan_sees s hs s'"
proof (induction hs arbitrary: s)
  case Nil
  then show ?case by (simp add: scan_sees_def)
next
  case (Cons h hs)
  then obtain s1 where "scan_header role mx s h = Inr s1" "scan_headers role mx s1 hs = Inr s'"
    by (auto simp: result_iff)
  then show ?case using Cons.IH scan_header_sees scan_sees_trans by blast
qed

text \<open>The lines and the words of the head are the bytes between the separators.\<close>

lemma split_crlf_nonempty: "split_crlf b \<noteq> []"
  by (induction b rule: split_crlf.induct) (simp_all split: list.split)

lemma split_byte_nonempty: "split_byte c b \<noteq> []"
  by (induction b) (simp_all split: list.split)

lemma split_crlf_join: "split_crlf b = l # ls \<Longrightarrow> b = l @ concat (map (\<lambda>x. CRLF @ x) ls)"
proof (induction b arbitrary: l ls rule: split_crlf.induct)
  case (3 b c r)
  show ?case
  proof (cases "b = 13 \<and> c = 10")
    case True
    obtain l' ls' where r: "split_crlf r = l' # ls'" using split_crlf_nonempty [of r] by (cases "split_crlf r") auto
    then have "l = []" "ls = l' # ls'" using 3(3) True by simp_all
    then show ?thesis using 3(1) [OF True r] True by (simp add: CRLF_def)
  next
    case False
    obtain l' ls' where r: "split_crlf (c # r) = l' # ls'"
      using split_crlf_nonempty [of "c # r"] by (cases "split_crlf (c # r)") auto
    then have "l = b # l'" "ls = ls'" using 3(3) False by auto
    then show ?thesis using 3(2) [OF False r] by simp
  qed
qed auto

lemma split_byte_join:
  "split_byte c b = l # ls \<Longrightarrow> b = l @ concat (map (\<lambda>x. c # x) ls) \<and> (\<forall>x \<in> set (l # ls). c \<notin> set x)"
proof (induction b arbitrary: l ls)
  case (Cons x r)
  obtain l' ls' where r: "split_byte c r = l' # ls'" using split_byte_nonempty [of c r] by (cases "split_byte c r") auto
  show ?case
  proof (cases "x = c")
    case True
    then have "l = []" "ls = l' # ls'" using Cons.prems r by simp_all
    then show ?thesis using Cons.IH [OF r] True by auto
  next
    case False
    then have "l = x # l'" "ls = ls'" using Cons.prems r by simp_all
    then show ?thesis using Cons.IH [OF r] False by auto
  qed
qed auto

lemma split_once_join: "split_once c b = Some (n, v) \<Longrightarrow> b = n @ c # v \<and> c \<notin> set n"
  by (induction b arbitrary: n v) (auto split: if_splits)

lemma parse_headers_lines: "parse_headers lines = Inr hs \<Longrightarrow> list_all2 header_line lines hs"
proof (induction lines arbitrary: hs)
  case (Cons line lines)
  then show ?case
    by (auto simp: result_iff header_line_def dest!: split_once_join split: if_splits)
qed simp

lemma request_target_line:
  assumes "request_target line = Inr t"
  shows "line = ascii ''GET '' @ t @ ascii '' HTTP/1.1'' \<and> t \<noteq> [] \<and> 32 \<notin> set t"
proof -
  obtain l ls where sp: "split_byte 32 line = l # ls" using assms by (cases "split_byte 32 line") (auto simp: request_target_def)
  with assms have ls: "l = ascii ''GET''" "ls = [t, ascii ''HTTP/1.1'']" "t \<noteq> []"
    by (auto simp: request_target_def split: list.splits if_splits)
  show ?thesis using split_byte_join [OF sp] ls(3) unfolding ls(1,2) by (simp add: ascii_def of_char_def)
qed

lemma request_said:
  assumes "upgrade_request head role mx = Inr r" "request_headers head = Some hs"
  obtains lines where "head = ascii ''GET '' @ u_target r @ ascii '' HTTP/1.1'' @ CRLF @ concat (map (\<lambda>l. l @ CRLF) lines) @ CRLF"
    "u_target r \<noteq> []" "32 \<notin> set (u_target r)" "list_all2 header_line lines hs"
    "header_values hs ''Origin'' = opt_values (u_origin r)" "header_values hs ''Sec-WebSocket-Key'' = [u_key r]"
    "header_values hs ''Host'' \<noteq> []"
    "\<exists>v \<in> set (header_values hs ''Upgrade''). has_token v (ascii ''websocket'')"
    "\<exists>v \<in> set (header_values hs ''Connection''). has_token v (ascii ''upgrade'')"
proof -
  obtain body where b: "strip_head head = Some body" using assms(2) by (auto simp: request_headers_def split: option.splits)
  then obtain line lines where sp: "split_crlf body = line # lines" and hs: "parse_headers lines = Inr hs"
    using assms(2) by (auto simp: request_headers_def split: list.splits sum.splits)
  obtain s where s: "request_target line = Inr (u_target r)" "scan_headers role mx scan_start hs = Inr s"
      "s_host s \<and> s_upgrade s \<and> s_connection s" "s_key s = Some (u_key r)" "s_origin s = u_origin r"
    using assms(1) b sp hs by (auto simp: upgrade_request_def finish_request_def result_iff split: if_splits)
  have "head = body @ CRLF @ CRLF"
    using b by (auto simp: strip_head_def head_ends_def split: if_splits) (metis append_take_drop_id)
  moreover have "(line @ concat (map (\<lambda>x. CRLF @ x) ls)) @ CRLF = line @ CRLF @ concat (map (\<lambda>l. l @ CRLF) ls)" for ls
    by (induction ls arbitrary: line) simp_all
  ultimately have head: "head = line @ CRLF @ concat (map (\<lambda>l. l @ CRLF) lines) @ CRLF"
    using split_crlf_join [OF sp] by simp
  note seen = scan_headers_sees [OF s(2), unfolded scan_sees_def] and line = request_target_line [OF s(1)]
  show thesis
    by (rule that [of lines]) (use head line seen s parse_headers_lines [OF hs] in \<open>simp_all add: scan_start_def opt_values_def\<close>)
qed

text \<open>A request that offers two subprotocols, the older first.\<close>

definition head_lines :: "string list \<Rightarrow> bytes" where
  "head_lines ls = concat (map (\<lambda>l. ascii l @ CRLF) ls) @ CRLF"

definition sample_lines :: "string list" where
  "sample_lines = [''Host: h'', ''Upgrade: websocket'', ''Connection: Upgrade'', ''Sec-WebSocket-Version: 13'',
     ''origin: http://a'', ''Sec-WebSocket-Key: AAAAAAAAAAAAAAAAAAAAAA=='', ''Sec-WebSocket-Protocol: ridl-ws-v1, ridl-ws-v2'']"

definition sample_head :: bytes where
  "sample_head = head_lines (''GET /x HTTP/1.1'' # sample_lines)"

definition sample_headers :: "(bytes \<times> bytes) list" where
  "sample_headers = [(ascii ''Host'', ascii ''h''), (ascii ''Upgrade'', ascii ''websocket''),
     (ascii ''Connection'', ascii ''Upgrade''), (ascii ''Sec-WebSocket-Version'', ascii ''13''),
     (ascii ''origin'', ascii ''http://a''),
     (ascii ''Sec-WebSocket-Key'', ascii ''AAAAAAAAAAAAAAAAAAAAAA==''),
     (ascii ''Sec-WebSocket-Protocol'', ascii ''ridl-ws-v1, ridl-ws-v2'')]"

definition sample_req :: upgrade_req where
  "sample_req = \<lparr>u_key = ascii ''AAAAAAAAAAAAAAAAAAAAAA=='', u_target = ascii ''/x'', u_origin = Some (ascii ''http://a''),
     u_subprotocol = SUBPROTOCOL, u_frame_version = 2\<rparr>"

lemma sample_utf8: "utf8_valid sample_head"
  by code_simp

lemma sample_split:
  "map_option split_crlf (strip_head sample_head) = Some (ascii ''GET /x HTTP/1.1'' # map ascii sample_lines)"
  by code_simp

lemma sample_parsed:
  "request_target (ascii ''GET /x HTTP/1.1'') = Inr (ascii ''/x'')"
  "parse_headers (map ascii sample_lines) = Inr sample_headers"
  by code_simp+

lemma sample_scanned:
  "version_13 sample_headers"
  "rbind (scan_headers Consuming 3 scan_start sample_headers) (finish_request (ascii ''/x'')) = Inr sample_req"
  by code_simp+

lemma sample_request: "upgrade_request sample_head Consuming 3 = Inr sample_req"
  using sample_utf8 sample_split sample_parsed sample_scanned
  by (auto simp: upgrade_request_def)

section \<open>Properties\<close>

text \<open>
  the head takes exactly its bytes. When \<open>read_head\<close> returns a head, the reads it consumed
  gave the bytes of the head and no other, the head is the shortest one that ends in an empty
  line, and it is within the limit; a byte after it is left in the stream.
\<close>

lemma read_head_exact:
  assumes "read_head stream [] = (Inr (Some h), s)"
  shows "\<exists>taken. stream = taken @ s \<and> h = read_bytes taken \<and> RError \<notin> set taken \<and> head_ends h \<and>
    length h \<le> MAX_HEAD_BYTES \<and> (\<forall>k < length h. \<not> head_ends (take k h))"
  using read_head_taken [OF assms] by auto

text \<open>
  C39: the newest subprotocol is selected. The one an accepted request is answered with is a
  name of the entry point's role that the request offers, its version is at most the server's,
  and no offered name of the role up to that version is newer, whatever the order of the offers.
\<close>

theorem upgrade_selects_newest:
  assumes "upgrade_request head role mx = Inr r"
  shows "\<exists>hs. request_headers head = Some hs \<and>
    (u_subprotocol r, u_frame_version r) \<in> candidates role mx (protocol_offers hs) \<and>
    (\<forall>n v. (n, v) \<in> candidates role mx (protocol_offers hs) \<longrightarrow> v \<le> u_frame_version r)"
proof -
  from upgrade_request_inv [OF assms] obtain hs where "request_headers head = Some hs"
    "newest (candidates role mx (protocol_offers hs)) (Some (u_subprotocol r, u_frame_version r))" by blast
  then show ?thesis unfolding newest_def by (intro exI [of _ hs]) auto
qed

theorem upgrade_selects_newest_witness:
  "\<exists>hs. request_headers sample_head = Some hs \<and>
     (\<forall>n v. (n, v) \<in> candidates Consuming 3 (protocol_offers hs) \<longrightarrow> v \<le> 2)"
  using upgrade_selects_newest [OF sample_request] by (auto simp: sample_req_def)

text \<open>
  C40: no upgrade without its checks, and each check is of what the request itself says. The server
  answers \<open>101\<close> only to a head that is a \<open>GET\<close> of HTTP/1.1 and header lines, with a \<open>Host\<close>, the
  \<open>websocket\<close> and \<open>upgrade\<close> tokens and version 13. The origin the caller was asked about is the value
  of the one \<open>Origin\<close> header, or none when there is no such header; the target it selected is the one of
  the request line; the key answered is the value of the one \<open>Sec-WebSocket-Key\<close> header and decodes to
  16 bytes; and the version is no higher than the one the caller allows.
\<close>

theorem upgrade_checked:
  assumes "handshake_answer role mx accept_origin select head = (Accepted v, resp)"
  shows "\<exists>h r hs lines. head = Some h \<and> upgrade_request h role mx = Inr r \<and> request_headers h = Some hs \<and>
    h = ascii ''GET '' @ u_target r @ ascii '' HTTP/1.1'' @ CRLF @ concat (map (\<lambda>l. l @ CRLF) lines) @ CRLF \<and>
    u_target r \<noteq> [] \<and> 32 \<notin> set (u_target r) \<and> list_all2 header_line lines hs \<and>
    header_values hs ''Host'' \<noteq> [] \<and>
    (\<exists>t \<in> set (header_values hs ''Upgrade''). has_token t (ascii ''websocket'')) \<and>
    (\<exists>t \<in> set (header_values hs ''Connection''). has_token t (ascii ''upgrade'')) \<and>
    ascii ''13'' \<in> set (header_values hs ''Sec-WebSocket-Version'') \<and>
    header_values hs ''Origin'' = (case u_origin r of None \<Rightarrow> [] | Some origin \<Rightarrow> [origin]) \<and> accept_origin (u_origin r) \<and>
    select (u_target r) = None \<and>
    header_values hs ''Sec-WebSocket-Key'' = [u_key r] \<and> (\<exists>k. base64_decode (u_key r) = Some k \<and> length k = 16) \<and>
    v = u_frame_version r \<and> v \<le> mx \<and> resp = response_101 r"
proof -
  obtain h r where h: "head = Some h" "upgrade_request h role mx = Inr r"
    "accept_origin (u_origin r)" "select (u_target r) = None" "v = u_frame_version r" "resp = response_101 r"
    using assms by (auto simp: handshake_answer_def split: sum.splits option.splits if_splits reject.splits)
  from upgrade_request_inv [OF h(2)] obtain hs where hs: "request_headers h = Some hs" "version_13 hs"
    "newest (candidates role mx (protocol_offers hs)) (Some (u_subprotocol r, u_frame_version r))"
    "key_ok (Some (u_key r))" by blast
  have ver: "ascii ''13'' \<in> set (header_values hs ''Sec-WebSocket-Version'')"
    using hs(2) by (force simp: version_13_def header_values_def list_ex_iff)
  have le: "v \<le> mx" and key: "\<exists>k. base64_decode (u_key r) = Some k \<and> length k = 16"
    using hs(3,4) h(5) by (simp_all add: newest_def candidates_def key_ok_def)
  obtain lines where
    said: "h = ascii ''GET '' @ u_target r @ ascii '' HTTP/1.1'' @ CRLF @ concat (map (\<lambda>l. l @ CRLF) lines) @ CRLF"
      "u_target r \<noteq> []" "32 \<notin> set (u_target r)" "list_all2 header_line lines hs"
      "header_values hs ''Origin'' = (case u_origin r of None \<Rightarrow> [] | Some origin \<Rightarrow> [origin])"
      "header_values hs ''Sec-WebSocket-Key'' = [u_key r]" "header_values hs ''Host'' \<noteq> []"
      "\<exists>t \<in> set (header_values hs ''Upgrade''). has_token t (ascii ''websocket'')"
      "\<exists>t \<in> set (header_values hs ''Connection''). has_token t (ascii ''upgrade'')"
    by (rule request_said [OF h(2) hs(1), unfolded opt_values_def])
  show ?thesis
    by (rule exI [of _ h], rule exI [of _ r], rule exI [of _ hs], rule exI [of _ lines], intro conjI)
      (fact h hs(1) said ver le key)+
qed

theorem upgrade_checked_witness:
  "\<exists>hs rest. request_headers sample_head = Some hs \<and> sample_head = ascii ''GET /x HTTP/1.1'' @ CRLF @ rest \<and>
     header_values hs ''Origin'' = [ascii ''http://a''] \<and>
     header_values hs ''Sec-WebSocket-Key'' = [ascii ''AAAAAAAAAAAAAAAAAAAAAA==''] \<and>
     ascii ''13'' \<in> set (header_values hs ''Sec-WebSocket-Version'')"
proof -
  have "handshake_answer Consuming 3 (\<lambda>origin. origin = Some (ascii ''http://a''))
      (\<lambda>target. if target = ascii ''/x'' then None else Some NotFound) (Some sample_head) =
      (Accepted 2, response_101 sample_req)"
    using sample_request by (simp add: handshake_answer_def sample_req_def)
  from upgrade_checked [OF this] show ?thesis
    by (auto simp: sample_request sample_req_def ascii_def of_char_def)
qed

end
