(* ===== verification/Ordered_Map.thy ===== *)
theory Ordered_Map
  imports Prelude "HOL-Library.Product_Lexorder"
begin

text \<open>
  \<open>std::collections::BTreeMap\<close> as the runtime uses it: the pairs of the map in the order of
  their keys, so that iteration (\<open>iter\<close>, \<open>values\<close>, \<open>iter_mut\<close>) is the list itself, and \<open>len\<close>
  its length. A \<open>BTreeSet\<close> and a \<open>VecDeque\<close> are lists. The laws of lookup hold for every list
  of pairs; \<open>om_wf\<close> says that the keys are strictly ascending, which is what \<open>BTreeMap\<close> keeps.

  A method that can panic returns an option, and \<open>None\<close> is the panic: a lookup by index or an
  \<open>expect\<close> is the option itself, and \<open>runs\<close> says that a computation finishes with a result
  that satisfies a predicate.
\<close>

section \<open>Computations that may panic\<close>

definition runs :: "'a option \<Rightarrow> ('a \<Rightarrow> bool) \<Rightarrow> bool" where
  "runs m P \<longleftrightarrow> (\<exists>x. m = Some x \<and> P x)"

lemma runs_simps [simp]:
  "runs None P \<longleftrightarrow> False"
  "runs (Some x) P \<longleftrightarrow> P x"
  "runs (Option.bind m f) P \<longleftrightarrow> runs m (\<lambda>x. runs (f x) P)"
  by (auto simp: runs_def Option.bind_eq_Some_conv)

lemma runs_mono: "runs m P \<Longrightarrow> (\<And>x. m = Some x \<Longrightarrow> P x \<Longrightarrow> Q x) \<Longrightarrow> runs m Q"
  by (auto simp: runs_def)

lemma runsE: "runs m P \<Longrightarrow> (\<And>x. m = Some x \<Longrightarrow> P x \<Longrightarrow> R) \<Longrightarrow> R"
  by (auto simp: runs_def)

text \<open>\<open>+= 1\<close> on a \<open>u64\<close> or a \<open>usize\<close>: the overflow is a panic, as in a checked build.\<close>

definition inc_u64 :: "u64 \<Rightarrow> u64 option" where
  "inc_u64 n = (if unat n + 1 < 2 ^ 64 then Some (n + 1) else None)"

definition inc_usize :: "nat \<Rightarrow> nat option" where
  "inc_usize n = checked_add_usize n 1"

lemma inc_u64_SomeD: "inc_u64 n = Some m \<Longrightarrow> unat m = unat n + 1"
  by (auto simp: inc_u64_def unat_word_ariths split: if_splits)

text \<open>\<open>wake.extend(option)\<close>.\<close>

definition opt_list :: "'a option \<Rightarrow> 'a list" where
  "opt_list x = (case x of None \<Rightarrow> [] | Some y \<Rightarrow> [y])"

lemma opt_list_simps [simp]: "opt_list None = []" "opt_list (Some y) = [y]"
  by (simp_all add: opt_list_def)

section \<open>Operations\<close>

type_synonym ('k, 'v) omap = "('k \<times> 'v) list"

definition om_get :: "('k, 'v) omap \<Rightarrow> 'k \<Rightarrow> 'v option" where
  "om_get m k = map_of m k"

fun om_put :: "'k::linorder \<Rightarrow> 'v \<Rightarrow> ('k, 'v) omap \<Rightarrow> ('k, 'v) omap" where
  "om_put k v [] = [(k, v)]"
| "om_put k v (p # m) =
     (if fst p < k then p # om_put k v m
      else if fst p = k then (k, v) # m
      else (k, v) # p # m)"

definition om_del :: "'k \<Rightarrow> ('k, 'v) omap \<Rightarrow> ('k, 'v) omap" where
  "om_del k m = filter (\<lambda>p. fst p \<noteq> k) m"

text \<open>\<open>for (k, v) in m.iter_mut()\<close> with a body that returns the wakers it put on the list.\<close>

definition om_visit :: "('k \<Rightarrow> 'v \<Rightarrow> 'w list \<times> 'v) \<Rightarrow> ('k, 'v) omap \<Rightarrow> 'w list \<times> ('k, 'v) omap" where
  "om_visit f m =
     (concat (map (\<lambda>p. fst (f (fst p) (snd p))) m), map (\<lambda>p. (fst p, snd (f (fst p) (snd p)))) m)"

text \<open>\<open>BTreeSet::insert\<close>.\<close>

definition set_put :: "'a \<Rightarrow> 'a list \<Rightarrow> 'a list" where
  "set_put x xs = (if x \<in> set xs then xs else x # xs)"

definition om_wf :: "('k::linorder, 'v) omap \<Rightarrow> bool" where
  "om_wf m \<longleftrightarrow> sorted_wrt (<) (map fst m)"

section \<open>Laws\<close>

lemma om_get_Nil [simp]: "om_get [] k = None"
  by (simp add: om_get_def)

lemma om_get_put [simp]: "om_get (om_put k v m) = (om_get m)(k \<mapsto> v)"
  by (induction m) (auto simp: om_get_def fun_eq_iff)

lemma om_get_del [simp]: "om_get (om_del k m) = (om_get m)(k := None)"
  by (induction m) (auto simp: om_get_def om_del_def fun_eq_iff)

lemma om_get_map [simp]: "om_get (map (\<lambda>p. (fst p, f (fst p) (snd p))) m) k = map_option (f k) (om_get m k)"
  by (induction m) (auto simp: om_get_def)

lemma om_get_visit [simp]: "om_get (snd (om_visit f m)) k = map_option (\<lambda>v. snd (f k v)) (om_get m k)"
  using om_get_map [of "\<lambda>k v. snd (f k v)" m k] by (simp add: om_visit_def)

lemma om_wf_Nil [simp]: "om_wf []"
  by (simp add: om_wf_def)

lemma keys_om_put: "set (map fst (om_put k v m)) = insert k (set (map fst m))"
  by (induction m) auto

lemma om_wf_put [simp]: "om_wf m \<Longrightarrow> om_wf (om_put k v m)"
proof (induction m)
  case (Cons p m)
  then show ?case
    using keys_om_put [of k v m] by (auto simp: om_wf_def)
qed (simp add: om_wf_def)

lemma om_wf_del [simp]: "om_wf m \<Longrightarrow> om_wf (om_del k m)"
  by (induction m) (auto simp: om_wf_def om_del_def)

lemma om_wf_distinct: "om_wf m \<Longrightarrow> distinct (map fst m)"
  by (simp add: om_wf_def strict_sorted_iff)

lemma om_get_in: "om_get m k = Some v \<Longrightarrow> (k, v) \<in> set m"
  by (simp add: om_get_def map_of_SomeD)

lemma om_in_get: "om_wf m \<Longrightarrow> (k, v) \<in> set m \<Longrightarrow> om_get m k = Some v"
  by (simp add: om_get_def om_wf_distinct)

lemma om_wf_in_iff: "om_wf m \<Longrightarrow> (k, v) \<in> set m \<longleftrightarrow> om_get m k = Some v"
  using om_get_in om_in_get by metis

lemma om_get_None_iff: "om_get m k = None \<longleftrightarrow> k \<notin> fst ` set m"
  by (simp add: om_get_def map_of_eq_None_iff)

lemma om_wf_map [simp]: "om_wf (map (\<lambda>p. (fst p, f p)) m) \<longleftrightarrow> om_wf m"
  by (simp add: om_wf_def comp_def)

lemma om_wf_visit [simp]: "om_wf (snd (om_visit f m)) \<longleftrightarrow> om_wf m"
  by (simp add: om_visit_def om_wf_def comp_def)

lemma set_wakes_visit: "set (fst (om_visit f m)) = (\<Union>p \<in> set m. set (fst (f (fst p) (snd p))))"
  by (auto simp: om_visit_def)

lemma om_length_card: "om_wf m \<Longrightarrow> length m = card (dom (om_get m))"
proof -
  assume wf: "om_wf m"
  have "dom (om_get m) = fst ` set m"
    using om_get_None_iff [of m] by (auto simp: dom_def)
  then show ?thesis
    using distinct_card [OF om_wf_distinct [OF wf]] by simp
qed

lemma length_om_visit [simp]: "length (snd (om_visit f m)) = length m"
  by (simp add: om_visit_def)

lemma set_set_put [simp]: "set (set_put x xs) = insert x (set xs)"
  by (auto simp: set_put_def)

lemma om_get_eq: "om_get m = map_of m"
  by (simp add: om_get_def fun_eq_iff)

lemma length_om_put: "om_wf m \<Longrightarrow> length (om_put k v m) = (if om_get m k = None then Suc (length m) else length m)"
proof -
  assume wf: "om_wf m"
  have fin: "finite (dom (om_get m))" by (simp add: om_get_eq finite_dom_map_of)
  have "length (om_put k v m) = card (insert k (dom (om_get m)))"
    using om_length_card [OF om_wf_put [OF wf, of k v]] by simp
  also have "\<dots> = (if om_get m k = None then Suc (length m) else length m)"
    using om_length_card [OF wf] fin by (auto simp: card_insert_if dom_def)
  finally show ?thesis .
qed

lemma om_put_twice [simp]: "om_put k v' (om_put k v m) = om_put k v' m"
  by (induction m) auto

end
