(* ===== verification/Ws_Members.thy ===== *)
theory Ws_Members
  imports Ws_Frame Ordered_Map
begin

text \<open>
  The member table a WebSocket server holds of a catalog
  (\<open>crates/ridl-transport-ws/src/server/members.rs\<close>): which interactions the catalog has, with
  their kind, bound, payload limit and streams, and which catalog hashes an \<open>attach\<close> may name. A
  \<open>std::time::Duration\<close> is its number of nanoseconds. The lemmas say what a reader finds after each
  change, that a new entry under a key drops what was set for the old one, and that the own hash is
  always accepted and never listed.
\<close>

section \<open>Model\<close>

type_synonym std_duration = nat

record member_entry =
  en_kind :: kind
  en_max :: "std_duration option"
  en_limit :: "u32 option"
  en_reply_stream :: bool
  en_parameter_streams :: u8

record member_table =
  mt_name :: bytes
  mt_hash :: catalog_hash
  mt_members :: "(interface_no \<times> ordinal, member_entry) omap"
  mt_compatible :: "catalog_hash list"

definition members_new :: "bytes \<Rightarrow> catalog_hash \<Rightarrow> member_table" where
  "members_new nm h = \<lparr>mt_name = nm, mt_hash = h, mt_members = [], mt_compatible = []\<rparr>"

definition members_insert ::
    "interface_no \<Rightarrow> ordinal \<Rightarrow> kind \<Rightarrow> std_duration option \<Rightarrow> member_table \<Rightarrow>
     (kind \<times> std_duration option) option \<times> member_table" where
  "members_insert i n k mx t =
     (let en = \<lparr>en_kind = k, en_max = mx, en_limit = None, en_reply_stream = False, en_parameter_streams = 0\<rparr>
      in (map_option (\<lambda>replaced. (en_kind replaced, en_max replaced)) (om_get (mt_members t) (i, n)),
          t\<lparr>mt_members := om_put (i, n) en (mt_members t)\<rparr>))"

text \<open>A write through \<open>get_mut\<close>, which stores nothing when there is no entry.\<close>

definition members_change :: "(member_entry \<Rightarrow> member_entry) \<Rightarrow> interface_no \<times> ordinal \<Rightarrow> member_table \<Rightarrow> member_table" where
  "members_change f key t =
     (case om_get (mt_members t) key of
        Some en \<Rightarrow> t\<lparr>mt_members := om_put key (f en) (mt_members t)\<rparr>
      | None \<Rightarrow> t)"

definition members_set_limit :: "interface_no \<Rightarrow> ordinal \<Rightarrow> u32 \<Rightarrow> member_table \<Rightarrow> bool \<times> member_table" where
  "members_set_limit i n limit t =
     (om_get (mt_members t) (i, n) \<noteq> None, members_change (\<lambda>en. en\<lparr>en_limit := Some limit\<rparr>) (i, n) t)"

definition members_limit :: "member_table \<Rightarrow> interface_no \<Rightarrow> ordinal \<Rightarrow> u32 option" where
  "members_limit t i n = Option.bind (om_get (mt_members t) (i, n)) en_limit"

definition members_payload_limit :: "member_table \<Rightarrow> target \<Rightarrow> nat" where
  "members_payload_limit t tg =
     (case members_limit t (t_iface tg) (t_ord tg) of
        None \<Rightarrow> default_ceiling (t_kind tg)
      | Some n \<Rightarrow> unat n)"

definition members_set_reply_stream :: "interface_no \<Rightarrow> ordinal \<Rightarrow> member_table \<Rightarrow> member_table" where
  "members_set_reply_stream i n t = members_change (\<lambda>en. en\<lparr>en_reply_stream := True\<rparr>) (i, n) t"

definition members_reply_stream :: "member_table \<Rightarrow> interface_no \<Rightarrow> ordinal \<Rightarrow> bool" where
  "members_reply_stream t i n =
     (case om_get (mt_members t) (i, n) of Some en \<Rightarrow> en_reply_stream en | None \<Rightarrow> False)"

definition members_set_parameter_streams :: "interface_no \<Rightarrow> ordinal \<Rightarrow> u8 \<Rightarrow> member_table \<Rightarrow> member_table" where
  "members_set_parameter_streams i n cnt t = members_change (\<lambda>en. en\<lparr>en_parameter_streams := cnt\<rparr>) (i, n) t"

definition members_parameter_streams :: "member_table \<Rightarrow> interface_no \<Rightarrow> ordinal \<Rightarrow> u8" where
  "members_parameter_streams t i n =
     (case om_get (mt_members t) (i, n) of None \<Rightarrow> 0 | Some en \<Rightarrow> en_parameter_streams en)"

definition members_add_compatible :: "catalog_hash \<Rightarrow> member_table \<Rightarrow> member_table" where
  "members_add_compatible h t =
     (if h \<noteq> mt_hash t \<and> h \<notin> set (mt_compatible t) then t\<lparr>mt_compatible := mt_compatible t @ [h]\<rparr> else t)"

definition members_accepts :: "member_table \<Rightarrow> catalog_hash \<Rightarrow> bool" where
  "members_accepts t h \<longleftrightarrow> h = mt_hash t \<or> h \<in> set (mt_compatible t)"

definition members_member :: "member_table \<Rightarrow> interface_no \<Rightarrow> ordinal \<Rightarrow> (kind \<times> std_duration option) option" where
  "members_member t i n = map_option (\<lambda>en. (en_kind en, en_max en)) (om_get (mt_members t) (i, n))"

definition members_iter :: "member_table \<Rightarrow> (target \<times> std_duration option \<times> u32 option) list" where
  "members_iter t =
     map (\<lambda>((i, n), en). (\<lparr>t_kind = en_kind en, t_iface = i, t_ord = n\<rparr>, en_max en, en_limit en)) (mt_members t)"

definition members_entries :: "member_table \<Rightarrow> (target \<times> u32 option) list" where
  "members_entries t = map (\<lambda>(tg, _, limit). (tg, limit)) (members_iter t)"

definition members_len :: "member_table \<Rightarrow> nat" where
  "members_len t = length (mt_members t)"

definition members_is_empty :: "member_table \<Rightarrow> bool" where
  "members_is_empty t \<longleftrightarrow> mt_members t = []"

section \<open>What a reader finds\<close>

definition members_wf :: "member_table \<Rightarrow> bool" where
  "members_wf t \<longleftrightarrow> om_wf (mt_members t) \<and> distinct (mt_hash t # mt_compatible t)"

lemma members_change_get:
  "om_get (mt_members (members_change f key t)) = (om_get (mt_members t))(key := map_option f (om_get (mt_members t) key))"
  by (cases "om_get (mt_members t) key") (simp_all add: members_change_def fun_upd_idem)

lemma members_keep_wf:
  assumes "members_wf t"
  shows "members_wf (snd (members_insert i n k mx t))" "members_wf (members_change f key t)" "members_wf (members_add_compatible h t)"
  using assms by (auto simp: members_wf_def members_insert_def Let_def members_change_def members_add_compatible_def split: option.split)

lemma members_insert_fresh:
  assumes "members_insert i n k mx t = (old, t')"
  shows "members_member t' i n = Some (k, mx)" "members_limit t' i n = None" "\<not> members_reply_stream t' i n"
    "members_parameter_streams t' i n = 0" "old = members_member t i n"
    "(j, m) \<noteq> (i, n) \<Longrightarrow> members_member t' j m = members_member t j m \<and> members_limit t' j m = members_limit t j m"
  using assms by (auto simp: members_insert_def Let_def members_member_def members_limit_def members_reply_stream_def
      members_parameter_streams_def)

lemma members_limit_set:
  assumes "members_set_limit i n limit t = (found, t')"
  shows "found \<longleftrightarrow> members_member t i n \<noteq> None"
    "members_payload_limit t' tg = (if found \<and> (t_iface tg, t_ord tg) = (i, n) then unat limit else members_payload_limit t tg)"
    "members_member t' = members_member t"
  using assms by (auto simp: members_set_limit_def members_member_def members_payload_limit_def members_limit_def
      members_change_get fun_eq_iff)

lemma members_accepts_add:
  "members_accepts (members_add_compatible h t) h' \<longleftrightarrow> h' = h \<or> members_accepts t h'"
  by (auto simp: members_accepts_def members_add_compatible_def)

lemma members_iter_exact:
  assumes "members_wf t"
  shows "(\<lparr>t_kind = k, t_iface = i, t_ord = n\<rparr>, mx, limit) \<in> set (members_iter t) \<longleftrightarrow>
      members_member t i n = Some (k, mx) \<and> members_limit t i n = limit"
    "sorted_wrt (<) (map (\<lambda>(tg, _). (t_iface tg, t_ord tg)) (members_iter t))"
proof -
  from assms have wf: "om_wf (mt_members t)" by (simp add: members_wf_def)
  show "(\<lparr>t_kind = k, t_iface = i, t_ord = n\<rparr>, mx, limit) \<in> set (members_iter t) \<longleftrightarrow>
      members_member t i n = Some (k, mx) \<and> members_limit t i n = limit"
    using om_wf_in_iff [OF wf, of "(i, n)"]
    by (auto simp: members_iter_def members_member_def members_limit_def image_iff) force
  have "map (\<lambda>(tg, _). (t_iface tg, t_ord tg)) (members_iter t) = map fst (mt_members t)"
    by (auto simp: members_iter_def)
  then show "sorted_wrt (<) (map (\<lambda>(tg, _). (t_iface tg, t_ord tg)) (members_iter t))"
    using wf by (simp add: om_wf_def)
qed

end
