(* ===== verification/Lb_Store.thy ===== *)
theory Lb_Store
  imports Rt_Port Ordered_Map
begin

text \<open>
  The store of the in-process runtime (\<open>crates/ridl-loopback/src/store.rs\<close>): its data, the
  member limits, the clock, the signals, the \<open>fixed\<close> values and the events. The calls and their
  streams are in \<open>Lb_Calls\<close>. Each method is one definition that takes the store and returns it
  changed; a method with a \<open>wake\<close> list takes the list and returns it longer. Every critical
  section of the runtime runs under the one lock, so a method is one atomic step.

  A method that indexes a map, or calls \<open>expect\<close>, \<open>unreachable!\<close>, \<open>assert!\<close> or \<open>+= 1\<close>,
  returns an option whose \<open>None\<close> is the panic. An output slice is the list it held, and the
  method returns it overwritten.
\<close>

section \<open>Data\<close>

type_synonym key = "interface_no \<times> ordinal"

definition SLOTS :: nat where "SLOTS = 16"

definition STREAM_WINDOW :: nat where "STREAM_WINDOW = 4"

definition INTERRUPTED :: call_error where "INTERRUPTED = CallTransport Interrupted"

datatype side = Side_Caller | Side_Provider

definition producer :: "stream_no \<Rightarrow> side" where
  "producer s = (if s = REPLY_STREAM then Side_Provider else Side_Caller)"

fun side_other :: "side \<Rightarrow> side" where
  "side_other Side_Caller = Side_Provider"
| "side_other Side_Provider = Side_Caller"

record stream_state =
  ss_chunks :: "bytes list"
  ss_ended :: bool
  ss_stopped :: "(call_error \<times> side) option"
  ss_claim_waker :: "waker option"
  ss_drained :: bool

record signal_entry =
  se_bytes :: bytes
  se_envelope :: envelope
  se_provenance :: provenance
  se_changed_at :: u64

datatype staged = Staged_Set bytes | Staged_Invalidate | Staged_Touch

record queued_event =
  qe_iface :: interface_no
  qe_ord :: ordinal
  qe_bytes :: bytes
  qe_envelope :: envelope
  qe_trace :: "trace_context option"

record source_state =
  sr_subscribed :: "key list"
  sr_queue :: "queued_event list"
  sr_waiters :: waiters

record handler_state =
  hs_served :: "key list"
  hs_waiters :: waiters

definition serves :: "handler_state \<Rightarrow> key \<Rightarrow> bool" where
  "serves h k \<longleftrightarrow> hs_served h = [] \<or> k \<in> set (hs_served h)"

record claim_owner =
  co_call :: correlation
  co_handler :: nat
  co_taken :: bool

datatype call_kind = CK_Command | CK_Query

fun call_kind_kind :: "call_kind \<Rightarrow> kind" where
  "call_kind_kind CK_Command = Command"
| "call_kind_kind CK_Query = Query"

record call_entry =
  ce_correlation :: correlation
  ce_caller :: nat
  ce_kind :: call_kind
  ce_iface :: interface_no
  ce_ord :: ordinal
  ce_args :: bytes
  ce_envelope :: envelope
  ce_trace :: "trace_context option"
  ce_sent :: u64
  ce_reply :: bytes
  ce_forgotten :: bool
  ce_claim :: "claim_id option"
  ce_settled_by :: "nat option"
  ce_streams :: "(u8, stream_state) omap"
  ce_pending_forget :: bool
  ce_parameters_released :: bool
  ce_provider_used_streams :: bool

record store =
  st_now :: timestamp
  st_signals :: "(key, signal_entry) omap"
  st_checks :: "(key, check) omap"
  st_generations :: "(interface_no, u64) omap"
  st_fixed :: "(key, bytes) omap"
  st_limits :: "(key, nat) omap"
  st_sources :: "(nat, source_state) omap"
  st_next_source_id :: nat
  st_table :: table
  st_calls :: "(nat, call_entry) omap"
  st_pending :: "correlation list"
  st_next_sent :: u64
  st_callers :: "(nat, waiters) omap"
  st_next_caller_id :: nat
  st_claims :: "(claim_id, claim_owner) omap"
  st_next_claim_id :: claim_id
  st_handlers :: "(nat, handler_state) omap"
  st_next_handler_id :: nat
  st_fail_next_settle :: bool

definition store_new :: store where
  "store_new =
     \<lparr>st_now = 0, st_signals = [], st_checks = [], st_generations = [], st_fixed = [],
      st_limits = [], st_sources = [], st_next_source_id = 0, st_table = table_new SLOTS None,
      st_calls = [], st_pending = [], st_next_sent = 0, st_callers = [], st_next_caller_id = 0,
      st_claims = [], st_next_claim_id = 0, st_handlers = [], st_next_handler_id = 0,
      st_fail_next_settle = False\<rparr>"

section \<open>The member limits\<close>

definition store_set_limit :: "store \<Rightarrow> key \<Rightarrow> nat \<Rightarrow> store" where
  "store_set_limit s k limit = s\<lparr>st_limits := om_put k limit (st_limits s)\<rparr>"

definition store_limit :: "store \<Rightarrow> key \<Rightarrow> kind \<Rightarrow> nat" where
  "store_limit s k kd = (case om_get (st_limits s) k of Some l \<Rightarrow> l | None \<Rightarrow> default_ceiling kd)"

definition store_admit :: "store \<Rightarrow> key \<Rightarrow> kind \<Rightarrow> nat \<Rightarrow> nat + unit" where
  "store_admit s k kd len =
     (let cap = store_limit s k kd in if len > cap then Inl cap else Inr ())"

section \<open>The clock\<close>

definition store_advance :: "store \<Rightarrow> duration \<Rightarrow> store option" where
  "store_advance s d =
     (if 0 \<le> sint d then Some (s\<lparr>st_now := saturating_add_i64 (st_now s) d\<rparr>) else None)"

section \<open>Signals\<close>

definition unpublished :: raw_sample where
  "unpublished = \<lparr>rs_provenance = Init, rs_freshness = Unbounded,
     rs_envelope = \<lparr>stamp = 0, seq = 0\<rparr>, rs_len = 0\<rparr>"

definition sample_of :: "signal_entry \<Rightarrow> raw_sample" where
  "sample_of e = \<lparr>rs_provenance = se_provenance e, rs_freshness = Unbounded,
     rs_envelope = se_envelope e, rs_len = length (se_bytes e)\<rparr>"

definition store_check_with :: "store \<Rightarrow> interface_no \<Rightarrow> ordinal \<Rightarrow> check \<Rightarrow> store" where
  "store_check_with s i k chk =
     (let s1 = s\<lparr>st_checks := om_put (i, k) chk (st_checks s)\<rparr> in
      case om_get (st_signals s1) (i, k) of
        None \<Rightarrow> s1
      | Some e \<Rightarrow>
          if se_provenance e = Live then
            (case chk (se_bytes e) of
               Inr _ \<Rightarrow> s1
             | Inl d \<Rightarrow> s1\<lparr>st_signals := om_put (i, k)
                 (e\<lparr>se_bytes := [], se_provenance := Invalid (Detected d)\<rparr>) (st_signals s1)\<rparr>)
          else s1)"

definition store_read ::
    "store \<Rightarrow> interface_no \<Rightarrow> ordinal \<Rightarrow> bytes \<Rightarrow> (read_error + raw_sample) \<times> bytes" where
  "store_read s i k out =
     (case om_get (st_signals s) (i, k) of
        None \<Rightarrow> (Inr unpublished, out)
      | Some e \<Rightarrow>
          if length out < length (se_bytes e) then (Inl (Read_Short (length (se_bytes e))), out)
          else (Inr (sample_of e), put_at out 0 (se_bytes e)))"

text \<open>\<open>commit\<close>: the touches kept, one generation per interface, then one publication per key.\<close>

definition commit_kept :: "store \<Rightarrow> (key, staged) omap \<Rightarrow> (key, staged) omap" where
  "commit_kept s stg =
     filter (\<lambda>(k, op). op \<noteq> Staged_Touch \<or> om_get (st_signals s) k \<noteq> None) stg"

fun bump_generations ::
    "interface_no list \<Rightarrow> key list \<Rightarrow> (interface_no, u64) omap \<Rightarrow> (interface_no, u64) omap option" where
  "bump_generations bumped [] gens = Some gens"
| "bump_generations bumped ((i, _) # ks) gens =
     (if i \<in> set bumped then bump_generations bumped ks gens
      else do {
        g \<leftarrow> inc_u64 (case om_get gens i of Some g \<Rightarrow> g | None \<Rightarrow> 0);
        bump_generations (i # bumped) ks (om_put i g gens)
      })"

definition commit_value :: "store \<Rightarrow> key \<Rightarrow> staged \<Rightarrow> (bytes \<times> provenance) option" where
  "commit_value s k op =
     (let previous = om_get (st_signals s) k;
          prev_bytes = (case previous of Some e \<Rightarrow> se_bytes e | None \<Rightarrow> []) in
      case op of
        Staged_Set b \<Rightarrow>
          Some (case (case om_get (st_checks s) k of None \<Rightarrow> Inr () | Some chk \<Rightarrow> chk b) of
                  Inr _ \<Rightarrow> (b, Live)
                | Inl d \<Rightarrow> (prev_bytes, Invalid (Detected d)))
      | Staged_Invalidate \<Rightarrow> Some (prev_bytes, Invalid Declared)
      | Staged_Touch \<Rightarrow> do { e \<leftarrow> previous; Some (se_bytes e, se_provenance e) })"

definition commit_one ::
    "store \<Rightarrow> (key, u64) omap \<Rightarrow> key \<Rightarrow> staged \<Rightarrow> (store \<times> (key, u64) omap) option" where
  "commit_one s seqs k op =
     do {
       n \<leftarrow> inc_u64 (case om_get seqs k of Some n \<Rightarrow> n | None \<Rightarrow> 0);
       changed_at \<leftarrow> om_get (st_generations s) (fst k);
       (b, prov) \<leftarrow> commit_value s k op;
       let e = \<lparr>se_bytes = b, se_envelope = \<lparr>stamp = st_now s, seq = n\<rparr>,
                se_provenance = prov, se_changed_at = changed_at\<rparr>;
       Some (s\<lparr>st_signals := om_put k e (st_signals s)\<rparr>, om_put k n seqs)
     }"

fun commit_each ::
    "store \<Rightarrow> (key, u64) omap \<Rightarrow> (key \<times> staged) list \<Rightarrow> (store \<times> (key, u64) omap) option" where
  "commit_each s seqs [] = Some (s, seqs)"
| "commit_each s seqs ((k, op) # rest) =
     do { (s1, seqs1) \<leftarrow> commit_one s seqs k op; commit_each s1 seqs1 rest }"

definition store_commit ::
    "store \<Rightarrow> (key, staged) omap \<Rightarrow> (key, u64) omap \<Rightarrow>
     (store \<times> (key, staged) omap \<times> (key, u64) omap) option" where
  "store_commit s stg seqs =
     do {
       let kept = commit_kept s stg;
       gens \<leftarrow> bump_generations [] (map fst kept) (st_generations s);
       (s1, seqs1) \<leftarrow> commit_each (s\<lparr>st_generations := gens\<rparr>) seqs kept;
       Some (s1, [], seqs1)
     }"

definition store_generation :: "store \<Rightarrow> interface_no \<Rightarrow> u64" where
  "store_generation s i = (case om_get (st_generations s) i of Some g \<Rightarrow> g | None \<Rightarrow> 0)"

definition changes_of :: "store \<Rightarrow> watermark \<Rightarrow> changed list" where
  "changes_of s m =
     map (\<lambda>((i, k), e). \<lparr>cg_iface = i, cg_ord = k, cg_seq = seq (se_envelope e)\<rparr>)
       (filter (\<lambda>((i, _), e). i = wm_iface m \<and> se_changed_at e > wm_generation m) (st_signals s))"

fun scan_marks ::
    "store \<Rightarrow> watermark list \<Rightarrow> changed list \<Rightarrow> nat \<Rightarrow> nat \<times> watermark list \<times> changed list" where
  "scan_marks s [] out written = (written, [], out)"
| "scan_marks s (m # ms) out written =
     (let current = store_generation s (wm_iface m) in
      if wm_generation m \<ge> current then
        (let (n, ms', out') = scan_marks s ms out written in (n, m # ms', out'))
      else
        (let changes = changes_of s m in
         if length changes > length out - written then (written, m # ms, out)
         else
           (let (n, ms', out') =
              scan_marks s ms (put_at out written changes) (written + length changes)
            in (n, m\<lparr>wm_generation := current\<rparr> # ms', out'))))"

definition store_scan ::
    "store \<Rightarrow> watermark list \<Rightarrow> changed list \<Rightarrow> nat \<times> watermark list \<times> changed list" where
  "store_scan s marks out = scan_marks s marks out 0"

definition signal_len :: "store \<Rightarrow> interface_no \<Rightarrow> ordinal \<Rightarrow> nat" where
  "signal_len s i k = (case om_get (st_signals s) (i, k) of Some e \<Rightarrow> length (se_bytes e) | None \<Rightarrow> 0)"

fun coherent_each ::
    "store \<Rightarrow> interface_no \<Rightarrow> ordinal list \<Rightarrow> nat \<Rightarrow> nat \<Rightarrow> bytes \<Rightarrow> raw_sample list \<Rightarrow>
     nat \<times> bytes \<times> raw_sample list" where
  "coherent_each s i [] index written out samples = (written, out, samples)"
| "coherent_each s i (k # ks) index written out samples =
     (case om_get (st_signals s) (i, k) of
        None \<Rightarrow> coherent_each s i ks (Suc index) written out (samples[index := unpublished])
      | Some e \<Rightarrow>
          coherent_each s i ks (Suc index) (written + length (se_bytes e))
            (put_at out written (se_bytes e)) (samples[index := sample_of e]))"

definition store_read_coherent ::
    "store \<Rightarrow> interface_no \<Rightarrow> ordinal list \<Rightarrow> bytes \<Rightarrow> raw_sample list \<Rightarrow>
     (read_error + nat) \<times> bytes \<times> raw_sample list" where
  "store_read_coherent s i ks out samples =
     (if length samples < length ks then (Inl (Read_TooFewSamples (length ks)), out, samples)
      else let needed = sum_list (map (signal_len s i) ks) in
        if length out < needed then (Inl (Read_Short needed), out, samples)
        else (let (n, out', samples') = coherent_each s i ks 0 0 out samples
              in (Inr n, out', samples')))"

section \<open>Fixed values\<close>

definition store_provision_fixed ::
    "store \<Rightarrow> interface_no \<Rightarrow> ordinal \<Rightarrow> bytes \<Rightarrow> (write_error + unit) \<times> store" where
  "store_provision_fixed s i k b =
     (case store_admit s (i, k) Fixed (length b) of
        Inl cap \<Rightarrow> (Inl (Write_TooLarge cap), s)
      | Inr _ \<Rightarrow> (Inr (), s\<lparr>st_fixed := om_put (i, k) b (st_fixed s)\<rparr>))"

definition store_read_fixed ::
    "store \<Rightarrow> interface_no \<Rightarrow> ordinal \<Rightarrow> bytes \<Rightarrow> (read_error + nat) \<times> bytes" where
  "store_read_fixed s i k out =
     (case om_get (st_fixed s) (i, k) of
        None \<Rightarrow> (Inl (Read_Contract UnknownInteraction), out)
      | Some b \<Rightarrow>
          if length out < length b then (Inl (Read_Short (length b)), out)
          else (Inr (length b), put_at out 0 b))"

section \<open>Events\<close>

text \<open>\<open>register\<close>: store the waker, wake the displaced one, and wake it at once when \<open>ready\<close>.\<close>

definition register_waiter ::
    "waiters \<Rightarrow> interest \<Rightarrow> waker \<Rightarrow> bool \<Rightarrow> waker list \<Rightarrow> waiters \<times> waker list" where
  "register_waiter ws what w ready wake =
     (let (displaced, ws1) = waiters_register ws what w;
          wake1 = wake @ opt_list displaced in
      if ready then
        (let (stored, ws2) = waiters_take ws1 what in (ws2, wake1 @ opt_list stored))
      else (ws1, wake1))"

definition source_default :: source_state where
  "source_default = \<lparr>sr_subscribed = [], sr_queue = [], sr_waiters = waiters_new\<rparr>"

definition open_source :: "store \<Rightarrow> (nat \<times> store) option" where
  "open_source s =
     do {
       let sid = st_next_source_id s;
       n \<leftarrow> inc_usize sid;
       Some (sid, s\<lparr>st_next_source_id := n, st_sources := om_put sid source_default (st_sources s)\<rparr>)
     }"

definition close_source :: "store \<Rightarrow> nat \<Rightarrow> waiters option \<times> store" where
  "close_source s sid =
     (map_option sr_waiters (om_get (st_sources s) sid), s\<lparr>st_sources := om_del sid (st_sources s)\<rparr>)"

definition store_subscribe :: "store \<Rightarrow> nat \<Rightarrow> interface_no \<Rightarrow> ordinal list \<Rightarrow> store" where
  "store_subscribe s sid i ords =
     (case om_get (st_sources s) sid of
        None \<Rightarrow> s
      | Some src \<Rightarrow>
          s\<lparr>st_sources := om_put sid
              (src\<lparr>sr_subscribed := fold (\<lambda>k. set_put (i, k)) ords (sr_subscribed src)\<rparr>)
              (st_sources s)\<rparr>)"

definition store_unsubscribe :: "store \<Rightarrow> nat \<Rightarrow> interface_no \<Rightarrow> ordinal list \<Rightarrow> store" where
  "store_unsubscribe s sid i ords =
     (case om_get (st_sources s) sid of
        None \<Rightarrow> s
      | Some src \<Rightarrow>
          (let subscribed = fold (\<lambda>k. removeAll (i, k)) ords (sr_subscribed src) in
           s\<lparr>st_sources := om_put sid
               (src\<lparr>sr_subscribed := subscribed,
                    sr_queue := filter (\<lambda>ev. (qe_iface ev, qe_ord ev) \<in> set subscribed) (sr_queue src)\<rparr>)
               (st_sources s)\<rparr>))"

text \<open>The body of the loop of \<open>raise\<close> on one source.\<close>

definition raise_source :: "queued_event \<Rightarrow> source_state \<Rightarrow> waker list \<times> source_state" where
  "raise_source ev src =
     (if (qe_iface ev, qe_ord ev) \<in> set (sr_subscribed src) then
        (let (w, ws) = waiters_take (sr_waiters src) (IEvent (qe_iface ev)) in
         (opt_list w, src\<lparr>sr_queue := sr_queue src @ [ev], sr_waiters := ws\<rparr>))
      else ([], src))"

text \<open>
  \<open>raise\<close>: \<open>draw\<close> is the closure that draws the sequence number from the sink's counters \<open>q\<close>;
  it runs only when the occurrence is admitted.
\<close>

definition store_raise ::
    "store \<Rightarrow> interface_no \<Rightarrow> ordinal \<Rightarrow> bytes \<Rightarrow> ('q \<Rightarrow> (u64 \<times> 'q) option) \<Rightarrow> 'q \<Rightarrow>
     trace_context option \<Rightarrow> waker list \<Rightarrow> ((raise_error + unit) \<times> 'q \<times> store \<times> waker list) option" where
  "store_raise s i k b draw q trc wake =
     (case store_admit s (i, k) Event (length b) of
        Inl cap \<Rightarrow> Some (Inl (Raise_TooLarge cap), q, s, wake)
      | Inr _ \<Rightarrow>
          do {
            (sq, q1) \<leftarrow> draw q;
            let ev = \<lparr>qe_iface = i, qe_ord = k, qe_bytes = b,
                      qe_envelope = \<lparr>stamp = st_now s, seq = sq\<rparr>, qe_trace = trc\<rparr>;
            let (ws, srcs) = om_visit (\<lambda>_. raise_source ev) (st_sources s);
            Some (Inr (), q1, s\<lparr>st_sources := srcs\<rparr>, wake @ ws)
          })"

definition wait_event ::
    "store \<Rightarrow> nat \<Rightarrow> interest \<Rightarrow> waker \<Rightarrow> waker list \<Rightarrow> store \<times> waker list" where
  "wait_event s sid what w wake =
     (case om_get (st_sources s) sid of
        None \<Rightarrow> (s, wake @ [w])
      | Some src \<Rightarrow>
          (let (ws, wake1) = register_waiter (sr_waiters src) what w (sr_queue src \<noteq> []) wake in
           (s\<lparr>st_sources := om_put sid (src\<lparr>sr_waiters := ws\<rparr>) (st_sources s)\<rparr>, wake1)))"

definition next_event ::
    "store \<Rightarrow> nat \<Rightarrow> bytes \<Rightarrow> (read_error + raw_occurrence option) \<times> bytes \<times> store" where
  "next_event s sid out =
     (case om_get (st_sources s) sid of
        None \<Rightarrow> (Inr None, out, s)
      | Some src \<Rightarrow>
          (case sr_queue src of
             [] \<Rightarrow> (Inr None, out, s)
           | ev # rest \<Rightarrow>
               if length out < length (qe_bytes ev) then
                 (Inl (Read_Short (length (qe_bytes ev))), out, s)
               else
                 (Inr (Some \<lparr>ro_iface = qe_iface ev, ro_ord = qe_ord ev, ro_envelope = qe_envelope ev,
                             ro_trace = qe_trace ev, ro_len = length (qe_bytes ev)\<rparr>),
                  put_at out 0 (qe_bytes ev),
                  s\<lparr>st_sources := om_put sid (src\<lparr>sr_queue := rest\<rparr>) (st_sources s)\<rparr>)))"

end
