(* ===== verification/Lb_Calls.thy ===== *)
theory Lb_Calls
  imports Lb_Store
begin

text \<open>
  The calls and the streams of the in-process runtime
  (\<open>crates/ridl-loopback/src/store.rs\<close>): sending, waiting, presenting, settling, forgetting and
  withdrawing a call, the drop of a caller and of a handler, and the streams of a call from both
  sides. The caller side of a call is the table of \<open>Rt_Correlate\<close>.
\<close>

section \<open>Streams of a call\<close>

definition stream_default :: stream_state where
  "stream_default = \<lparr>ss_chunks = [], ss_ended = False, ss_stopped = None, ss_claim_waker = None,
     ss_drained = False\<rparr>"

definition stream_full :: "stream_state \<Rightarrow> bool" where
  "stream_full st \<longleftrightarrow> length (filter (\<lambda>chunk. chunk \<noteq> []) (ss_chunks st)) \<ge> STREAM_WINDOW"

definition stream_closed :: "stream_state \<Rightarrow> side \<Rightarrow> push_error option" where
  "stream_closed st sd =
     (case ss_stopped st of
        Some (err, by_side) \<Rightarrow> if by_side \<noteq> sd then Some (Push_Failed err) else Some Push_Ended
      | None \<Rightarrow> if ss_ended st then Some Push_Ended else None)"

definition stream_finished :: "stream_state \<Rightarrow> bool" where
  "stream_finished st \<longleftrightarrow> ss_ended st \<or> ss_stopped st \<noteq> None"

definition stream_release :: "stream_state \<Rightarrow> stream_state" where
  "stream_release st =
     (let st1 = st\<lparr>ss_chunks := []\<rparr>;
          st2 = (if \<not> stream_finished st1
                 then st1\<lparr>ss_stopped := Some (INTERRUPTED, Side_Provider)\<rparr> else st1)
      in st2\<lparr>ss_drained := True\<rparr>)"

definition release_parameters :: "call_entry \<Rightarrow> waker list \<Rightarrow> call_entry \<times> waker list" where
  "release_parameters e wake =
     (let (ws, sts) = om_visit (\<lambda>no st.
            if no \<noteq> REPLY_STREAM
            then (opt_list (ss_claim_waker st), (stream_release st)\<lparr>ss_claim_waker := None\<rparr>)
            else ([], st)) (ce_streams e)
      in (e\<lparr>ce_parameters_released := True, ce_streams := sts\<rparr>, wake @ ws))"

definition undrained :: "call_entry \<Rightarrow> bool" where
  "undrained e \<longleftrightarrow> list_ex (\<lambda>(no, st). no \<noteq> REPLY_STREAM \<and> \<not> ss_drained st) (ce_streams e)"

definition put_stream :: "call_entry \<Rightarrow> stream_no \<Rightarrow> stream_state \<Rightarrow> call_entry" where
  "put_stream e no st = e\<lparr>ce_streams := om_put no st (ce_streams e)\<rparr>"

text \<open>\<open>stream\<close>: the stream, and the entry with the stream made when nothing had named it.\<close>

definition entry_stream :: "call_entry \<Rightarrow> stream_no \<Rightarrow> stream_state \<times> call_entry" where
  "entry_stream e no =
     (case om_get (ce_streams e) no of
        Some st \<Rightarrow> (st, e)
      | None \<Rightarrow>
          (let st0 = stream_default\<lparr>ss_stopped :=
                 (if ce_forgotten e then Some (INTERRUPTED, Side_Caller) else None)\<rparr>;
               st = (if ce_parameters_released e \<and> no \<noteq> REPLY_STREAM
                     then stream_release st0 else st0)
           in (st, put_stream e no st)))"

section \<open>Sending and reading a call\<close>

definition put_call :: "store \<Rightarrow> nat \<Rightarrow> call_entry \<Rightarrow> store" where
  "put_call s slot e = s\<lparr>st_calls := om_put slot e (st_calls s)\<rparr>"

definition wake_handler :: "key \<Rightarrow> handler_state \<Rightarrow> waker list \<times> handler_state" where
  "wake_handler k h =
     (if serves h k
      then (let (w, wts) = waiters_take (hs_waiters h) (IClaim (fst k))
            in (opt_list w, h\<lparr>hs_waiters := wts\<rparr>))
      else ([], h))"

definition wake_handlers_serving :: "store \<Rightarrow> key \<Rightarrow> waker list \<Rightarrow> store \<times> waker list" where
  "wake_handlers_serving s k wake =
     (let (ws, hs) = om_visit (\<lambda>_. wake_handler k) (st_handlers s)
      in (s\<lparr>st_handlers := hs\<rparr>, wake @ ws))"

definition store_send ::
    "store \<Rightarrow> nat \<Rightarrow> call_kind \<Rightarrow> key \<Rightarrow> bytes \<Rightarrow> u64 \<Rightarrow> trace_context option \<Rightarrow> waker list \<Rightarrow>
     ((send_error + correlation) \<times> store \<times> waker list) option" where
  "store_send s caller kd k args sq trc wake =
     (case store_admit s k (call_kind_kind kd) (length args) of
        Inl cap \<Rightarrow> Some (Inl (Send_TooLarge cap), s, wake)
      | Inr _ \<Rightarrow>
          (case table_insert (st_table s) 0 of
             (None, t) \<Rightarrow> Some (Inl Send_Busy, s\<lparr>st_table := t\<rparr>, wake)
           | (Some c, t) \<Rightarrow>
               do {
                 let sent = st_next_sent s;
                 n \<leftarrow> inc_u64 sent;
                 let e = \<lparr>ce_correlation = c, ce_caller = caller, ce_kind = kd, ce_iface = fst k,
                          ce_ord = snd k, ce_args = args,
                          ce_envelope = \<lparr>stamp = st_now s, seq = sq\<rparr>, ce_trace = trc, ce_sent = sent,
                          ce_reply = [], ce_forgotten = False, ce_claim = None, ce_settled_by = None,
                          ce_streams = [], ce_pending_forget = False,
                          ce_parameters_released = False, ce_provider_used_streams = False\<rparr>;
                 let s1 = (put_call s (slot_of c) e)\<lparr>st_table := t, st_next_sent := n,
                            st_pending := st_pending s @ [c]\<rparr>;
                 let (s2, wake2) = wake_handlers_serving s1 k wake;
                 Some (Inr c, s2, wake2)
               }))"

definition entry_of :: "store \<Rightarrow> correlation \<Rightarrow> call_entry option" where
  "entry_of s c = om_get (st_calls s) (slot_of c)"

definition forgotten_pending :: "store \<Rightarrow> correlation \<Rightarrow> bool" where
  "forgotten_pending s c \<longleftrightarrow>
     (case om_get (st_calls s) (slot_of c) of
        Some e \<Rightarrow> ce_correlation e = c \<and> ce_pending_forget e
      | None \<Rightarrow> False)"

definition wait_outcome ::
    "store \<Rightarrow> correlation \<Rightarrow> waker \<Rightarrow> waker list \<Rightarrow> store \<times> waker list" where
  "wait_outcome s c w wake =
     (if forgotten_pending s c then (s, wake @ [w])
      else let (back, t) = wake_on (st_table s) c w
           in (s\<lparr>st_table := t\<rparr>, wake @ opt_list back))"

definition store_ack :: "store \<Rightarrow> correlation \<Rightarrow> outcome option option" where
  "store_ack s c =
     (case outcome_of (st_table s) c of
        None \<Rightarrow> Some None
      | Some out \<Rightarrow>
          if forgotten_pending s c then Some None
          else do {
            e \<leftarrow> entry_of s c;
            Some (if ce_kind e \<noteq> CK_Command then None else Some out)
          })"

definition store_reply ::
    "store \<Rightarrow> correlation \<Rightarrow> bytes \<Rightarrow> ((read_error + (call_error + nat) option) \<times> bytes) option" where
  "store_reply s c out =
     (if forgotten_pending s c then Some (Inr None, out)
      else case outcome_of (st_table s) c of
        None \<Rightarrow> Some (Inr None, out)
      | Some (Inl err) \<Rightarrow> Some (Inr (Some (Inl err)), out)
      | Some (Inr _) \<Rightarrow>
          do {
            e \<leftarrow> entry_of s c;
            Some (if length out < length (ce_reply e)
                  then (Inl (Read_Short (length (ce_reply e))), out)
                  else (Inr (Some (Inr (length (ce_reply e)))), put_at out 0 (ce_reply e)))
          })"

section \<open>Forgetting a call\<close>

definition caller_slot :: "store \<Rightarrow> correlation \<Rightarrow> nat option" where
  "caller_slot s c =
     (let slot = slot_of c in
      case om_get (st_calls s) slot of
        Some e \<Rightarrow> if ce_correlation e = c \<and> \<not> ce_forgotten e then Some slot else None
      | None \<Rightarrow> None)"

definition stop_stream :: "stream_state \<Rightarrow> waker list \<times> stream_state" where
  "stop_stream st =
     (let st1 = (if \<not> stream_finished st
                 then st\<lparr>ss_stopped := Some (INTERRUPTED, Side_Caller)\<rparr> else st)
      in (opt_list (ss_claim_waker st1), st1\<lparr>ss_claim_waker := None\<rparr>))"

definition interrupt_streams ::
    "store \<Rightarrow> correlation \<Rightarrow> waker list \<Rightarrow> (store \<times> waker list) option" where
  "interrupt_streams s c wake =
     (case caller_slot s c of
        None \<Rightarrow> Some (s, wake)
      | Some slot \<Rightarrow>
          do {
            e \<leftarrow> om_get (st_calls s) slot;
            let (ws, sts) = om_visit (\<lambda>_. stop_stream) (ce_streams e);
            Some (put_call s slot (e\<lparr>ce_streams := sts\<rparr>), wake @ ws)
          })"

definition offered :: "store \<Rightarrow> correlation \<Rightarrow> bool" where
  "offered s c \<longleftrightarrow>
     (case do { e \<leftarrow> om_get (st_calls s) (slot_of c); i \<leftarrow> ce_claim e; om_get (st_claims s) i } of
        Some o1 \<Rightarrow> \<not> co_taken o1
      | None \<Rightarrow> False)"

definition take_slot_waker :: "waiters \<Rightarrow> waker list \<times> waiters" where
  "take_slot_waker ws = (let (w, ws1) = waiters_take ws ISlot in (opt_list w, ws1))"

definition reclaimed :: "store \<Rightarrow> correlation \<Rightarrow> waker list \<Rightarrow> store \<times> waker list" where
  "reclaimed s c wake =
     (let slot = slot_of c;
          (ws, t) = take_streams (st_table s) slot;
          claim_ws = (case om_get (st_calls s) slot of
                        Some e \<Rightarrow> concat (map (\<lambda>(no, st). opt_list (ss_claim_waker st)) (ce_streams e))
                      | None \<Rightarrow> []);
          (slot_ws, callers) = om_visit (\<lambda>_. take_slot_waker) (st_callers s)
      in (s\<lparr>st_table := t, st_calls := om_del slot (st_calls s), st_callers := callers\<rparr>,
          wake @ ws @ claim_ws @ slot_ws))"

definition withdraw :: "store \<Rightarrow> correlation \<Rightarrow> waker list \<Rightarrow> (store \<times> waker list) option" where
  "withdraw s c wake =
     (case settle (st_table s) c (Inl (CallTransport Undelivered)) of
        (Recorded w, t) \<Rightarrow>
          (case forget t c of
             (ForgottenReclaimed, t1) \<Rightarrow>
               Some (reclaimed (s\<lparr>st_table := t1\<rparr>) c (wake @ opt_list w))
           | _ \<Rightarrow> None)
      | (SettledReclaimed, t) \<Rightarrow> Some (reclaimed (s\<lparr>st_table := t\<rparr>) c wake)
      | (SettledUnknown, _) \<Rightarrow> None)"

definition forget_in_table ::
    "store \<Rightarrow> correlation \<Rightarrow> waker list \<Rightarrow> (store \<times> waker list) option" where
  "forget_in_table s c wake =
     (case forget (st_table s) c of
        (ForgottenReclaimed, t) \<Rightarrow> Some (reclaimed (s\<lparr>st_table := t\<rparr>) c wake)
      | (Marked w, t) \<Rightarrow>
          (let (ws, t1) = take_streams t (slot_of c) in
           do {
             e \<leftarrow> om_get (st_calls s) (slot_of c);
             Some ((put_call s (slot_of c) (e\<lparr>ce_forgotten := True\<rparr>))\<lparr>st_table := t1\<rparr>,
                   wake @ opt_list w @ ws)
           })
      | (ForgottenUnknown, t) \<Rightarrow> Some (s\<lparr>st_table := t\<rparr>, wake))"

text \<open>\<open>Waker::noop()\<close>.\<close>

definition waker_noop :: waker where "waker_noop = Waker 0 0"

definition defer_forget ::
    "store \<Rightarrow> correlation \<Rightarrow> waker list \<Rightarrow> bool \<times> store \<times> waker list" where
  "defer_forget s c wake =
     (let slot = slot_of c in
      case om_get (st_calls s) slot of
        None \<Rightarrow> (False, s, wake)
      | Some e \<Rightarrow>
          (let held = (case ce_claim e of
                         Some i \<Rightarrow> om_get (st_claims s) i \<noteq> None | None \<Rightarrow> False)
                      \<or> ce_settled_by e \<noteq> None in
           if ce_correlation e \<noteq> c \<or> ce_forgotten e \<or> \<not> held \<or> \<not> undrained e then (False, s, wake)
           else
             (let (w, t) = wake_on (st_table s) c waker_noop;
                  (ws, t1) = take_streams t slot
              in (True,
                  (put_call s slot (e\<lparr>ce_forgotten := True, ce_pending_forget := True\<rparr>))\<lparr>st_table := t1\<rparr>,
                  wake @ opt_list w @ ws))))"

definition release_if_drained :: "store \<Rightarrow> nat \<Rightarrow> waker list \<Rightarrow> (store \<times> waker list) option" where
  "release_if_drained s slot wake =
     (case om_get (st_calls s) slot of
        None \<Rightarrow> Some (s, wake)
      | Some e \<Rightarrow>
          if \<not> ce_pending_forget e \<or> undrained e then Some (s, wake)
          else forget_in_table (put_call s slot (e\<lparr>ce_pending_forget := False\<rparr>)) (ce_correlation e) wake)"

definition store_forget :: "store \<Rightarrow> correlation \<Rightarrow> waker list \<Rightarrow> (store \<times> waker list) option" where
  "store_forget s c wake =
     (if forgotten_pending s c then Some (s, wake)
      else do {
        (s1, wake1) \<leftarrow> interrupt_streams s c wake;
        if \<not> offered s1 c \<and> c \<in> set (st_pending s1)
        then withdraw (s1\<lparr>st_pending := remove1 c (st_pending s1)\<rparr>) c wake1
        else (case defer_forget s1 c wake1 of
                (True, s2, wake2) \<Rightarrow> Some (s2, wake2)
              | (False, s2, wake2) \<Rightarrow> forget_in_table s2 c wake2)
      })"

section \<open>Callers\<close>

definition open_caller :: "store \<Rightarrow> (nat \<times> store) option" where
  "open_caller s =
     do {
       let cid = st_next_caller_id s;
       n \<leftarrow> inc_usize cid;
       Some (cid, s\<lparr>st_next_caller_id := n, st_callers := om_put cid waiters_new (st_callers s)\<rparr>)
     }"

fun forget_each :: "store \<Rightarrow> correlation list \<Rightarrow> waker list \<Rightarrow> (store \<times> waker list) option" where
  "forget_each s [] wake = Some (s, wake)"
| "forget_each s (c # cs) wake =
     do { (s1, wake1) \<leftarrow> store_forget s c wake; forget_each s1 cs wake1 }"

definition close_caller ::
    "store \<Rightarrow> nat \<Rightarrow> waker list \<Rightarrow> (waiters option \<times> store \<times> waker list) option" where
  "close_caller s cid wake =
     do {
       let wts = om_get (st_callers s) cid;
       let s1 = s\<lparr>st_callers := om_del cid (st_callers s)\<rparr>;
       let sent = map (\<lambda>p. ce_correlation (snd p))
                    (filter (\<lambda>p. ce_caller (snd p) = cid) (st_calls s1));
       (s2, wake2) \<leftarrow> forget_each s1 sent wake;
       Some (wts, s2, wake2)
     }"

definition wait_slot :: "store \<Rightarrow> nat \<Rightarrow> waker \<Rightarrow> waker list \<Rightarrow> store \<times> waker list" where
  "wait_slot s cid w wake =
     (let ready = length (st_calls s) < SLOTS in
      case om_get (st_callers s) cid of
        None \<Rightarrow> (s, wake @ [w])
      | Some wts \<Rightarrow>
          (let (wts1, wake1) = register_waiter wts ISlot w ready wake
           in (s\<lparr>st_callers := om_put cid wts1 (st_callers s)\<rparr>, wake1)))"

section \<open>Handlers\<close>

definition handler_default :: handler_state where
  "handler_default = \<lparr>hs_served = [], hs_waiters = waiters_new\<rparr>"

definition open_handler :: "store \<Rightarrow> (nat \<times> store) option" where
  "open_handler s =
     do {
       let hid = st_next_handler_id s;
       n \<leftarrow> inc_usize hid;
       Some (hid, s\<lparr>st_next_handler_id := n, st_handlers := om_put hid handler_default (st_handlers s)\<rparr>)
     }"

text \<open>The first loop of \<open>close_handler\<close>, on one call: the entry, the table, the wakers, and the
  correlation when its deferred \<open>forget\<close> is due.\<close>

definition release_settled ::
    "nat \<Rightarrow> nat \<Rightarrow> call_entry \<Rightarrow> table \<Rightarrow> waker list \<Rightarrow>
     call_entry \<times> table \<times> waker list \<times> correlation list" where
  "release_settled hid slot e t wake =
     (if ce_settled_by e = Some hid then
        (let (e1, wake1) = release_parameters (e\<lparr>ce_settled_by := None\<rparr>) wake;
             (ws, t1) = take_streams t slot
         in (e1\<lparr>ce_pending_forget := False\<rparr>, t1, wake1 @ ws,
             if ce_pending_forget e then [ce_correlation e] else []))
      else (e, t, wake, []))"

definition release_call ::
    "nat \<Rightarrow> (claim_id, claim_owner) omap \<Rightarrow> nat \<Rightarrow> call_entry \<Rightarrow> table \<Rightarrow> waker list \<Rightarrow>
     call_entry \<times> table \<times> waker list \<times> correlation list" where
  "release_call hid claims slot e t wake =
     (let holds = (case do { i \<leftarrow> ce_claim e; om_get claims i } of
                     Some o1 \<Rightarrow> co_handler o1 = hid | None \<Rightarrow> False) in
      if holds \<or> ce_settled_by e = Some hid then
        (let (e1, t1, wake1, released) = release_settled hid slot e t wake;
             (ws, sts) = om_visit (\<lambda>_ st. (opt_list (ss_claim_waker st), st\<lparr>ss_claim_waker := None\<rparr>))
                           (ce_streams e1)
         in (e1\<lparr>ce_streams := sts\<rparr>, t1, wake1 @ ws, released))
      else (e, t, wake, []))"

fun release_calls ::
    "nat \<Rightarrow> (claim_id, claim_owner) omap \<Rightarrow> (nat \<times> call_entry) list \<Rightarrow> table \<Rightarrow> waker list \<Rightarrow>
     (nat \<times> call_entry) list \<times> table \<times> waker list \<times> correlation list" where
  "release_calls hid claims [] t wake = ([], t, wake, [])"
| "release_calls hid claims ((slot, e) # rest) t wake =
     (let (e1, t1, wake1, rel) = release_call hid claims slot e t wake;
          (rest1, t2, wake2, rels) = release_calls hid claims rest t1 wake1
      in ((slot, e1) # rest1, t2, wake2, rel @ rels))"

fun forget_in_table_each ::
    "store \<Rightarrow> correlation list \<Rightarrow> waker list \<Rightarrow> (store \<times> waker list) option" where
  "forget_in_table_each s [] wake = Some (s, wake)"
| "forget_in_table_each s (c # cs) wake =
     do { (s1, wake1) \<leftarrow> forget_in_table s c wake; forget_in_table_each s1 cs wake1 }"

definition interrupt_claim ::
    "store \<Rightarrow> correlation \<Rightarrow> waker list \<Rightarrow> (store \<times> waker list) option" where
  "interrupt_claim s c wake =
     do {
       e \<leftarrow> om_get (st_calls s) (slot_of c);
       let (e1, wake1) = release_parameters e wake;
       let (st, e2) = entry_stream e1 REPLY_STREAM;
       let st1 = (if \<not> stream_finished st
                  then st\<lparr>ss_stopped := Some (INTERRUPTED, Side_Provider)\<rparr> else st);
       let e3 = put_stream e2 REPLY_STREAM (st1\<lparr>ss_claim_waker := None\<rparr>);
       let s1 = put_call s (slot_of c) e3;
       let wake2 = wake1 @ opt_list (ss_claim_waker st1);
       (case settle (st_table s1) c (Inl INTERRUPTED) of
          (Recorded w, t) \<Rightarrow>
            (let (ws, t1) = take_streams t (slot_of c)
             in Some (s1\<lparr>st_table := t1\<rparr>, wake2 @ opt_list w @ ws))
        | (SettledReclaimed, t) \<Rightarrow> Some (reclaimed (s1\<lparr>st_table := t\<rparr>) c wake2)
        | (SettledUnknown, _) \<Rightarrow> None)
     }"

text \<open>
  \<open>partition_point\<close> on the waiting calls, which are in send order: the number of calls sent
  before \<open>sent\<close>. Each comparison indexes the map of calls.
\<close>

fun sent_before :: "store \<Rightarrow> u64 \<Rightarrow> correlation list \<Rightarrow> nat option" where
  "sent_before s sent [] = Some 0"
| "sent_before s sent (c # cs) =
     do {
       e \<leftarrow> om_get (st_calls s) (slot_of c);
       if ce_sent e < sent then map_option Suc (sent_before s sent cs) else Some 0
     }"

text \<open>The second loop of \<open>close_handler\<close>, on one claim the handler held.\<close>

definition return_claim ::
    "store \<Rightarrow> claim_id \<Rightarrow> waker list \<Rightarrow> (store \<times> waker list) option" where
  "return_claim s i wake =
     do {
       own \<leftarrow> om_get (st_claims s) i;
       let s1 = s\<lparr>st_claims := om_del i (st_claims s)\<rparr>;
       let c = co_call own;
       e \<leftarrow> entry_of s1 c;
       if ce_forgotten e then
         withdraw (if co_taken own then s1
                   else s1\<lparr>st_pending := remove1 c (st_pending s1)\<rparr>) c wake
       else if \<not> co_taken own then Some (s1, wake)
       else if ce_provider_used_streams e then interrupt_claim s1 c wake
       else do {
         n \<leftarrow> sent_before s1 (ce_sent e) (st_pending s1);
         Some (wake_handlers_serving
                 (s1\<lparr>st_pending := take n (st_pending s1) @ c # drop n (st_pending s1)\<rparr>)
                 (ce_iface e, ce_ord e) wake)
       }
     }"

fun return_claims :: "store \<Rightarrow> claim_id list \<Rightarrow> waker list \<Rightarrow> (store \<times> waker list) option" where
  "return_claims s [] wake = Some (s, wake)"
| "return_claims s (i # is) wake =
     do { (s1, wake1) \<leftarrow> return_claim s i wake; return_claims s1 is wake1 }"

definition close_handler ::
    "store \<Rightarrow> nat \<Rightarrow> waker list \<Rightarrow> (waiters option \<times> store \<times> waker list) option" where
  "close_handler s hid wake =
     do {
       let wts = map_option hs_waiters (om_get (st_handlers s) hid);
       let s1 = s\<lparr>st_handlers := om_del hid (st_handlers s)\<rparr>;
       let (cs, t, wake1, released) =
         release_calls hid (st_claims s1) (st_calls s1) (st_table s1) wake;
       (s2, wake2) \<leftarrow> forget_in_table_each (s1\<lparr>st_calls := cs, st_table := t\<rparr>) released wake1;
       let held = map fst (filter (\<lambda>p. co_handler (snd p) = hid) (st_claims s2));
       (s3, wake3) \<leftarrow> return_claims s2 held wake2;
       Some (wts, s3, wake3)
     }"

text \<open>The scan of the waiting calls: the position of the first call the handler serves.\<close>

fun find_served :: "store \<Rightarrow> handler_state \<Rightarrow> correlation list \<Rightarrow> nat option option" where
  "find_served s h [] = Some None"
| "find_served s h (c # cs) =
     do {
       e \<leftarrow> entry_of s c;
       if serves h (ce_iface e, ce_ord e) then Some (Some 0)
       else map_option (map_option Suc) (find_served s h cs)
     }"

definition claim_waiting :: "store \<Rightarrow> nat \<Rightarrow> bool option" where
  "claim_waiting s hid =
     (case om_get (st_handlers s) hid of
        None \<Rightarrow> Some False
      | Some h \<Rightarrow> map_option (\<lambda>p. p \<noteq> None) (find_served s h (st_pending s)))"

definition store_serve ::
    "store \<Rightarrow> nat \<Rightarrow> interface_no \<Rightarrow> ordinal list \<Rightarrow> waker list \<Rightarrow> (store \<times> waker list) option" where
  "store_serve s hid i ords wake =
     (case om_get (st_handlers s) hid of
        None \<Rightarrow> Some (s, wake)
      | Some h \<Rightarrow>
          (let served = fold (\<lambda>k sv. if (i, k) \<in> set sv then sv else sv @ [(i, k)]) ords (hs_served h);
               (taken, wts) = waiters_take (hs_waiters h) (IClaim i);
               s1 = s\<lparr>st_handlers := om_put hid \<lparr>hs_served = served, hs_waiters = wts\<rparr> (st_handlers s)\<rparr>
           in case taken of
                None \<Rightarrow> Some (s1, wake)
              | Some w \<Rightarrow>
                  do {
                    waiting \<leftarrow> claim_waiting s1 hid;
                    if waiting then Some (s1, wake @ [w])
                    else do {
                      h1 \<leftarrow> om_get (st_handlers s1) hid;
                      let (displaced, wts1) = waiters_register (hs_waiters h1) (IClaim i) w;
                      if displaced = None
                      then Some (s1\<lparr>st_handlers := om_put hid (h1\<lparr>hs_waiters := wts1\<rparr>) (st_handlers s1)\<rparr>, wake)
                      else None
                    }
                  }))"

definition wait_claim ::
    "store \<Rightarrow> nat \<Rightarrow> interest \<Rightarrow> waker \<Rightarrow> waker list \<Rightarrow> (store \<times> waker list) option" where
  "wait_claim s hid what w wake =
     do {
       ready \<leftarrow> claim_waiting s hid;
       (case om_get (st_handlers s) hid of
          None \<Rightarrow> Some (s, wake @ [w])
        | Some h \<Rightarrow>
            (let (wts, wake1) = register_waiter (hs_waiters h) what w ready wake
             in Some (s\<lparr>st_handlers := om_put hid (h\<lparr>hs_waiters := wts\<rparr>) (st_handlers s)\<rparr>, wake1)))
     }"

definition remove_at :: "nat \<Rightarrow> 'a list \<Rightarrow> 'a list" where
  "remove_at n xs = take n xs @ drop (Suc n) xs"

definition claim_identity :: "store \<Rightarrow> correlation \<Rightarrow> (claim_id \<times> store) option" where
  "claim_identity s c =
     do {
       e \<leftarrow> om_get (st_calls s) (slot_of c);
       (case ce_claim e of
          Some i \<Rightarrow> Some (i, s)
        | None \<Rightarrow>
            do {
              n \<leftarrow> inc_u64 (st_next_claim_id s);
              Some (st_next_claim_id s,
                    (put_call s (slot_of c) (e\<lparr>ce_claim := Some (st_next_claim_id s)\<rparr>))
                      \<lparr>st_next_claim_id := n\<rparr>)
            })
     }"

definition next_claim ::
    "store \<Rightarrow> nat \<Rightarrow> bytes \<Rightarrow> ((read_error + claim option) \<times> bytes \<times> store) option" where
  "next_claim s hid out =
     (case om_get (st_handlers s) hid of
        None \<Rightarrow> Some (Inr None, out, s)
      | Some h \<Rightarrow>
          do {
            found \<leftarrow> find_served s h (st_pending s);
            (case found of
               None \<Rightarrow> Some (Inr None, out, s)
             | Some pos \<Rightarrow>
                 do {
                   let c = st_pending s ! pos;
                   (i, s1) \<leftarrow> claim_identity s c;
                   e \<leftarrow> om_get (st_calls s1) (slot_of c);
                   if length out < length (ce_args e) then
                     Some (Inl (Read_ShortClaim i (length (ce_args e)) (ce_trace e)), out,
                           s1\<lparr>st_claims := om_put i \<lparr>co_call = c, co_handler = hid, co_taken = False\<rparr>
                                (st_claims s1)\<rparr>)
                   else
                     Some (Inr (Some \<lparr>cl_id = i, cl_iface = ce_iface e, cl_ord = ce_ord e,
                                 cl_envelope = ce_envelope e, cl_trace = ce_trace e,
                                 cl_remaining = None, cl_len = length (ce_args e)\<rparr>),
                           put_at out 0 (ce_args e),
                           s1\<lparr>st_pending := remove_at pos (st_pending s1),
                              st_claims := om_put i \<lparr>co_call = c, co_handler = hid, co_taken = True\<rparr>
                                (st_claims s1)\<rparr>)
                 })
          })"

section \<open>Settling a claim\<close>

text \<open>What a recorded settlement changes in the call's entry.\<close>

definition settle_entry ::
    "call_entry \<Rightarrow> nat \<Rightarrow> call_error + bytes \<Rightarrow> waker list \<Rightarrow> call_entry \<times> waker list" where
  "settle_entry e hid out wake =
     (let e1 = (case out of Inr b \<Rightarrow> e\<lparr>ce_reply := b\<rparr> | Inl _ \<Rightarrow> e)\<lparr>ce_settled_by := Some hid\<rparr>;
          (e2, wake1) = (if ce_kind e1 = CK_Query \<or> isl out
                         then release_parameters e1 wake else (e1, wake));
          (st, e3) = entry_stream e2 REPLY_STREAM;
          st1 = (if \<not> stream_finished st
                 then (case out of
                         Inr _ \<Rightarrow> st\<lparr>ss_ended := True\<rparr>
                       | Inl err \<Rightarrow> st\<lparr>ss_stopped := Some (err, Side_Provider)\<rparr>)
                 else st)
      in (put_stream e3 REPLY_STREAM st1, wake1))"

definition settle_call ::
    "store \<Rightarrow> correlation \<Rightarrow> nat \<Rightarrow> call_error + bytes \<Rightarrow> waker list \<Rightarrow> (store \<times> waker list) option" where
  "settle_call s c hid out wake =
     (case settle (st_table s) c (map_sum id (\<lambda>_. ()) out) of
        (Recorded w, t) \<Rightarrow>
          do {
            e \<leftarrow> om_get (st_calls s) (slot_of c);
            let (e1, wake1) = settle_entry e hid out wake;
            let (ws, t1) = take_streams t (slot_of c);
            release_if_drained ((put_call s (slot_of c) e1)\<lparr>st_table := t1\<rparr>) (slot_of c)
              (wake1 @ opt_list w @ ws)
          }
      | (SettledReclaimed, t) \<Rightarrow> Some (reclaimed (s\<lparr>st_table := t\<rparr>) c wake)
      | (SettledUnknown, _) \<Rightarrow> None)"

definition settle_admit :: "store \<Rightarrow> correlation \<Rightarrow> call_error + bytes \<Rightarrow> (nat + unit) option" where
  "settle_admit s c out =
     (case out of
        Inl _ \<Rightarrow> Some (Inr ())
      | Inr reply \<Rightarrow>
          do {
            e \<leftarrow> entry_of s c;
            Some (store_admit s (ce_iface e, ce_ord e) (call_kind_kind (ce_kind e)) (length reply))
          })"

definition store_settle ::
    "store \<Rightarrow> nat \<Rightarrow> claim_id \<Rightarrow> call_error + bytes \<Rightarrow> waker list \<Rightarrow>
     ((settle_error + unit) \<times> store \<times> waker list) option" where
  "store_settle s hid i out wake =
     (case om_get (st_claims s) i of
        None \<Rightarrow> Some (Inl Settle_UnknownClaim, s, wake)
      | Some own \<Rightarrow>
          if co_handler own \<noteq> hid then Some (Inl Settle_UnknownClaim, s, wake)
          else do {
            let c = co_call own;
            admitted \<leftarrow> settle_admit s c out;
            (case admitted of
               Inl cap \<Rightarrow> Some (Inl (Settle_TooLarge cap), s, wake)
             | Inr _ \<Rightarrow>
                 if st_fail_next_settle s
                 then Some (Inl (Settle_TooLarge 0), s\<lparr>st_fail_next_settle := False\<rparr>, wake)
                 else do {
                   let s1 = s\<lparr>st_claims := om_del i (st_claims s),
                              st_pending := (if co_taken own then st_pending s
                                             else remove1 c (st_pending s))\<rparr>;
                   (s2, wake2) \<leftarrow> settle_call s1 c hid out wake;
                   Some (Inr (), s2, wake2)
                 })
          })"

section \<open>The operations on a stream\<close>

definition claim_slot :: "store \<Rightarrow> nat \<Rightarrow> claim_id \<Rightarrow> nat option" where
  "claim_slot s hid i =
     (case find (\<lambda>p. ce_claim (snd p) = Some i) (st_calls s) of
        None \<Rightarrow> None
      | Some (slot, e) \<Rightarrow>
          (let holder = (case om_get (st_claims s) i of
                           Some own \<Rightarrow> if co_taken own then Some (co_handler own) else None
                         | None \<Rightarrow> ce_settled_by e)
           in if holder = Some hid then Some slot else None))"

definition take_stream_waker ::
    "store \<Rightarrow> nat \<Rightarrow> stream_no \<Rightarrow> side \<Rightarrow> waker option \<times> store" where
  "take_stream_waker s slot no sd =
     (case om_get (st_calls s) slot of
        None \<Rightarrow> (None, s)
      | Some e \<Rightarrow>
          (case sd of
             Side_Caller \<Rightarrow>
               (let (w, t) = take_stream (st_table s) (ce_correlation e) no
                in (w, s\<lparr>st_table := t\<rparr>))
           | Side_Provider \<Rightarrow>
               (case om_get (ce_streams e) no of
                  None \<Rightarrow> (None, s)
                | Some st \<Rightarrow>
                    (ss_claim_waker st,
                     put_call s slot (put_stream e no (st\<lparr>ss_claim_waker := None\<rparr>))))))"

definition mark_used :: "side \<Rightarrow> call_entry \<Rightarrow> call_entry" where
  "mark_used sd e = (if sd = Side_Provider then e\<lparr>ce_provider_used_streams := True\<rparr> else e)"

definition store_pull ::
    "store \<Rightarrow> nat \<Rightarrow> side \<Rightarrow> stream_no \<Rightarrow> bytes \<Rightarrow> waker list \<Rightarrow>
     ((read_error + pull) \<times> bytes \<times> store \<times> waker list) option" where
  "store_pull s slot sd no out wake =
     (if producer no = sd then Some (Inl (Read_Contract UnknownInteraction), out, s, wake)
      else do {
        e \<leftarrow> om_get (st_calls s) slot;
        let (st, e1) = entry_stream e no;
        (case ss_chunks st of
           [] \<Rightarrow>
             (case (if ss_ended st then Some Pull_End
                    else map_option (\<lambda>(err, _). Pull_Failed err) (ss_stopped st)) of
                None \<Rightarrow> Some (Inr Pull_Pending, out, put_call s slot e1, wake)
              | Some p \<Rightarrow>
                  if sd = Side_Provider then
                    do {
                      (s2, wake2) \<leftarrow> release_if_drained
                        (put_call s slot (mark_used sd (put_stream e1 no (st\<lparr>ss_drained := True\<rparr>)))) slot wake;
                      Some (Inr p, out, s2, wake2)
                    }
                  else Some (Inr p, out, put_call s slot e1, wake))
         | chunk # rest \<Rightarrow>
             if length out < length chunk then
               Some (Inl (Read_Short (length chunk)), out, put_call s slot e1, wake)
             else
               (let s1 = put_call s slot (mark_used sd (put_stream e1 no (st\<lparr>ss_chunks := rest\<rparr>)));
                    (w, s2) = take_stream_waker s1 slot no (side_other sd)
                in Some (Inr (Pull_Chunk (length chunk)), put_at out 0 chunk, s2, wake @ opt_list w)))
      })"

definition store_push ::
    "store \<Rightarrow> nat \<Rightarrow> side \<Rightarrow> stream_no \<Rightarrow> bytes \<Rightarrow> waker list \<Rightarrow>
     ((push_error + nat) \<times> store \<times> waker list) option" where
  "store_push s slot sd no chunk wake =
     (if producer no \<noteq> sd then Some (Inl (Push_Contract UnknownInteraction), s, wake)
      else do {
        e \<leftarrow> om_get (st_calls s) slot;
        if sd = Side_Provider \<and> ce_forgotten e then Some (Inl (Push_Failed INTERRUPTED), s, wake)
        else
          (let (st, e1) = entry_stream e no; s1 = put_call s slot e1 in
           case stream_closed st sd of
             Some err \<Rightarrow> Some (Inl err, s1, wake)
           | None \<Rightarrow>
               (case store_admit s1 (ce_iface e, ce_ord e) (call_kind_kind (ce_kind e)) (length chunk) of
                  Inl cap \<Rightarrow> Some (Inl (Push_TooLarge cap), s1, wake)
                | Inr _ \<Rightarrow>
                    if chunk \<noteq> [] \<and> stream_full st then Some (Inr 0, s1, wake)
                    else
                      (let s2 = put_call s1 slot
                             (mark_used sd (put_stream e1 no (st\<lparr>ss_chunks := ss_chunks st @ [chunk]\<rparr>)));
                           (w, s3) = take_stream_waker s2 slot no (side_other sd)
                       in Some (Inr (length chunk), s3, wake @ opt_list w))))
      })"

definition store_end ::
    "store \<Rightarrow> nat \<Rightarrow> side \<Rightarrow> stream_no \<Rightarrow> waker list \<Rightarrow>
     ((push_error + unit) \<times> store \<times> waker list) option" where
  "store_end s slot sd no wake =
     (if producer no \<noteq> sd then Some (Inl (Push_Contract UnknownInteraction), s, wake)
      else do {
        e \<leftarrow> om_get (st_calls s) slot;
        if sd = Side_Provider \<and> ce_forgotten e then Some (Inl (Push_Failed INTERRUPTED), s, wake)
        else
          (let (st, e1) = entry_stream e no in
           case stream_closed st sd of
             Some err \<Rightarrow> Some (Inl err, put_call s slot e1, wake)
           | None \<Rightarrow>
               (let s1 = put_call s slot (put_stream e1 no (st\<lparr>ss_ended := True\<rparr>));
                    (w, s2) = take_stream_waker s1 slot no (side_other sd)
                in Some (Inr (), s2, wake @ opt_list w)))
      })"

definition store_abort ::
    "store \<Rightarrow> nat \<Rightarrow> side \<Rightarrow> stream_no \<Rightarrow> call_error \<Rightarrow> waker list \<Rightarrow>
     ((push_error + unit) \<times> store \<times> waker list) option" where
  "store_abort s slot sd no err wake =
     do {
       e0 \<leftarrow> om_get (st_calls s) slot;
       let (st, e1) = entry_stream (mark_used sd e0) no;
       let receiver = (producer no \<noteq> sd);
       if stream_finished st then
         (if receiver then
            (let st1 = st\<lparr>ss_chunks := []\<rparr> in
             if sd = Side_Provider then
               do {
                 (s2, wake2) \<leftarrow> release_if_drained
                   (put_call s slot (put_stream e1 no (st1\<lparr>ss_drained := True\<rparr>))) slot wake;
                 Some (Inl Push_Ended, s2, wake2)
               }
             else Some (Inl Push_Ended, put_call s slot (put_stream e1 no st1), wake))
          else Some (Inl Push_Ended, put_call s slot e1, wake))
       else
         (let st1 = st\<lparr>ss_stopped := Some (err, sd)\<rparr>;
              st2 = (if receiver then st1\<lparr>ss_chunks := []\<rparr> else st1);
              st3 = (if sd = Side_Provider then st2\<lparr>ss_drained := True\<rparr> else st2);
              s1 = put_call s slot (put_stream e1 no st3);
              (w, s2) = take_stream_waker s1 slot no (side_other sd);
              wake2 = wake @ opt_list w
          in if sd = Side_Provider then
               do { (s3, wake3) \<leftarrow> release_if_drained s2 slot wake2; Some (Inr (), s3, wake3) }
             else Some (Inr (), s2, wake2))
     }"

fun push_error_of :: "settle_error \<Rightarrow> push_error" where
  "push_error_of Settle_UnknownClaim = Push_Contract UnknownInteraction"
| "push_error_of (Settle_TooLarge cap) = Push_TooLarge cap"
| "push_error_of Settle_Detached = Push_Detached"

definition end_claim ::
    "store \<Rightarrow> nat \<Rightarrow> claim_id \<Rightarrow> stream_no \<Rightarrow> waker list \<Rightarrow>
     ((push_error + unit) \<times> store \<times> waker list) option" where
  "end_claim s hid i no wake =
     (case claim_slot s hid i of
        None \<Rightarrow> Some (Inl (Push_Contract UnknownInteraction), s, wake)
      | Some slot \<Rightarrow>
          if no = REPLY_STREAM \<and> om_get (st_claims s) i \<noteq> None then
            do {
              e \<leftarrow> om_get (st_calls s) slot;
              let (verdict, s1) =
                (if ce_forgotten e then (Some (Push_Failed INTERRUPTED), s)
                 else let (st, e1) = entry_stream e no
                      in (stream_closed st Side_Provider, put_call s slot e1));
              let out = (case verdict of Some (Push_Failed err) \<Rightarrow> Inl err | _ \<Rightarrow> Inr []);
              (r, s2, wake2) \<leftarrow> store_settle s1 hid i out wake;
              Some (case r of
                      Inl err \<Rightarrow> Inl (push_error_of err)
                    | Inr _ \<Rightarrow> (case verdict of Some err \<Rightarrow> Inl err | None \<Rightarrow> Inr ()), s2, wake2)
            }
          else store_end s slot Side_Provider no wake)"

definition abort_claim ::
    "store \<Rightarrow> nat \<Rightarrow> claim_id \<Rightarrow> stream_no \<Rightarrow> call_error \<Rightarrow> waker list \<Rightarrow>
     ((push_error + unit) \<times> store \<times> waker list) option" where
  "abort_claim s hid i no err wake =
     (case claim_slot s hid i of
        None \<Rightarrow> Some (Inl (Push_Contract UnknownInteraction), s, wake)
      | Some slot \<Rightarrow>
          if no = REPLY_STREAM \<and> om_get (st_claims s) i \<noteq> None then
            do {
              e \<leftarrow> om_get (st_calls s) slot;
              let (st, e1) = entry_stream e no;
              (r, s2, wake2) \<leftarrow> store_settle (put_call s slot e1) hid i (Inl err) wake;
              Some (case r of
                      Inl e2 \<Rightarrow> Inl (push_error_of e2)
                    | Inr _ \<Rightarrow> if stream_finished st then Inl Push_Ended else Inr (), s2, wake2)
            }
          else store_abort s slot Side_Provider no err wake)"

definition wait_stream ::
    "store \<Rightarrow> correlation \<Rightarrow> stream_no \<Rightarrow> waker \<Rightarrow> waker list \<Rightarrow> store \<times> waker list" where
  "wait_stream s c no w wake =
     (if forgotten_pending s c then (s, wake @ [w])
      else let (bk, t) = wake_on_stream (st_table s) c no w
           in (s\<lparr>st_table := t\<rparr>, wake @ opt_list bk))"

definition wait_claim_stream ::
    "store \<Rightarrow> nat \<Rightarrow> claim_id \<Rightarrow> stream_no \<Rightarrow> waker \<Rightarrow> waker list \<Rightarrow> (store \<times> waker list) option" where
  "wait_claim_stream s hid i no w wake =
     (case claim_slot s hid i of
        None \<Rightarrow> Some (s, wake @ [w])
      | Some slot \<Rightarrow>
          do {
            e \<leftarrow> om_get (st_calls s) slot;
            if ce_forgotten e then Some (s, wake @ [w])
            else
              (let (st, e1) = entry_stream e no in
               if stream_finished st then Some (put_call s slot e1, wake @ [w])
               else
                 Some (put_call s slot (put_stream e1 no (st\<lparr>ss_claim_waker := Some w\<rparr>)),
                       wake @ opt_list (case ss_claim_waker st of
                         Some d \<Rightarrow> if will_wake d w then None else Some d | None \<Rightarrow> None)))
          })"

definition store_fail_next_settle :: "store \<Rightarrow> store" where
  "store_fail_next_settle s = s\<lparr>st_fail_next_settle := True\<rparr>"

end
