(* ===== verification/Lb_Invariant.thy ===== *)
theory Lb_Invariant
  imports Lb_Calls
begin

text \<open>
  The invariant of the calls of the in-process runtime, over the map from correlations to the
  entries the store keeps for them. A call is waiting, offered to a handler, taken by a handler
  or settled, and the call table, the queue of waiting calls, the claims and the entry agree on
  which. Every operation of the store changes one call at a time, so one lemma (\<open>core_single\<close>)
  carries the invariant over every change.
\<close>

section \<open>The calls of a store\<close>

definition call_at :: "store \<Rightarrow> correlation \<Rightarrow> call_entry option" where
  "call_at s c =
     (case om_get (st_calls s) (slot_of c) of
        Some e \<Rightarrow> if ce_correlation e = c then Some e else None
      | None \<Rightarrow> None)"

definition owner :: "(claim_id \<Rightarrow> claim_owner option) \<Rightarrow> call_entry \<Rightarrow> claim_owner option" where
  "owner ow e = (case ce_claim e of None \<Rightarrow> None | Some i \<Rightarrow> ow i)"

text \<open>
  Where the call is. Waiting and held by no handler: in flight, not forgotten, not settled. Held
  by a handler: in flight, and among the waiting calls exactly when it was only offered. Neither:
  settled.
\<close>

definition place_ok :: "call_state \<Rightarrow> bool \<Rightarrow> claim_owner option \<Rightarrow> call_entry \<Rightarrow> bool" where
  "place_ok cst waiting own e \<longleftrightarrow>
     (case own of
        None \<Rightarrow>
          if waiting then cst = InFlight False \<and> \<not> ce_forgotten e \<and> ce_settled_by e = None
          else (\<exists>out. cst = Settled out)
      | Some o1 \<Rightarrow> (\<exists>f. cst = InFlight f) \<and> ce_settled_by e = None \<and> (waiting \<longleftrightarrow> \<not> co_taken o1))"

text \<open>
  The marks of a forgotten call. The table knows of the \<open>forget\<close> exactly when it is not deferred,
  and a deferred one is a call some handler holds or settled.
\<close>

definition mark_ok :: "call_state \<Rightarrow> claim_owner option \<Rightarrow> call_entry \<Rightarrow> bool" where
  "mark_ok cst own e \<longleftrightarrow>
     (cst = InFlight True \<longleftrightarrow> ce_forgotten e \<and> \<not> ce_pending_forget e) \<and>
     (ce_pending_forget e \<longrightarrow> ce_forgotten e \<and> (own \<noteq> None \<or> ce_settled_by e \<noteq> None))"

definition call_ok ::
    "(correlation \<Rightarrow> call_state option) \<Rightarrow> correlation list \<Rightarrow> (claim_id \<Rightarrow> claim_owner option) \<Rightarrow>
     claim_id \<Rightarrow> u64 \<Rightarrow> correlation set \<Rightarrow> correlation \<Rightarrow> call_entry \<Rightarrow> bool" where
  "call_ok K P ow nc ns R c e \<longleftrightarrow>
     ce_correlation e = c \<and>
     (\<exists>cst. K c = Some cst \<and> place_ok cst (c \<in> set P) (owner ow e) e \<and>
        (if c \<in> R then \<not> ce_pending_forget e \<and> (\<exists>out. cst = Settled out)
         else mark_ok cst (owner ow e) e)) \<and>
     ce_sent e < ns \<and>
     (\<forall>i. ce_claim e = Some i \<longrightarrow> i < nc \<and> (\<forall>o1. ow i = Some o1 \<longrightarrow> co_call o1 = c))"

definition sent_at :: "(correlation \<Rightarrow> call_entry option) \<Rightarrow> correlation \<Rightarrow> u64" where
  "sent_at E c = ce_sent (the (E c))"

text \<open>
  \<open>R\<close> is the set of calls whose deferred \<open>forget\<close> is about to be completed, which is empty between
  two operations.
\<close>

definition core ::
    "(correlation \<Rightarrow> call_state option) \<Rightarrow> (correlation \<Rightarrow> call_entry option) \<Rightarrow> correlation list \<Rightarrow>
     (claim_id \<Rightarrow> claim_owner option) \<Rightarrow> claim_id \<Rightarrow> u64 \<Rightarrow> correlation set \<Rightarrow> bool" where
  "core K E P ow nc ns R \<longleftrightarrow>
     (\<forall>c e. E c = Some e \<longrightarrow> call_ok K P ow nc ns R c e) \<and>
     (\<forall>c. K c \<noteq> None \<longrightarrow> E c \<noteq> None) \<and>
     (\<forall>c \<in> set P. E c \<noteq> None) \<and>
     sorted_wrt (\<lambda>c d. sent_at E c < sent_at E d) P \<and>
     (\<forall>i o1. ow i = Some o1 \<longrightarrow> (\<exists>e. E (co_call o1) = Some e \<and> ce_claim e = Some i)) \<and>
     (\<forall>c d e f. E c = Some e \<longrightarrow> E d = Some f \<longrightarrow> ce_sent e = ce_sent f \<longrightarrow> c = d) \<and>
     (\<forall>c d e f i. E c = Some e \<longrightarrow> E d = Some f \<longrightarrow> ce_claim e = Some i \<longrightarrow> ce_claim f = Some i \<longrightarrow> c = d)"

lemma coreD:
  assumes "core K E P ow nc ns R"
  shows core_call: "E c = Some e \<Longrightarrow> call_ok K P ow nc ns R c e"
    and core_dom: "K c \<noteq> None \<Longrightarrow> E c \<noteq> None"
    and core_pending: "c \<in> set P \<Longrightarrow> E c \<noteq> None"
    and core_sorted: "sorted_wrt (\<lambda>c d. sent_at E c < sent_at E d) P"
    and core_owner: "ow i = Some o1 \<Longrightarrow> \<exists>e. E (co_call o1) = Some e \<and> ce_claim e = Some i"
    and core_sent_inj: "E c = Some e \<Longrightarrow> E d = Some f \<Longrightarrow> ce_sent e = ce_sent f \<Longrightarrow> c = d"
    and core_claim_inj:
      "E c = Some e \<Longrightarrow> E d = Some f \<Longrightarrow> ce_claim e = Some i \<Longrightarrow> ce_claim f = Some i \<Longrightarrow> c = d"
  using assms unfolding core_def by blast+

lemma call_okD:
  assumes "call_ok K P ow nc ns R c e"
  shows call_ok_correlation: "ce_correlation e = c"
    and call_ok_state: "\<exists>cst. K c = Some cst \<and> place_ok cst (c \<in> set P) (owner ow e) e \<and>
        (c \<notin> R \<longrightarrow> mark_ok cst (owner ow e) e)"
    and call_ok_sent: "ce_sent e < ns"
    and call_ok_claim: "ce_claim e = Some i \<Longrightarrow> i < nc"
    and call_ok_owner: "ce_claim e = Some i \<Longrightarrow> ow i = Some o1 \<Longrightarrow> co_call o1 = c"
  using assms unfolding call_ok_def by (auto split: if_splits)

text \<open>
  One call changes: its entry, its state, its place among the waiting calls, and the claims under
  its own identity.
\<close>

lemma core_single:
  assumes core: "core K E P ow nc ns R"
    and K: "\<forall>d. d \<noteq> c \<longrightarrow> K' d = K d" and E: "\<forall>d. d \<noteq> c \<longrightarrow> E' d = E d"
    and P: "\<forall>d. d \<noteq> c \<longrightarrow> (d \<in> set P' \<longleftrightarrow> d \<in> set P)"
    and R: "\<forall>d. d \<noteq> c \<longrightarrow> (d \<in> R' \<longleftrightarrow> d \<in> R)"
    and ow: "\<forall>i. ow' i \<noteq> ow i \<longrightarrow>
        (\<exists>e. E c = Some e \<and> ce_claim e = Some i) \<or> (\<exists>e. E' c = Some e \<and> ce_claim e = Some i)"
    and ow_c: "\<forall>i o1. ow' i = Some o1 \<longrightarrow> ow' i \<noteq> ow i \<or> co_call o1 = c \<longrightarrow>
        co_call o1 = c \<and> (\<exists>e. E' c = Some e \<and> ce_claim e = Some i)"
    and bounds: "nc \<le> nc'" "ns \<le> ns'"
    and none: "E' c = None \<Longrightarrow> K' c = None \<and> c \<notin> set P'"
    and some: "\<And>e. E' c = Some e \<Longrightarrow> call_ok K' P' ow' nc' ns' R' c e"
    and claim_new: "\<And>e d f i. E' c = Some e \<Longrightarrow> ce_claim e = Some i \<Longrightarrow> d \<noteq> c \<Longrightarrow> E d = Some f \<Longrightarrow>
        ce_claim f \<noteq> Some i"
    and sent_new: "\<And>e d f. E' c = Some e \<Longrightarrow> d \<noteq> c \<Longrightarrow> E d = Some f \<Longrightarrow> ce_sent f \<noteq> ce_sent e"
    and sorted: "sorted_wrt (\<lambda>c d. sent_at E' c < sent_at E' d) P'"
  shows "core K' E' P' ow' nc' ns' R'"
proof -
  have other: "call_ok K' P' ow' nc' ns' R' d f" if d: "d \<noteq> c" and f: "E d = Some f" for d f
  proof -
    note ok = core_call [OF core f]
    have same: "ow' i = ow i" if i: "ce_claim f = Some i" for i
    proof (rule ccontr)
      assume "ow' i \<noteq> ow i"
      with ow consider e where "E c = Some e" "ce_claim e = Some i"
        | e where "E' c = Some e" "ce_claim e = Some i" by blast
      then show False
        using core_claim_inj [OF core _ f _ i] claim_new d f i by cases blast+
    qed
    have "owner ow' f = owner ow f" using same by (auto simp: owner_def split: option.split)
    with ok same show ?thesis
      using K P R d bounds unfolding call_ok_def by auto
  qed
  show ?thesis
    unfolding core_def
  proof (intro conjI allI impI ballI)
    fix d f assume "E' d = Some f"
    then show "call_ok K' P' ow' nc' ns' R' d f"
      using some other E by (cases "d = c") auto
  next
    fix d assume "K' d \<noteq> None"
    then show "E' d \<noteq> None"
      using none K E core_dom [OF core] by (cases "d = c"; cases "E' c") auto
  next
    fix d assume "d \<in> set P'"
    then show "E' d \<noteq> None"
      using none P E core_pending [OF core] by (cases "d = c"; cases "E' c") auto
  next
    fix i o1 assume i: "ow' i = Some o1"
    show "\<exists>e. E' (co_call o1) = Some e \<and> ce_claim e = Some i"
    proof (cases "ow' i \<noteq> ow i \<or> co_call o1 = c")
      case True
      with ow_c i show ?thesis by metis
    next
      case False
      with i core_owner [OF core, of i o1] E show ?thesis by metis
    qed
  next
    fix a d e f assume "E' a = Some e" "E' d = Some f" "ce_sent e = ce_sent f"
    then show "a = d"
      using sent_new E core_sent_inj [OF core] by metis
  next
    fix a d e f i
    assume "E' a = Some e" "E' d = Some f" "ce_claim e = Some i" "ce_claim f = Some i"
    then show "a = d"
      using claim_new E core_claim_inj [OF core] by metis
  qed (fact sorted)
qed


section \<open>Changes of one call\<close>

text \<open>A change of an entry that leaves the identity of the call and its marks alone.\<close>

definition kin :: "call_entry \<Rightarrow> call_entry \<Rightarrow> bool" where
  "kin e e' \<longleftrightarrow> ce_correlation e' = ce_correlation e \<and> ce_sent e' = ce_sent e \<and>
     ce_caller e' = ce_caller e \<and> ce_kind e' = ce_kind e \<and> ce_iface e' = ce_iface e \<and>
     ce_ord e' = ce_ord e \<and> ce_args e' = ce_args e \<and> ce_claim e' = ce_claim e"

definition alike :: "call_entry \<Rightarrow> call_entry \<Rightarrow> bool" where
  "alike e e' \<longleftrightarrow> kin e e' \<and> ce_settled_by e' = ce_settled_by e \<and>
     ce_forgotten e' = ce_forgotten e \<and> ce_pending_forget e' = ce_pending_forget e"

lemma kin_refl [simp]: "kin e e"
  by (simp add: kin_def)

lemma alike_refl [simp]: "alike e e"
  by (simp add: alike_def)

lemma alike_trans: "alike e f \<Longrightarrow> alike f g \<Longrightarrow> alike e g"
  by (simp add: alike_def kin_def)

lemma kin_trans: "kin e f \<Longrightarrow> kin f g \<Longrightarrow> kin e g"
  by (simp add: kin_def)

lemma sent_at_update:
  "E c = Some e \<Longrightarrow> ce_sent e' = ce_sent e \<Longrightarrow> sent_at (E(c \<mapsto> e')) = sent_at E"
  by (auto simp: sent_at_def)

lemma core_update:
  assumes core: "core K E P ow nc ns R" and e: "E c = Some e"
    and e': "ce_sent e' = ce_sent e" "ce_claim e' = ce_claim e"
    and ow: "\<forall>i. ow' i \<noteq> ow i \<longrightarrow> ce_claim e = Some i \<and> (\<forall>o1. ow' i = Some o1 \<longrightarrow> co_call o1 = c)"
    and P: "\<forall>d. d \<noteq> c \<longrightarrow> (d \<in> set P' \<longleftrightarrow> d \<in> set P)"
    and R: "\<forall>d. d \<noteq> c \<longrightarrow> (d \<in> R' \<longleftrightarrow> d \<in> R)"
    and sorted: "sorted_wrt (\<lambda>c d. sent_at E c < sent_at E d) P'"
    and ok: "call_ok (K(c \<mapsto> cst)) P' ow' nc ns R' c e'"
  shows "core (K(c \<mapsto> cst)) (E(c \<mapsto> e')) P' ow' nc ns R'"
proof (rule core_single [OF core, of c])
  show "\<forall>i o1. ow' i = Some o1 \<longrightarrow> ow' i \<noteq> ow i \<or> co_call o1 = c \<longrightarrow>
      co_call o1 = c \<and> (\<exists>f. (E(c \<mapsto> e')) c = Some f \<and> ce_claim f = Some i)"
  proof (intro allI impI)
    fix i o1 assume i: "ow' i = Some o1" and d: "ow' i \<noteq> ow i \<or> co_call o1 = c"
    have "ce_claim e = Some i \<and> co_call o1 = c"
      using ow core_owner [OF core, of i o1] e i d by (cases "ow' i = ow i") (simp, metis)+
    then show "co_call o1 = c \<and> (\<exists>f. (E(c \<mapsto> e')) c = Some f \<and> ce_claim f = Some i)"
      using e' by simp
  qed
  show "ce_claim f \<noteq> Some i"
    if "(E(c \<mapsto> e')) c = Some a" "ce_claim a = Some i" "d \<noteq> c" "E d = Some f" for a d f i
    using core_claim_inj [OF core e, of d f i] that e' by auto
  show "ce_sent f \<noteq> ce_sent a"
    if "(E(c \<mapsto> e')) c = Some a" "d \<noteq> c" "E d = Some f" for a d f
    using core_sent_inj [OF core e, of d f] that e' by auto
qed (use assms in \<open>auto simp: sent_at_update\<close>)

lemma call_ok_alike: "call_ok K P ow nc ns R c e \<Longrightarrow> alike e e' \<Longrightarrow> call_ok K P ow nc ns R c e'"
  by (auto simp: call_ok_def alike_def kin_def owner_def place_ok_def mark_ok_def split: option.splits)

lemma core_entry:
  assumes "core K E P ow nc ns R" "E c = Some e" "alike e e'"
  shows "core K (E(c \<mapsto> e')) P ow nc ns R"
proof -
  obtain cst where cst: "K c = Some cst"
    using call_ok_state [OF core_call [OF assms(1,2)]] by blast
  then have "K(c \<mapsto> cst) = K" by auto
  then show ?thesis
    using core_update [OF assms(1,2), of e' ow P R cst] assms call_ok_alike [OF core_call [OF assms(1,2)]]
      core_sorted [OF assms(1)] by (simp add: alike_def kin_def)
qed

lemma core_drop:
  assumes core: "core K E P ow nc ns R" and e: "E c = Some e"
    and P: "\<forall>d. d \<noteq> c \<longrightarrow> (d \<in> set P' \<longleftrightarrow> d \<in> set P)" "c \<notin> set P'"
    and sorted: "sorted_wrt (\<lambda>c d. sent_at E c < sent_at E d) P'"
    and ow: "\<forall>i. ow' i \<noteq> ow i \<longrightarrow> ce_claim e = Some i" "\<forall>i o1. ow' i = Some o1 \<longrightarrow> ow i = Some o1"
      "owner ow' e = None"
  shows "core (K(c := None)) (E(c := None)) P' ow' nc ns (R - {c})"
proof (rule core_single [OF core, of c])
  have no: "co_call o1 \<noteq> c" if "ow' i = Some o1" for i o1
  proof
    assume "co_call o1 = c"
    then have "ce_claim e = Some i" using core_owner [OF core, of i o1] ow(2) that e by auto
    with ow(3) that show False by (simp add: owner_def)
  qed
  then show "\<forall>i o1. ow' i = Some o1 \<longrightarrow> ow' i \<noteq> ow i \<or> co_call o1 = c \<longrightarrow>
      co_call o1 = c \<and> (\<exists>f. (E(c := None)) c = Some f \<and> ce_claim f = Some i)"
    using ow(2) by metis
  have "sent_at (E(c := None)) d = sent_at E d" if "d \<in> set P'" for d
    using that P(2) by (auto simp: sent_at_def)
  then show "sorted_wrt (\<lambda>a d. sent_at (E(c := None)) a < sent_at (E(c := None)) d) P'"
    using sorted by (simp add: sorted_wrt_iff_nth_less)
qed (use assms in auto)

lemma core_weaken_sorted:
  assumes "sorted_wrt Q P" shows "sorted_wrt Q (remove1 c P)" "sorted_wrt Q (remove_at n P)"
proof -
  show "sorted_wrt Q (remove1 c P)"
    using assms by (induction P) (auto dest: notin_set_remove1)
  have "sorted_wrt Q (take n P @ drop (Suc n) P)"
    using assms by (auto simp: sorted_wrt_append sorted_wrt_take sorted_wrt_drop)
      (metis append_take_drop_id set_drop_subset_set_drop sorted_wrt_append subset_iff
        Suc_n_not_le_n nat_le_linear)
  then show "sorted_wrt Q (remove_at n P)" by (simp add: remove_at_def)
qed


section \<open>The store\<close>

text \<open>
  The table and the maps are well formed, and an entry is kept under the slot of its correlation.
\<close>

definition store_rep :: "store \<Rightarrow> bool" where
  "store_rep s \<longleftrightarrow>
     table_wf (st_table s) \<and> length (slots (st_table s)) = SLOTS \<and>
     om_wf (st_calls s) \<and> om_wf (st_claims s) \<and>
     (\<forall>slot e. om_get (st_calls s) slot = Some e \<longrightarrow> slot_of (ce_correlation e) = slot)"

definition core_of :: "store \<Rightarrow> correlation set \<Rightarrow> bool" where
  "core_of s R \<longleftrightarrow>
     core (calls (st_table s)) (call_at s) (st_pending s) (om_get (st_claims s))
       (st_next_claim_id s) (st_next_sent s) R"

text \<open>A claim is an open handler's, and so is the settlement of a call.\<close>

definition open_ok :: "nat set \<Rightarrow> store \<Rightarrow> bool" where
  "open_ok H s \<longleftrightarrow>
     (\<forall>i o1. om_get (st_claims s) i = Some o1 \<longrightarrow> om_get (st_handlers s) (co_handler o1) \<noteq> None \<or> co_handler o1 \<in> H) \<and>
     (\<forall>c e h. call_at s c = Some e \<longrightarrow> ce_settled_by e = Some h \<longrightarrow> om_get (st_handlers s) h \<noteq> None)"

text \<open>A deferred \<open>forget\<close> waits for a stream parameter the provider has not read to its end.\<close>

definition drains :: "correlation set \<Rightarrow> store \<Rightarrow> bool" where
  "drains U s \<longleftrightarrow>
     (\<forall>c e. call_at s c = Some e \<longrightarrow> c \<notin> U \<longrightarrow> ce_pending_forget e \<longrightarrow> undrained e)"

text \<open>A call that was not forgotten is an open caller's.\<close>

definition callers_ok :: "nat set \<Rightarrow> store \<Rightarrow> bool" where
  "callers_ok C s \<longleftrightarrow>
     (\<forall>c e. call_at s c = Some e \<longrightarrow> \<not> ce_forgotten e \<longrightarrow> om_get (st_callers s) (ce_caller e) \<noteq> None \<or> ce_caller e \<in> C)"

text \<open>
  The stored wakers: a caller's stored \<open>Slot\<close> waker means that every slot is taken, and a handler's
  stored \<open>Claim\<close> waker means that no waiting call is one it serves.
\<close>

definition waiters_ok :: "store \<Rightarrow> bool" where
  "waiters_ok s \<longleftrightarrow>
     (\<forall>cid wts. om_get (st_callers s) cid = Some wts \<longrightarrow> wt_slot wts \<noteq> None \<longrightarrow> length (st_calls s) = SLOTS) \<and>
     (\<forall>hid h c e. om_get (st_handlers s) hid = Some h \<longrightarrow> wt_claim (hs_waiters h) \<noteq> None \<longrightarrow>
        c \<in> set (st_pending s) \<longrightarrow> call_at s c = Some e \<longrightarrow> \<not> serves h (ce_iface e, ce_ord e))"

definition linv :: "correlation set \<Rightarrow> nat set \<Rightarrow> correlation set \<Rightarrow> nat set \<Rightarrow> store \<Rightarrow> bool" where
  "linv R H U C s \<longleftrightarrow> store_rep s \<and> core_of s R \<and> open_ok H s \<and> drains U s \<and> callers_ok C s \<and> waiters_ok s"

definition store_inv :: "store \<Rightarrow> bool" where
  "store_inv s \<longleftrightarrow> linv {} {} {} {} s"

lemma call_at_cong: "st_calls s' = st_calls s \<Longrightarrow> call_at s' = call_at s"
  by (simp add: call_at_def fun_eq_iff)

lemma call_at_get: "call_at s c = Some e \<Longrightarrow> om_get (st_calls s) (slot_of c) = Some e \<and> ce_correlation e = c"
  by (auto simp: call_at_def split: option.splits if_splits)

lemma get_call_at:
  "store_rep s \<Longrightarrow> om_get (st_calls s) slot = Some e \<Longrightarrow>
     call_at s (ce_correlation e) = Some e \<and> slot_of (ce_correlation e) = slot"
  by (auto simp: store_rep_def call_at_def)

lemma call_at_put_call:
  assumes "call_at s c = Some e" "ce_correlation e' = c"
  shows "call_at (put_call s (slot_of c) e') = (call_at s)(c \<mapsto> e')"
  using call_at_get [OF assms(1)] assms(2)
  by (auto simp: call_at_def put_call_def fun_eq_iff)

lemma call_at_del:
  assumes "call_at s c = Some e" "st_calls s' = om_del (slot_of c) (st_calls s)"
  shows "call_at s' = (call_at s)(c := None)"
  using call_at_get [OF assms(1)] assms(2)
  by (auto simp: call_at_def fun_eq_iff)

text \<open>What a change of one call leaves alone.\<close>

definition frame :: "store \<Rightarrow> store \<Rightarrow> bool" where
  "frame s s' \<longleftrightarrow>
     st_next_claim_id s' = st_next_claim_id s \<and> st_next_sent s' = st_next_sent s \<and>
     st_handlers s' = st_handlers s \<and> st_sources s' = st_sources s \<and>
     dom (om_get (st_callers s')) = dom (om_get (st_callers s)) \<and>
     (\<forall>cid wts. om_get (st_callers s') cid = Some wts \<longrightarrow> wt_slot wts \<noteq> None \<longrightarrow>
        om_get (st_callers s) cid = Some wts \<and> length (st_calls s') = length (st_calls s))"

lemma frame_refl [simp]: "frame s s"
  by (simp add: frame_def)

lemma frame_trans: "frame s s1 \<Longrightarrow> frame s1 s2 \<Longrightarrow> frame s s2"
  unfolding frame_def by metis


lemma linvD:
  assumes "linv R H U C s"
  shows linv_rep: "store_rep s" and linv_core: "core_of s R" and linv_open: "open_ok H s"
    and linv_drains: "drains U s" and linv_callers: "callers_ok C s" and linv_waiters: "waiters_ok s"
  using assms by (simp_all add: linv_def)

lemma linv_call: "linv R H U C s \<Longrightarrow> call_at s c = Some e \<Longrightarrow>
    call_ok (calls (st_table s)) (st_pending s) (om_get (st_claims s)) (st_next_claim_id s)
      (st_next_sent s) R c e"
  using core_call by (metis core_of_def linv_core)

lemma waiters_move:
  assumes "waiters_ok s" "frame s s'" "set (st_pending s') \<subseteq> set (st_pending s)"
    and E: "\<forall>d f'. d \<in> set (st_pending s') \<longrightarrow> call_at s' d = Some f' \<longrightarrow>
        (\<exists>f. call_at s d = Some f \<and> ce_iface f' = ce_iface f \<and> ce_ord f' = ce_ord f)"
  shows "waiters_ok s'"
  unfolding waiters_ok_def
proof (intro conjI allI impI)
  fix cid wts assume "om_get (st_callers s') cid = Some wts" "wt_slot wts \<noteq> None"
  then have "om_get (st_callers s) cid = Some wts \<and> length (st_calls s') = length (st_calls s)"
    using assms(2) by (simp add: frame_def)
  then show "length (st_calls s') = SLOTS"
    using assms(1) \<open>wt_slot wts \<noteq> None\<close> by (auto simp: waiters_ok_def)
next
  fix hid h d f'
  assume h: "om_get (st_handlers s') hid = Some h" "wt_claim (hs_waiters h) \<noteq> None"
    and d: "d \<in> set (st_pending s')" "call_at s' d = Some f'"
  from E d obtain f where f: "call_at s d = Some f" "ce_iface f' = ce_iface f" "ce_ord f' = ce_ord f"
    by blast
  have "om_get (st_handlers s) hid = Some h" using h assms(2) by (simp add: frame_def)
  from conjunct2 [OF assms(1) [unfolded waiters_ok_def], rule_format, OF this h(2) _ f(1)]
  show "\<not> serves h (ce_iface f', ce_ord f')"
    using d(1) assms(3) f(2,3) by auto
qed

lemma frame_callers: "frame s s' \<Longrightarrow> om_get (st_callers s') cid = None \<longleftrightarrow> om_get (st_callers s) cid = None"
  unfolding frame_def by (metis domIff)

lemma core_distinct: "core K E P ow nc ns R \<Longrightarrow> distinct P"
proof -
  assume "core K E P ow nc ns R"
  then have "sorted_wrt (\<lambda>c d. sent_at E c < sent_at E d) P" by (rule core_sorted)
  then show ?thesis by (induction P) auto
qed

text \<open>One call goes, with its place among the waiting calls and its claim.\<close>

lemma linv_drop:
  assumes inv: "linv R H U C s" and e: "call_at s c = Some e" and rep: "store_rep s'"
    and K: "calls (st_table s') = (calls (st_table s))(c := None)"
    and E: "call_at s' = (call_at s)(c := None)" and fr: "frame s s'"
    and P: "st_pending s' = remove1 c (st_pending s)"
    and ow: "\<forall>i. om_get (st_claims s') i =
        (if ce_claim e = Some i then None else om_get (st_claims s) i)"
  shows "linv (R - {c}) H U C s'"
proof -
  note core = linv_core [OF inv, unfolded core_of_def]
  have sub: "set (st_pending s') = set (st_pending s) - {c}"
    using P core_distinct [OF core] by simp
  have n: "st_next_claim_id s' = st_next_claim_id s" "st_next_sent s' = st_next_sent s"
    "st_handlers s' = st_handlers s" using fr by (auto simp: frame_def)
  have "core_of s' (R - {c})"
    unfolding core_of_def K E n
  proof (rule core_drop [OF core e])
    show "sorted_wrt (\<lambda>c d. sent_at (call_at s) c < sent_at (call_at s) d) (st_pending s')"
      unfolding P by (rule core_weaken_sorted [OF core_sorted [OF core]])
    show "\<forall>i o1. om_get (st_claims s') i = Some o1 \<longrightarrow> om_get (st_claims s) i = Some o1"
      using ow by simp
    show "owner (om_get (st_claims s')) e = None"
      using ow by (simp add: owner_def split: option.split)
    show "\<forall>i. om_get (st_claims s') i \<noteq> om_get (st_claims s) i \<longrightarrow> ce_claim e = Some i"
      using ow by metis
  qed (use sub in auto)
  moreover have "open_ok H s'"
    using linv_open [OF inv] ow by (auto simp: open_ok_def E n split: if_splits)
  moreover have "drains U s'" using linv_drains [OF inv] by (auto simp: drains_def E)
  moreover have "callers_ok C s'"
    using linv_callers [OF inv] frame_callers [OF fr] unfolding callers_ok_def E by simp
  moreover have "waiters_ok s'"
    using sub by (intro waiters_move [OF linv_waiters [OF inv] fr]) (auto simp: E)
  ultimately show ?thesis using rep by (simp add: linv_def)
qed

text \<open>One call changes its state, its entry, its place among the waiting calls or its claim.\<close>

lemma linv_update:
  assumes inv: "linv R H U C s" and e: "call_at s c = Some e" and rep: "store_rep s'"
    and K: "calls (st_table s') = (calls (st_table s))(c \<mapsto> cst)"
    and E: "call_at s' = (call_at s)(c \<mapsto> e')" and fr: "frame s s'"
    and P: "st_pending s' = st_pending s \<or> st_pending s' = remove1 c (st_pending s)"
    and ow: "\<forall>i. om_get (st_claims s') i \<noteq> om_get (st_claims s) i \<longrightarrow>
        ce_claim e = Some i \<and> om_get (st_claims s') i = None"
    and kin: "kin e e'" and R: "\<forall>d. d \<noteq> c \<longrightarrow> (d \<in> R' \<longleftrightarrow> d \<in> R)"
    and cst: "place_ok cst (c \<in> set (st_pending s')) (owner (om_get (st_claims s')) e') e'"
    and mark: "if c \<in> R' then \<not> ce_pending_forget e' \<and> (\<exists>out. cst = Settled out)
         else mark_ok cst (owner (om_get (st_claims s')) e') e'"
    and sb: "\<And>h. ce_settled_by e' \<noteq> ce_settled_by e \<Longrightarrow> ce_settled_by e' = Some h \<Longrightarrow>
        om_get (st_handlers s) h \<noteq> None"
    and ff: "\<not> ce_forgotten e' \<Longrightarrow> \<not> ce_forgotten e"
    and U: "\<forall>d. d \<noteq> c \<longrightarrow> d \<in> U \<longrightarrow> d \<in> U'" "c \<notin> U' \<Longrightarrow> ce_pending_forget e' \<Longrightarrow> undrained e'"
  shows "linv R' H U' C s'"
proof -
  note core = linv_core [OF inv, unfolded core_of_def]
  have sub: "\<forall>d. d \<noteq> c \<longrightarrow> (d \<in> set (st_pending s') \<longleftrightarrow> d \<in> set (st_pending s))"
    "set (st_pending s') \<subseteq> set (st_pending s)"
    using P core_distinct [OF core] by auto
  have n: "st_next_claim_id s' = st_next_claim_id s" "st_next_sent s' = st_next_sent s"
    "st_handlers s' = st_handlers s" using fr by (auto simp: frame_def)
  have "core_of s' R'"
    unfolding core_of_def K E n
  proof (rule core_update [OF core e])
    show "call_ok ((calls (st_table s))(c \<mapsto> cst)) (st_pending s') (om_get (st_claims s'))
        (st_next_claim_id s) (st_next_sent s) R' c e'"
    proof -
      note ok = linv_call [OF inv e]
      have "om_get (st_claims s') i = Some o1 \<Longrightarrow> om_get (st_claims s) i = Some o1" for i o1
        using ow by (metis option.distinct(1))
      moreover have "ce_correlation e' = c" "ce_sent e' < st_next_sent s" "ce_claim e' = ce_claim e"
        using kin call_ok_correlation [OF ok] call_ok_sent [OF ok] by (simp_all add: kin_def)
      ultimately show ?thesis
        unfolding call_ok_def
        by (intro conjI exI [of _ cst] allI impI)
          (use cst mark call_ok_claim [OF ok] call_ok_owner [OF ok] in \<open>simp_all, metis\<close>)
    qed
    show "sorted_wrt (\<lambda>c d. sent_at (call_at s) c < sent_at (call_at s) d) (st_pending s')"
      using P core_sorted [OF core] core_weaken_sorted by metis
  qed (use ow kin sub R in \<open>auto simp: kin_def\<close>)
  moreover have "open_ok H s'"
    unfolding open_ok_def E n
  proof (intro conjI allI impI)
    fix i o1 assume "om_get (st_claims s') i = Some o1"
    then have "om_get (st_claims s) i = Some o1" using ow by (metis option.distinct(1))
    then show "om_get (st_handlers s) (co_handler o1) \<noteq> None \<or> co_handler o1 \<in> H"
      using linv_open [OF inv] by (auto simp: open_ok_def)
  next
    fix d f x assume "((call_at s)(c \<mapsto> e')) d = Some f" "ce_settled_by f = Some x"
    then show "om_get (st_handlers s) x \<noteq> None"
      using conjunct2 [OF linv_open [OF inv, unfolded open_ok_def], rule_format, of c e x]
        conjunct2 [OF linv_open [OF inv, unfolded open_ok_def], rule_format, of d f x] sb e
      by (cases "d = c"; cases "ce_settled_by e' = ce_settled_by e") simp_all
  qed
  moreover have "drains U' s'" using linv_drains [OF inv] U by (auto simp: drains_def E)
  moreover have "callers_ok C s'"
    unfolding callers_ok_def E
  proof (intro allI impI)
    fix d f assume "((call_at s)(c \<mapsto> e')) d = Some f" "\<not> ce_forgotten f"
    then obtain f0 where "call_at s d = Some f0" "\<not> ce_forgotten f0" "ce_caller f = ce_caller f0"
      using ff kin e by (cases "d = c") (auto simp: kin_def)
    then show "om_get (st_callers s') (ce_caller f) \<noteq> None \<or> ce_caller f \<in> C"
      using linv_callers [OF inv] frame_callers [OF fr] by (simp add: callers_ok_def)
  qed
  moreover have "waiters_ok s'"
    using kin e by (intro waiters_move [OF linv_waiters [OF inv] fr sub(2)]) (auto simp: E kin_def)
  ultimately show ?thesis using rep by (simp add: linv_def)
qed

text \<open>An entry changes, and nothing the other components read.\<close>

lemma linv_entry:
  assumes inv: "linv R H U C s" and e: "call_at s c = Some e" and rep: "store_rep s'"
    and K: "calls (st_table s') = calls (st_table s)"
    and E: "call_at s' = (call_at s)(c \<mapsto> e')" and fr: "frame s s'"
    and same: "st_pending s' = st_pending s" "st_claims s' = st_claims s"
    and al: "alike e e'"
    and U: "\<forall>d. d \<noteq> c \<longrightarrow> d \<in> U \<longrightarrow> d \<in> U'"
      "c \<notin> U' \<Longrightarrow> ce_pending_forget e \<Longrightarrow> undrained e' \<and> c \<notin> U \<or> undrained e'"
  shows "linv R H U' C s'"
proof -
  note ok = linv_call [OF inv e]
  obtain cst where cst: "calls (st_table s) c = Some cst" using call_ok_state [OF ok] by blast
  have K': "calls (st_table s') = (calls (st_table s))(c \<mapsto> cst)" using K cst by auto
  have "place_ok cst (c \<in> set (st_pending s')) (owner (om_get (st_claims s')) e') e' \<and>
    (if c \<in> R then \<not> ce_pending_forget e' \<and> (\<exists>out. cst = Settled out)
     else mark_ok cst (owner (om_get (st_claims s')) e') e')"
    using call_ok_alike [OF ok al] cst same unfolding call_ok_def by auto
  then show ?thesis
    using al U same by (intro linv_update [OF inv e rep K' E fr]) (auto simp: alike_def)
qed

lemma linv_mono: "linv R H U C s \<Longrightarrow> H \<subseteq> H' \<Longrightarrow> U \<subseteq> U' \<Longrightarrow> C \<subseteq> C' \<Longrightarrow> linv R H' U' C' s"
  unfolding linv_def open_ok_def drains_def callers_ok_def by blast

end
