(* ===== verification/Lb_Safety.thy ===== *)
theory Lb_Safety
  imports Lb_Invariant
begin

text \<open>
  Every operation on the calls of the in-process runtime finishes without a panic and keeps the
  invariant of \<open>Lb_Invariant\<close>.
\<close>

section \<open>The table under the store\<close>

lemma length_table_ops:
  assumes "table_wf t"
  shows "length (slots (snd (settle t c out))) = length (slots t)"
    and "length (slots (snd (forget t c))) = length (slots t)"
    and "length (slots (snd (table_insert t r))) = length (slots t)"
    and "length (slots (wake_step x t)) = length (slots t)"
  using length_table_step [OF assms, of "Settle c out"] length_table_step [OF assms, of "Forget c"]
    length_table_step [OF assms, of "Insert r"] length_table_step [OF assms, of "Aux x"]
  by simp_all

lemma take_streams_law:
  assumes "table_wf t" "take_streams t i = (ws, t')"
  shows "table_wf t' \<and> calls t' = calls t \<and> length (slots t') = length (slots t)"
  using tbl.aux_law [OF assms(1), of "TakeStreams i"] length_table_ops(4) [OF assms(1), of "TakeStreams i"]
    assms(2) by simp

lemma wake_on_law:
  assumes "table_wf t" "wake_on t c w = (bk, t')"
  shows "table_wf t' \<and> calls t' = calls t \<and> length (slots t') = length (slots t)"
  using tbl.aux_law [OF assms(1), of "WakeOn c w"] length_table_ops(4) [OF assms(1), of "WakeOn c w"]
    assms(2) by simp

lemma wake_on_stream_law:
  assumes "table_wf t" "wake_on_stream t c no w = (bk, t')"
  shows "table_wf t' \<and> calls t' = calls t \<and> length (slots t') = length (slots t)"
  using tbl.aux_law [OF assms(1), of "WakeOnStream c no w"]
    length_table_ops(4) [OF assms(1), of "WakeOnStream c no w"] assms(2) by simp

lemma take_stream_law:
  assumes "table_wf t" "take_stream t c no = (bk, t')"
  shows "table_wf t' \<and> calls t' = calls t \<and> length (slots t') = length (slots t)"
  using tbl.aux_law [OF assms(1), of "TakeStream c no"]
    length_table_ops(4) [OF assms(1), of "TakeStream c no"] assms(2) by simp

section \<open>Well-formed stores\<close>

lemma rep_table:
  "store_rep s \<Longrightarrow> table_wf t \<Longrightarrow> length (slots t) = length (slots (st_table s)) \<Longrightarrow>
     store_rep (s\<lparr>st_table := t\<rparr>)"
  by (simp add: store_rep_def)

lemma rep_table_wf: "store_rep s \<Longrightarrow> table_wf (st_table s)"
  by (simp add: store_rep_def)

lemma rep_cong:
  assumes "st_table s' = st_table s" "st_calls s' = st_calls s" "om_wf (st_claims s')" "store_rep s"
  shows "store_rep s'"
  using assms by (simp add: store_rep_def)

lemma rep_put_call:
  assumes "store_rep s" "call_at s c = Some e" "ce_correlation e' = c"
  shows "store_rep (put_call s (slot_of c) e')"
  using assms by (auto simp: store_rep_def put_call_def)

lemma frame_put_call:
  assumes "store_rep s" "call_at s c = Some e"
  shows "frame s (put_call s (slot_of c) e')"
  using assms call_at_get [OF assms(2)]
  by (simp add: frame_def put_call_def length_om_put store_rep_def)

lemma frame_table: "frame s s' \<Longrightarrow> frame s (s'\<lparr>st_table := t\<rparr>)"
  by (simp add: frame_def)

lemma frame_places: "frame s s' \<Longrightarrow> frame s (s'\<lparr>st_claims := o1, st_pending := P\<rparr>)"
  "frame s s' \<Longrightarrow> frame s (s'\<lparr>st_pending := P\<rparr>)" "frame s s' \<Longrightarrow> frame s (s'\<lparr>st_claims := o1\<rparr>)"
  by (simp_all add: frame_def)

lemma put_call_simps [simp]:
  "st_table (put_call s slot e) = st_table s" "st_pending (put_call s slot e) = st_pending s"
  "st_claims (put_call s slot e) = st_claims s" "st_handlers (put_call s slot e) = st_handlers s"
  "st_next_claim_id (put_call s slot e) = st_next_claim_id s"
  "st_next_sent (put_call s slot e) = st_next_sent s" "st_callers (put_call s slot e) = st_callers s"
  "st_limits (put_call s slot e) = st_limits s"
  "st_fail_next_settle (put_call s slot e) = st_fail_next_settle s"
  by (simp_all add: put_call_def)

lemma call_at_simps [simp]:
  "call_at (s\<lparr>st_table := t\<rparr>) = call_at s" "call_at (s\<lparr>st_pending := P\<rparr>) = call_at s"
  "call_at (s\<lparr>st_claims := o1\<rparr>) = call_at s" "call_at (s\<lparr>st_handlers := hs\<rparr>) = call_at s"
  "call_at (s\<lparr>st_callers := cs\<rparr>) = call_at s" "call_at (s\<lparr>st_next_claim_id := n\<rparr>) = call_at s"
  "call_at (s\<lparr>st_next_sent := m\<rparr>) = call_at s" "call_at (s\<lparr>st_fail_next_settle := b\<rparr>) = call_at s"
  by (simp_all add: call_at_def fun_eq_iff)

section \<open>Effects\<close>

text \<open>What the steps that end a call do to the store.\<close>

definition gone :: "correlation \<Rightarrow> store \<Rightarrow> store \<Rightarrow> bool" where
  "gone c s s' \<longleftrightarrow> store_rep s' \<and> calls (st_table s') = (calls (st_table s))(c := None) \<and>
     call_at s' = (call_at s)(c := None) \<and> frame s s' \<and>
     st_pending s' = st_pending s \<and> st_claims s' = st_claims s"

lemma reclaimed_effect:
  assumes rep: "store_rep s" and e: "call_at s c = Some e" and k: "calls (st_table s) c = None"
    and r: "reclaimed s c wake = (s', wake')"
  shows "gone c s s'"
proof -
  obtain ws t where t: "take_streams (st_table s) (slot_of c) = (ws, t)" by fastforce
  note law = take_streams_law [OF rep_table_wf [OF rep] t]
  let ?cs = "snd (om_visit (\<lambda>_. take_slot_waker) (st_callers s))"
  have s': "s' = s\<lparr>st_table := t, st_calls := om_del (slot_of c) (st_calls s), st_callers := ?cs\<rparr>"
    using r t by (simp add: reclaimed_def Let_def split: prod.splits)
  have "store_rep s'"
    using rep law unfolding s' by (auto simp: store_rep_def)
  moreover have "call_at s' = (call_at s)(c := None)"
    by (rule call_at_del [OF e]) (simp add: s')
  moreover have "frame s s'"
    unfolding s' frame_def
    by (auto simp: take_slot_waker_def waiters_take_def dom_def)
  moreover have "calls (st_table s') = (calls (st_table s))(c := None)"
    using law k by (auto simp: s')
  ultimately show ?thesis by (simp add: gone_def s')
qed

text \<open>The same with the table already changed.\<close>

lemma reclaimed_gone:
  assumes rep: "store_rep s" and e: "call_at s c = Some e"
    and t: "table_wf t" "calls t = (calls (st_table s))(c := None)"
      "length (slots t) = length (slots (st_table s))"
    and r: "reclaimed (s\<lparr>st_table := t\<rparr>) c wake = (s', wake')"
  shows "gone c s s'"
proof -
  have "gone c (s\<lparr>st_table := t\<rparr>) s'"
    using reclaimed_effect [OF rep_table [OF rep t(1,3)] _ _ r] e t(2) by simp
  then show ?thesis
    using t(2) unfolding gone_def frame_def by auto
qed

lemma withdraw_effect:
  assumes rep: "store_rep s" and e: "call_at s c = Some e"
    and k: "calls (st_table s) c = Some (InFlight f)"
  shows "runs (withdraw s c wake) (\<lambda>(s', wake'). gone c s s')"
proof -
  obtain a t where a: "settle (st_table s) c (Inl (CallTransport Undelivered)) = (a, t)" by fastforce
  note wf = rep_table_wf [OF rep]
  note law = tbl.settl_law [OF wf a] and len = length_table_ops(1) [OF wf, of c "Inl (CallTransport Undelivered)", unfolded a]
  show ?thesis
  proof (cases f)
    case True
    then show ?thesis
      using law len k a reclaimed_gone [OF rep e]
      by (cases "reclaimed (s\<lparr>st_table := t\<rparr>) c wake") (auto simp: withdraw_def)
  next
    case False
    then obtain w where w: "a = Recorded w" "table_wf t"
        "calls t = (calls (st_table s))(c \<mapsto> Settled (Inl (CallTransport Undelivered)))"
      using law k by auto
    obtain b t1 where b: "forget t c = (b, t1)" by fastforce
    have "b = ForgottenReclaimed" "table_wf t1" "calls t1 = (calls (st_table s))(c := None)"
      "length (slots t1) = length (slots (st_table s))"
      using tbl.forg_law [OF w(2) b] w(3) len length_table_ops(2) [OF w(2), of c] b by auto
    then show ?thesis
      using a b w reclaimed_gone [OF rep e]
      by (cases "reclaimed (s\<lparr>st_table := t1\<rparr>) c (wake @ opt_list w)") (auto simp: withdraw_def)
  qed
qed

lemma forget_in_table_settled:
  assumes rep: "store_rep s" and e: "call_at s c = Some e"
    and k: "calls (st_table s) c = Some (Settled out)"
  shows "runs (forget_in_table s c wake) (\<lambda>(s', wake'). gone c s s')"
proof -
  obtain b t where b: "forget (st_table s) c = (b, t)" by fastforce
  note wf = rep_table_wf [OF rep]
  have "b = ForgottenReclaimed" "table_wf t" "calls t = (calls (st_table s))(c := None)"
    "length (slots t) = length (slots (st_table s))"
    using tbl.forg_law [OF wf b] k length_table_ops(2) [OF wf, of c] b by auto
  then show ?thesis
    using b reclaimed_gone [OF rep e]
    by (cases "reclaimed (s\<lparr>st_table := t\<rparr>) c wake") (auto simp: forget_in_table_def)
qed

text \<open>A call in flight is marked, and its entry with it.\<close>

definition changed_to :: "correlation \<Rightarrow> call_state \<Rightarrow> call_entry \<Rightarrow> store \<Rightarrow> store \<Rightarrow> bool" where
  "changed_to c cst e' s s' \<longleftrightarrow> store_rep s' \<and> calls (st_table s') = (calls (st_table s))(c \<mapsto> cst) \<and>
     call_at s' = (call_at s)(c \<mapsto> e') \<and> frame s s' \<and>
     st_pending s' = st_pending s \<and> st_claims s' = st_claims s"

lemma changed_toI:
  assumes rep: "store_rep s" and e: "call_at s c = Some e" "ce_correlation e' = c"
    and t: "table_wf t" "length (slots t) = length (slots (st_table s))"
      "calls t = (calls (st_table s))(c \<mapsto> cst)"
  shows "changed_to c cst e' s ((put_call s (slot_of c) e')\<lparr>st_table := t\<rparr>)"
  unfolding changed_to_def
  using rep_table [OF rep_put_call [OF rep e]] t call_at_put_call [OF e]
    frame_table [OF frame_put_call [OF rep e(1)]]
  by simp

lemma forget_in_table_marked:
  assumes rep: "store_rep s" and e: "call_at s c = Some e"
    and k: "calls (st_table s) c = Some (InFlight False)"
  shows "runs (forget_in_table s c wake)
    (\<lambda>(s', wake'). changed_to c (InFlight True) (e\<lparr>ce_forgotten := True\<rparr>) s s')"
proof -
  obtain b t where b: "forget (st_table s) c = (b, t)" by fastforce
  note wf = rep_table_wf [OF rep]
  obtain w where m: "b = Marked w" "table_wf t" "calls t = (calls (st_table s))(c \<mapsto> InFlight True)"
    "length (slots t) = length (slots (st_table s))"
    using tbl.forg_law [OF wf b] k length_table_ops(2) [OF wf, of c] b by auto
  obtain ws t1 where t1: "take_streams t (slot_of c) = (ws, t1)" by fastforce
  have "changed_to c (InFlight True) (e\<lparr>ce_forgotten := True\<rparr>) s
      ((put_call s (slot_of c) (e\<lparr>ce_forgotten := True\<rparr>))\<lparr>st_table := t1\<rparr>)"
    using take_streams_law [OF m(2) t1] m call_at_get [OF e] by (intro changed_toI [OF rep e]) auto
  then show ?thesis
    using b m t1 call_at_get [OF e] by (simp add: forget_in_table_def)
qed

lemma forget_in_table_unknown:
  assumes rep: "store_rep s"
    and k: "calls (st_table s) c = None \<or> calls (st_table s) c = Some (InFlight True)"
  shows "forget_in_table s c wake = Some (s, wake)"
proof -
  obtain b t where b: "forget (st_table s) c = (b, t)" by fastforce
  have "b = ForgottenUnknown" "t = st_table s"
    using tbl.forg_law [OF rep_table_wf [OF rep] b] k by auto
  then show ?thesis using b by (simp add: forget_in_table_def)
qed


section \<open>Forgetting\<close>

lemma linv_gone:
  assumes inv: "linv R H U C s" and e: "call_at s c = Some e" and g: "gone c s' s''"
    and s': "s' = s\<lparr>st_claims := cl, st_pending := P\<rparr>"
    and P: "P = remove1 c (st_pending s)"
    and ow: "\<forall>i. om_get cl i = (if ce_claim e = Some i then None else om_get (st_claims s) i)"
  shows "linv (R - {c}) H U C s''"
proof (rule linv_drop [OF inv e])
  show "frame s s''"
    using g frame_places(1) [OF frame_refl] frame_trans unfolding gone_def s' by blast
qed (use g P ow s' in \<open>simp_all add: gone_def\<close>)

lemma linv_changed:
  assumes inv: "linv R H U C s" and e: "call_at s c = Some e" and g: "changed_to c cst e' s' s''"
    and s': "s' = s\<lparr>st_claims := cl, st_pending := P\<rparr>"
    and P: "P = st_pending s \<or> P = remove1 c (st_pending s)"
    and ow: "\<forall>i. om_get cl i \<noteq> om_get (st_claims s) i \<longrightarrow> ce_claim e = Some i \<and> om_get cl i = None"
    and kin: "kin e e'" and R: "\<forall>d. d \<noteq> c \<longrightarrow> (d \<in> R' \<longleftrightarrow> d \<in> R)"
    and cst: "place_ok cst (c \<in> set P) (owner (om_get cl) e') e'"
    and mark: "if c \<in> R' then \<not> ce_pending_forget e' \<and> (\<exists>out. cst = Settled out)
         else mark_ok cst (owner (om_get cl) e') e'"
    and sb: "\<And>h. ce_settled_by e' \<noteq> ce_settled_by e \<Longrightarrow> ce_settled_by e' = Some h \<Longrightarrow>
        om_get (st_handlers s) h \<noteq> None"
    and ff: "\<not> ce_forgotten e' \<Longrightarrow> \<not> ce_forgotten e"
    and U: "\<forall>d. d \<noteq> c \<longrightarrow> d \<in> U \<longrightarrow> d \<in> U'" "c \<notin> U' \<Longrightarrow> ce_pending_forget e' \<Longrightarrow> undrained e'"
  shows "linv R' H U' C s''"
proof (rule linv_update [OF inv e, where e' = e' and cst = cst])
  show "frame s s''"
    using g frame_places(1) [OF frame_refl] frame_trans unfolding changed_to_def s' by blast
qed (use g P ow s' kin R cst mark sb ff U in \<open>simp_all add: changed_to_def\<close>)

text \<open>The state of a call the store holds, by its place.\<close>

lemma call_place:
  assumes "linv R H U C s" "call_at s c = Some e"
  obtains cst where "calls (st_table s) c = Some cst"
    "place_ok cst (c \<in> set (st_pending s)) (owner (om_get (st_claims s)) e) e"
    "c \<notin> R \<longrightarrow> mark_ok cst (owner (om_get (st_claims s)) e) e"
  using call_ok_state [OF linv_call [OF assms]] by blast

lemma call_none:
  assumes "linv R H U C s" "call_at s c = None"
  shows "calls (st_table s) c = None" "c \<notin> set (st_pending s)"
  using assms core_dom core_pending unfolding linv_def core_of_def by blast+

lemma same_places: "s = s\<lparr>st_claims := st_claims s, st_pending := st_pending s\<rparr>"
  by simp

lemma release_if_drained_ok:
  assumes inv: "linv {} H U C s" and U: "U \<subseteq> {c}" and c: "slot_of c = slot"
    and at: "\<forall>e. om_get (st_calls s) slot = Some e \<longrightarrow> ce_correlation e = c"
  shows "runs (release_if_drained s slot wake) (\<lambda>(s', wake'). linv {} H {} C s' \<and>
    (\<forall>d. d \<noteq> c \<longrightarrow> call_at s' d = call_at s d))"
proof (cases "om_get (st_calls s) slot")
  case None
  then have "call_at s c = None" using c by (simp add: call_at_def)
  then have "linv {} H {} C s"
    using inv U unfolding linv_def drains_def by (metis empty_iff singletonD subsetD option.distinct(1))
  then show ?thesis using None by (simp add: release_if_drained_def)
next
  case (Some e)
  note rep = linv_rep [OF inv]
  have e: "call_at s c = Some e" using get_call_at [OF rep Some] at Some by auto
  show ?thesis
  proof (cases "\<not> ce_pending_forget e \<or> undrained e")
    case True
    have "linv {} H {} C s"
      using inv U True e unfolding linv_def drains_def by (metis option.inject singletonD subsetD)
    then show ?thesis using Some True by (simp add: release_if_drained_def)
  next
    case False
    let ?e1 = "e\<lparr>ce_pending_forget := False\<rparr>" and ?s1 = "put_call s slot (e\<lparr>ce_pending_forget := False\<rparr>)"
    obtain cst where cst: "calls (st_table s) c = Some cst"
      "place_ok cst (c \<in> set (st_pending s)) (owner (om_get (st_claims s)) e) e"
      "mark_ok cst (owner (om_get (st_claims s)) e) e" using call_place [OF inv e] by blast
    have corr: "ce_correlation e = c" using call_at_get [OF e] by simp
    have s1: "store_rep ?s1" "call_at ?s1 = (call_at s)(c \<mapsto> ?e1)" "frame s ?s1"
      using rep_put_call [OF rep e, of ?e1] call_at_put_call [OF e, of ?e1] frame_put_call [OF rep e]
        corr c by auto
    have e1: "call_at ?s1 c = Some ?e1" using s1 by simp
    have run: "release_if_drained s slot wake = forget_in_table ?s1 c wake"
      using Some False corr by (simp add: release_if_drained_def)
    have drop: "linv {} H {} C s'" if "gone c ?s1 s'" "\<exists>out. cst = Settled out" for s'
    proof -
      have "linv ({} - {c}) H U C s'"
      proof (rule linv_drop [OF inv e])
        show "frame s s'" using that s1 frame_trans unfolding gone_def by blast
        have "owner (om_get (st_claims s)) e = None" "c \<notin> set (st_pending s)"
          using cst(2) that by (auto simp: place_ok_def split: option.splits if_splits)
        then show "st_pending s' = remove1 c (st_pending s)"
          "\<forall>i. om_get (st_claims s') i = (if ce_claim e = Some i then None else om_get (st_claims s) i)"
          using that(1) by (auto simp: gone_def owner_def remove1_idem)
      qed (use that s1 in \<open>auto simp: gone_def\<close>)
      moreover have "call_at s' c = None" using that by (simp add: gone_def)
      ultimately show ?thesis
        using U unfolding linv_def drains_def by (simp, metis option.distinct(1) singletonD subsetD)
    qed
    consider out where "cst = Settled out" | "cst = InFlight False"
      using cst(2,3) False by (auto simp: place_ok_def mark_ok_def split: option.splits if_splits)
    then show ?thesis
    proof cases
      case 1
      then show ?thesis
        unfolding run
        by (intro runs_mono [OF forget_in_table_settled [OF s1(1) e1]])
          (use drop s1(2) cst(1) in \<open>auto simp: gone_def\<close>)
    next
      case 2
      have "linv {} H {} C s'" if "changed_to c (InFlight True) (?e1\<lparr>ce_forgotten := True\<rparr>) ?s1 s'" for s'
      proof (rule linv_update [OF inv e])
        show "frame s s'" using that s1 frame_trans unfolding changed_to_def by blast
        show "call_at s' = (call_at s)(c \<mapsto> ?e1\<lparr>ce_forgotten := True\<rparr>)"
          using that s1(2) by (simp add: changed_to_def)
      qed (use that cst 2 False U in \<open>auto simp: changed_to_def kin_def place_ok_def mark_ok_def owner_def
          split: option.splits if_splits\<close>)
      then show ?thesis
        unfolding run
        by (intro runs_mono [OF forget_in_table_marked [OF s1(1) e1]])
          (use s1(2) cst(1) 2 in \<open>auto simp: changed_to_def\<close>)
    qed
  qed
qed


lemma linv_put_call:
  assumes inv: "linv R H U C s" and e: "call_at s c = Some e" and al: "alike e e'"
    and U: "\<forall>d. d \<noteq> c \<longrightarrow> d \<in> U \<longrightarrow> d \<in> U'" "c \<notin> U' \<Longrightarrow> ce_pending_forget e \<Longrightarrow> undrained e'"
  shows "linv R H U' C (put_call s (slot_of c) e')" "call_at (put_call s (slot_of c) e') = (call_at s)(c \<mapsto> e')"
proof -
  have corr: "ce_correlation e' = c" using al call_at_get [OF e] by (simp add: alike_def kin_def)
  show E: "call_at (put_call s (slot_of c) e') = (call_at s)(c \<mapsto> e')"
    by (rule call_at_put_call [OF e corr])
  show "linv R H U' C (put_call s (slot_of c) e')"
    by (rule linv_entry [OF inv e rep_put_call [OF linv_rep [OF inv] e corr] _ E
          frame_put_call [OF linv_rep [OF inv] e]])
      (use al U in auto)
qed

lemma interrupt_streams_ok:
  assumes inv: "linv R H U C s" and e: "call_at s c = Some e" and p: "\<not> ce_pending_forget e"
  shows "runs (interrupt_streams s c wake) (\<lambda>(s', wake'). linv R H U C s' \<and>
    (\<exists>e'. alike e e' \<and> call_at s' = (call_at s)(c \<mapsto> e')) \<and> calls (st_table s') = calls (st_table s) \<and>
    st_pending s' = st_pending s \<and> st_claims s' = st_claims s \<and> frame s s')"
proof (cases "ce_forgotten e")
  case True
  then have "interrupt_streams s c wake = Some (s, wake)"
    using call_at_get [OF e] by (simp add: interrupt_streams_def caller_slot_def Let_def)
  moreover have "(call_at s)(c \<mapsto> e) = call_at s" using e by auto
  ultimately show ?thesis using inv by (auto intro: exI [of _ e])
next
  case False
  let ?e' = "e\<lparr>ce_streams := snd (om_visit (\<lambda>_. stop_stream) (ce_streams e))\<rparr>"
  have al: "alike e ?e'" by (simp add: alike_def kin_def)
  have "interrupt_streams s c wake = Some (put_call s (slot_of c) ?e',
      wake @ fst (om_visit (\<lambda>_. stop_stream) (ce_streams e)))"
    using call_at_get [OF e] False
    by (simp add: interrupt_streams_def caller_slot_def Let_def split: prod.splits)
  then show ?thesis
    using linv_put_call [OF inv e al] p al frame_put_call [OF linv_rep [OF inv] e] by auto
qed

lemma offered_iff:
  "call_at s c = Some e \<Longrightarrow>
     offered s c \<longleftrightarrow> (\<exists>o1. owner (om_get (st_claims s)) e = Some o1 \<and> \<not> co_taken o1)"
  using call_at_get [of s c e]
  by (auto simp: offered_def owner_def split: option.splits)

definition forgot :: "correlation \<Rightarrow> store \<Rightarrow> store \<Rightarrow> bool" where
  "forgot c s s' \<longleftrightarrow> (\<forall>d. d \<noteq> c \<longrightarrow> call_at s' d = call_at s d) \<and>
     (\<forall>e. call_at s' c = Some e \<longrightarrow> ce_forgotten e) \<and> frame s s'"

text \<open>The four ways \<open>forget\<close> ends, for a call whose \<open>forget\<close> is not deferred already.\<close>

lemma forget_gone:
  assumes inv: "linv {} H {} C s" and e: "call_at s c = Some e"
    and own: "owner (om_get (st_claims s)) e = None"
    and g: "gone c (s\<lparr>st_pending := remove1 c (st_pending s)\<rparr>) s'"
  shows "linv {} H {} C s' \<and> forgot c s s'"
proof -
  have "\<forall>i. om_get (st_claims s) i = (if ce_claim e = Some i then None else om_get (st_claims s) i)"
    using own by (auto simp: owner_def)
  then have "linv ({} - {c}) H {} C s'"
    by (intro linv_gone [OF inv e g, where cl = "st_claims s"]) simp_all
  moreover have "frame s s'"
    using g frame_places(2) [OF frame_refl] frame_trans unfolding gone_def by blast
  ultimately show ?thesis using g by (simp add: gone_def forgot_def)
qed

lemma forget_waiting:
  assumes inv: "linv {} H {} C s" and e: "call_at s c = Some e"
    and w: "\<not> offered s c" "c \<in> set (st_pending s)"
  shows "runs (withdraw (s\<lparr>st_pending := remove1 c (st_pending s)\<rparr>) c wake)
    (\<lambda>(s', wake'). linv {} H {} C s' \<and> forgot c s s')"
proof -
  obtain cst where cst: "calls (st_table s) c = Some cst"
    "place_ok cst (c \<in> set (st_pending s)) (owner (om_get (st_claims s)) e) e"
    using call_place [OF inv e] by blast
  have own: "owner (om_get (st_claims s)) e = None"
    using cst(2) w by (auto simp: offered_iff [OF e] place_ok_def split: option.splits)
  then have "cst = InFlight False" using w cst(2) by (simp add: place_ok_def)
  then have "runs (withdraw (s\<lparr>st_pending := remove1 c (st_pending s)\<rparr>) c wake)
      (\<lambda>(s', wake'). gone c (s\<lparr>st_pending := remove1 c (st_pending s)\<rparr>) s')"
    using cst(1) e linv_rep [OF inv]
    by (intro withdraw_effect) (auto simp: store_rep_def)
  then show ?thesis
    by (rule runs_mono) (use forget_gone [OF inv e own] in auto)
qed

lemma forget_deferred:
  assumes inv: "linv {} H {} C s" and e: "call_at s c = Some e" "\<not> ce_pending_forget e"
    and held: "\<not> (\<not> offered s c \<and> c \<in> set (st_pending s))"
    and d: "defer_forget s c wake = (True, s', wake')"
  shows "linv {} H {} C s' \<and> forgot c s s'"
proof -
  note rep = linv_rep [OF inv] and at = call_at_get [OF e(1)]
  let ?e = "e\<lparr>ce_forgotten := True, ce_pending_forget := True\<rparr>"
  obtain cst where cst: "calls (st_table s) c = Some cst"
    "place_ok cst (c \<in> set (st_pending s)) (owner (om_get (st_claims s)) e) e"
    "mark_ok cst (owner (om_get (st_claims s)) e) e" using call_place [OF inv e(1)] by blast
  obtain w t ws t1 where t: "wake_on (st_table s) c waker_noop = (w, t)"
    "take_streams t (slot_of c) = (ws, t1)" by fastforce
  have f: "\<not> ce_forgotten e" "undrained e"
      "owner (om_get (st_claims s)) e \<noteq> None \<or> ce_settled_by e \<noteq> None"
    and s': "s' = (put_call s (slot_of c) ?e)\<lparr>st_table := t1\<rparr>"
    using d at t by (auto simp: defer_forget_def Let_def owner_def split: if_splits option.splits)
  have ch: "changed_to c cst ?e s s'"
    using wake_on_law [OF rep_table_wf [OF rep] t(1)] take_streams_law [OF _ t(2)] at cst(1)
    unfolding s' by (intro changed_toI [OF rep e(1)]) auto
  have "undrained ?e" using f(2) by (simp add: undrained_def)
  then have "linv {} H {} C s'"
    using f cst e(2) held
    by (intro linv_changed [OF inv e(1) ch same_places])
      (auto simp: kin_def place_ok_def mark_ok_def owner_def offered_iff [OF e(1)]
        split: option.splits if_splits)
  then show ?thesis using ch by (simp add: changed_to_def forgot_def)
qed

lemma forget_held:
  assumes inv: "linv {} H {} C s" and e: "call_at s c = Some e" "\<not> ce_pending_forget e"
    and held: "\<not> (\<not> offered s c \<and> c \<in> set (st_pending s))"
  shows "runs (forget_in_table s c wake) (\<lambda>(s', wake'). linv {} H {} C s' \<and> forgot c s s')"
proof -
  note rep = linv_rep [OF inv]
  obtain cst where cst: "calls (st_table s) c = Some cst"
    "place_ok cst (c \<in> set (st_pending s)) (owner (om_get (st_claims s)) e) e"
    "mark_ok cst (owner (om_get (st_claims s)) e) e" using call_place [OF inv e(1)] by blast
  consider out where "cst = Settled out" | "cst = InFlight False" | "cst = InFlight True"
    using cst(2) by (auto simp: place_ok_def split: option.splits if_splits)
  then show ?thesis
  proof cases
    case 1
    then have own: "owner (om_get (st_claims s)) e = None" "c \<notin> set (st_pending s)"
      using cst(2) by (auto simp: place_ok_def split: option.splits if_splits)
    then have "s\<lparr>st_pending := remove1 c (st_pending s)\<rparr> = s" by (simp add: remove1_idem)
    then show ?thesis
      using forget_gone [OF inv e(1) own(1)] cst(1) 1
      by (intro runs_mono [OF forget_in_table_settled [OF rep e(1)]]) auto
  next
    case 2
    have "linv {} H {} C s' \<and> forgot c s s'"
      if ch: "changed_to c (InFlight True) (e\<lparr>ce_forgotten := True\<rparr>) s s'" for s'
    proof -
      have "linv {} H {} C s'"
        using cst 2 e(2) held
        by (intro linv_changed [OF inv e(1) ch same_places])
          (auto simp: kin_def place_ok_def mark_ok_def owner_def offered_iff [OF e(1)]
            split: option.splits if_splits)
      then show ?thesis using ch by (simp add: changed_to_def forgot_def)
    qed
    then show ?thesis
      using cst(1) 2 by (intro runs_mono [OF forget_in_table_marked [OF rep e(1)]]) auto
  next
    case 3
    then have "ce_forgotten e" using cst(3) by (simp add: mark_ok_def)
    then show ?thesis
      using forget_in_table_unknown [OF rep, of c wake] cst(1) 3 inv e by (simp add: forgot_def)
  qed
qed

definition forget_rest :: "store \<Rightarrow> correlation \<Rightarrow> waker list \<Rightarrow> (store \<times> waker list) option" where
  "forget_rest s c wake =
     (if \<not> offered s c \<and> c \<in> set (st_pending s)
      then withdraw (s\<lparr>st_pending := remove1 c (st_pending s)\<rparr>) c wake
      else (case defer_forget s c wake of
              (True, s1, wake1) \<Rightarrow> Some (s1, wake1)
            | (False, s1, wake1) \<Rightarrow> forget_in_table s1 c wake1))"

lemma defer_forget_False: "defer_forget s c wake = (False, s', wake') \<Longrightarrow> s' = s \<and> wake' = wake"
  by (auto simp: defer_forget_def Let_def split: option.splits if_splits prod.splits)

lemma forget_rest_ok:
  assumes "linv {} H {} C s" "call_at s c = Some e" "\<not> ce_pending_forget e"
  shows "runs (forget_rest s c wake) (\<lambda>(s', wake'). linv {} H {} C s' \<and> forgot c s s')"
proof (cases "\<not> offered s c \<and> c \<in> set (st_pending s)")
  case True
  then show ?thesis using forget_waiting [OF assms(1,2)] by (simp add: forget_rest_def)
next
  case False
  obtain b s1 wake1 where d: "defer_forget s c wake = (b, s1, wake1)" by (cases "defer_forget s c wake")
  show ?thesis
  proof (cases b)
    case True
    with d have "defer_forget s c wake = (True, s1, wake1)" by simp
    with forget_deferred [OF assms False this] False show ?thesis by (auto simp: forget_rest_def)
  next
    case b: False
    with d have "s1 = s" "wake1 = wake" using defer_forget_False [of s c wake s1 wake1] by simp_all
    with forget_held [OF assms False] False d b show ?thesis by (auto simp: forget_rest_def)
  qed
qed

lemma store_forget_ok:
  assumes inv: "linv {} H {} C s"
  shows "runs (store_forget s c wake) (\<lambda>(s', wake'). linv {} H {} C s' \<and> forgot c s s')"
proof (cases "call_at s c")
  case None
  note none = call_none [OF inv None]
  have "forgotten_pending s c = False" "caller_slot s c = None" "defer_forget s c wake = (False, s, wake)"
    using None by (auto simp: forgotten_pending_def caller_slot_def defer_forget_def call_at_def Let_def
        split: option.splits if_splits)
  then have "store_forget s c wake = Some (s, wake)"
    using forget_in_table_unknown [OF linv_rep [OF inv]] none
    by (simp add: store_forget_def interrupt_streams_def)
  then show ?thesis using inv None by (simp add: forgot_def)
next
  case (Some e)
  note at = call_at_get [OF Some]
  show ?thesis
  proof (cases "ce_pending_forget e")
    case True
    then have "store_forget s c wake = Some (s, wake)"
      using at by (simp add: store_forget_def forgotten_pending_def)
    moreover have "ce_forgotten e"
      using call_place [OF inv Some] True by (auto simp: mark_ok_def)
    ultimately show ?thesis using inv Some by (simp add: forgot_def)
  next
    case False
    have run: "store_forget s c wake =
        Option.bind (interrupt_streams s c wake) (\<lambda>(s1, wake1). forget_rest s1 c wake1)"
      using at False by (simp add: store_forget_def forgotten_pending_def forget_rest_def)
    show ?thesis
      unfolding run
    proof (simp only: runs_simps, rule runs_mono [OF interrupt_streams_ok [OF inv Some False, of wake]], clarify)
      fix s1 wake1 e1
      assume inv1: "linv {} H {} C s1" and al: "alike e e1" and E: "call_at s1 = (call_at s)(c \<mapsto> e1)"
        and fr: "frame s s1"
      have "runs (forget_rest s1 c wake1) (\<lambda>(s', wake'). linv {} H {} C s' \<and> forgot c s1 s')"
        using forget_rest_ok [OF inv1, of c e1] E al False by (simp add: alike_def)
      then show "runs (forget_rest s1 c wake1) (\<lambda>(s', wake'). linv {} H {} C s' \<and> forgot c s s')"
        by (rule runs_mono) (use E fr frame_trans in \<open>fastforce simp: forgot_def\<close>)
    qed
  qed
qed

end
