(* ===== verification/Lb_Claims.thy ===== *)
theory Lb_Claims
  imports Lb_Safety
begin

text \<open>
  Sending, presenting and settling a call keep the invariant: the proofs for \<open>send\<close>,
  \<open>next_claim\<close> and \<open>settle\<close> of the in-process runtime.
\<close>

section \<open>Sending\<close>

lemma insert_slot:
  assumes "table_wf t" "table_insert t r = (Some c, t')"
  shows "slot_of c < length (slots t) \<and> state (slots t ! slot_of c) = Free"
  using assms(2)
proof (cases rule: table_insert_cases)
  case (taken i b e)
  then have "i < 65536" using position_SomeD [OF taken(1)] assms(1) by (simp add: table_wf_def)
  then have "slot_of c = i" using taken(3) slot_of_pack by simp
  then show ?thesis using position_SomeD [OF taken(1)] by simp
qed simp

lemma entry_slot:
  assumes "linv R H U C s" "om_get (st_calls s) slot = Some e"
  shows "slot < SLOTS" "state (slots (st_table s) ! slot) \<noteq> Free"
proof -
  note rep = linv_rep [OF assms(1)]
  note at = get_call_at [OF rep assms(2)]
  obtain cst where "calls (st_table s) (ce_correlation e) = Some cst"
    using call_place [OF assms(1)] at by blast
  then obtain i where "held (st_table s) (ce_correlation e) = Some i" by (auto simp: calls_def)
  from heldD [OF this] at rep show "slot < SLOTS" "state (slots (st_table s) ! slot) \<noteq> Free"
    by (auto simp: store_rep_def)
qed

lemma calls_not_full:
  assumes inv: "linv R H U C s" and i: "i < SLOTS" "om_get (st_calls s) i = None"
  shows "length (st_calls s) < SLOTS"
proof -
  have "dom (om_get (st_calls s)) \<subseteq> {..<SLOTS} - {i}"
    using entry_slot(1) [OF inv] i by auto
  then have "card (dom (om_get (st_calls s))) \<le> card ({..<SLOTS} - {i})" by (simp add: card_mono)
  also have "\<dots> < SLOTS" using i by (simp add: card_Diff_singleton)
  finally show ?thesis
    using om_length_card [of "st_calls s"] linv_rep [OF inv] by (simp add: store_rep_def)
qed

definition new_entry ::
    "correlation \<Rightarrow> nat \<Rightarrow> call_kind \<Rightarrow> key \<Rightarrow> bytes \<Rightarrow> envelope \<Rightarrow> trace_context option \<Rightarrow> u64 \<Rightarrow> call_entry" where
  "new_entry c caller kd k args env trc sent =
     \<lparr>ce_correlation = c, ce_caller = caller, ce_kind = kd, ce_iface = fst k, ce_ord = snd k,
      ce_args = args, ce_envelope = env, ce_trace = trc, ce_sent = sent, ce_reply = [],
      ce_forgotten = False, ce_claim = None, ce_settled_by = None, ce_streams = [],
      ce_pending_forget = False, ce_parameters_released = False, ce_provider_used_streams = False\<rparr>"

lemma core_send:
  assumes core: "core K E P ow nc ns {}" and c: "E c = None" and n: "ns < ns'"
    and e: "e = new_entry c caller kd k args env trc ns"
  shows "core (K(c \<mapsto> InFlight False)) (E(c \<mapsto> e)) (P @ [c]) ow nc ns' {}"
proof (rule core_single [OF core, of c])
  have cP: "c \<notin> set P" using core_pending [OF core] c by blast
  have "sent_at (E(c \<mapsto> e)) d < ns" if "d \<in> set P" for d
  proof -
    from core_pending [OF core that] obtain f where "E d = Some f" by blast
    then show ?thesis
      using call_ok_sent [OF core_call [OF core]] cP that by (auto simp: sent_at_def)
  qed
  moreover have "sorted_wrt (\<lambda>a d. sent_at (E(c \<mapsto> e)) a < sent_at (E(c \<mapsto> e)) d) P"
  proof (rule sorted_wrt_mono_rel [OF _ core_sorted [OF core]])
    fix a d assume "a \<in> set P" "d \<in> set P" "sent_at E a < sent_at E d"
    moreover from this cP have "a \<noteq> c" "d \<noteq> c" by auto
    ultimately show "sent_at (E(c \<mapsto> e)) a < sent_at (E(c \<mapsto> e)) d" by (simp add: sent_at_def)
  qed
  ultimately show "sorted_wrt (\<lambda>a d. sent_at (E(c \<mapsto> e)) a < sent_at (E(c \<mapsto> e)) d) (P @ [c])"
    by (simp add: sorted_wrt_append) (simp add: sent_at_def e new_entry_def)
  show "ce_sent f \<noteq> ce_sent a" if "(E(c \<mapsto> e)) c = Some a" "d \<noteq> c" "E d = Some f" for a d f
    using call_ok_sent [OF core_call [OF core that(3)]] that by (auto simp: e new_entry_def)
  show "\<forall>i o1. ow i = Some o1 \<longrightarrow> ow i \<noteq> ow i \<or> co_call o1 = c \<longrightarrow>
      co_call o1 = c \<and> (\<exists>f. (E(c \<mapsto> e)) c = Some f \<and> ce_claim f = Some i)"
    using core_owner [OF core] c by fastforce
  show "call_ok (K(c \<mapsto> InFlight False)) (P @ [c]) ow nc ns' {} c a"
    if "(E(c \<mapsto> e)) c = Some a" for a
    using that n by (auto simp: call_ok_def e new_entry_def place_ok_def mark_ok_def owner_def)
qed (use n c in \<open>auto simp: e new_entry_def\<close>)

text \<open>Waking the handlers that serve a member takes their \<open>Claim\<close> wakers and changes nothing else.\<close>

lemma serves_waiters [simp]: "serves (h\<lparr>hs_waiters := wts\<rparr>) k = serves h k"
  by (simp add: serves_def)

lemma wake_handler_law:
  "serves (snd (wake_handler k h)) k' = serves h k'"
  "wt_claim (hs_waiters (snd (wake_handler k h))) =
     (if serves h k then None else wt_claim (hs_waiters h))"
  by (auto simp: wake_handler_def waiters_take_def split: prod.splits)

lemma linv_handlers:
  assumes "linv R H U C s" "\<And>hid. om_get hs hid = None \<longleftrightarrow> om_get (st_handlers s) hid = None"
    and "waiters_ok (s\<lparr>st_handlers := hs\<rparr>)"
  shows "linv R H U C (s\<lparr>st_handlers := hs\<rparr>)"
  using assms by (auto simp: linv_def store_rep_def core_of_def open_ok_def drains_def callers_ok_def)

text \<open>
  The invariant but for the wake-ups, which the wake of the handlers restores when the only
  waiting call that is new is one of the member \<open>k\<close>.
\<close>

lemma wake_handlers_ok:
  assumes rep: "store_rep s" and rest: "core_of s R" "open_ok H s" "drains U s" "callers_ok C s"
    and slot: "\<forall>cid wts. om_get (st_callers s) cid = Some wts \<longrightarrow> wt_slot wts \<noteq> None \<longrightarrow>
        length (st_calls s) = SLOTS"
    and claim: "\<forall>hid h c e. om_get (st_handlers s) hid = Some h \<longrightarrow> wt_claim (hs_waiters h) \<noteq> None \<longrightarrow>
        c \<in> set (st_pending s) \<longrightarrow> call_at s c = Some e \<longrightarrow> \<not> serves h k \<longrightarrow> \<not> serves h (ce_iface e, ce_ord e)"
    and w: "wake_handlers_serving s k wake = (s', wake')"
  shows "linv R H U C s' \<and> call_at s' = call_at s"
proof -
  let ?hs = "snd (om_visit (\<lambda>_. wake_handler k) (st_handlers s))"
  have s': "s' = s\<lparr>st_handlers := ?hs\<rparr>"
    using w by (simp add: wake_handlers_serving_def Let_def split: prod.splits)
  have "waiters_ok s'"
    unfolding waiters_ok_def
  proof (intro conjI allI impI)
    fix hid h c e
    assume h: "om_get (st_handlers s') hid = Some h" "wt_claim (hs_waiters h) \<noteq> None"
      and c: "c \<in> set (st_pending s')" "call_at s' c = Some e"
    obtain h0 where h0: "om_get (st_handlers s) hid = Some h0" "h = snd (wake_handler k h0)"
      using h(1) by (auto simp: s')
    then have "\<not> serves h0 k" "wt_claim (hs_waiters h0) \<noteq> None"
      using h(2) by (auto simp: wake_handler_law split: if_splits)
    then have "\<not> serves h0 (ce_iface e, ce_ord e)" using claim h0(1) c by (simp add: s')
    then show "\<not> serves h (ce_iface e, ce_ord e)" by (simp add: h0(2) wake_handler_law)
  qed (use slot in \<open>simp add: s'\<close>)
  then show ?thesis
    using rep rest unfolding s'
    by (auto simp: linv_def store_rep_def core_of_def open_ok_def drains_def callers_ok_def)
qed

lemma store_send_ok:
  assumes inv: "store_inv s" and caller: "om_get (st_callers s) caller \<noteq> None"
    and n: "unat (st_next_sent s) + 1 < 2 ^ 64"
  shows "runs (store_send s caller kd k args sq trc wake) (\<lambda>(r, s', wake'). store_inv s' \<and>
    (case r of Inl _ \<Rightarrow> s' = s | Inr c \<Rightarrow> call_at s c = None \<and>
       call_at s' = (call_at s)(c \<mapsto> new_entry c caller kd k args \<lparr>stamp = st_now s, seq = sq\<rparr> trc (st_next_sent s))))"
proof (cases "store_admit s k (call_kind_kind kd) (length args)")
  case (Inl cap)
  then show ?thesis using inv by (simp add: store_send_def)
next
  case (Inr u)
  note inv' = inv [unfolded store_inv_def]
  note rep = linv_rep [OF inv'] and core = linv_core [OF inv', unfolded core_of_def]
  obtain res t where ins: "table_insert (st_table s) 0 = (res, t)" by fastforce
  show ?thesis
  proof (cases res)
    case None
    then have "t = st_table s" using tbl.ins_None ins by blast
    then show ?thesis using Inr ins None inv by (simp add: store_send_def)
  next
    case (Some c)
    note law = tbl.ins_Some [OF rep_table_wf [OF rep] ins [unfolded Some]]
    note sl = insert_slot [OF rep_table_wf [OF rep] ins [unfolded Some]]
    have free: "om_get (st_calls s) (slot_of c) = None"
      using entry_slot(2) [OF inv'] sl by (cases "om_get (st_calls s) (slot_of c)") auto
    then have c: "call_at s c = None" by (simp add: call_at_def)
    obtain m where m: "inc_u64 (st_next_sent s) = Some m" "st_next_sent s < m"
      using n by (cases "inc_u64 (st_next_sent s)")
        (auto simp: inc_u64_def word_less_nat_alt unat_word_ariths)
    let ?e = "new_entry c caller kd k args \<lparr>stamp = st_now s, seq = sq\<rparr> trc (st_next_sent s)"
    let ?s1 = "(put_call s (slot_of c) ?e)\<lparr>st_table := t, st_next_sent := m, st_pending := st_pending s @ [c]\<rparr>"
    obtain s2 wake2 where w: "wake_handlers_serving ?s1 k wake = (s2, wake2)" by fastforce
    have E: "call_at ?s1 = (call_at s)(c \<mapsto> ?e)"
      using free by (auto simp: call_at_def put_call_def fun_eq_iff new_entry_def)
    have "linv {} {} {} {} s2 \<and> call_at s2 = call_at ?s1"
    proof (rule wake_handlers_ok [OF _ _ _ _ _ _ _ w])
      have "length (slots t) = SLOTS"
        using length_table_ops(3) [OF rep_table_wf [OF rep], of 0] ins rep by (simp add: store_rep_def)
      then show "store_rep ?s1"
        using rep law by (auto simp: store_rep_def put_call_def new_entry_def)
      show "core_of ?s1 {}"
        using core_send [OF core c m(2) refl] law E by (simp add: core_of_def)
      show "open_ok {} ?s1" "drains {} ?s1"
        using linv_open [OF inv'] linv_drains [OF inv'] unfolding open_ok_def drains_def E
        by (auto simp: new_entry_def)
      show "callers_ok {} ?s1"
        using linv_callers [OF inv'] caller unfolding callers_ok_def E by (auto simp: new_entry_def)
      have "length (st_calls s) < SLOTS"
        using calls_not_full [OF inv' _ free] sl rep by (simp add: store_rep_def)
      then show "\<forall>cid wts. om_get (st_callers ?s1) cid = Some wts \<longrightarrow> wt_slot wts \<noteq> None \<longrightarrow>
          length (st_calls ?s1) = SLOTS"
        using linv_waiters [OF inv'] by (auto simp: waiters_ok_def)
      show "\<forall>hid h d e. om_get (st_handlers ?s1) hid = Some h \<longrightarrow> wt_claim (hs_waiters h) \<noteq> None \<longrightarrow>
          d \<in> set (st_pending ?s1) \<longrightarrow> call_at ?s1 d = Some e \<longrightarrow> \<not> serves h k \<longrightarrow>
          \<not> serves h (ce_iface e, ce_ord e)"
        using linv_waiters [OF inv'] unfolding waiters_ok_def E by (auto simp: new_entry_def)
    qed
    then show ?thesis
      using Inr ins Some m(1) w E c
      by (simp add: store_send_def store_inv_def new_entry_def)
  qed
qed


section \<open>Presenting\<close>

definition key_at :: "store \<Rightarrow> correlation \<Rightarrow> key" where
  "key_at s c = (ce_iface (the (call_at s c)), ce_ord (the (call_at s c)))"

lemma entry_of_call: "call_at s c = Some e \<Longrightarrow> entry_of s c = Some e"
  using call_at_get by (simp add: entry_of_def)

lemma find_served_eq:
  "\<forall>c \<in> set P. call_at s c \<noteq> None \<Longrightarrow> find_served s h P = Some (position (\<lambda>c. serves h (key_at s c)) P)"
proof (induction P)
  case (Cons c P)
  then obtain e where "call_at s c = Some e" by auto
  with Cons show ?case by (simp add: entry_of_call key_at_def)
qed simp

lemma pending_calls: "linv R H U C s \<Longrightarrow> \<forall>c \<in> set (st_pending s). call_at s c \<noteq> None"
  using core_pending by (metis core_of_def linv_core)

lemma remove_at_nth:
  assumes "distinct P" "n < length P"
  shows "remove_at n P = remove1 (P ! n) P"
proof -
  have P: "P = take n P @ P ! n # drop (Suc n) P" using assms(2) by (rule id_take_nth_drop)
  moreover have "P ! n \<notin> set (take n P)"
    using assms by (metis P distinct_append disjoint_iff list.set_intros(1))
  ultimately have "remove1 (P ! n) P = take n P @ drop (Suc n) P"
    by (metis remove1.simps(2) remove1_append)
  then show ?thesis by (simp add: remove_at_def)
qed

lemma core_claim:
  assumes core: "core K E P ow nc ns {}" and e: "E c = Some e" and c: "c \<in> set P"
    and i: "(ce_claim e = Some i \<and> nc' = nc) \<or> (ce_claim e = None \<and> i = nc \<and> nc < nc')"
  shows "core K (E(c \<mapsto> e\<lparr>ce_claim := Some i\<rparr>)) (if tk then remove1 c P else P)
    (ow(i \<mapsto> \<lparr>co_call = c, co_handler = hid, co_taken = tk\<rparr>)) nc' ns {}"
    (is "core K ?E ?P ?ow nc' ns {}")
proof (rule core_single [OF core, of c])
  note ok = core_call [OF core e] and dist = core_distinct [OF core]
  obtain cst where cst: "K c = Some cst" "place_ok cst True (owner ow e) e" "mark_ok cst (owner ow e) e"
    using call_ok_state [OF ok] c by auto
  have bound: "i < nc'" using i call_ok_claim [OF ok] by auto
  show "call_ok K ?P ?ow nc' ns {} c f" if "?E c = Some f" for f
    using that cst bound call_ok_correlation [OF ok] call_ok_sent [OF ok] c dist
    by (auto simp: call_ok_def place_ok_def mark_ok_def owner_def split: option.splits)
  show "ce_claim f \<noteq> Some j"
    if "?E c = Some a" "ce_claim a = Some j" "d \<noteq> c" "E d = Some f" for a d f j
    using that i core_claim_inj [OF core e that(4)] call_ok_claim [OF core_call [OF core that(4)]]
    by auto
  show "ce_sent f \<noteq> ce_sent a" if "?E c = Some a" "d \<noteq> c" "E d = Some f" for a d f
    using that core_sent_inj [OF core e that(3)] by auto
  show "\<forall>j o1. ?ow j = Some o1 \<longrightarrow> ?ow j \<noteq> ow j \<or> co_call o1 = c \<longrightarrow>
      co_call o1 = c \<and> (\<exists>f. ?E c = Some f \<and> ce_claim f = Some j)"
  proof (intro allI impI)
    fix j o1 assume j: "?ow j = Some o1" "?ow j \<noteq> ow j \<or> co_call o1 = c"
    show "co_call o1 = c \<and> (\<exists>f. ?E c = Some f \<and> ce_claim f = Some j)"
    proof (cases "j = i")
      case False
      then have "ow j = Some o1" "co_call o1 = c" using j by auto
      then show ?thesis using core_owner [OF core, of j o1] e i call_ok_claim [OF ok] False by auto
    qed (use j in auto)
  qed
  have "sent_at ?E = sent_at E" using sent_at_update [of E c e "e\<lparr>ce_claim := Some i\<rparr>"] e by simp
  then show "sorted_wrt (\<lambda>a d. sent_at ?E a < sent_at ?E d) ?P"
    using core_sorted [OF core] core_weaken_sorted by auto
qed (use i c core_distinct [OF core] in auto)

definition identified :: "store \<Rightarrow> correlation \<Rightarrow> call_entry \<Rightarrow> claim_id \<Rightarrow> claim_id \<Rightarrow> store" where
  "identified s c e i m = (put_call s (slot_of c) (e\<lparr>ce_claim := Some i\<rparr>))\<lparr>st_next_claim_id := m\<rparr>"

lemma put_call_same:
  assumes "om_wf (st_calls s)" "om_get (st_calls s) slot = Some e"
  shows "put_call s slot e = s"
proof -
  have "om_put slot e m = m" if "om_wf m" "om_get m slot = Some e" for m
    using that
  proof (induction m)
    case (Cons p m)
    then have "fst p < slot" if "fst p \<noteq> slot"
      using that map_of_SomeD [of m slot e] by (auto simp: om_wf_def om_get_def)
    then show ?case using Cons by (cases p) (auto simp: om_wf_def om_get_def)
  qed (simp add: om_get_def)
  with assms show ?thesis by (simp add: put_call_def)
qed

lemma claim_identity_ok:
  assumes inv: "linv {} {} {} {} s" and e: "call_at s c = Some e"
    and n: "unat (st_next_claim_id s) + 1 < 2 ^ 64"
  obtains i m where "claim_identity s c = Some (i, identified s c e i m)"
    "(ce_claim e = Some i \<and> m = st_next_claim_id s) \<or>
     (ce_claim e = None \<and> i = st_next_claim_id s \<and> st_next_claim_id s < m)"
proof (cases "ce_claim e")
  case (Some i)
  have "e\<lparr>ce_claim := Some i\<rparr> = e" using Some by simp
  then have "identified s c e i (st_next_claim_id s) = s"
    using put_call_same [of s "slot_of c" e] linv_rep [OF inv] call_at_get [OF e]
    by (simp add: identified_def store_rep_def)
  with that [of i "st_next_claim_id s"] Some call_at_get [OF e] show ?thesis
    by (simp add: claim_identity_def)
next
  case None
  obtain m where "inc_u64 (st_next_claim_id s) = Some m" "st_next_claim_id s < m"
    using n by (cases "inc_u64 (st_next_claim_id s)")
      (auto simp: inc_u64_def word_less_nat_alt unat_word_ariths)
  with None call_at_get [OF e] show ?thesis
    by (intro that [of "st_next_claim_id s" m]) (simp_all add: claim_identity_def identified_def)
qed

text \<open>The call presented, under its identity: offered when \<open>tk\<close> is false, taken when it is true.\<close>

definition presented ::
    "store \<Rightarrow> correlation \<Rightarrow> call_entry \<Rightarrow> claim_id \<Rightarrow> claim_id \<Rightarrow> nat \<Rightarrow> bool \<Rightarrow> store" where
  "presented s c e i m hid tk = (identified s c e i m)
     \<lparr>st_pending := (if tk then remove1 c (st_pending s) else st_pending s),
      st_claims := om_put i \<lparr>co_call = c, co_handler = hid, co_taken = tk\<rparr> (st_claims s)\<rparr>"

lemma linv_claim:
  assumes inv: "linv {} {} {} {} s" and e: "call_at s c = Some e" and c: "c \<in> set (st_pending s)"
    and h: "om_get (st_handlers s) hid \<noteq> None"
    and i: "(ce_claim e = Some i \<and> m = st_next_claim_id s) \<or>
     (ce_claim e = None \<and> i = st_next_claim_id s \<and> st_next_claim_id s < m)"
  shows "linv {} {} {} {} (presented s c e i m hid tk)" (is "linv _ _ _ _ ?s")
    and "call_at (presented s c e i m hid tk) = (call_at s)(c \<mapsto> e\<lparr>ce_claim := Some i\<rparr>)"
proof -
  note rep = linv_rep [OF inv] and core = linv_core [OF inv, unfolded core_of_def]
  note corr = call_at_get [OF e]
  show E: "call_at ?s = (call_at s)(c \<mapsto> e\<lparr>ce_claim := Some i\<rparr>)"
    using call_at_put_call [OF e, of "e\<lparr>ce_claim := Some i\<rparr>"] corr
    by (simp add: presented_def identified_def)
  have "core_of ?s {}"
    unfolding core_of_def E using core_claim [OF core e c, of i m tk hid] i
    by (simp add: presented_def identified_def)
  moreover have "store_rep ?s"
    using rep corr by (auto simp: presented_def identified_def put_call_def store_rep_def)
  moreover have "open_ok {} ?s"
    using linv_open [OF inv] h e unfolding open_ok_def E by (auto simp: presented_def identified_def)
  moreover have "drains {} ?s"
    using linv_drains [OF inv] e unfolding drains_def E by (auto simp: undrained_def)
  moreover have "callers_ok {} ?s"
    using linv_callers [OF inv] e unfolding callers_ok_def E by (auto simp: presented_def identified_def)
  moreover have "waiters_ok ?s"
  proof (rule waiters_move [of "s\<lparr>st_next_claim_id := m\<rparr>"])
    show "waiters_ok (s\<lparr>st_next_claim_id := m\<rparr>)"
      using linv_waiters [OF inv] by (simp add: waiters_ok_def)
    show "set (st_pending ?s) \<subseteq> set (st_pending (s\<lparr>st_next_claim_id := m\<rparr>))"
      using set_remove1_subset [of c "st_pending s"] by (simp add: presented_def identified_def)
    show "frame (s\<lparr>st_next_claim_id := m\<rparr>) ?s"
      using frame_put_call [OF rep e, of "e\<lparr>ce_claim := Some i\<rparr>"]
      by (simp add: frame_def presented_def identified_def)
  qed (use e in \<open>auto simp: E\<close>)
  ultimately show "linv {} {} {} {} ?s" by (simp add: linv_def)
qed


lemma next_claim_ok:
  assumes inv: "store_inv s" and n: "unat (st_next_claim_id s) + 1 < 2 ^ 64"
  shows "runs (next_claim s hid out) (\<lambda>(r, out', s'). store_inv s' \<and>
    (s' = s \<or> (\<exists>h p c e i m tk. om_get (st_handlers s) hid = Some h \<and>
       position (\<lambda>c. serves h (key_at s c)) (st_pending s) = Some p \<and> c = st_pending s ! p \<and>
       call_at s c = Some e \<and> s' = presented s c e i m hid tk)))"
proof (cases "om_get (st_handlers s) hid")
  case None
  then show ?thesis using inv by (simp add: next_claim_def)
next
  case (Some h)
  note inv' = inv [unfolded store_inv_def]
  note pend = pending_calls [OF inv']
  note found = find_served_eq [OF pend, of h]
  show ?thesis
  proof (cases "position (\<lambda>c. serves h (key_at s c)) (st_pending s)")
    case None
    then show ?thesis using inv Some found by (simp add: next_claim_def)
  next
    case (Some p)
    let ?c = "st_pending s ! p"
    have p: "p < length (st_pending s)" "?c \<in> set (st_pending s)" using position_SomeD [OF Some] by auto
    then obtain e where e: "call_at s ?c = Some e" using pend by blast
    obtain i m where im: "claim_identity s ?c = Some (i, identified s ?c e i m)"
      "(ce_claim e = Some i \<and> m = st_next_claim_id s) \<or>
       (ce_claim e = None \<and> i = st_next_claim_id s \<and> st_next_claim_id s < m)"
      by (rule claim_identity_ok [OF inv' e n])
    note linv = linv_claim(1) [OF inv' e p(2) _ im(2), of hid]
    have get: "om_get (st_calls (identified s ?c e i m)) (slot_of ?c) = Some (e\<lparr>ce_claim := Some i\<rparr>)"
      by (simp add: identified_def put_call_def)
    have rem: "remove_at p (st_pending s) = remove1 ?c (st_pending s)"
      using remove_at_nth core_distinct linv_core [OF inv'] p(1) by (metis core_of_def)
    have ids: "st_pending (identified s ?c e i m) = st_pending s" "st_claims (identified s ?c e i m) = st_claims s"
      by (simp_all add: identified_def)
    have pend_id: "(identified s ?c e i m)\<lparr>st_pending := st_pending s, st_claims := x\<rparr> =
        (identified s ?c e i m)\<lparr>st_claims := x\<rparr>" for x
      by (simp add: identified_def put_call_def)
    have "\<exists>r out'. next_claim s hid out =
        Some (r, out', presented s ?c e i m hid (\<not> length out < length (ce_args e)))"
      using \<open>om_get (st_handlers s) hid = Some h\<close> found Some
      by (simp add: next_claim_def Let_def im(1) get ids rem presented_def pend_id)
    then obtain r out' where run: "next_claim s hid out =
        Some (r, out', presented s ?c e i m hid (\<not> length out < length (ce_args e)))" by blast
    show ?thesis
      unfolding run runs_simps prod.case
      using linv \<open>om_get (st_handlers s) hid = Some h\<close> Some e unfolding store_inv_def by blast
  qed
qed

section \<open>Settling\<close>

lemma release_parameters_law:
  assumes "release_parameters e wake = (e', wake')"
  shows "alike e e'"
  using assms by (auto simp: release_parameters_def alike_def kin_def Let_def split: prod.splits)

lemma entry_stream_alike: "entry_stream e no = (st, e') \<Longrightarrow> alike e e'"
  by (auto simp: entry_stream_def put_stream_def alike_def kin_def Let_def split: option.splits)

lemma put_stream_alike [simp]: "alike e (put_stream e no st)"
  by (simp add: put_stream_def alike_def kin_def)

lemma settle_entry_law:
  assumes "settle_entry e hid out wake = (e', wake')"
  shows "kin e e' \<and> ce_forgotten e' = ce_forgotten e \<and> ce_pending_forget e' = ce_pending_forget e \<and>
    ce_settled_by e' = Some hid"
proof -
  let ?e1 = "(case out of Inr b \<Rightarrow> e\<lparr>ce_reply := b\<rparr> | Inl _ \<Rightarrow> e)\<lparr>ce_settled_by := Some hid\<rparr>"
  obtain e2 wake1 where e2: "(if ce_kind ?e1 = CK_Query \<or> isl out
      then release_parameters ?e1 wake else (?e1, wake)) = (e2, wake1)" by fastforce
  obtain st e3 where e3: "entry_stream e2 REPLY_STREAM = (st, e3)" by fastforce
  have e': "\<exists>st'. e' = put_stream e3 REPLY_STREAM st'"
    using assms e2 e3 by (auto simp: settle_entry_def Let_def)
  have "alike ?e1 e2" using e2 release_parameters_law [of ?e1 wake] by (auto split: if_splits)
  moreover have "alike e3 e'" using e' by auto
  ultimately have "alike ?e1 e'" using entry_stream_alike [OF e3] alike_trans by blast
  then show ?thesis by (auto simp: alike_def kin_def split: sum.splits)
qed

lemma settle_call_ok:
  assumes inv: "store_inv s" and own: "om_get (st_claims s) i = Some own" "co_handler own = hid"
  shows "runs (settle_call (s\<lparr>st_claims := om_del i (st_claims s),
      st_pending := remove1 (co_call own) (st_pending s)\<rparr>) (co_call own) hid out wake)
    (\<lambda>(s', wake'). store_inv s')"
    (is "runs (settle_call ?s1 ?c hid out wake) _")
proof -
  note inv' = inv [unfolded store_inv_def]
  note rep = linv_rep [OF inv'] and core = linv_core [OF inv', unfolded core_of_def]
  obtain e where e: "call_at s ?c = Some e" "ce_claim e = Some i" using core_owner [OF core own(1)] by blast
  obtain cst where cst: "calls (st_table s) ?c = Some cst"
    "place_ok cst (?c \<in> set (st_pending s)) (Some own) e" "mark_ok cst (Some own) e"
    using call_place [OF inv' e(1)] e(2) own(1) by (auto simp: owner_def)
  have rep1: "store_rep ?s1" using rep by (simp add: store_rep_def)
  have e1: "call_at ?s1 ?c = Some e" using e by simp
  have cl: "\<forall>j. om_get (om_del i (st_claims s)) j = (if ce_claim e = Some j then None else om_get (st_claims s) j)"
    using e(2) by auto
  have nP: "?c \<notin> set (remove1 ?c (st_pending s))" using core_distinct [OF core] by simp
  obtain a t where a: "settle (st_table s) ?c (map_sum id (\<lambda>_. ()) out) = (a, t)" by fastforce
  note wf = rep_table_wf [OF rep]
  note law = tbl.settl_law [OF wf a] and len = length_table_ops(1) [OF wf, of ?c "map_sum id (\<lambda>_. ()) out", unfolded a]
  obtain f where f: "cst = InFlight f" using cst(2) by (auto simp: place_ok_def)
  show ?thesis
  proof (cases f)
    case True
    obtain s2 wake2 where r: "reclaimed (?s1\<lparr>st_table := t\<rparr>) ?c wake = (s2, wake2)" by fastforce
    have "gone ?c ?s1 s2"
      using law len cst(1) f True by (intro reclaimed_gone [OF rep1 e1 _ _ _ r]) auto
    then have "linv ({} - {?c}) {} {} {} s2"
      by (intro linv_gone [OF inv' e(1), of ?s1]) (auto simp: e(2))
    then show ?thesis
      using a law cst(1) f True r by (simp add: settle_call_def store_inv_def)
  next
    case False
    then obtain w where w: "a = Recorded w" using law cst(1) f by auto
    obtain e2 wake2 where e2: "settle_entry e hid out wake = (e2, wake2)" by fastforce
    note el = settle_entry_law [OF e2]
    obtain ws t1 where t1: "take_streams t (slot_of ?c) = (ws, t1)" by fastforce
    have corr: "ce_correlation e2 = ?c" using el call_at_get [OF e(1)] by (simp add: kin_def)
    let ?s2 = "(put_call ?s1 (slot_of ?c) e2)\<lparr>st_table := t1\<rparr>"
    have ch: "changed_to ?c (Settled (map_sum id (\<lambda>_. ()) out)) e2 ?s1 ?s2"
      using law len cst(1) f False take_streams_law [OF _ t1] corr
      by (intro changed_toI [OF rep1 e1]) auto
    have own2: "owner (om_get (om_del i (st_claims s))) e2 = None"
      using el e(2) by (simp add: owner_def kin_def)
    have "linv {} {} {?c} {} ?s2"
    proof (rule linv_changed [OF inv' e(1) ch refl])
      show "om_get (st_handlers s) h \<noteq> None" if "ce_settled_by e2 = Some h" for h
        using that el own linv_open [OF inv'] by (auto simp: open_ok_def)
    qed (use cl nP own2 el cst(3) f False in \<open>auto simp: place_ok_def mark_ok_def\<close>)
    moreover have "om_get (st_calls ?s2) (slot_of ?c) = Some e2" by (simp add: put_call_def)
    ultimately have "runs (release_if_drained ?s2 (slot_of ?c) (wake2 @ opt_list w @ ws))
        (\<lambda>(s', wake'). linv {} {} {} {} s' \<and> (\<forall>d. d \<noteq> ?c \<longrightarrow> call_at s' d = call_at ?s2 d))"
      using corr by (intro release_if_drained_ok [where U = "{?c}"]) auto
    then show ?thesis
      using a w e2 t1 call_at_get [OF e1]
      by (auto simp: settle_call_def store_inv_def elim!: runs_mono)
  qed
qed

lemma store_settle_ok:
  assumes inv: "store_inv s"
  shows "runs (store_settle s hid i out wake) (\<lambda>(r, s', wake'). store_inv s' \<and>
    (r = Inl Settle_UnknownClaim \<longrightarrow> s' = s \<and> \<not> (\<exists>own. om_get (st_claims s) i = Some own \<and> co_handler own = hid)))"
proof (cases "\<exists>own. om_get (st_claims s) i = Some own \<and> co_handler own = hid")
  case False
  then show ?thesis
    using inv by (auto simp: store_settle_def split: option.split)
next
  case True
  then obtain own where own: "om_get (st_claims s) i = Some own" "co_handler own = hid" by blast
  note inv' = inv [unfolded store_inv_def]
  note core = linv_core [OF inv', unfolded core_of_def]
  obtain e where e: "call_at s (co_call own) = Some e" "ce_claim e = Some i"
    using core_owner [OF core own(1)] by blast
  obtain ad where ad: "settle_admit s (co_call own) out = Some ad"
    using entry_of_call [OF e(1)] by (cases out) (auto simp: settle_admit_def)
  show ?thesis
  proof (cases "isl ad \<or> st_fail_next_settle s")
    case True
    have "store_inv (s\<lparr>st_fail_next_settle := False\<rparr>)"
      using inv' by (simp add: store_inv_def linv_def store_rep_def core_of_def open_ok_def drains_def
          callers_ok_def waiters_ok_def)
    with True show ?thesis
      using own ad inv by (cases ad) (auto simp: store_settle_def Let_def)
  next
    case False
    have "co_call own \<notin> set (st_pending s)" if "co_taken own"
      using call_place [OF inv' e(1)] e(2) own(1) that by (auto simp: owner_def place_ok_def)
    then have "(if co_taken own then st_pending s else remove1 (co_call own) (st_pending s)) =
        remove1 (co_call own) (st_pending s)" by (simp add: remove1_idem)
    then show ?thesis
      using False own ad settle_call_ok [OF inv own, of out wake]
      by (cases ad) (auto simp: store_settle_def Let_def elim!: runs_mono)
  qed
qed

end
