(* ===== verification/Lb_Streams.thy ===== *)
theory Lb_Streams
  imports Lb_Claims
begin

text \<open>
  The streams of a call keep the invariant: \<open>pull\<close>, \<open>push\<close>, \<open>end\<close>, \<open>abort\<close> from both sides,
  \<open>end_claim\<close>, \<open>abort_claim\<close> and the registrations of the in-process runtime.
\<close>

section \<open>Entries and their streams\<close>

lemma list_ex_om_put:
  "list_ex P (om_put k v m) \<Longrightarrow> list_ex P m \<or> P (k, v)"
  by (induction m) (auto split: if_splits)

lemma list_ex_om_put_keep:
  assumes "list_ex P m" "\<And>v0. om_get m k = Some v0 \<Longrightarrow> P (k, v0) \<Longrightarrow> P (k, v)"
  shows "list_ex P (om_put k v m)"
  using assms
proof (induction m)
  case (Cons p m)
  then show ?case by (cases p) (auto simp: om_get_def)
qed simp

lemma undrained_put_stream:
  assumes "undrained e" "\<And>st0. om_get (ce_streams e) no = Some st0 \<Longrightarrow>
    no \<noteq> REPLY_STREAM \<Longrightarrow> \<not> ss_drained st0 \<Longrightarrow> \<not> ss_drained st"
  shows "undrained (put_stream e no st)"
  unfolding undrained_def put_stream_def
  using assms by (auto simp: undrained_def intro!: list_ex_om_put_keep)

lemma undrained_entry_stream: "undrained e \<Longrightarrow> entry_stream e no = (st, e') \<Longrightarrow> undrained e'"
  by (auto simp: entry_stream_def Let_def split: option.splits intro!: undrained_put_stream)

lemma entry_stream_get: "entry_stream e no = (st, e') \<Longrightarrow> om_get (ce_streams e') no = Some st"
  by (auto simp: entry_stream_def put_stream_def Let_def split: option.splits)

lemma mark_used_alike: "alike e (mark_used sd e)" "undrained (mark_used sd e) = undrained e"
  "ce_streams (mark_used sd e) = ce_streams e"
  by (simp_all add: mark_used_def alike_def kin_def undrained_def)

lemma linv_table:
  assumes "linv R H U C s" "table_wf t" "calls t = calls (st_table s)"
    "length (slots t) = length (slots (st_table s))"
  shows "linv R H U C (s\<lparr>st_table := t\<rparr>)"
  using assms by (simp add: linv_def store_rep_def core_of_def open_ok_def drains_def callers_ok_def waiters_ok_def)

lemma take_stream_waker_ok:
  assumes inv: "linv R H U C s" and e: "call_at s c = Some e"
    and w: "take_stream_waker s (slot_of c) no sd = (w, s')"
  shows "linv R H U C s' \<and> (\<exists>e'. call_at s' c = Some e')"
proof (cases sd)
  case Side_Caller
  obtain t where t: "take_stream (st_table s) c no = (w, t)" "s' = s\<lparr>st_table := t\<rparr>"
    using w call_at_get [OF e] Side_Caller by (auto simp: take_stream_waker_def split: prod.splits)
  show ?thesis
    using linv_table [OF inv] take_stream_law [OF rep_table_wf [OF linv_rep [OF inv]] t(1)] e t(2) by simp
next
  case Side_Provider
  show ?thesis
  proof (cases "om_get (ce_streams e) no")
    case None
    then show ?thesis
      using w call_at_get [OF e] Side_Provider inv e by (simp add: take_stream_waker_def)
  next
    case (Some st)
    let ?e' = "put_stream e no (st\<lparr>ss_claim_waker := None\<rparr>)"
    have s': "s' = put_call s (slot_of c) ?e'"
      using w call_at_get [OF e] Side_Provider Some by (simp add: take_stream_waker_def)
    have "undrained ?e'" if "undrained e" using that Some by (auto intro: undrained_put_stream)
    then have "linv R H U C s'"
      unfolding s' using linv_drains [OF inv] e
      by (intro linv_put_call(1) [OF inv e]) (auto simp: drains_def)
    then show ?thesis
      using call_at_put_call [OF e, of ?e'] call_at_get [OF e] by (simp add: s' put_stream_def)
  qed
qed

lemma caller_slotD: "caller_slot s c = Some slot \<Longrightarrow>
    \<exists>e. call_at s c = Some e \<and> slot = slot_of c \<and> \<not> ce_forgotten e"
  by (auto simp: caller_slot_def call_at_def Let_def split: option.splits if_splits)

lemma claim_slotD:
  assumes "store_rep s" "claim_slot s hid i = Some slot"
  shows "\<exists>c e. call_at s c = Some e \<and> slot = slot_of c \<and> ce_claim e = Some i \<and>
    (case om_get (st_claims s) i of Some own \<Rightarrow> co_taken own \<and> co_handler own = hid
     | None \<Rightarrow> ce_settled_by e = Some hid)"
proof -
  obtain e where f: "find (\<lambda>p. ce_claim (snd p) = Some i) (st_calls s) = Some (slot, e)"
    and h: "(case om_get (st_claims s) i of
               Some own \<Rightarrow> if co_taken own then Some (co_handler own) else None
             | None \<Rightarrow> ce_settled_by e) = Some hid"
    using assms(2) by (auto simp: claim_slot_def Let_def split: option.splits if_splits)
  have "(slot, e) \<in> set (st_calls s)" "ce_claim e = Some i"
    using f by (auto simp: find_Some_iff) (metis snd_conv)
  moreover from this have "om_get (st_calls s) slot = Some e"
    using assms(1) om_in_get by (auto simp: store_rep_def)
  ultimately show ?thesis
    using get_call_at [OF assms(1)] h by (auto split: option.splits if_splits)
qed

text \<open>A call whose \<open>forget\<close> is deferred stays undrained when its entry changes in no drained stream.\<close>

lemma inv_put_call:
  assumes inv: "store_inv s" and e: "call_at s c = Some e" and al: "alike e e'"
    and U: "undrained e \<Longrightarrow> undrained e'"
  shows "store_inv (put_call s (slot_of c) e')"
  unfolding store_inv_def
  using linv_drains [OF inv [unfolded store_inv_def]] e U
  by (intro linv_put_call(1) [OF inv [unfolded store_inv_def] e al]) (auto simp: drains_def)

lemma release_put_ok:
  assumes inv: "store_inv s" and e: "call_at s c = Some e" and al: "alike e e'"
  shows "runs (release_if_drained (put_call s (slot_of c) e') (slot_of c) wake) (\<lambda>(s', wake'). store_inv s')"
proof -
  note inv' = inv [unfolded store_inv_def]
  have "linv {} {} {c} {} (put_call s (slot_of c) e')" by (rule linv_put_call(1) [OF inv' e al]) auto
  then have "runs (release_if_drained (put_call s (slot_of c) e') (slot_of c) wake)
      (\<lambda>(s', wake'). linv {} {} {} {} s' \<and> (\<forall>d. d \<noteq> c \<longrightarrow> call_at s' d = call_at (put_call s (slot_of c) e') d))"
    by (rule release_if_drained_ok) (use al call_at_get [OF e] in \<open>auto simp: put_call_def alike_def kin_def\<close>)
  then show ?thesis by (rule runs_mono) (auto simp: store_inv_def)
qed

lemma put_wake_ok:
  assumes inv: "store_inv s" and e: "call_at s c = Some e" and al: "alike e e'"
    and U: "undrained e \<Longrightarrow> undrained e'"
    and w: "take_stream_waker (put_call s (slot_of c) e') (slot_of c) no sd = (w, s')"
  shows "store_inv s'"
proof -
  note inv1 = inv_put_call [OF inv e al U, unfolded store_inv_def]
  have "call_at (put_call s (slot_of c) e') c = Some e'"
    using call_at_put_call [OF e, of e'] al call_at_get [OF e] by (simp add: alike_def kin_def)
  then show ?thesis using take_stream_waker_ok [OF inv1 _ w] by (simp add: store_inv_def)
qed

text \<open>A named stream changes and keeps its mark of being read.\<close>

lemma stream_alike:
  assumes "entry_stream e no = (st, e1)"
  shows "alike e (mark_used sd (put_stream e1 no st'))" "alike e (put_stream e1 no st')"
    and "undrained e \<Longrightarrow> ss_drained st' = ss_drained st \<Longrightarrow> undrained (put_stream e1 no st')"
    and "undrained e \<Longrightarrow> ss_drained st' = ss_drained st \<Longrightarrow>
      undrained (mark_used sd (put_stream e1 no st'))"
proof -
  show "alike e (put_stream e1 no st')" "alike e (mark_used sd (put_stream e1 no st'))"
    using entry_stream_alike [OF assms] put_stream_alike mark_used_alike(1) alike_trans by blast+
  show "undrained (put_stream e1 no st')" "undrained (mark_used sd (put_stream e1 no st'))"
    if "undrained e" "ss_drained st' = ss_drained st"
    using undrained_entry_stream [OF that(1) assms] entry_stream_get [OF assms] that(2)
    by (auto simp: mark_used_alike intro: undrained_put_stream)
qed

section \<open>Pulling and pushing\<close>

lemma store_pull_ok:
  assumes inv: "store_inv s" and e: "call_at s c = Some e"
  shows "runs (store_pull s (slot_of c) sd no out wake) (\<lambda>(r, out', s', wake'). store_inv s')"
proof (cases "producer no = sd")
  case True
  then show ?thesis using inv by (simp add: store_pull_def)
next
  case False
  obtain st e1 where st: "entry_stream e no = (st, e1)" by fastforce
  have inv1: "store_inv (put_call s (slot_of c) e1)"
    using inv_put_call [OF inv e entry_stream_alike [OF st]] undrained_entry_stream [OF _ st] by blast
  show ?thesis
  proof (cases "ss_chunks st")
    case Nil
    show ?thesis
      using False call_at_get [OF e] st Nil inv1 inv
        release_put_ok [OF inv e stream_alike(1) [OF st], of Side_Provider "st\<lparr>ss_drained := True\<rparr>" wake]
      by (auto simp: store_pull_def split: option.split prod.split elim!: runs_mono)
  next
    case (Cons chunk rest)
    obtain w s3 where w: "take_stream_waker (put_call s (slot_of c)
        (mark_used sd (put_stream e1 no (st\<lparr>ss_chunks := rest\<rparr>)))) (slot_of c) no (side_other sd) = (w, s3)"
      by fastforce
    have "store_inv s3"
      using put_wake_ok [OF inv e stream_alike(1) [OF st] _ w] stream_alike(4) [OF st] by simp
    then show ?thesis
      using False call_at_get [OF e] st Cons inv1 w by (simp add: store_pull_def)
  qed
qed

lemma put_call_twice [simp]: "put_call (put_call s slot e) slot e' = put_call s slot e'"
  by (simp add: put_call_def)

lemma store_push_ok:
  assumes inv: "store_inv s" and e: "call_at s c = Some e"
  shows "runs (store_push s (slot_of c) sd no chunk wake) (\<lambda>(r, s', wake'). store_inv s')"
proof (cases "producer no \<noteq> sd \<or> sd = Side_Provider \<and> ce_forgotten e")
  case True
  then show ?thesis using inv call_at_get [OF e] by (auto simp: store_push_def)
next
  case False
  obtain st e1 where st: "entry_stream e no = (st, e1)" by fastforce
  have inv1: "store_inv (put_call s (slot_of c) e1)"
    using inv_put_call [OF inv e entry_stream_alike [OF st]] undrained_entry_stream [OF _ st] by blast
  obtain w s3 where w: "take_stream_waker (put_call s (slot_of c) (mark_used sd
      (put_stream e1 no (st\<lparr>ss_chunks := ss_chunks st @ [chunk]\<rparr>)))) (slot_of c) no (side_other sd) = (w, s3)"
    by fastforce
  have "store_inv s3"
    using put_wake_ok [OF inv e stream_alike(1) [OF st] _ w] stream_alike(4) [OF st] by simp
  then show ?thesis
    using False call_at_get [OF e] st inv1 w
    by (auto simp: store_push_def Let_def split: option.split sum.split)
qed

lemma store_end_ok:
  assumes inv: "store_inv s" and e: "call_at s c = Some e"
  shows "runs (store_end s (slot_of c) sd no wake) (\<lambda>(r, s', wake'). store_inv s')"
proof (cases "producer no \<noteq> sd \<or> sd = Side_Provider \<and> ce_forgotten e")
  case True
  then show ?thesis using inv call_at_get [OF e] by (auto simp: store_end_def)
next
  case False
  obtain st e1 where st: "entry_stream e no = (st, e1)" by fastforce
  have inv1: "store_inv (put_call s (slot_of c) e1)"
    using inv_put_call [OF inv e entry_stream_alike [OF st]] undrained_entry_stream [OF _ st] by blast
  obtain w s3 where w: "take_stream_waker (put_call s (slot_of c)
      (put_stream e1 no (st\<lparr>ss_ended := True\<rparr>))) (slot_of c) no (side_other sd) = (w, s3)"
    by fastforce
  have "store_inv s3"
    using put_wake_ok [OF inv e stream_alike(2) [OF st] _ w] stream_alike(3) [OF st] by simp
  then show ?thesis
    using False call_at_get [OF e] st inv1 w
    by (auto simp: store_end_def Let_def split: option.split)
qed

text \<open>\<open>abort\<close>: the stream is stopped, or was finished already; a provider is done with it.\<close>

lemma abort_finished_ok:
  assumes inv: "store_inv s" and e: "call_at s c = Some e" and st: "entry_stream (mark_used sd e) no = (st, e1)"
    and fin: "stream_finished st"
  shows "runs (store_abort s (slot_of c) sd no err wake) (\<lambda>(r, s', wake'). store_inv s')"
proof -
  have al: "alike e e1" using entry_stream_alike [OF st] mark_used_alike(1) alike_trans by blast
  have un: "undrained e \<Longrightarrow> undrained e1" using undrained_entry_stream [OF _ st] by (simp add: mark_used_alike)
  have alp: "alike e (put_stream e1 no st')" for st' using al put_stream_alike alike_trans by blast
  have "undrained (put_stream e1 no (st\<lparr>ss_chunks := []\<rparr>))" if "undrained e"
    using un [OF that] entry_stream_get [OF st] by (auto intro: undrained_put_stream)
  then have inv2: "store_inv (put_call s (slot_of c) (put_stream e1 no (st\<lparr>ss_chunks := []\<rparr>)))"
    using inv_put_call [OF inv e alp] by blast
  show ?thesis
    using call_at_get [OF e] st fin inv2 inv_put_call [OF inv e al un]
      release_put_ok [OF inv e alp, of "st\<lparr>ss_chunks := [], ss_drained := True\<rparr>" wake]
    by (auto simp: store_abort_def Let_def elim!: runs_mono)
qed

lemma abort_open_ok:
  assumes inv: "store_inv s" and e: "call_at s c = Some e" and st: "entry_stream (mark_used sd e) no = (st, e1)"
    and fin: "\<not> stream_finished st"
  shows "runs (store_abort s (slot_of c) sd no err wake) (\<lambda>(r, s', wake'). store_inv s')"
proof -
  let ?st1 = "st\<lparr>ss_stopped := Some (err, sd)\<rparr>"
  let ?st2 = "if producer no \<noteq> sd then ?st1\<lparr>ss_chunks := []\<rparr> else ?st1"
  let ?st3 = "if sd = Side_Provider then ?st2\<lparr>ss_drained := True\<rparr> else ?st2"
  let ?e3 = "put_stream e1 no ?st3"
  have al: "alike e ?e3"
    using entry_stream_alike [OF st] mark_used_alike(1) put_stream_alike alike_trans by blast
  obtain w s2 where w: "take_stream_waker (put_call s (slot_of c) ?e3) (slot_of c) no (side_other sd) = (w, s2)"
    by fastforce
  note inv' = inv [unfolded store_inv_def]
  have at3: "call_at (put_call s (slot_of c) ?e3) c = Some ?e3"
    using call_at_put_call [OF e, of ?e3] al call_at_get [OF e] by (simp add: alike_def kin_def)
  show ?thesis
  proof (cases sd)
    case Side_Caller
    have "undrained ?e3" if "undrained e"
      using undrained_entry_stream [OF _ st] entry_stream_get [OF st] that Side_Caller
      by (auto simp: mark_used_alike intro!: undrained_put_stream)
    then have "store_inv s2" using put_wake_ok [OF inv e al _ w] by blast
    then show ?thesis
      using call_at_get [OF e] st fin w Side_Caller
      by (cases "producer no = Side_Caller") (auto simp: store_abort_def Let_def)
  next
    case Side_Provider
    have "linv {} {} {c} {} (put_call s (slot_of c) ?e3)" by (rule linv_put_call(1) [OF inv' e al]) auto
    from take_stream_waker_ok [OF this at3 w] obtain e4
      where inv4: "linv {} {} {c} {} s2" and e4: "call_at s2 c = Some e4" by blast
    have "runs (release_if_drained s2 (slot_of c) (wake @ opt_list w))
        (\<lambda>(s', wake'). linv {} {} {} {} s' \<and> (\<forall>d. d \<noteq> c \<longrightarrow> call_at s' d = call_at s2 d))"
      by (rule release_if_drained_ok [OF inv4]) (use call_at_get [OF e4] in auto)
    then show ?thesis
      using call_at_get [OF e] st fin w Side_Provider
      by (auto simp: store_abort_def Let_def store_inv_def elim!: runs_mono)
  qed
qed

lemma store_abort_ok:
  assumes "store_inv s" "call_at s c = Some e"
  shows "runs (store_abort s (slot_of c) sd no err wake) (\<lambda>(r, s', wake'). store_inv s')"
proof (cases "entry_stream (mark_used sd e) no")
  case (Pair st e1)
  then show ?thesis using abort_finished_ok [OF assms Pair] abort_open_ok [OF assms Pair] by blast
qed

section \<open>The streams of a claim\<close>

lemma settle_then_ok:
  assumes "store_inv s"
  shows "runs (store_settle s hid i out wake)
    (\<lambda>x. runs (case x of (r, s2, wake2) \<Rightarrow> Some (f r, s2, wake2)) (\<lambda>(r, s', wake'). store_inv s'))"
  by (rule runs_mono [OF store_settle_ok [OF assms]]) auto

lemma end_claim_ok:
  assumes inv: "store_inv s"
  shows "runs (end_claim s hid i no wake) (\<lambda>(r, s', wake'). store_inv s')"
proof (cases "claim_slot s hid i")
  case None
  then show ?thesis using inv by (simp add: end_claim_def)
next
  case (Some slot)
  obtain c e where e: "call_at s c = Some e" "slot = slot_of c"
    using claim_slotD [OF linv_rep [OF inv [unfolded store_inv_def]] Some] by blast
  show ?thesis
  proof (cases "no = REPLY_STREAM \<and> om_get (st_claims s) i \<noteq> None")
    case False
    then show ?thesis
      using Some store_end_ok [OF inv e(1), of Side_Provider no wake] e(2) by (auto simp: end_claim_def)
  next
    case True
    obtain st e1 where st: "entry_stream e no = (st, e1)" by fastforce
    have inv1: "store_inv (put_call s (slot_of c) e1)"
      using inv_put_call [OF inv e(1) entry_stream_alike [OF st]] undrained_entry_stream [OF _ st] by blast
    show ?thesis
      using Some True e(2) call_at_get [OF e(1)] st
      by (simp add: end_claim_def Let_def) (intro conjI impI settle_then_ok inv inv1)
  qed
qed

lemma abort_claim_ok:
  assumes inv: "store_inv s"
  shows "runs (abort_claim s hid i no err wake) (\<lambda>(r, s', wake'). store_inv s')"
proof (cases "claim_slot s hid i")
  case None
  then show ?thesis using inv by (simp add: abort_claim_def)
next
  case (Some slot)
  obtain c e where e: "call_at s c = Some e" "slot = slot_of c"
    using claim_slotD [OF linv_rep [OF inv [unfolded store_inv_def]] Some] by blast
  show ?thesis
  proof (cases "no = REPLY_STREAM \<and> om_get (st_claims s) i \<noteq> None")
    case False
    then show ?thesis
      using Some store_abort_ok [OF inv e(1), of Side_Provider no err wake] e(2)
      by (auto simp: abort_claim_def)
  next
    case True
    obtain st e1 where st: "entry_stream e no = (st, e1)" by fastforce
    have inv1: "store_inv (put_call s (slot_of c) e1)"
      using inv_put_call [OF inv e(1) entry_stream_alike [OF st]] undrained_entry_stream [OF _ st] by blast
    show ?thesis
      using Some True e(2) call_at_get [OF e(1)] st
      by (simp add: abort_claim_def Let_def) (intro conjI impI settle_then_ok inv1)
  qed
qed

section \<open>Registrations\<close>

lemma wait_outcome_ok: "store_inv s \<Longrightarrow> wait_outcome s c w wake = (s', wake') \<Longrightarrow> store_inv s'"
proof -
  assume inv: "store_inv s" and r: "wait_outcome s c w wake = (s', wake')"
  obtain bk t where t: "wake_on (st_table s) c w = (bk, t)" by fastforce
  show ?thesis
    using inv r t linv_table [OF inv [unfolded store_inv_def]]
      wake_on_law [OF rep_table_wf [OF linv_rep [OF inv [unfolded store_inv_def]]] t]
    by (auto simp: wait_outcome_def store_inv_def split: if_splits)
qed

lemma wait_stream_ok: "store_inv s \<Longrightarrow> wait_stream s c no w wake = (s', wake') \<Longrightarrow> store_inv s'"
proof -
  assume inv: "store_inv s" and r: "wait_stream s c no w wake = (s', wake')"
  obtain bk t where t: "wake_on_stream (st_table s) c no w = (bk, t)" by fastforce
  show ?thesis
    using inv r t linv_table [OF inv [unfolded store_inv_def]]
      wake_on_stream_law [OF rep_table_wf [OF linv_rep [OF inv [unfolded store_inv_def]]] t]
    by (auto simp: wait_stream_def store_inv_def split: if_splits)
qed

lemma wait_claim_stream_ok:
  assumes inv: "store_inv s"
  shows "runs (wait_claim_stream s hid i no w wake) (\<lambda>(s', wake'). store_inv s')"
proof (cases "claim_slot s hid i")
  case None
  then show ?thesis using inv by (simp add: wait_claim_stream_def)
next
  case (Some slot)
  obtain c e where e: "call_at s c = Some e" "slot = slot_of c"
    using claim_slotD [OF linv_rep [OF inv [unfolded store_inv_def]] Some] by blast
  obtain st e1 where st: "entry_stream e no = (st, e1)" by fastforce
  have "store_inv (put_call s (slot_of c) e1)"
    using inv_put_call [OF inv e(1) entry_stream_alike [OF st]] undrained_entry_stream [OF _ st] by blast
  moreover have "store_inv (put_call s (slot_of c) (put_stream e1 no (st\<lparr>ss_claim_waker := Some w\<rparr>)))"
    by (rule inv_put_call [OF inv e(1) stream_alike(2) [OF st]]) (rule stream_alike(3) [OF st], simp_all)
  ultimately show ?thesis
    using Some e(2) call_at_get [OF e(1)] st inv by (simp add: wait_claim_stream_def)
qed

end
