(* ===== verification/Lb_Close.thy ===== *)
theory Lb_Close
  imports Lb_Streams
begin

text \<open>
  Opening and dropping the handles of the in-process runtime keeps the invariant: the drop of a
  caller forgets every call it sent, and the drop of a handler releases the calls it settled and
  returns, withdraws or interrupts the calls it held.
\<close>

section \<open>Dropping a caller\<close>

definition forgot_all :: "correlation set \<Rightarrow> store \<Rightarrow> store \<Rightarrow> bool" where
  "forgot_all cs s s' \<longleftrightarrow>
     (\<forall>d e. call_at s' d = Some e \<longrightarrow> \<not> ce_forgotten e \<longrightarrow> d \<notin> cs \<and> call_at s d = Some e)"

lemma forget_each_ok:
  "linv {} H {} C s \<Longrightarrow> runs (forget_each s cs wake) (\<lambda>(s', wake').
     linv {} H {} C s' \<and> forgot_all (set cs) s s' \<and> frame s s')"
proof (induction cs arbitrary: s wake)
  case (Cons c cs)
  show ?case
    unfolding forget_each.simps runs_simps
  proof (rule runs_mono [OF store_forget_ok [OF Cons.prems, of c wake]], clarify)
    fix s1 wake1 assume s1: "linv {} H {} C s1" "forgot c s s1"
    show "runs (forget_each s1 cs wake1)
        (\<lambda>(s', wake'). linv {} H {} C s' \<and> forgot_all (set (c # cs)) s s' \<and> frame s s')"
    proof (rule runs_mono [OF Cons.IH [OF s1(1)]], clarify, intro conjI)
      fix s2 assume s2: "forgot_all (set cs) s1 s2" "frame s1 s2"
      show "frame s s2" using s1(2) s2(2) frame_trans by (auto simp: forgot_def)
      show "forgot_all (set (c # cs)) s s2"
        unfolding forgot_all_def
      proof (intro allI impI)
        fix d e assume d: "call_at s2 d = Some e" "\<not> ce_forgotten e"
        then have "d \<notin> set cs" "call_at s1 d = Some e" using s2(1) by (auto simp: forgot_all_def)
        then show "d \<notin> set (c # cs) \<and> call_at s d = Some e"
          using s1(2) d(2) unfolding forgot_def by (metis set_ConsD)
      qed
    qed
  qed
qed (simp add: forgot_all_def)

lemma call_at_in_calls:
  assumes "store_rep s" "call_at s c = Some e"
  shows "c \<in> set (map (\<lambda>p. ce_correlation (snd p)) (filter (\<lambda>p. Q (snd p)) (st_calls s))) \<longleftrightarrow> Q e"
proof -
  have wf: "om_wf (st_calls s)" using assms(1) by (simp add: store_rep_def)
  note e = call_at_get [OF assms(2)]
  have "f = e" if "(slot, f) \<in> set (st_calls s)" "ce_correlation f = c" for slot f
    using om_in_get [OF wf that(1)] get_call_at [OF assms(1)] assms(2) that(2) by force
  moreover have "(slot_of c, e) \<in> set (st_calls s)" using e by (simp add: om_get_in)
  ultimately show ?thesis using e by (force simp: image_iff)
qed

lemma close_caller_ok:
  assumes inv: "store_inv s"
  shows "runs (close_caller s cid wake) (\<lambda>(wts, s', wake'). store_inv s')"
proof -
  note inv' = inv [unfolded store_inv_def]
  let ?s1 = "s\<lparr>st_callers := om_del cid (st_callers s)\<rparr>"
  let ?cs = "map (\<lambda>p. ce_correlation (snd p)) (filter (\<lambda>p. ce_caller (snd p) = cid) (st_calls s))"
  have inv1: "linv {} {} {} {cid} ?s1"
    using inv' by (auto simp: linv_def store_rep_def core_of_def open_ok_def drains_def callers_ok_def
        waiters_ok_def)
  have "store_inv s2" if s2: "linv {} {} {} {cid} s2" "forgot_all (set ?cs) ?s1 s2" for s2
  proof -
    have "callers_ok {} s2"
      unfolding callers_ok_def
    proof (intro allI impI)
      fix c e assume e: "call_at s2 c = Some e" "\<not> ce_forgotten e"
      then have "c \<notin> set ?cs" "call_at s c = Some e"
        using s2(2) by (simp_all add: forgot_all_def)
      then have "ce_caller e \<noteq> cid"
        using call_at_in_calls [OF linv_rep [OF inv'], of c e "\<lambda>e. ce_caller e = cid"] by blast
      then show "om_get (st_callers s2) (ce_caller e) \<noteq> None \<or> ce_caller e \<in> {}"
        using linv_callers [OF s2(1)] e by (auto simp: callers_ok_def)
    qed
    then show ?thesis using s2(1) by (simp add: store_inv_def linv_def)
  qed
  then show ?thesis
    by (simp add: close_caller_def Let_def)
      (rule runs_mono [OF forget_each_ok [OF inv1]], auto)
qed

section \<open>Dropping a handler: the calls it settled\<close>

text \<open>What the first loop does to an entry, whatever the slot, the table and the wakers.\<close>

definition holds_claim :: "nat \<Rightarrow> (claim_id, claim_owner) omap \<Rightarrow> call_entry \<Rightarrow> bool" where
  "holds_claim hid claims e \<longleftrightarrow>
     (case Option.bind (ce_claim e) (om_get claims) of Some o1 \<Rightarrow> co_handler o1 = hid | None \<Rightarrow> False)"

definition settled_entry :: "nat \<Rightarrow> call_entry \<Rightarrow> call_entry" where
  "settled_entry hid e =
     (if ce_settled_by e = Some hid
      then (fst (release_parameters (e\<lparr>ce_settled_by := None\<rparr>) []))\<lparr>ce_pending_forget := False\<rparr> else e)"

definition released_entry :: "nat \<Rightarrow> (claim_id, claim_owner) omap \<Rightarrow> call_entry \<Rightarrow> call_entry" where
  "released_entry hid claims e =
     (if holds_claim hid claims e \<or> ce_settled_by e = Some hid
      then (settled_entry hid e)\<lparr>ce_streams := map (\<lambda>p. (fst p, (snd p)\<lparr>ss_claim_waker := None\<rparr>))
        (ce_streams (settled_entry hid e))\<rparr>
      else e)"

definition released_calls :: "nat \<Rightarrow> (nat \<times> call_entry) list \<Rightarrow> correlation list" where
  "released_calls hid m = map (\<lambda>p. ce_correlation (snd p))
     (filter (\<lambda>p. ce_settled_by (snd p) = Some hid \<and> ce_pending_forget (snd p)) m)"

lemma release_parameters_entry: "fst (release_parameters e wake) = fst (release_parameters e [])"
  by (simp add: release_parameters_def Let_def split: prod.splits)

lemma release_settled_law:
  assumes "release_settled hid slot e t wake = (e', t', wake', rel)" "table_wf t"
  shows "e' = settled_entry hid e"
    "table_wf t' \<and> calls t' = calls t \<and> length (slots t') = length (slots t)"
    "rel = (if ce_settled_by e = Some hid \<and> ce_pending_forget e then [ce_correlation e] else [])"
proof -
  obtain ws t1 where t1: "take_streams t slot = (ws, t1)" by fastforce
  obtain e1 w1 where e1: "release_parameters (e\<lparr>ce_settled_by := None\<rparr>) wake = (e1, w1)" by fastforce
  have e0: "fst (release_parameters (e\<lparr>ce_settled_by := None\<rparr>) []) = e1"
    using release_parameters_entry [of "e\<lparr>ce_settled_by := None\<rparr>" wake] e1 by simp
  have c: "ce_settled_by e = Some hid \<Longrightarrow> e' = e1\<lparr>ce_pending_forget := False\<rparr> \<and> t' = t1 \<and>
      rel = (if ce_pending_forget e then [ce_correlation e] else [])"
    "ce_settled_by e \<noteq> Some hid \<Longrightarrow> e' = e \<and> t' = t \<and> rel = []"
    using assms(1) t1 e1 by (simp_all add: release_settled_def Let_def)
  then show "e' = settled_entry hid e" using e0 by (simp add: settled_entry_def)
  show "table_wf t' \<and> calls t' = calls t \<and> length (slots t') = length (slots t)"
    using c take_streams_law [OF assms(2) t1] assms(2) by (cases "ce_settled_by e = Some hid") simp_all
  show "rel = (if ce_settled_by e = Some hid \<and> ce_pending_forget e then [ce_correlation e] else [])"
    using c by (cases "ce_settled_by e = Some hid") simp_all
qed

lemma release_call_law:
  assumes "release_call hid claims slot e t wake = (e', t', wake', rel)" "table_wf t"
  shows "e' = released_entry hid claims e"
    "table_wf t' \<and> calls t' = calls t \<and> length (slots t') = length (slots t)"
    "rel = (if ce_settled_by e = Some hid \<and> ce_pending_forget e then [ce_correlation e] else [])"
proof -
  obtain e1 t1 wake1 rel1 where r: "release_settled hid slot e t wake = (e1, t1, wake1, rel1)"
    by (metis prod_cases4)
  note law = release_settled_law [OF r assms(2)]
  have c: "holds_claim hid claims e \<or> ce_settled_by e = Some hid \<Longrightarrow> rel = rel1 \<and> t' = t1 \<and>
      e' = e1\<lparr>ce_streams := map (\<lambda>p. (fst p, (snd p)\<lparr>ss_claim_waker := None\<rparr>)) (ce_streams e1)\<rparr>"
    "\<not> (holds_claim hid claims e \<or> ce_settled_by e = Some hid) \<Longrightarrow> rel = [] \<and> t' = t \<and> e' = e"
    using assms(1) unfolding release_call_def holds_claim_def [symmetric]
    by (simp_all add: Let_def r om_visit_def)
  show "e' = released_entry hid claims e" using c law(1) by (simp add: released_entry_def)
  show "table_wf t' \<and> calls t' = calls t \<and> length (slots t') = length (slots t)"
    using c law(2) assms(2) by (cases "holds_claim hid claims e \<or> ce_settled_by e = Some hid") simp_all
  show "rel = (if ce_settled_by e = Some hid \<and> ce_pending_forget e then [ce_correlation e] else [])"
    using c law(3) by (cases "holds_claim hid claims e \<or> ce_settled_by e = Some hid") simp_all
qed

lemma release_calls_law:
  assumes "release_calls hid claims m t wake = (m', t', wake', rels)" "table_wf t"
  shows "m' = map (\<lambda>p. (fst p, released_entry hid claims (snd p))) m \<and>
    table_wf t' \<and> calls t' = calls t \<and> length (slots t') = length (slots t) \<and>
    rels = released_calls hid m"
  using assms
proof (induction m arbitrary: t wake m' t' wake' rels)
  case (Cons p m)
  obtain slot e where p: "p = (slot, e)" by fastforce
  obtain e1 t1 wake1 rel where c: "release_call hid claims slot e t wake = (e1, t1, wake1, rel)"
    by (metis prod_cases4)
  obtain m2 t2 wake2 rels2 where r: "release_calls hid claims m t1 wake1 = (m2, t2, wake2, rels2)"
    by (metis prod_cases4)
  note law = release_call_law [OF c Cons.prems(2)]
  note IH = Cons.IH [OF r]
  show ?case
    using Cons.prems(1) IH law by (auto simp: p c r released_calls_def)
qed (simp add: released_calls_def)


lemma undrained_wakers:
  "undrained (e\<lparr>ce_streams := map (\<lambda>p. (fst p, (snd p)\<lparr>ss_claim_waker := w\<rparr>)) (ce_streams e)\<rparr>) = undrained e"
  by (simp add: undrained_def list_ex_iff case_prod_beta)

lemma settled_entry_law:
  "kin e (settled_entry hid e)" "ce_forgotten (settled_entry hid e) = ce_forgotten e"
  "ce_settled_by (settled_entry hid e) = (if ce_settled_by e = Some hid then None else ce_settled_by e)"
  "ce_pending_forget (settled_entry hid e) \<longleftrightarrow> ce_pending_forget e \<and> ce_settled_by e \<noteq> Some hid"
proof -
  obtain e1 w1 where e1: "release_parameters (e\<lparr>ce_settled_by := None\<rparr>) [] = (e1, w1)" by fastforce
  then show "kin e (settled_entry hid e)" "ce_forgotten (settled_entry hid e) = ce_forgotten e"
    "ce_settled_by (settled_entry hid e) = (if ce_settled_by e = Some hid then None else ce_settled_by e)"
    "ce_pending_forget (settled_entry hid e) \<longleftrightarrow> ce_pending_forget e \<and> ce_settled_by e \<noteq> Some hid"
    using release_parameters_law [OF e1] by (simp_all add: settled_entry_def alike_def kin_def)
qed

lemma released_entry_law:
  "kin e (released_entry hid claims e)" "ce_forgotten (released_entry hid claims e) = ce_forgotten e"
  "ce_settled_by (released_entry hid claims e) = (if ce_settled_by e = Some hid then None else ce_settled_by e)"
  "ce_pending_forget (released_entry hid claims e) \<longleftrightarrow> ce_pending_forget e \<and> ce_settled_by e \<noteq> Some hid"
  "ce_settled_by e \<noteq> Some hid \<Longrightarrow> undrained (released_entry hid claims e) = undrained e"
proof -
  note law = settled_entry_law [where e = e and hid = hid]
  show "kin e (released_entry hid claims e)" "ce_forgotten (released_entry hid claims e) = ce_forgotten e"
    "ce_settled_by (released_entry hid claims e) = (if ce_settled_by e = Some hid then None else ce_settled_by e)"
    "ce_pending_forget (released_entry hid claims e) \<longleftrightarrow> ce_pending_forget e \<and> ce_settled_by e \<noteq> Some hid"
    using law by (simp_all add: released_entry_def kin_def)
  show "undrained (released_entry hid claims e) = undrained e" if "ce_settled_by e \<noteq> Some hid"
    using that undrained_wakers [where e = e and w = None]
    by (simp add: released_entry_def settled_entry_def)
qed

lemma core_map:
  assumes core: "core K E P ow nc ns R"
    and f: "\<And>c e. E c = Some e \<Longrightarrow> kin e (f e) \<and> call_ok K P ow nc ns R' c (f e)"
  shows "core K (\<lambda>c. map_option f (E c)) P ow nc ns R'"
proof -
  have kin: "ce_sent (f e) = ce_sent e" "ce_claim (f e) = ce_claim e" if "E c = Some e" for c e
    using f [OF that] by (simp_all add: kin_def)
  have "sent_at (\<lambda>c. map_option f (E c)) c = sent_at E c" if "c \<in> set P" for c
    using core_pending [OF core that] kin by (auto simp: sent_at_def)
  then have "sorted_wrt (\<lambda>c d. sent_at (\<lambda>c. map_option f (E c)) c < sent_at (\<lambda>c. map_option f (E c)) d) P"
    by (intro sorted_wrt_mono_rel [OF _ core_sorted [OF core]]) simp
  moreover have "\<exists>e. map_option f (E (co_call o1)) = Some e \<and> ce_claim e = Some i" if "ow i = Some o1" for i o1
    using core_owner [OF core that] kin by force
  moreover have "c = d" if "map_option f (E c) = Some e" "map_option f (E d) = Some g" "ce_sent e = ce_sent g" for c d e g
    using that core_sent_inj [OF core, of c _ d] kin by auto
  moreover have "c = d" if "map_option f (E c) = Some e" "map_option f (E d) = Some g"
      "ce_claim e = Some i" "ce_claim g = Some i" for c d e g i
    using that core_claim_inj [OF core, of c _ d] kin by auto
  moreover have "call_ok K P ow nc ns R' c g" if "map_option f (E c) = Some g" for c g
    using that f by auto
  moreover have "map_option f (E c) \<noteq> None" if "K c \<noteq> None \<or> c \<in> set P" for c
    using that core_dom [OF core, of c] core_pending [OF core, of c] by auto
  ultimately show ?thesis
    unfolding core_def by (intro conjI allI impI ballI) blast+
qed

lemma call_ok_released:
  assumes "call_ok K P ow nc ns {} c e" "ow = om_get claims"
    and R: "c \<in> R \<longleftrightarrow> ce_settled_by e = Some hid \<and> ce_pending_forget e"
  shows "call_ok K P ow nc ns R c (released_entry hid claims e)" (is "call_ok K P ow nc ns R c ?e")
proof -
  obtain cst where cst: "K c = Some cst" "place_ok cst (c \<in> set P) (owner ow e) e" "mark_ok cst (owner ow e) e"
    using call_ok_state [OF assms(1)] by auto
  note law = released_entry_law [where e = e and hid = hid and claims = claims]
  have claim: "ce_claim ?e = ce_claim e" "owner ow ?e = owner ow e"
    using law(1) by (simp_all add: kin_def owner_def)
  have "place_ok cst (c \<in> set P) (owner ow ?e) ?e"
    using cst(2) law claim by (auto simp: place_ok_def split: option.splits if_splits)
  moreover have "\<not> ce_pending_forget ?e \<and> (\<exists>out. cst = Settled out)" if "c \<in> R"
    using that R cst(2) law by (auto simp: place_ok_def split: option.splits if_splits)
  moreover have "mark_ok cst (owner ow ?e) ?e" if "c \<notin> R"
    using that R cst(3) law claim by (auto simp: mark_ok_def)
  ultimately show ?thesis
    using cst(1) law(1) claim call_ok_correlation [OF assms(1)] call_ok_sent [OF assms(1)]
      call_ok_claim [OF assms(1)] call_ok_owner [OF assms(1)]
    by (auto simp: call_ok_def kin_def)
qed

lemma call_at_map:
  assumes "store_rep s" "\<And>e. ce_correlation (f e) = ce_correlation e"
    "st_calls s' = map (\<lambda>p. (fst p, f (snd p))) (st_calls s)"
  shows "call_at s' = (\<lambda>c. map_option f (call_at s c))"
  using assms(2,3) om_get_map [of "\<lambda>_. f" "st_calls s"]
  by (auto simp: call_at_def fun_eq_iff split: option.splits)

lemma linv_released:
  assumes inv: "store_inv s" and t: "table_wf t" "calls t = calls (st_table s)" "length (slots t) = length (slots (st_table s))"
    and s': "s' = s\<lparr>st_handlers := om_del hid (st_handlers s), st_table := t,
      st_calls := map (\<lambda>p. (fst p, released_entry hid (st_claims s) (snd p))) (st_calls s)\<rparr>"
  shows "linv (set (released_calls hid (st_calls s))) {hid} {} {} s'"
proof -
  note inv' = inv [unfolded store_inv_def]
  note rep = linv_rep [OF inv'] and core = linv_core [OF inv', unfolded core_of_def]
  let ?f = "released_entry hid (st_claims s)"
  note law = released_entry_law
  have corr: "ce_correlation (?f e) = ce_correlation e" for e using law(1) by (simp add: kin_def)
  have E: "call_at s' = (\<lambda>c. map_option ?f (call_at s c))"
    by (rule call_at_map [OF rep corr]) (simp add: s')
  have "store_rep s'"
    using rep t corr om_get_map [of "\<lambda>_. ?f" "st_calls s"] by (auto simp: store_rep_def s')
  moreover have "core_of s' (set (released_calls hid (st_calls s)))"
  proof -
    have "core (calls (st_table s)) (\<lambda>c. map_option ?f (call_at s c)) (st_pending s) (om_get (st_claims s))
        (st_next_claim_id s) (st_next_sent s) (set (released_calls hid (st_calls s)))"
    proof (rule core_map [OF core], intro conjI law(1))
      fix c e assume e: "call_at s c = Some e"
      show "call_ok (calls (st_table s)) (st_pending s) (om_get (st_claims s)) (st_next_claim_id s)
          (st_next_sent s) (set (released_calls hid (st_calls s))) c (?f e)"
        using call_at_in_calls [OF rep e, of "\<lambda>e. ce_settled_by e = Some hid \<and> ce_pending_forget e"]
        by (intro call_ok_released [OF core_call [OF core e] refl]) (simp add: released_calls_def)
    qed
    then show ?thesis unfolding core_of_def E by (simp add: s' t)
  qed
  moreover have "open_ok {hid} s'"
    using linv_open [OF inv'] unfolding open_ok_def E by (auto simp: s' law split: if_splits)
  moreover have "drains {} s'"
    using linv_drains [OF inv'] unfolding drains_def E by (auto simp: law)
  moreover have "callers_ok {} s'"
    using linv_callers [OF inv'] law(1) unfolding callers_ok_def E by (auto simp: s' law kin_def)
  moreover have "waiters_ok s'"
    unfolding waiters_ok_def
  proof (intro conjI allI impI)
    fix hid' h c e
    assume h: "om_get (st_handlers s') hid' = Some h" "wt_claim (hs_waiters h) \<noteq> None"
      and c: "c \<in> set (st_pending s')" "call_at s' c = Some e"
    obtain e0 where e0: "call_at s c = Some e0" "e = ?f e0" using c(2) by (auto simp: E)
    have "om_get (st_handlers s) hid' = Some h" using h(1) by (simp add: s' split: if_splits)
    then have "\<not> serves h (ce_iface e0, ce_ord e0)"
      using linv_waiters [OF inv'] h(2) c(1) e0(1) unfolding waiters_ok_def s' by simp
    then show "\<not> serves h (ce_iface e, ce_ord e)" using law(1) [of e0] e0(2) by (simp add: kin_def)
  qed (use linv_waiters [OF inv'] in \<open>simp add: waiters_ok_def s'\<close>)
  ultimately show ?thesis by (simp add: linv_def)
qed

lemma linv_unknown: "linv R H U C s \<Longrightarrow> call_at s c = None \<Longrightarrow> linv (R - {c}) H U C s"
proof -
  assume inv: "linv R H U C s" and c: "call_at s c = None"
  note core = linv_core [OF inv, unfolded core_of_def]
  have "call_ok (calls (st_table s)) (st_pending s) (om_get (st_claims s)) (st_next_claim_id s)
      (st_next_sent s) (R - {c}) d e" if "call_at s d = Some e" for d e
    using core_call [OF core that] that c by (cases "d = c") (simp_all add: call_ok_def)
  then have "core_of s (R - {c})"
    using core_map [OF core, of id] by (simp add: core_of_def option.map_id)
  then show ?thesis using inv by (simp add: linv_def)
qed

lemma forget_in_table_each_ok:
  assumes "linv R H U C s" "\<forall>c \<in> set cs. c \<in> R \<or> call_at s c = None"
  shows "runs (forget_in_table_each s cs wake) (\<lambda>(s', wake'). linv (R - set cs) H U C s')"
  using assms
proof (induction cs arbitrary: s R wake)
  case (Cons c cs)
  note inv = Cons.prems(1)
  have "runs (forget_in_table s c wake) (\<lambda>(s1, wake1). linv (R - {c}) H U C s1 \<and>
      (\<forall>d. call_at s1 d = (if d = c then None else call_at s d)))"
  proof (cases "call_at s c")
    case None
    then show ?thesis
      using forget_in_table_unknown [OF linv_rep [OF inv], of c wake] call_none(1) [OF inv None]
        linv_unknown [OF inv None] by simp
  next
    case (Some e)
    then have "c \<in> R" using Cons.prems(2) by auto
    then obtain out where k: "calls (st_table s) c = Some (Settled out)"
      "place_ok (Settled out) (c \<in> set (st_pending s)) (owner (om_get (st_claims s)) e) e"
      using linv_call [OF inv Some] by (auto simp: call_ok_def)
    then have own: "owner (om_get (st_claims s)) e = None" "c \<notin> set (st_pending s)"
      by (auto simp: place_ok_def split: option.splits if_splits)
    have "linv (R - {c}) H U C s1" if "gone c s s1" for s1
    proof (rule linv_gone [OF inv Some that same_places])
      show "\<forall>i. om_get (st_claims s) i = (if ce_claim e = Some i then None else om_get (st_claims s) i)"
        using own(1) by (simp add: owner_def split: option.splits)
    qed (simp add: own(2) remove1_idem)
    then show ?thesis
      by (intro runs_mono [OF forget_in_table_settled [OF linv_rep [OF inv] Some k(1)]])
        (simp add: gone_def split: prod.splits)
  qed
  then show ?case
    unfolding forget_in_table_each.simps runs_simps
  proof (rule runs_mono, clarify)
    fix s1 wake1 assume "linv (R - {c}) H U C s1" "\<forall>d. call_at s1 d = (if d = c then None else call_at s d)"
    then have "runs (forget_in_table_each s1 cs wake1) (\<lambda>(s', wake'). linv (R - {c} - set cs) H U C s')"
      using Cons.prems(2) by (intro Cons.IH) auto
    moreover have "R - {c} - set cs = R - set (c # cs)" by auto
    ultimately show "runs (forget_in_table_each s1 cs wake1) (\<lambda>(s', wake'). linv (R - set (c # cs)) H U C s')"
      by simp
  qed
qed simp


section \<open>Dropping a handler: the calls it held\<close>

lemma reclaimed_same:
  "reclaimed s c wake = (s', wake') \<Longrightarrow> st_claims s' = st_claims s"
  by (auto simp: reclaimed_def Let_def split: prod.splits)

text \<open>Releasing the claim of one call that stays where it is, or leaves the waiting calls.\<close>

lemma linv_unclaim:
  assumes inv: "linv {} H {} C s" and own: "om_get (st_claims s) i = Some own"
    and e: "call_at s (co_call own) = Some e" "\<not> ce_forgotten e" and tk: "\<not> co_taken own"
  shows "linv {} H {} C (s\<lparr>st_claims := om_del i (st_claims s)\<rparr>)" (is "linv _ _ _ _ ?s")
proof -
  let ?c = "co_call own"
  note core = linv_core [OF inv, unfolded core_of_def]
  have i: "ce_claim e = Some i" using core_owner [OF core own] e(1) by auto
  obtain cst where cst: "calls (st_table s) ?c = Some cst"
    "place_ok cst (?c \<in> set (st_pending s)) (Some own) e" "mark_ok cst (Some own) e"
    using call_place [OF inv e(1)] i own by (auto simp: owner_def)
  have K: "calls (st_table ?s) = (calls (st_table s))(?c \<mapsto> cst)" using cst(1) by auto
  have E: "call_at ?s = (call_at s)(?c \<mapsto> e)" using e(1) by auto
  show ?thesis
  proof (rule linv_update [OF inv e(1) _ K E])
    show "store_rep ?s" using linv_rep [OF inv] by (simp add: store_rep_def)
    show "frame s ?s" using frame_places(3) [OF frame_refl] .
  qed (use cst i own e(2) tk in \<open>auto simp: place_ok_def mark_ok_def owner_def\<close>)
qed

lemma interrupt_claim_ok:
  assumes inv: "linv {} H {} C s" and own: "om_get (st_claims s) i = Some own"
    and e: "call_at s (co_call own) = Some e" "\<not> ce_forgotten e" and tk: "co_taken own"
  shows "runs (interrupt_claim (s\<lparr>st_claims := om_del i (st_claims s)\<rparr>) (co_call own) wake)
    (\<lambda>(s', wake'). linv {} H {} C s' \<and> st_claims s' = om_del i (st_claims s))"
    (is "runs (interrupt_claim ?s1 ?c wake) _")
proof -
  note core = linv_core [OF inv, unfolded core_of_def] and rep = linv_rep [OF inv]
  have i: "ce_claim e = Some i" using core_owner [OF core own] e(1) by auto
  obtain cst where cst: "calls (st_table s) ?c = Some cst"
    "place_ok cst (?c \<in> set (st_pending s)) (Some own) e" "mark_ok cst (Some own) e"
    using call_place [OF inv e(1)] i own by (auto simp: owner_def)
  have fl: "cst = InFlight False" "?c \<notin> set (st_pending s)" "ce_settled_by e = None" "\<not> ce_pending_forget e"
    using cst(2,3) e(2) tk by (auto simp: place_ok_def mark_ok_def)
  obtain e1 wake1 where e1: "release_parameters e wake = (e1, wake1)" by fastforce
  obtain st e2 where e2: "entry_stream e1 REPLY_STREAM = (st, e2)" by fastforce
  let ?st1 = "if \<not> stream_finished st then st\<lparr>ss_stopped := Some (INTERRUPTED, Side_Provider)\<rparr> else st"
  define e3 where "e3 = put_stream e2 REPLY_STREAM (?st1\<lparr>ss_claim_waker := None\<rparr>)"
  have al: "alike e e3"
    unfolding e3_def using release_parameters_law [OF e1] entry_stream_alike [OF e2] put_stream_alike alike_trans by blast
  obtain a t where a: "settle (st_table s) ?c (Inl INTERRUPTED) = (a, t)" by fastforce
  note wf = rep_table_wf [OF rep]
  note law = tbl.settl_law [OF wf a] and len = length_table_ops(1) [OF wf, of ?c "Inl INTERRUPTED", unfolded a]
  obtain w where w: "a = Recorded w" "table_wf t" "calls t = (calls (st_table s))(?c \<mapsto> Settled (Inl INTERRUPTED))"
    using law cst(1) fl(1) by auto
  obtain ws t1 where t1: "take_streams t (slot_of ?c) = (ws, t1)" by fastforce
  let ?s2 = "(put_call ?s1 (slot_of ?c) e3)\<lparr>st_table := t1\<rparr>"
  have s1: "store_rep ?s1" "call_at ?s1 ?c = Some e" using rep e(1) by (simp_all add: store_rep_def)
  have e3: "kin e e3" "ce_forgotten e3 = ce_forgotten e" "ce_pending_forget e3 = ce_pending_forget e"
    "ce_settled_by e3 = ce_settled_by e" "ce_claim e3 = Some i" "ce_correlation e3 = ?c"
    using al i call_at_get [OF e(1)] by (simp_all add: alike_def kin_def)
  have ch: "changed_to ?c (Settled (Inl INTERRUPTED)) e3 ?s1 ?s2"
    using take_streams_law [OF w(2) t1] w len e3(6) by (intro changed_toI [OF s1]) simp_all
  have "linv {} H {} C ?s2"
    by (rule linv_changed [OF inv e(1) ch, where P = "st_pending s" and cl = "om_del i (st_claims s)"])
      (use e3 fl i e(2) in \<open>simp_all add: place_ok_def mark_ok_def owner_def\<close>)
  then show ?thesis
    using call_at_get [OF e(1)] e1 e2 a w(1) t1 by (simp add: interrupt_claim_def Let_def e3_def)
qed

lemma sent_before_eq:
  "\<forall>c \<in> set P. call_at s c \<noteq> None \<Longrightarrow>
     sent_before s sent P = Some (length (takeWhile (\<lambda>c. sent_at (call_at s) c < sent) P))"
proof (induction P)
  case (Cons c P)
  then obtain e where "call_at s c = Some e" by auto
  with Cons call_at_get [of s c e] show ?case by (simp add: sent_at_def)
qed simp

lemma sorted_insert:
  fixes f :: "'a \<Rightarrow> 'b::linorder"
  assumes "sorted_wrt (\<lambda>c d. f c < f d) P" "\<forall>d \<in> set P. f d \<noteq> f c"
  shows "sorted_wrt (\<lambda>c d. f c < f d) (takeWhile (\<lambda>d. f d < f c) P @ c # dropWhile (\<lambda>d. f d < f c) P)"
  using assms
proof (induction P)
  case (Cons p P)
  show ?case
  proof (cases "f p < f c")
    case True
    then show ?thesis using Cons by (auto dest: set_takeWhileD set_dropWhileD)
  next
    case False
    then have "f c < f p" using Cons.prems(2) by (metis list.set_intros(1) neqE)
    then show ?thesis using Cons.prems(1) False by (auto intro: less_trans)
  qed
qed simp

lemma linv_return:
  assumes inv: "linv {} H {} C s" and own: "om_get (st_claims s) i = Some own"
    and e: "call_at s (co_call own) = Some e" "\<not> ce_forgotten e" and tk: "co_taken own"
    and P: "P = takeWhile (\<lambda>d. sent_at (call_at s) d < ce_sent e) (st_pending s) @ co_call own #
      dropWhile (\<lambda>d. sent_at (call_at s) d < ce_sent e) (st_pending s)"
    and w: "wake_handlers_serving (s\<lparr>st_claims := om_del i (st_claims s), st_pending := P\<rparr>)
      (ce_iface e, ce_ord e) wake = (s', wake')"
  shows "linv {} H {} C s'"
proof -
  let ?s1 = "s\<lparr>st_claims := om_del i (st_claims s), st_pending := P\<rparr>" and ?c = "co_call own"
  note core = linv_core [OF inv, unfolded core_of_def] and rep = linv_rep [OF inv]
  have i: "ce_claim e = Some i" using core_owner [OF core own] e(1) by auto
  obtain cst where cst: "calls (st_table s) ?c = Some cst"
    "place_ok cst (?c \<in> set (st_pending s)) (Some own) e" "mark_ok cst (Some own) e"
    using call_place [OF inv e(1)] i own by (auto simp: owner_def)
  have fl: "cst = InFlight False" "?c \<notin> set (st_pending s)" "ce_settled_by e = None" "\<not> ce_pending_forget e"
    using cst(2,3) e(2) tk by (auto simp: place_ok_def mark_ok_def)
  have setP: "set P = insert ?c (set (st_pending s))"
    unfolding P using arg_cong [OF takeWhile_dropWhile_id [of "\<lambda>d. sent_at (call_at s) d < ce_sent e" "st_pending s"], of set]
    by (simp only: set_append list.set Un_insert_right)
  have sent: "sent_at (call_at s) ?c = ce_sent e" using e(1) by (simp add: sent_at_def)
  have "sorted_wrt (\<lambda>c d. sent_at (call_at s) c < sent_at (call_at s) d) P"
    unfolding P sent [symmetric]
  proof (rule sorted_insert [OF core_sorted [OF core]], intro ballI notI)
    fix d assume d: "d \<in> set (st_pending s)" "sent_at (call_at s) d = sent_at (call_at s) ?c"
    obtain f where f: "call_at s d = Some f" using core_pending [OF core d(1)] by blast
    have "ce_sent f = ce_sent e" using d(2) f e(1) by (simp add: sent_at_def)
    from core_sent_inj [OF core f e(1) this] have "d = ?c" .
    with d(1) fl(2) show False by simp
  qed
  then have "core ((calls (st_table s))(?c \<mapsto> cst)) ((call_at s)(?c \<mapsto> e)) P (om_get (om_del i (st_claims s)))
      (st_next_claim_id s) (st_next_sent s) {}"
  proof (intro core_update [OF core e(1) refl refl])
    show "call_ok ((calls (st_table s))(?c \<mapsto> cst)) P (om_get (om_del i (st_claims s)))
        (st_next_claim_id s) (st_next_sent s) {} ?c e"
      using call_ok_correlation [OF core_call [OF core e(1)]] call_ok_sent [OF core_call [OF core e(1)]]
        call_ok_claim [OF core_call [OF core e(1)] i] i fl e(2) setP
      by (simp add: call_ok_def place_ok_def mark_ok_def owner_def)
  qed (use i setP in auto)
  moreover have "(calls (st_table s))(?c \<mapsto> cst) = calls (st_table s)" "(call_at s)(?c \<mapsto> e) = call_at s"
    using cst(1) e(1) by auto
  ultimately have core1: "core_of ?s1 {}" by (simp add: core_of_def)
  have "linv {} H {} C s' \<and> call_at s' = call_at ?s1"
  proof (rule wake_handlers_ok [OF _ core1 _ _ _ _ _ w])
    show "store_rep ?s1" using rep by (simp add: store_rep_def)
    show "open_ok H ?s1" "drains {} ?s1" "callers_ok C ?s1"
      using linv_open [OF inv] linv_drains [OF inv] linv_callers [OF inv]
      by (auto simp: open_ok_def drains_def callers_ok_def split: if_splits)
    show "\<forall>cid wts. om_get (st_callers ?s1) cid = Some wts \<longrightarrow> wt_slot wts \<noteq> None \<longrightarrow> length (st_calls ?s1) = SLOTS"
      using linv_waiters [OF inv] by (simp add: waiters_ok_def)
    show "\<forall>hid h c f. om_get (st_handlers ?s1) hid = Some h \<longrightarrow> wt_claim (hs_waiters h) \<noteq> None \<longrightarrow>
        c \<in> set (st_pending ?s1) \<longrightarrow> call_at ?s1 c = Some f \<longrightarrow> \<not> serves h (ce_iface e, ce_ord e) \<longrightarrow>
        \<not> serves h (ce_iface f, ce_ord f)"
      using conjunct2 [OF linv_waiters [OF inv, unfolded waiters_ok_def]] setP e(1) by simp
  qed
  then show ?thesis by blast
qed

lemma return_claim_ok:
  assumes inv: "linv {} H {} C s" and own: "om_get (st_claims s) i = Some own"
  shows "runs (return_claim s i wake) (\<lambda>(s', wake'). linv {} H {} C s' \<and> st_claims s' = om_del i (st_claims s))"
proof -
  let ?c = "co_call own" and ?s1 = "s\<lparr>st_claims := om_del i (st_claims s)\<rparr>"
  note core = linv_core [OF inv, unfolded core_of_def]
  obtain e where e: "call_at s ?c = Some e" "ce_claim e = Some i" using core_owner [OF core own] by blast
  have eo: "entry_of ?s1 ?c = Some e" using call_at_get [OF e(1)] by (simp add: entry_of_def)
  obtain cst where cst: "calls (st_table s) ?c = Some cst"
    "place_ok cst (?c \<in> set (st_pending s)) (Some own) e"
    using call_place [OF inv e(1)] e(2) own by (auto simp: owner_def)
  consider (forgotten) "ce_forgotten e" | (offered) "\<not> ce_forgotten e" "\<not> co_taken own"
    | (moved) "\<not> ce_forgotten e" "co_taken own" "ce_provider_used_streams e"
    | (returned) "\<not> ce_forgotten e" "co_taken own" "\<not> ce_provider_used_streams e" by blast
  then show ?thesis
  proof cases
    case forgotten
    let ?s2 = "s\<lparr>st_claims := om_del i (st_claims s), st_pending := remove1 ?c (st_pending s)\<rparr>"
    have s2: "(if co_taken own then ?s1 else ?s1\<lparr>st_pending := remove1 ?c (st_pending ?s1)\<rparr>) = ?s2"
      using cst(2) by (auto simp: place_ok_def remove1_idem)
    obtain f where f: "cst = InFlight f" using cst(2) by (auto simp: place_ok_def)
    have "runs (withdraw ?s2 ?c wake) (\<lambda>(s', wake'). gone ?c ?s2 s')"
      using cst(1) f e(1) linv_rep [OF inv] by (intro withdraw_effect) (auto simp: store_rep_def)
    moreover have "linv {} H {} C s'" if "gone ?c ?s2 s'" for s'
      using linv_gone [OF inv e(1) that refl refl] e(2) by simp
    ultimately have "runs (withdraw ?s2 ?c wake) (\<lambda>(s', wake'). linv {} H {} C s' \<and>
        st_claims s' = om_del i (st_claims s))"
      by (elim runs_mono) (auto simp: gone_def)
    then show ?thesis using own eo forgotten s2 by (simp add: return_claim_def Let_def)
  next
    case offered
    then show ?thesis
      using own eo linv_unclaim [OF inv own e(1)] by (simp add: return_claim_def Let_def)
  next
    case moved
    then show ?thesis
      using own eo interrupt_claim_ok [OF inv own e(1)] by (simp add: return_claim_def Let_def)
  next
    case returned
    let ?q = "\<lambda>d. sent_at (call_at s) d < ce_sent e"
    have n: "sent_before ?s1 (ce_sent e) (st_pending s) = Some (length (takeWhile ?q (st_pending s)))"
      using sent_before_eq [of "st_pending s" ?s1 "ce_sent e"] pending_calls [OF inv] by simp
    let ?P = "takeWhile ?q (st_pending s) @ ?c # dropWhile ?q (st_pending s)"
    obtain s' wake' where w: "wake_handlers_serving (s\<lparr>st_claims := om_del i (st_claims s), st_pending := ?P\<rparr>)
        (ce_iface e, ce_ord e) wake = (s', wake')" by fastforce
    have "st_claims s' = om_del i (st_claims s)"
      using w by (auto simp: wake_handlers_serving_def Let_def split: prod.splits)
    then show ?thesis
      using own eo returned n w linv_return [OF inv own e(1) returned(1,2) refl w]
      by (simp add: return_claim_def Let_def takeWhile_eq_take [symmetric] dropWhile_eq_drop [symmetric])
  qed
qed


lemma return_claims_ok:
  assumes "linv {} H {} C s" "distinct is" "\<forall>i \<in> set is. om_get (st_claims s) i \<noteq> None"
  shows "runs (return_claims s is wake) (\<lambda>(s', wake'). linv {} H {} C s' \<and>
    (\<forall>i. om_get (st_claims s') i = (if i \<in> set is then None else om_get (st_claims s) i)))"
  using assms
proof (induction "is" arbitrary: s wake)
  case (Cons i "is")
  then obtain own where own: "om_get (st_claims s) i = Some own" by auto
  show ?case
    unfolding return_claims.simps runs_simps
  proof (rule runs_mono [OF return_claim_ok [OF Cons.prems(1) own]], clarify)
    fix s1 wake1 assume s1: "linv {} H {} C s1" "st_claims s1 = om_del i (st_claims s)"
    have "runs (return_claims s1 is wake1) (\<lambda>(s', wake'). linv {} H {} C s' \<and>
        (\<forall>j. om_get (st_claims s') j = (if j \<in> set is then None else om_get (st_claims s1) j)))"
      using Cons.prems s1 by (intro Cons.IH) auto
    then show "runs (return_claims s1 is wake1) (\<lambda>(s', wake'). linv {} H {} C s' \<and>
        (\<forall>j. om_get (st_claims s') j = (if j \<in> set (i # is) then None else om_get (st_claims s) j)))"
      by (rule runs_mono) (use s1(2) in auto)
  qed
qed simp

lemma held_claims:
  assumes "om_wf m"
  shows "distinct (map fst (filter (\<lambda>p. Q (snd p)) m))"
    "i \<in> set (map fst (filter (\<lambda>p. Q (snd p)) m)) \<longleftrightarrow> (\<exists>v. om_get m i = Some v \<and> Q v)"
proof -
  show "distinct (map fst (filter (\<lambda>p. Q (snd p)) m))"
    using om_wf_distinct [OF assms] by (simp add: distinct_map_filter)
  show "i \<in> set (map fst (filter (\<lambda>p. Q (snd p)) m)) \<longleftrightarrow> (\<exists>v. om_get m i = Some v \<and> Q v)"
    using om_wf_in_iff [OF assms] by (fastforce simp: image_iff)
qed

lemma close_handler_ok:
  assumes inv: "store_inv s"
  shows "runs (close_handler s hid wake) (\<lambda>(wts, s', wake'). store_inv s')"
proof -
  note rep = linv_rep [OF inv [unfolded store_inv_def]]
  let ?s1 = "s\<lparr>st_handlers := om_del hid (st_handlers s)\<rparr>"
  obtain cs t wake1 rels where r: "release_calls hid (st_claims s) (st_calls s) (st_table s) wake = (cs, t, wake1, rels)"
    by (metis prod_cases4)
  note law = release_calls_law [OF r rep_table_wf [OF rep]]
  have s2: "linv (set rels) {hid} {} {} (?s1\<lparr>st_calls := cs, st_table := t\<rparr>)"
    using law by (auto intro: linv_released [OF inv, where t = t and hid = hid])
  have "runs (return_claims s3 (map fst (filter (\<lambda>p. co_handler (snd p) = hid) (st_claims s3))) wake3)
      (\<lambda>(s', wake'). store_inv s')" if s3: "linv {} {hid} {} {} s3" for s3 wake3
  proof -
    have wf: "om_wf (st_claims s3)" using linv_rep [OF s3] by (simp add: store_rep_def)
    note held = held_claims [OF wf, where Q = "\<lambda>o1. co_handler o1 = hid"]
    have "store_inv s'" if s': "linv {} {hid} {} {} s'" "\<forall>i. om_get (st_claims s') i =
        (if i \<in> set (map fst (filter (\<lambda>p. co_handler (snd p) = hid) (st_claims s3))) then None
         else om_get (st_claims s3) i)" for s'
    proof -
      have "co_handler o1 \<noteq> hid" if "om_get (st_claims s') i = Some o1" for i o1
        using that s'(2) held(2) [of i] by (auto split: if_splits)
      then have "open_ok {} s'" using linv_open [OF s'(1)] by (auto simp: open_ok_def)
      then show ?thesis using s'(1) by (simp add: store_inv_def linv_def)
    qed
    then show ?thesis
      by (intro runs_mono [OF return_claims_ok [OF s3 held(1)]]) (use held(2) in \<open>blast | auto\<close>)+
  qed
  then have "runs (forget_in_table_each (?s1\<lparr>st_calls := cs, st_table := t\<rparr>) rels wake1)
      (\<lambda>(s2, wake2). runs (return_claims s2 (map fst (filter (\<lambda>p. co_handler (snd p) = hid) (st_claims s2))) wake2)
        (\<lambda>(s', wake'). store_inv s'))"
    using forget_in_table_each_ok [OF s2, of rels wake1] by (auto elim!: runs_mono)
  then show ?thesis
    by (simp add: close_handler_def Let_def r) (auto elim!: runs_mono)
qed

section \<open>Opening, serving and waiting\<close>

lemma linv_callers_put:
  assumes inv: "store_inv s" and w: "wt_slot wts \<noteq> None \<Longrightarrow> length (st_calls s) = SLOTS"
  shows "store_inv (s\<lparr>st_callers := om_put cid wts (st_callers s)\<rparr>)"
proof -
  have "waiters_ok (s\<lparr>st_callers := om_put cid wts (st_callers s)\<rparr>)"
    using linv_waiters [OF inv [unfolded store_inv_def]] w by (simp add: waiters_ok_def)
  then show ?thesis
    using inv by (simp add: store_inv_def linv_def store_rep_def core_of_def open_ok_def drains_def callers_ok_def)
qed

lemma linv_handlers_put:
  assumes inv: "store_inv s"
    and w: "\<And>c e. wt_claim (hs_waiters h) \<noteq> None \<Longrightarrow> c \<in> set (st_pending s) \<Longrightarrow> call_at s c = Some e \<Longrightarrow>
      \<not> serves h (ce_iface e, ce_ord e)"
  shows "store_inv (s\<lparr>st_handlers := om_put hid h (st_handlers s)\<rparr>)"
proof -
  have "waiters_ok (s\<lparr>st_handlers := om_put hid h (st_handlers s)\<rparr>)"
    using linv_waiters [OF inv [unfolded store_inv_def]] w by (simp add: waiters_ok_def)
  then show ?thesis
    using inv by (simp add: store_inv_def linv_def store_rep_def core_of_def open_ok_def drains_def callers_ok_def)
qed

text \<open>The invariant reads only the state of the calls.\<close>

definition same_calls :: "store \<Rightarrow> store \<Rightarrow> bool" where
  "same_calls s s' \<longleftrightarrow> st_table s' = st_table s \<and> st_calls s' = st_calls s \<and> st_pending s' = st_pending s \<and>
     st_claims s' = st_claims s \<and> st_next_claim_id s' = st_next_claim_id s \<and>
     st_next_sent s' = st_next_sent s \<and> st_handlers s' = st_handlers s \<and> st_callers s' = st_callers s"

lemma store_inv_same: "same_calls s s' \<Longrightarrow> store_inv s \<Longrightarrow> store_inv s'"
proof -
  assume same: "same_calls s s'" and inv: "store_inv s"
  have "call_at s' = call_at s" by (rule call_at_cong) (use same in \<open>simp add: same_calls_def\<close>)
  then show ?thesis
    using same inv by (simp add: same_calls_def store_inv_def linv_def store_rep_def core_of_def open_ok_def
        drains_def callers_ok_def waiters_ok_def)
qed

lemma open_caller_ok: "store_inv s \<Longrightarrow> open_caller s = Some (cid, s') \<Longrightarrow> store_inv s'"
proof -
  assume inv: "store_inv s" and r: "open_caller s = Some (cid, s')"
  then obtain n where s': "s' = s\<lparr>st_next_caller_id := n, st_callers := om_put cid waiters_new (st_callers s)\<rparr>"
    by (auto simp: open_caller_def Let_def Option.bind_eq_Some_conv)
  have "store_inv (s\<lparr>st_next_caller_id := n\<rparr>)"
    by (rule store_inv_same [OF _ inv]) (simp add: same_calls_def)
  from linv_callers_put [OF this, of waiters_new cid] show ?thesis by (simp add: s' waiters_new_def)
qed

lemma open_handler_ok: "store_inv s \<Longrightarrow> open_handler s = Some (hid, s') \<Longrightarrow> store_inv s'"
proof -
  assume inv: "store_inv s" and r: "open_handler s = Some (hid, s')"
  then obtain n where s': "s' = s\<lparr>st_next_handler_id := n, st_handlers := om_put hid handler_default (st_handlers s)\<rparr>"
    by (auto simp: open_handler_def Let_def Option.bind_eq_Some_conv)
  have "store_inv (s\<lparr>st_next_handler_id := n\<rparr>)"
    by (rule store_inv_same [OF _ inv]) (simp add: same_calls_def)
  from linv_handlers_put [OF this, of handler_default hid] show ?thesis
    by (simp add: s' handler_default_def waiters_new_def)
qed

lemma register_slot:
  assumes "register_waiter wts ISlot w ready wake = (wts', wake')"
  shows "wt_slot wts' \<noteq> None \<longleftrightarrow> \<not> ready"
  using assms by (auto simp: register_waiter_def waiters_register_def waiters_take_def store_def Let_def
      split: if_splits prod.splits option.splits)

lemma register_claim:
  assumes "register_waiter wts (IClaim i) w ready wake = (wts', wake')"
  shows "wt_claim wts' \<noteq> None \<longleftrightarrow> \<not> ready"
  using assms by (auto simp: register_waiter_def waiters_register_def waiters_take_def store_def Let_def
      split: if_splits prod.splits option.splits)

lemma calls_length: "linv R H U C s \<Longrightarrow> length (st_calls s) \<le> SLOTS"
proof -
  assume inv: "linv R H U C s"
  have "dom (om_get (st_calls s)) \<subseteq> {..<SLOTS}" using entry_slot(1) [OF inv] by auto
  then have "card (dom (om_get (st_calls s))) \<le> SLOTS" by (metis card_lessThan card_mono finite_lessThan)
  then show ?thesis using om_length_card [of "st_calls s"] linv_rep [OF inv] by (simp add: store_rep_def)
qed

lemma wait_slot_ok: "store_inv s \<Longrightarrow> wait_slot s cid w wake = (s', wake') \<Longrightarrow> store_inv s'"
  using calls_length [of "{}" "{}" "{}" "{}" s]
  by (auto simp: wait_slot_def Let_def store_inv_def [symmetric] dest!: register_slot
      intro!: linv_callers_put split: option.splits prod.splits)

lemma claim_waiting_eq:
  assumes inv: "store_inv s" and h: "om_get (st_handlers s) hid = Some h"
  shows "claim_waiting s hid = Some (\<exists>c \<in> set (st_pending s). serves h (key_at s c))"
proof -
  have "find_served s h (st_pending s) = Some (position (\<lambda>c. serves h (key_at s c)) (st_pending s))"
    using find_served_eq pending_calls inv [unfolded store_inv_def] by blast
  moreover have "position (\<lambda>c. serves h (key_at s c)) (st_pending s) \<noteq> None \<longleftrightarrow>
      (\<exists>c \<in> set (st_pending s). serves h (key_at s c))"
    by (induction "st_pending s") (auto simp: position_None_iff)
  ultimately show ?thesis using h by (simp add: claim_waiting_def)
qed

lemma wait_claim_ok:
  assumes inv: "store_inv s"
  shows "runs (wait_claim s hid (IClaim i) w wake) (\<lambda>(s', wake'). store_inv s')"
proof (cases "om_get (st_handlers s) hid")
  case None
  then show ?thesis using inv by (simp add: wait_claim_def claim_waiting_def)
next
  case (Some h)
  let ?ready = "\<exists>c \<in> set (st_pending s). serves h (key_at s c)"
  obtain wts wake1 where r: "register_waiter (hs_waiters h) (IClaim i) w ?ready wake = (wts, wake1)" by fastforce
  have "store_inv (s\<lparr>st_handlers := om_put hid (h\<lparr>hs_waiters := wts\<rparr>) (st_handlers s)\<rparr>)"
  proof (rule linv_handlers_put [OF inv])
    fix c e assume "wt_claim (hs_waiters (h\<lparr>hs_waiters := wts\<rparr>)) \<noteq> None" "c \<in> set (st_pending s)" "call_at s c = Some e"
    then show "\<not> serves (h\<lparr>hs_waiters := wts\<rparr>) (ce_iface e, ce_ord e)"
      using register_claim [OF r] by (auto simp: key_at_def)
  qed
  then show ?thesis
    using Some claim_waiting_eq [OF inv Some] r by (simp add: wait_claim_def Let_def)
qed

lemma store_serve_ok:
  assumes inv: "store_inv s"
  shows "runs (store_serve s hid i ords wake) (\<lambda>(s', wake'). store_inv s')"
proof (cases "om_get (st_handlers s) hid")
  case None
  then show ?thesis using inv by (simp add: store_serve_def)
next
  case (Some h)
  let ?sv = "fold (\<lambda>k sv. if (i, k) \<in> set sv then sv else sv @ [(i, k)]) ords (hs_served h)"
  obtain taken wts where tk: "waiters_take (hs_waiters h) (IClaim i) = (taken, wts)" by fastforce
  have none: "wt_claim wts = None" using tk by (auto simp: waiters_take_def)
  let ?h = "\<lparr>hs_served = ?sv, hs_waiters = wts\<rparr>"
  let ?s1 = "s\<lparr>st_handlers := om_put hid ?h (st_handlers s)\<rparr>"
  have inv1: "store_inv ?s1" by (rule linv_handlers_put [OF inv]) (simp add: none)
  have get: "om_get (st_handlers ?s1) hid = Some ?h" by simp
  note wait = claim_waiting_eq [OF inv1 get]
  show ?thesis
  proof (cases taken)
    case None
    then show ?thesis using Some tk inv1 by (simp add: store_serve_def Let_def)
  next
    case w: (Some w)
    let ?wts1 = "wts\<lparr>wt_claim := Some w\<rparr>"
    have reg: "waiters_register wts (IClaim i) w = (None, ?wts1)"
      using none by (simp add: waiters_register_def store_def)
    show ?thesis
    proof (cases "\<exists>c \<in> set (st_pending ?s1). serves ?h (key_at ?s1 c)")
      case True
      then show ?thesis using Some tk w wait inv1 by (simp add: store_serve_def Let_def)
    next
      case False
      have "store_inv (?s1\<lparr>st_handlers := om_put hid (?h\<lparr>hs_waiters := ?wts1\<rparr>) (st_handlers ?s1)\<rparr>)"
      proof (rule linv_handlers_put [OF inv1])
        fix c e assume "c \<in> set (st_pending ?s1)" "call_at ?s1 c = Some e"
        then show "\<not> serves (?h\<lparr>hs_waiters := ?wts1\<rparr>) (ce_iface e, ce_ord e)"
          using False by (force simp: key_at_def serves_def)
      qed
      then show ?thesis using Some tk w wait False reg by (simp add: store_serve_def Let_def)
    qed
  qed
qed

lemma store_new_ok: "store_inv store_new"
proof -
  have t: "table_wf (st_table store_new)" "calls (st_table store_new) = Map.empty"
    "length (slots (st_table store_new)) = SLOTS"
    using table_wf_new [of SLOTS None] calls_new [of SLOTS None]
    by (simp_all add: store_new_def SLOTS_def) (simp add: table_new_def)
  have E: "call_at store_new = Map.empty" by (simp add: call_at_def store_new_def fun_eq_iff)
  have "core_of store_new {}"
    unfolding core_of_def core_def t(2) E by (simp add: store_new_def)
  then show ?thesis
    using t E by (simp add: store_inv_def linv_def store_rep_def open_ok_def drains_def callers_ok_def waiters_ok_def)
      (simp add: store_new_def)
qed

end
