(* ===== verification/Lb_Handle.thy ===== *)
theory Lb_Handle
  imports Lb_Calls
begin

text \<open>
  The role handles of the in-process runtime (\<open>crates/ridl-loopback/src/handle.rs\<close>) and the
  aggregate over them (\<open>lib.rs\<close>). A handle's own state is a record; the store it shares is an
  argument, returned changed. \<open>locked\<close> runs one operation of the store with an empty list of
  wakers, and the list comes back as the wakers woken after the lock is released. The reader
  handle has no state of its own: its methods are those of \<open>Lb_Store\<close>.
\<close>

section \<open>Writers\<close>

record writer_handle =
  wh_staged :: "(key, staged) omap"
  wh_seqs :: "(key, u64) omap"

definition writer_new :: writer_handle where
  "writer_new = \<lparr>wh_staged = [], wh_seqs = []\<rparr>"

definition writer_set ::
    "store \<Rightarrow> writer_handle \<Rightarrow> interface_no \<Rightarrow> ordinal \<Rightarrow> bytes \<Rightarrow> (write_error + unit) \<times> writer_handle" where
  "writer_set s w i k b =
     (case store_admit s (i, k) Signal (length b) of
        Inl cap \<Rightarrow> (Inl (Write_TooLarge cap), w)
      | Inr _ \<Rightarrow> (Inr (), w\<lparr>wh_staged := om_put (i, k) (Staged_Set b) (wh_staged w)\<rparr>))"

definition writer_invalidate :: "writer_handle \<Rightarrow> interface_no \<Rightarrow> ordinal \<Rightarrow> writer_handle" where
  "writer_invalidate w i k = w\<lparr>wh_staged := om_put (i, k) Staged_Invalidate (wh_staged w)\<rparr>"

definition writer_touch :: "writer_handle \<Rightarrow> interface_no \<Rightarrow> ordinal \<Rightarrow> writer_handle" where
  "writer_touch w i k =
     (if om_get (wh_staged w) (i, k) = None
      then w\<lparr>wh_staged := om_put (i, k) Staged_Touch (wh_staged w)\<rparr> else w)"

definition writer_commit :: "store \<Rightarrow> writer_handle \<Rightarrow> (store \<times> writer_handle) option" where
  "writer_commit s w =
     do {
       (s1, stg, seqs) \<leftarrow> store_commit s (wh_staged w) (wh_seqs w);
       Some (s1, w\<lparr>wh_staged := stg, wh_seqs := seqs\<rparr>)
     }"

text \<open>A registration on a handle that observes nothing.\<close>

definition wake_at_once :: "waker \<Rightarrow> waker list" where
  "wake_at_once w = [w]"

section \<open>Sources and sinks\<close>

definition source_drop :: "store \<Rightarrow> nat \<Rightarrow> store" where
  "source_drop s sid = snd (close_source s sid)"

definition source_wake_on :: "store \<Rightarrow> nat \<Rightarrow> interest \<Rightarrow> waker \<Rightarrow> store \<times> waker list" where
  "source_wake_on s sid what w =
     (case what of
        IEvent _ \<Rightarrow> wait_event s sid what w []
      | _ \<Rightarrow> (s, wake_at_once w))"

type_synonym sink_handle = "(key, u64) omap"

text \<open>The closure of \<open>raise\<close> that draws the next number of the channel.\<close>

definition sink_draw :: "key \<Rightarrow> sink_handle \<Rightarrow> (u64 \<times> sink_handle) option" where
  "sink_draw k seqs =
     do {
       n \<leftarrow> inc_u64 (case om_get seqs k of Some n \<Rightarrow> n | None \<Rightarrow> 0);
       Some (n, om_put k n seqs)
     }"

definition sink_raise ::
    "store \<Rightarrow> sink_handle \<Rightarrow> interface_no \<Rightarrow> ordinal \<Rightarrow> bytes \<Rightarrow> trace_context option \<Rightarrow>
     ((raise_error + unit) \<times> sink_handle \<times> store \<times> waker list) option" where
  "sink_raise s seqs i k b trc = store_raise s i k b (sink_draw (i, k)) seqs trc []"

section \<open>Callers\<close>

record caller_handle =
  ch_id :: nat
  ch_next_seq :: u64

definition caller_new :: "store \<Rightarrow> (caller_handle \<times> store) option" where
  "caller_new s = do { (cid, s1) \<leftarrow> open_caller s; Some (\<lparr>ch_id = cid, ch_next_seq = 0\<rparr>, s1) }"

definition caller_send ::
    "store \<Rightarrow> caller_handle \<Rightarrow> call_kind \<Rightarrow> interface_no \<Rightarrow> ordinal \<Rightarrow> bytes \<Rightarrow> trace_context option \<Rightarrow>
     ((send_error + correlation) \<times> caller_handle \<times> store \<times> waker list) option" where
  "caller_send s ch kd i k args trc =
     do {
       sq \<leftarrow> inc_u64 (ch_next_seq ch);
       (r, s1, wake) \<leftarrow> store_send s (ch_id ch) kd (i, k) args sq trc [];
       Some (r, (case r of Inl _ \<Rightarrow> ch | Inr _ \<Rightarrow> ch\<lparr>ch_next_seq := sq\<rparr>), s1, wake)
     }"

definition caller_drop :: "store \<Rightarrow> caller_handle \<Rightarrow> (store \<times> waker list) option" where
  "caller_drop s ch = do { (_, s1, wake) \<leftarrow> close_caller s (ch_id ch) []; Some (s1, wake) }"

definition caller_wake_on :: "store \<Rightarrow> caller_handle \<Rightarrow> interest \<Rightarrow> waker \<Rightarrow> store \<times> waker list" where
  "caller_wake_on s ch what w =
     (case what of
        IOutcome c \<Rightarrow> wait_outcome s c w []
      | ISlot \<Rightarrow> wait_slot s (ch_id ch) w []
      | IStream c no \<Rightarrow> wait_stream s c no w []
      | _ \<Rightarrow> (s, wake_at_once w))"

definition UNKNOWN :: push_error where "UNKNOWN = Push_Contract UnknownInteraction"

definition caller_pull ::
    "store \<Rightarrow> correlation \<Rightarrow> stream_no \<Rightarrow> bytes \<Rightarrow> ((read_error + pull) \<times> bytes \<times> store \<times> waker list) option" where
  "caller_pull s c no out =
     (case caller_slot s c of
        None \<Rightarrow> Some (Inl (Read_Contract UnknownInteraction), out, s, [])
      | Some slot \<Rightarrow> store_pull s slot Side_Caller no out [])"

definition caller_push ::
    "store \<Rightarrow> correlation \<Rightarrow> stream_no \<Rightarrow> bytes \<Rightarrow> ((push_error + nat) \<times> store \<times> waker list) option" where
  "caller_push s c no chunk =
     (case caller_slot s c of
        None \<Rightarrow> Some (Inl UNKNOWN, s, [])
      | Some slot \<Rightarrow> store_push s slot Side_Caller no chunk [])"

definition caller_end ::
    "store \<Rightarrow> correlation \<Rightarrow> stream_no \<Rightarrow> ((push_error + unit) \<times> store \<times> waker list) option" where
  "caller_end s c no =
     (case caller_slot s c of
        None \<Rightarrow> Some (Inl UNKNOWN, s, [])
      | Some slot \<Rightarrow> store_end s slot Side_Caller no [])"

definition caller_abort ::
    "store \<Rightarrow> correlation \<Rightarrow> stream_no \<Rightarrow> call_error \<Rightarrow> ((push_error + unit) \<times> store \<times> waker list) option" where
  "caller_abort s c no err =
     (case caller_slot s c of
        None \<Rightarrow> Some (Inl UNKNOWN, s, [])
      | Some slot \<Rightarrow> store_abort s slot Side_Caller no err [])"

section \<open>Handlers\<close>

record handler_handle =
  hh_id :: nat
  hh_served :: "key list"

definition handler_new :: "store \<Rightarrow> (handler_handle \<times> store) option" where
  "handler_new s = do { (hid, s1) \<leftarrow> open_handler s; Some (\<lparr>hh_id = hid, hh_served = []\<rparr>, s1) }"

definition handler_drop :: "store \<Rightarrow> handler_handle \<Rightarrow> (store \<times> waker list) option" where
  "handler_drop s hh = do { (_, s1, wake) \<leftarrow> close_handler s (hh_id hh) []; Some (s1, wake) }"

definition handler_serve ::
    "store \<Rightarrow> handler_handle \<Rightarrow> interface_no \<Rightarrow> ordinal list \<Rightarrow> (handler_handle \<times> store \<times> waker list) option" where
  "handler_serve s hh i ords =
     do {
       let served = fold (\<lambda>k sv. if (i, k) \<in> set sv then sv else sv @ [(i, k)]) ords (hh_served hh);
       (s1, wake) \<leftarrow> store_serve s (hh_id hh) i ords [];
       Some (hh\<lparr>hh_served := served\<rparr>, s1, wake)
     }"

definition handler_wake_on ::
    "store \<Rightarrow> handler_handle \<Rightarrow> interest \<Rightarrow> waker \<Rightarrow> (store \<times> waker list) option" where
  "handler_wake_on s hh what w =
     (case what of
        IClaim _ \<Rightarrow> wait_claim s (hh_id hh) what w []
      | IClaimStream i no \<Rightarrow> wait_claim_stream s (hh_id hh) i no w []
      | _ \<Rightarrow> Some (s, wake_at_once w))"

definition handler_pull ::
    "store \<Rightarrow> handler_handle \<Rightarrow> claim_id \<Rightarrow> stream_no \<Rightarrow> bytes \<Rightarrow>
     ((read_error + pull) \<times> bytes \<times> store \<times> waker list) option" where
  "handler_pull s hh i no out =
     (case claim_slot s (hh_id hh) i of
        None \<Rightarrow> Some (Inl (Read_Contract UnknownInteraction), out, s, [])
      | Some slot \<Rightarrow> store_pull s slot Side_Provider no out [])"

definition handler_push ::
    "store \<Rightarrow> handler_handle \<Rightarrow> claim_id \<Rightarrow> stream_no \<Rightarrow> bytes \<Rightarrow>
     ((push_error + nat) \<times> store \<times> waker list) option" where
  "handler_push s hh i no chunk =
     (case claim_slot s (hh_id hh) i of
        None \<Rightarrow> Some (Inl UNKNOWN, s, [])
      | Some slot \<Rightarrow> store_push s slot Side_Provider no chunk [])"

section \<open>The aggregate\<close>

record loopback =
  lb_writer :: writer_handle
  lb_source :: nat
  lb_sink :: sink_handle
  lb_caller :: caller_handle
  lb_handler :: handler_handle

definition loopback_over :: "store \<Rightarrow> (loopback \<times> store) option" where
  "loopback_over s =
     do {
       (sid, s1) \<leftarrow> open_source s;
       (ch, s2) \<leftarrow> caller_new s1;
       (hh, s3) \<leftarrow> handler_new s2;
       Some (\<lparr>lb_writer = writer_new, lb_source = sid, lb_sink = [], lb_caller = ch, lb_handler = hh\<rparr>, s3)
     }"

definition loopback_new :: "(loopback \<times> store) option" where
  "loopback_new = loopback_over store_new"

definition loopback_wake_on :: "store \<Rightarrow> loopback \<Rightarrow> interest \<Rightarrow> waker \<Rightarrow> (store \<times> waker list) option" where
  "loopback_wake_on s lb what w =
     (case what of
        IOutcome _ \<Rightarrow> Some (caller_wake_on s (lb_caller lb) what w)
      | ISlot \<Rightarrow> Some (caller_wake_on s (lb_caller lb) what w)
      | IStream _ _ \<Rightarrow> Some (caller_wake_on s (lb_caller lb) what w)
      | IEvent _ \<Rightarrow> Some (source_wake_on s (lb_source lb) what w)
      | IClaim _ \<Rightarrow> handler_wake_on s (lb_handler lb) what w
      | IClaimStream _ _ \<Rightarrow> handler_wake_on s (lb_handler lb) what w)"

end
