(* ===== verification/Lb_Counts.thy ===== *)
theory Lb_Counts
  imports Lb_Handle
begin

text \<open>
  What each operation on the calls of the in-process runtime leaves alone: the counters of the
  store, the set of its open callers, the signals and the sources. Only \<open>send\<close>, \<open>next_claim\<close> and
  the constructors of a handle draw a number, and each draws one.
\<close>

definition counts ::
    "store \<Rightarrow> (u64 \<times> claim_id \<times> nat \<times> nat \<times> nat \<times> (interface_no, u64) omap \<times> nat set) \<times>
       (key, signal_entry) omap \<times> (nat, source_state) omap" where
  "counts s = ((st_next_sent s, st_next_claim_id s, st_next_source_id s, st_next_caller_id s,
     st_next_handler_id s, st_generations s, dom (om_get (st_callers s))), st_signals s, st_sources s)"

lemma counts_simps [simp]:
  "counts (s\<lparr>st_table := t\<rparr>) = counts s" "counts (s\<lparr>st_calls := m\<rparr>) = counts s"
  "counts (s\<lparr>st_pending := P\<rparr>) = counts s" "counts (s\<lparr>st_claims := o1\<rparr>) = counts s"
  "counts (s\<lparr>st_handlers := hs\<rparr>) = counts s" "counts (s\<lparr>st_fail_next_settle := b\<rparr>) = counts s"
  "counts (s\<lparr>st_checks := ck\<rparr>) = counts s" "counts (s\<lparr>st_fixed := fx\<rparr>) = counts s"
  "counts (s\<lparr>st_limits := l\<rparr>) = counts s" "counts (s\<lparr>st_now := now\<rparr>) = counts s"
  "counts (put_call s slot e) = counts s"
  by (simp_all add: counts_def put_call_def)

lemma counts_callers: "dom (om_get cs) = dom (om_get (st_callers s)) \<Longrightarrow> counts (s\<lparr>st_callers := cs\<rparr>) = counts s"
  by (simp add: counts_def)

text \<open>A computation whose result, if it has one, satisfies a predicate.\<close>

definition returns :: "'a option \<Rightarrow> ('a \<Rightarrow> bool) \<Rightarrow> bool" where
  "returns m P \<longleftrightarrow> (\<forall>x. m = Some x \<longrightarrow> P x)"

lemma returns_simps [simp]:
  "returns None P" "returns (Some x) P \<longleftrightarrow> P x"
  "returns (Option.bind m f) P \<longleftrightarrow> returns m (\<lambda>x. returns (f x) P)"
  by (auto simp: returns_def Option.bind_eq_Some_conv)

lemma returns_any: "(\<And>x. P x) \<Longrightarrow> returns m P"
  by (simp add: returns_def)

lemma returns_step: "returns m P \<Longrightarrow> (\<And>x. P x \<Longrightarrow> Q x) \<Longrightarrow> returns m Q"
  by (simp add: returns_def)

lemma returns_gets [intro!]:
  "(\<And>x. P x) \<Longrightarrow> returns (om_get m k) P" "(\<And>x. Q x) \<Longrightarrow> returns (entry_of s c) Q"
  "(\<And>x. B x) \<Longrightarrow> returns (claim_waiting s hid) B" "(\<And>x. N x) \<Longrightarrow> returns (sent_before s sent cs) N"
  "(\<And>x. A x) \<Longrightarrow> returns (settle_admit s c out) A" "(\<And>x. F x) \<Longrightarrow> returns (find_served s h cs) F"
  by (simp_all add: returns_def)

lemma returns_True [simp]: "returns m (\<lambda>x. True)"
  by (simp add: returns_def)

lemma returnsD: "returns m P \<Longrightarrow> m = Some x \<Longrightarrow> P x"
  by (simp add: returns_def)

abbreviation keeps :: "store \<Rightarrow> (store \<times> waker list) option \<Rightarrow> bool" where
  "keeps s m \<equiv> returns m (\<lambda>(s', _). counts s' = counts s)"

abbreviation keeps_result :: "store \<Rightarrow> ('r \<times> store \<times> waker list) option \<Rightarrow> bool" where
  "keeps_result s m \<equiv> returns m (\<lambda>(_, s', _). counts s' = counts s)"

section \<open>Forgetting and settling\<close>

lemma reclaimed_counts: "reclaimed s c wake = (s', wake') \<Longrightarrow> counts s' = counts s"
  by (auto simp: reclaimed_def Let_def case_prod_beta counts_def dom_def)

lemma withdraw_counts: "keeps s (withdraw s c wake)"
  by (auto simp: withdraw_def split: prod.split settled.split forgotten.split dest!: reclaimed_counts)

lemma forget_in_table_counts:
  "keeps s (forget_in_table s c wake)"
  by (auto simp: forget_in_table_def Let_def split: prod.split forgotten.split
      dest!: reclaimed_counts)

lemma interrupt_streams_counts:
  "keeps s (interrupt_streams s c wake)"
  by (auto simp: interrupt_streams_def Let_def split: option.split prod.split)

lemma defer_forget_counts:
  "defer_forget s c wake = (b, s', wake') \<Longrightarrow> counts s' = counts s"
  by (auto simp: defer_forget_def Let_def split: option.splits prod.splits if_splits)

lemma release_if_drained_counts:
  "keeps s (release_if_drained s slot wake)"
  by (auto simp: release_if_drained_def split: option.split if_split intro!: forget_in_table_counts [THEN returns_step])

lemma store_forget_counts:
  "keeps s (store_forget s c wake)"
  by (auto simp: store_forget_def split: option.split prod.split if_split bool.split
      intro!: withdraw_counts [THEN returns_step] forget_in_table_counts [THEN returns_step] interrupt_streams_counts [THEN returns_step] dest!: defer_forget_counts)

lemma forget_each_counts:
  "keeps s (forget_each s cs wake)"
proof (induction cs arbitrary: s wake)
  case (Cons c cs)
  show ?case by (auto intro!: store_forget_counts [THEN returns_step] Cons.IH [THEN returns_step])
qed simp

lemma settle_call_counts:
  "keeps s (settle_call s c hid out wake)"
  by (auto simp: settle_call_def Let_def split: prod.split settled.split
      intro!: release_if_drained_counts [THEN returns_step] dest!: reclaimed_counts)

lemma store_settle_counts:
  "keeps_result s (store_settle s hid i out wake)"
  by (auto simp: store_settle_def Let_def
      split: option.split sum.split if_split intro!: settle_call_counts [THEN returns_step])

section \<open>Handlers\<close>

lemma wake_handlers_counts:
  "wake_handlers_serving s k wake = (s', wake') \<Longrightarrow> counts s' = counts s"
  by (auto simp: wake_handlers_serving_def Let_def split: prod.splits)

lemma forget_in_table_each_counts:
  "keeps s (forget_in_table_each s cs wake)"
proof (induction cs arbitrary: s wake)
  case (Cons c cs)
  show ?case by (auto intro!: forget_in_table_counts [THEN returns_step] Cons.IH [THEN returns_step])
qed simp

lemma interrupt_claim_counts:
  "keeps s (interrupt_claim s c wake)"
  by (auto simp: interrupt_claim_def Let_def split: prod.split settled.split
      dest!: reclaimed_counts)

lemma return_claim_counts:
  "keeps s (return_claim s i wake)"
  by (auto simp: return_claim_def Let_def split: if_split
      intro!: withdraw_counts [THEN returns_step] interrupt_claim_counts [THEN returns_step] dest!: wake_handlers_counts)

lemma return_claims_counts:
  "keeps s (return_claims s is wake)"
proof (induction "is" arbitrary: s wake)
  case (Cons i "is")
  show ?case by (auto intro!: return_claim_counts [THEN returns_step] Cons.IH [THEN returns_step])
qed simp

lemma close_handler_counts:
  "keeps_result s (close_handler s hid wake)"
  by (auto simp: close_handler_def Let_def split: prod.split
      intro!: return_claims_counts [THEN returns_step] forget_in_table_each_counts [THEN returns_step])

lemma store_serve_counts:
  "keeps s (store_serve s hid i ords wake)"
  by (auto simp: store_serve_def Let_def split: option.split prod.split if_split)

lemma wait_claim_counts:
  "keeps s (wait_claim s hid what w wake)"
  by (auto simp: wait_claim_def Let_def split: option.split prod.split)

section \<open>Streams\<close>

lemma take_stream_waker_counts:
  "take_stream_waker s slot no sd = (w, s') \<Longrightarrow> counts s' = counts s"
  by (auto simp: take_stream_waker_def Let_def split: option.splits side.splits prod.splits)

lemma store_pull_counts:
  "returns (store_pull s slot sd no out wake) (\<lambda>(_, _, s', _). counts s' = counts s)"
  by (auto simp: store_pull_def Let_def
      split: option.split list.split prod.split if_split
      intro!: release_if_drained_counts [THEN returns_step] dest!: take_stream_waker_counts)

lemma store_push_counts:
  "keeps_result s (store_push s slot sd no chunk wake)"
  by (auto simp: store_push_def Let_def
      split: option.split prod.split if_split sum.split dest!: take_stream_waker_counts)

lemma store_end_counts:
  "keeps_result s (store_end s slot sd no wake)"
  by (auto simp: store_end_def Let_def
      split: option.split prod.split if_split dest!: take_stream_waker_counts)

lemma store_abort_counts:
  "keeps_result s (store_abort s slot sd no err wake)"
  by (auto simp: store_abort_def Let_def split: prod.split if_split
      intro!: release_if_drained_counts [THEN returns_step] dest!: take_stream_waker_counts)

lemma end_claim_counts:
  "keeps_result s (end_claim s hid i no wake)"
  by (auto simp: end_claim_def Let_def split: option.split prod.split if_split
      intro!: store_settle_counts [THEN returns_step] store_end_counts [THEN returns_step])

lemma abort_claim_counts:
  "keeps_result s (abort_claim s hid i no err wake)"
  by (auto simp: abort_claim_def Let_def split: option.split prod.split if_split
      intro!: store_settle_counts [THEN returns_step] store_abort_counts [THEN returns_step])

lemma wait_claim_stream_counts:
  "keeps s (wait_claim_stream s hid i no w wake)"
  by (auto simp: wait_claim_stream_def Let_def split: option.split prod.split if_split)

section \<open>Callers\<close>

lemma wait_outcome_counts: "wait_outcome s c w wake = (s', wake') \<Longrightarrow> counts s' = counts s"
  by (auto simp: wait_outcome_def Let_def split: prod.splits if_splits)

lemma wait_stream_counts: "wait_stream s c no w wake = (s', wake') \<Longrightarrow> counts s' = counts s"
  by (auto simp: wait_stream_def Let_def split: prod.splits if_splits)

lemma wait_slot_counts: "wait_slot s cid w wake = (s', wake') \<Longrightarrow> counts s' = counts s"
  by (auto simp: wait_slot_def Let_def intro!: counts_callers split: prod.splits option.splits if_splits)


section \<open>Operations that draw a number\<close>

lemma returns_inc [intro!]: "(\<And>m. unat m = unat n + 1 \<Longrightarrow> P m) \<Longrightarrow> returns (inc_u64 n) P"
  by (auto simp: returns_def dest: inc_u64_SomeD)

lemma store_send_counts:
  "returns (store_send s cid kd k args sq trc wake) (\<lambda>(_, s', _).
     unat (st_next_sent s') \<le> unat (st_next_sent s) + 1 \<and> counts s' = counts (s\<lparr>st_next_sent := st_next_sent s'\<rparr>))"
  by (auto simp: store_send_def Let_def split: sum.split option.split prod.split dest!: wake_handlers_counts)
    (simp_all add: counts_def put_call_def)

lemma claim_identity_counts:
  "returns (claim_identity s c) (\<lambda>(_, s').
     unat (st_next_claim_id s') \<le> unat (st_next_claim_id s) + 1 \<and>
     counts s' = counts (s\<lparr>st_next_claim_id := st_next_claim_id s'\<rparr>))"
  by (auto simp: claim_identity_def split: option.split) (simp_all add: counts_def put_call_def)

lemma next_claim_counts:
  "returns (next_claim s hid out) (\<lambda>(_, _, s').
     unat (st_next_claim_id s') \<le> unat (st_next_claim_id s) + 1 \<and>
     counts s' = counts (s\<lparr>st_next_claim_id := st_next_claim_id s'\<rparr>))"
  by (auto simp: next_claim_def Let_def split: option.split intro!: claim_identity_counts [THEN returns_step])

end
