(* ===== verification/Lb_Runtime.thy ===== *)
theory Lb_Runtime
  imports Lb_Close Lb_Counts
begin

text \<open>
  The in-process runtime as a system of steps: one store, the handles a program holds on it, and
  one step per method of a handle. A step is atomic because every method runs its critical section
  under the one lock; the wakers it returns are woken after the lock is released. An operation on
  a handle the program does not hold is not a step it can take, and changes nothing here. The
  methods that only read the store (\<open>read\<close>, \<open>read_fixed\<close>, \<open>generation\<close>, \<open>scan\<close>, \<open>read_coherent\<close>)
  are functions of it and no step.
\<close>

section \<open>Systems of operations that may panic\<close>

fun run_ops :: "('s \<Rightarrow> 'o \<Rightarrow> ('s \<times> 'w list) option) \<Rightarrow> 's \<Rightarrow> 'o list \<Rightarrow> ('s \<times> 'w list) option" where
  "run_ops step s [] = Some (s, [])"
| "run_ops step s (op # ops) =
     do {
       (s1, ws) \<leftarrow> step s op;
       (s2, ws') \<leftarrow> run_ops step s1 ops;
       Some (s2, ws @ ws')
     }"

text \<open>
  Every step that is allowed succeeds and keeps an invariant that counts the steps, as long as the
  count is below the range of the counters.
\<close>

locale counted_system =
  fixes step :: "'s \<Rightarrow> 'o \<Rightarrow> ('s \<times> 'w list) option" and inv :: "nat \<Rightarrow> 's \<Rightarrow> bool"
    and allowed :: "'o \<Rightarrow> bool" and limit :: nat
  assumes step_ok: "inv n s \<Longrightarrow> allowed op \<Longrightarrow> Suc n < limit \<Longrightarrow> runs (step s op) (\<lambda>(s', ws). inv (Suc n) s')"
begin

lemma run_ok:
  assumes "inv n s" "list_all allowed ops" "n + length ops < limit"
  shows "runs (run_ops step s ops) (\<lambda>(s', ws). inv (n + length ops) s')"
  using assms
proof (induction ops arbitrary: n s)
  case (Cons op ops)
  have op: "allowed op" "Suc n < limit" using Cons.prems(2,3) by simp_all
  show ?case
    unfolding run_ops.simps runs_simps
  proof (rule runs_mono [OF step_ok [OF Cons.prems(1) op]], clarify)
    fix s1 ws assume s1: "inv (Suc n) s1"
    have "runs (run_ops step s1 ops) (\<lambda>(s', ws). inv (Suc n + length ops) s')"
      using Cons.prems by (intro Cons.IH [OF s1]) simp_all
    then show "runs (Option.bind (run_ops step s1 ops) (\<lambda>(s2, ws'). Some (s2, ws @ ws')))
        (\<lambda>(s', ws). inv (n + length (op # ops)) s')"
      unfolding runs_simps by (rule runs_mono) auto
  qed
qed simp

end

section \<open>The runtime\<close>

record runtime =
  rt_store :: store
  rt_writers :: "writer_handle list"
  rt_sinks :: "sink_handle list"
  rt_sources :: "nat list"
  rt_callers :: "caller_handle list"
  rt_handlers :: "handler_handle list"

definition runtime_new :: runtime where
  "runtime_new = \<lparr>rt_store = store_new, rt_writers = [], rt_sinks = [], rt_sources = [], rt_callers = [],
     rt_handlers = []\<rparr>"

datatype rt_op =
    Op_Writer
  | Op_Set nat interface_no ordinal bytes
  | Op_Invalidate nat interface_no ordinal
  | Op_Touch nat interface_no ordinal
  | Op_Commit nat
  | Op_Source
  | Op_Source_Drop nat
  | Op_Subscribe nat interface_no "ordinal list"
  | Op_Unsubscribe nat interface_no "ordinal list"
  | Op_Next nat bytes
  | Op_Source_Wake nat interest waker
  | Op_Sink
  | Op_Raise nat interface_no ordinal bytes "trace_context option"
  | Op_Caller
  | Op_Caller_Drop nat
  | Op_Send nat call_kind interface_no ordinal bytes "trace_context option"
  | Op_Ack correlation
  | Op_Reply correlation bytes
  | Op_Forget correlation
  | Op_Pull correlation stream_no bytes
  | Op_Push correlation stream_no bytes
  | Op_End correlation stream_no
  | Op_Abort correlation stream_no call_error
  | Op_Caller_Wake nat interest waker
  | Op_Handler
  | Op_Handler_Drop nat
  | Op_Serve nat interface_no "ordinal list"
  | Op_Next_Claim nat bytes
  | Op_Settle nat claim_id "call_error + bytes"
  | Op_Pull_Claim nat claim_id stream_no bytes
  | Op_Push_Claim nat claim_id stream_no bytes
  | Op_End_Claim nat claim_id stream_no
  | Op_Abort_Claim nat claim_id stream_no call_error
  | Op_Handler_Wake nat interest waker
  | Op_Advance duration
  | Op_Limit key nat
  | Op_Provision interface_no ordinal bytes
  | Op_Check interface_no ordinal check
  | Op_Fail_Settle

text \<open>A method on the handle at a place of a list, when the program holds one there.\<close>

definition at_handle :: "'h list \<Rightarrow> nat \<Rightarrow> ('h \<Rightarrow> (runtime \<times> waker list) option) \<Rightarrow> runtime \<Rightarrow>
    (runtime \<times> waker list) option" where
  "at_handle hs n f rt = (if n < length hs then f (hs ! n) else Some (rt, []))"

definition with_store :: "runtime \<Rightarrow> (store \<times> waker list) option \<Rightarrow> (runtime \<times> waker list) option" where
  "with_store rt m = do { (s, ws) \<leftarrow> m; Some (rt\<lparr>rt_store := s\<rparr>, ws) }"

definition with_result :: "runtime \<Rightarrow> ('r \<times> store \<times> waker list) option \<Rightarrow> (runtime \<times> waker list) option" where
  "with_result rt m = do { (_, s, ws) \<leftarrow> m; Some (rt\<lparr>rt_store := s\<rparr>, ws) }"

fun rt_step :: "runtime \<Rightarrow> rt_op \<Rightarrow> (runtime \<times> waker list) option" where
  "rt_step rt Op_Writer = Some (rt\<lparr>rt_writers := rt_writers rt @ [writer_new]\<rparr>, [])"
| "rt_step rt (Op_Set n i k b) = at_handle (rt_writers rt) n
     (\<lambda>w. Some (rt\<lparr>rt_writers := (rt_writers rt)[n := snd (writer_set (rt_store rt) w i k b)]\<rparr>, [])) rt"
| "rt_step rt (Op_Invalidate n i k) = at_handle (rt_writers rt) n
     (\<lambda>w. Some (rt\<lparr>rt_writers := (rt_writers rt)[n := writer_invalidate w i k]\<rparr>, [])) rt"
| "rt_step rt (Op_Touch n i k) = at_handle (rt_writers rt) n
     (\<lambda>w. Some (rt\<lparr>rt_writers := (rt_writers rt)[n := writer_touch w i k]\<rparr>, [])) rt"
| "rt_step rt (Op_Commit n) = at_handle (rt_writers rt) n
     (\<lambda>w. do { (s, w1) \<leftarrow> writer_commit (rt_store rt) w;
               Some (rt\<lparr>rt_store := s, rt_writers := (rt_writers rt)[n := w1]\<rparr>, []) }) rt"
| "rt_step rt Op_Source =
     do { (sid, s) \<leftarrow> open_source (rt_store rt);
          Some (rt\<lparr>rt_store := s, rt_sources := rt_sources rt @ [sid]\<rparr>, []) }"
| "rt_step rt (Op_Source_Drop n) = at_handle (rt_sources rt) n
     (\<lambda>sid. Some (rt\<lparr>rt_store := source_drop (rt_store rt) sid, rt_sources := remove_at n (rt_sources rt)\<rparr>, [])) rt"
| "rt_step rt (Op_Subscribe n i ords) = at_handle (rt_sources rt) n
     (\<lambda>sid. Some (rt\<lparr>rt_store := store_subscribe (rt_store rt) sid i ords\<rparr>, [])) rt"
| "rt_step rt (Op_Unsubscribe n i ords) = at_handle (rt_sources rt) n
     (\<lambda>sid. Some (rt\<lparr>rt_store := store_unsubscribe (rt_store rt) sid i ords\<rparr>, [])) rt"
| "rt_step rt (Op_Next n out) = at_handle (rt_sources rt) n
     (\<lambda>sid. Some (rt\<lparr>rt_store := snd (snd (next_event (rt_store rt) sid out))\<rparr>, [])) rt"
| "rt_step rt (Op_Source_Wake n what w) = at_handle (rt_sources rt) n
     (\<lambda>sid. with_store rt (Some (source_wake_on (rt_store rt) sid what w))) rt"
| "rt_step rt Op_Sink = Some (rt\<lparr>rt_sinks := rt_sinks rt @ [[]]\<rparr>, [])"
| "rt_step rt (Op_Raise n i k b trc) = at_handle (rt_sinks rt) n
     (\<lambda>seqs. do { (_, seqs1, s, ws) \<leftarrow> sink_raise (rt_store rt) seqs i k b trc;
                  Some (rt\<lparr>rt_store := s, rt_sinks := (rt_sinks rt)[n := seqs1]\<rparr>, ws) }) rt"
| "rt_step rt Op_Caller =
     do { (ch, s) \<leftarrow> caller_new (rt_store rt);
          Some (rt\<lparr>rt_store := s, rt_callers := rt_callers rt @ [ch]\<rparr>, []) }"
| "rt_step rt (Op_Caller_Drop n) = at_handle (rt_callers rt) n
     (\<lambda>ch. do { (s, ws) \<leftarrow> caller_drop (rt_store rt) ch;
                Some (rt\<lparr>rt_store := s, rt_callers := remove_at n (rt_callers rt)\<rparr>, ws) }) rt"
| "rt_step rt (Op_Send n kd i k args trc) = at_handle (rt_callers rt) n
     (\<lambda>ch. do { (_, ch1, s, ws) \<leftarrow> caller_send (rt_store rt) ch kd i k args trc;
                Some (rt\<lparr>rt_store := s, rt_callers := (rt_callers rt)[n := ch1]\<rparr>, ws) }) rt"
| "rt_step rt (Op_Ack c) = do { _ \<leftarrow> store_ack (rt_store rt) c; Some (rt, []) }"
| "rt_step rt (Op_Reply c out) = do { _ \<leftarrow> store_reply (rt_store rt) c out; Some (rt, []) }"
| "rt_step rt (Op_Forget c) = with_store rt (store_forget (rt_store rt) c [])"
| "rt_step rt (Op_Pull c no out) =
     do { (_, _, s, ws) \<leftarrow> caller_pull (rt_store rt) c no out; Some (rt\<lparr>rt_store := s\<rparr>, ws) }"
| "rt_step rt (Op_Push c no chunk) = with_result rt (caller_push (rt_store rt) c no chunk)"
| "rt_step rt (Op_End c no) = with_result rt (caller_end (rt_store rt) c no)"
| "rt_step rt (Op_Abort c no err) = with_result rt (caller_abort (rt_store rt) c no err)"
| "rt_step rt (Op_Caller_Wake n what w) = at_handle (rt_callers rt) n
     (\<lambda>ch. with_store rt (Some (caller_wake_on (rt_store rt) ch what w))) rt"
| "rt_step rt Op_Handler =
     do { (hh, s) \<leftarrow> handler_new (rt_store rt);
          Some (rt\<lparr>rt_store := s, rt_handlers := rt_handlers rt @ [hh]\<rparr>, []) }"
| "rt_step rt (Op_Handler_Drop n) = at_handle (rt_handlers rt) n
     (\<lambda>hh. do { (s, ws) \<leftarrow> handler_drop (rt_store rt) hh;
                Some (rt\<lparr>rt_store := s, rt_handlers := remove_at n (rt_handlers rt)\<rparr>, ws) }) rt"
| "rt_step rt (Op_Serve n i ords) = at_handle (rt_handlers rt) n
     (\<lambda>hh. do { (hh1, s, ws) \<leftarrow> handler_serve (rt_store rt) hh i ords;
                Some (rt\<lparr>rt_store := s, rt_handlers := (rt_handlers rt)[n := hh1]\<rparr>, ws) }) rt"
| "rt_step rt (Op_Next_Claim n out) = at_handle (rt_handlers rt) n
     (\<lambda>hh. do { (_, _, s) \<leftarrow> next_claim (rt_store rt) (hh_id hh) out; Some (rt\<lparr>rt_store := s\<rparr>, []) }) rt"
| "rt_step rt (Op_Settle n i out) = at_handle (rt_handlers rt) n
     (\<lambda>hh. with_result rt (store_settle (rt_store rt) (hh_id hh) i out [])) rt"
| "rt_step rt (Op_Pull_Claim n i no out) = at_handle (rt_handlers rt) n
     (\<lambda>hh. do { (_, _, s, ws) \<leftarrow> handler_pull (rt_store rt) hh i no out; Some (rt\<lparr>rt_store := s\<rparr>, ws) }) rt"
| "rt_step rt (Op_Push_Claim n i no chunk) = at_handle (rt_handlers rt) n
     (\<lambda>hh. with_result rt (handler_push (rt_store rt) hh i no chunk)) rt"
| "rt_step rt (Op_End_Claim n i no) = at_handle (rt_handlers rt) n
     (\<lambda>hh. with_result rt (end_claim (rt_store rt) (hh_id hh) i no [])) rt"
| "rt_step rt (Op_Abort_Claim n i no err) = at_handle (rt_handlers rt) n
     (\<lambda>hh. with_result rt (abort_claim (rt_store rt) (hh_id hh) i no err [])) rt"
| "rt_step rt (Op_Handler_Wake n what w) = at_handle (rt_handlers rt) n
     (\<lambda>hh. with_store rt (handler_wake_on (rt_store rt) hh what w)) rt"
| "rt_step rt (Op_Advance d) = do { s \<leftarrow> store_advance (rt_store rt) d; Some (rt\<lparr>rt_store := s\<rparr>, []) }"
| "rt_step rt (Op_Limit k l) = Some (rt\<lparr>rt_store := store_set_limit (rt_store rt) k l\<rparr>, [])"
| "rt_step rt (Op_Provision i k b) = Some (rt\<lparr>rt_store := snd (store_provision_fixed (rt_store rt) i k b)\<rparr>, [])"
| "rt_step rt (Op_Check i k chk) = Some (rt\<lparr>rt_store := store_check_with (rt_store rt) i k chk\<rparr>, [])"
| "rt_step rt Op_Fail_Settle = Some (rt\<lparr>rt_store := store_fail_next_settle (rt_store rt)\<rparr>, [])"

definition rt_run :: "runtime \<Rightarrow> rt_op list \<Rightarrow> (runtime \<times> waker list) option" where
  "rt_run = run_ops rt_step"

text \<open>\<open>advance\<close> panics, as documented, on a negative duration.\<close>

definition rt_allowed :: "rt_op \<Rightarrow> bool" where
  "rt_allowed op \<longleftrightarrow> (\<forall>d. op = Op_Advance d \<longrightarrow> 0 \<le> sint d)"

end
