(* ===== verification/Lb_Signals.thy ===== *)
theory Lb_Signals
  imports Lb_Handle
begin

text \<open>
  The signals of the in-process runtime: what a \<open>commit\<close> publishes, what a \<open>read\<close> and a coherent
  read return, and what a \<open>scan\<close> reports.
\<close>

section \<open>The generations of a commit\<close>

definition gen_of :: "(interface_no, u64) omap \<Rightarrow> interface_no \<Rightarrow> u64" where
  "gen_of gens i = (case om_get gens i of Some g \<Rightarrow> g | None \<Rightarrow> 0)"

lemma store_generation_eq: "store_generation s i = gen_of (st_generations s) i"
  by (simp add: store_generation_def gen_of_def)

lemma gen_of_put [simp]: "gen_of (om_put j g gens) i = (if i = j then g else gen_of gens i)"
  by (simp add: gen_of_def)

lemma inc_u64_below: "unat n + 1 < 2 ^ 64 \<Longrightarrow> inc_u64 n = Some (n + 1)"
  by (simp add: inc_u64_def)

lemma bump_generations_ok:
  assumes "\<forall>i \<in> fst ` set ks - set bumped. unat (gen_of gens i) + 1 < 2 ^ 64"
  shows "runs (bump_generations bumped ks gens) (\<lambda>gens'. \<forall>i. om_get gens' i =
    (if i \<in> fst ` set ks - set bumped then Some (gen_of gens i + 1) else om_get gens i))"
  using assms
proof (induction bumped ks gens rule: bump_generations.induct)
  case (2 bumped i k ks gens)
  show ?case
  proof (cases "i \<in> set bumped")
    case True
    have "runs (bump_generations bumped ks gens) (\<lambda>gens'. \<forall>j. om_get gens' j =
        (if j \<in> fst ` set ks - set bumped then Some (gen_of gens j + 1) else om_get gens j))"
      using 2 True by auto
    then show ?thesis using True by (auto elim!: runs_mono)
  next
    case False
    let ?g = "gen_of gens i + 1"
    have inc: "inc_u64 (gen_of gens i) = Some ?g"
      using 2(3) False by (intro inc_u64_below) auto
    have "runs (bump_generations (i # bumped) ks (om_put i ?g gens)) (\<lambda>gens'. \<forall>j. om_get gens' j =
        (if j \<in> fst ` set ks - set (i # bumped) then Some (gen_of (om_put i ?g gens) j + 1)
         else om_get (om_put i ?g gens) j))"
      using 2(3) False by (intro 2(2) [OF False]) (auto simp: inc [unfolded gen_of_def] gen_of_def [of gens i])
    then have "runs (bump_generations (i # bumped) ks (om_put i ?g gens)) (\<lambda>gens'. \<forall>j. om_get gens' j =
        (if j \<in> fst ` set ((i, k) # ks) - set bumped then Some (gen_of gens j + 1) else om_get gens j))"
      by (rule runs_mono) (use False in auto)
    then show ?thesis
      using False inc by (simp add: gen_of_def [symmetric])
  qed
qed simp

section \<open>The publications of a commit\<close>

definition seq_of :: "(key, u64) omap \<Rightarrow> key \<Rightarrow> u64" where
  "seq_of seqs k = (case om_get seqs k of Some n \<Rightarrow> n | None \<Rightarrow> 0)"

lemma seq_of_put [simp]: "seq_of (om_put j n seqs) k = (if k = j then n else seq_of seqs k)"
  by (simp add: seq_of_def)

text \<open>The entry a staged change publishes, at the given sequence number and generation.\<close>

definition publication :: "store \<Rightarrow> key \<Rightarrow> staged \<Rightarrow> u64 \<Rightarrow> u64 \<Rightarrow> signal_entry" where
  "publication s k op n g =
     \<lparr>se_bytes = fst (the (commit_value s k op)), se_envelope = \<lparr>stamp = st_now s, seq = n\<rparr>,
      se_provenance = snd (the (commit_value s k op)), se_changed_at = g\<rparr>"

lemma commit_value_ok:
  "(op = Staged_Touch \<Longrightarrow> om_get (st_signals s) k \<noteq> None) \<Longrightarrow>
     \<exists>b prov. commit_value s k op = Some (b, prov)"
  by (cases op) (auto simp: commit_value_def Let_def split: sum.split)

lemma commit_one_ok:
  assumes "unat (seq_of seqs k) + 1 < 2 ^ 64" "om_get (st_generations s) (fst k) = Some g"
    "op = Staged_Touch \<Longrightarrow> om_get (st_signals s) k \<noteq> None"
  shows "commit_one s seqs k op =
    Some (s\<lparr>st_signals := om_put k (publication s k op (seq_of seqs k + 1) g) (st_signals s)\<rparr>,
          om_put k (seq_of seqs k + 1) seqs)"
  using commit_value_ok [of op s k, OF assms(3)] inc_u64_below [OF assms(1)] assms(2)
  by (auto simp: commit_one_def publication_def Let_def seq_of_def [symmetric])

definition committed ::
    "store \<Rightarrow> (key, u64) omap \<Rightarrow> (key \<times> staged) list \<Rightarrow> store \<Rightarrow> (key, u64) omap \<Rightarrow> bool" where
  "committed s seqs ops s' seqs' \<longleftrightarrow>
     s' = s\<lparr>st_signals := st_signals s'\<rparr> \<and>
     (\<forall>k. om_get seqs' k = (if map_of ops k = None then om_get seqs k else Some (seq_of seqs k + 1))) \<and>
     (\<forall>k. om_get (st_signals s') k = (case map_of ops k of
        None \<Rightarrow> om_get (st_signals s) k
      | Some op \<Rightarrow> Some (publication s k op (seq_of seqs k + 1) (gen_of (st_generations s) (fst k)))))"

lemma publication_cong:
  "om_get (st_signals s') k = om_get (st_signals s) k \<Longrightarrow> st_checks s' = st_checks s \<Longrightarrow> st_now s' = st_now s \<Longrightarrow>
     publication s' k op n g = publication s k op n g"
  by (cases op) (simp_all add: publication_def commit_value_def Let_def)

lemma commit_each_ok:
  assumes "distinct (map fst ops)"
    "\<forall>(k, op) \<in> set ops. unat (seq_of seqs k) + 1 < 2 ^ 64 \<and> om_get (st_generations s) (fst k) \<noteq> None \<and>
       (op = Staged_Touch \<longrightarrow> om_get (st_signals s) k \<noteq> None)"
  shows "runs (commit_each s seqs ops) (\<lambda>(s', seqs'). committed s seqs ops s' seqs')"
  using assms
proof (induction ops arbitrary: s seqs)
  case (Cons p ops)
  obtain k op where p: "p = (k, op)" by fastforce
  obtain g where g: "om_get (st_generations s) (fst k) = Some g" using Cons.prems(2) p by auto
  let ?e = "publication s k op (seq_of seqs k + 1) g"
  let ?s1 = "s\<lparr>st_signals := om_put k ?e (st_signals s)\<rparr>" and ?q1 = "om_put k (seq_of seqs k + 1) seqs"
  have one: "commit_one s seqs k op = Some (?s1, ?q1)"
    using Cons.prems(2) g by (intro commit_one_ok) (auto simp: p)
  have k: "k \<notin> fst ` set ops" "map_of ops k = None"
    using Cons.prems(1) by (auto simp: p map_of_eq_None_iff)
  have "runs (commit_each ?s1 ?q1 ops) (\<lambda>(s', seqs'). committed ?s1 ?q1 ops s' seqs')"
  proof (rule Cons.IH)
    show "distinct (map fst ops)" using Cons.prems(1) by simp
    show "\<forall>(j, op) \<in> set ops. unat (seq_of ?q1 j) + 1 < 2 ^ 64 \<and> om_get (st_generations ?s1) (fst j) \<noteq> None \<and>
       (op = Staged_Touch \<longrightarrow> om_get (st_signals ?s1) j \<noteq> None)"
      using Cons.prems(2) k(1) by (simp add: p seq_of_def image_iff split: prod.splits) fastforce
  qed
  then have "runs (commit_each ?s1 ?q1 ops) (\<lambda>(s', seqs'). committed s seqs (p # ops) s' seqs')"
  proof (rule runs_mono, clarify)
    fix s' seqs' assume c: "committed ?s1 ?q1 ops s' seqs'"
    have pub: "publication ?s1 j op' n g' = publication s j op' n g'" if "j \<noteq> k" for j op' n g'
      using that by (intro publication_cong) simp_all
    show "committed s seqs (p # ops) s' seqs'"
      unfolding committed_def
    proof (intro conjI allI)
      show "s' = s\<lparr>st_signals := st_signals s'\<rparr>"
        using c unfolding committed_def by (metis (no_types, lifting) store.update_convs(2) store.surjective)
      fix j
      show "om_get seqs' j = (if map_of (p # ops) j = None then om_get seqs j else Some (seq_of seqs j + 1))"
        using conjunct1 [OF conjunct2 [OF c [unfolded committed_def]], rule_format, of j] k(2)
        by (cases "j = k"; cases "map_of ops j") (simp_all add: p)
      show "om_get (st_signals s') j = (case map_of (p # ops) j of None \<Rightarrow> om_get (st_signals s) j
          | Some op \<Rightarrow> Some (publication s j op (seq_of seqs j + 1) (gen_of (st_generations s) (fst j))))"
        using conjunct2 [OF conjunct2 [OF c [unfolded committed_def]], rule_format, of j] k(2) g pub
        by (cases "j = k"; cases "map_of ops j") (simp_all add: p gen_of_def)
    qed
  qed
  then show ?case using one by (simp add: p)
qed (simp add: committed_def)


section \<open>Commit\<close>

lemma om_get_filter: "om_wf m \<Longrightarrow> om_get (filter P m) k = (case om_get m k of Some v \<Rightarrow> if P (k, v) then Some v else None | None \<Rightarrow> None)"
proof (induction m)
  case (Cons p m)
  have wf: "om_wf m" using Cons.prems by (simp add: om_wf_def)
  have "fst p \<notin> fst ` set m" using om_wf_distinct [OF Cons.prems] by simp
  then have "om_get (filter P m) (fst p) = None" by (auto simp: om_get_None_iff)
  then show ?case using Cons.IH [OF wf] by (cases p) (auto simp: om_get_def)
qed simp

lemma om_wf_filter: "om_wf m \<Longrightarrow> om_wf (filter P m)"
  by (simp add: om_wf_def sorted_wrt_filter sorted_wrt_map)

lemma commit_kept_get:
  assumes "om_wf stg"
  shows "om_get (commit_kept s stg) k =
    (if om_get stg k = Some Staged_Touch \<and> om_get (st_signals s) k = None then None else om_get stg k)"
  using om_get_filter [OF assms] by (auto simp: commit_kept_def split: option.split)

definition commit_fits :: "store \<Rightarrow> (key, staged) omap \<Rightarrow> (key, u64) omap \<Rightarrow> bool" where
  "commit_fits s stg seqs \<longleftrightarrow> (\<forall>k \<in> fst ` set stg.
     unat (seq_of seqs k) + 1 < 2 ^ 64 \<and> unat (gen_of (st_generations s) (fst k)) + 1 < 2 ^ 64)"

definition committed_all ::
    "store \<Rightarrow> (key, staged) omap \<Rightarrow> (key, u64) omap \<Rightarrow> store \<Rightarrow> (key, u64) omap \<Rightarrow> bool" where
  "committed_all s stg seqs s' seqs' \<longleftrightarrow>
     (let kept = commit_kept s stg in
      s' = s\<lparr>st_generations := st_generations s', st_signals := st_signals s'\<rparr> \<and>
      (\<forall>i. om_get (st_generations s') i = (if i \<in> fst ` fst ` set kept
         then Some (gen_of (st_generations s) i + 1) else om_get (st_generations s) i)) \<and>
      (\<forall>k. om_get seqs' k = (if om_get kept k = None then om_get seqs k else Some (seq_of seqs k + 1))) \<and>
      (\<forall>k. om_get (st_signals s') k = (case om_get kept k of
         None \<Rightarrow> om_get (st_signals s) k
       | Some op \<Rightarrow> Some (publication s k op (seq_of seqs k + 1) (gen_of (st_generations s) (fst k) + 1)))))"

lemma store_commit_ok:
  assumes wf: "om_wf stg" and fits: "commit_fits s stg seqs"
  shows "runs (store_commit s stg seqs) (\<lambda>(s', stg', seqs'). stg' = [] \<and> committed_all s stg seqs s' seqs')"
proof -
  let ?kept = "commit_kept s stg"
  have sub: "set ?kept \<subseteq> set stg" by (auto simp: commit_kept_def)
  have dist: "distinct (map fst ?kept)"
    unfolding commit_kept_def by (rule om_wf_distinct [OF om_wf_filter [OF wf]])
  have "runs (bump_generations [] (map fst ?kept) (st_generations s)) (\<lambda>gens. \<forall>i. om_get gens i =
      (if i \<in> fst ` set (map fst ?kept) - set [] then Some (gen_of (st_generations s) i + 1)
       else om_get (st_generations s) i))"
    using fits sub by (intro bump_generations_ok) (auto simp: commit_fits_def)
  then obtain gens where g: "bump_generations [] (map fst ?kept) (st_generations s) = Some gens"
    and gens: "\<And>i. om_get gens i = (if i \<in> fst ` fst ` set ?kept then Some (gen_of (st_generations s) i + 1)
       else om_get (st_generations s) i)"
    by (rule runsE) simp
  let ?s1 = "s\<lparr>st_generations := gens\<rparr>"
  have "runs (commit_each ?s1 seqs ?kept) (\<lambda>(s', seqs'). committed ?s1 seqs ?kept s' seqs')"
  proof (rule commit_each_ok [OF dist], clarify, intro conjI impI)
    fix i k op assume k: "((i, k), op) \<in> set ?kept"
    then show "unat (seq_of seqs (i, k)) + 1 < 2 ^ 64" using fits sub by (force simp: commit_fits_def)
    have "i \<in> fst ` fst ` set ?kept" using k by force
    then show "om_get (st_generations ?s1) (fst (i, k)) \<noteq> None" using gens [of i] by simp
    show "om_get (st_signals ?s1) (i, k) \<noteq> None" if "op = Staged_Touch"
      using k that by (auto simp: commit_kept_def)
  qed
  then obtain s' seqs' where c: "commit_each ?s1 seqs ?kept = Some (s', seqs')"
    and com: "committed ?s1 seqs ?kept s' seqs'" by (rule runsE) auto
  have s': "s' = s\<lparr>st_generations := gens, st_signals := st_signals s'\<rparr>"
    using com unfolding committed_def by blast
  then have gens': "st_generations s' = gens" by (metis store.select_convs(4) store.surjective store.update_convs(2,4))
  have pub: "publication ?s1 k op n x = publication s k op n x" for k op n x
    by (rule publication_cong) simp_all
  have gen: "gen_of gens (fst k) = gen_of (st_generations s) (fst k) + 1" if "om_get ?kept k = Some op" for k op
    using gens [of "fst k"] om_get_in [OF that] by (force simp: gen_of_def)
  have "committed_all s stg seqs s' seqs'"
    unfolding committed_all_def Let_def
  proof (intro conjI allI)
    show "s' = s\<lparr>st_generations := st_generations s', st_signals := st_signals s'\<rparr>"
      using s' by (simp add: gens')
    fix i show "om_get (st_generations s') i = (if i \<in> fst ` fst ` set ?kept
        then Some (gen_of (st_generations s) i + 1) else om_get (st_generations s) i)"
      using gens by (simp add: gens')
  next
    fix k
    show "om_get seqs' k = (if om_get ?kept k = None then om_get seqs k else Some (seq_of seqs k + 1))"
      using conjunct1 [OF conjunct2 [OF com [unfolded committed_def]], rule_format, of k]
      by (simp only: om_get_eq)
    show "om_get (st_signals s') k = (case om_get ?kept k of None \<Rightarrow> om_get (st_signals s) k
       | Some op \<Rightarrow> Some (publication s k op (seq_of seqs k + 1) (gen_of (st_generations s) (fst k) + 1)))"
      using conjunct2 [OF conjunct2 [OF com [unfolded committed_def]], rule_format, of k] gen [of k]
      by (cases "om_get ?kept k") (simp_all add: om_get_eq pub)
  qed
  then show ?thesis using g c by (simp add: store_commit_def Let_def)
qed


section \<open>Reading and scanning\<close>

definition signals_ok :: "store \<Rightarrow> bool" where
  "signals_ok s \<longleftrightarrow> om_wf (st_signals s) \<and>
     (\<forall>k e. om_get (st_signals s) k = Some e \<longrightarrow> se_changed_at e \<le> store_generation s (fst k))"

lemma om_wf_commit_each: "commit_each s seqs ops = Some (s', seqs') \<Longrightarrow> om_wf (st_signals s) \<Longrightarrow> om_wf (st_signals s')"
proof (induction ops arbitrary: s seqs)
  case (Cons p ops)
  obtain k op where p: "p = (k, op)" by fastforce
  obtain s1 q1 where one: "commit_one s seqs k op = Some (s1, q1)" and rest: "commit_each s1 q1 ops = Some (s', seqs')"
    using Cons.prems(1) by (auto simp: p Option.bind_eq_Some_conv)
  have "om_wf (st_signals s1)"
    using one Cons.prems(2) by (auto simp: commit_one_def Option.bind_eq_Some_conv Let_def)
  then show ?case by (rule Cons.IH [OF rest])
qed simp

lemma om_wf_commit: "store_commit s stg seqs = Some (s', stg', seqs') \<Longrightarrow> om_wf (st_signals s) \<Longrightarrow> om_wf (st_signals s')"
  by (auto simp: store_commit_def Option.bind_eq_Some_conv Let_def dest!: om_wf_commit_each)

lemma gen_le_inc: "unat (g :: u64) + 1 < 2 ^ 64 \<Longrightarrow> g < g + 1"
  by (simp add: word_less_nat_alt unat_word_ariths)

lemma committed_generation:
  assumes "committed_all s stg seqs s' seqs'"
  shows "store_generation s' i =
    store_generation s i + (if i \<in> fst ` fst ` set (commit_kept s stg) then 1 else 0)"
  using assms by (simp add: committed_all_def Let_def store_generation_def gen_of_def split: option.split)

lemma commit_signals_ok:
  assumes ok: "signals_ok s" and fits: "commit_fits s stg seqs" and wf: "om_wf stg"
    and c: "store_commit s stg seqs = Some (s', stg', seqs')" and com: "committed_all s stg seqs s' seqs'"
  shows "signals_ok s'"
  unfolding signals_ok_def
proof (intro conjI allI impI)
  show "om_wf (st_signals s')" using om_wf_commit [OF c] ok by (simp add: signals_ok_def)
  fix k e assume e: "om_get (st_signals s') k = Some e"
  let ?kept = "commit_kept s stg"
  have sub: "set ?kept \<subseteq> set stg" by (auto simp: commit_kept_def)
  have sig: "om_get (st_signals s') k = (case om_get ?kept k of None \<Rightarrow> om_get (st_signals s) k
      | Some op \<Rightarrow> Some (publication s k op (seq_of seqs k + 1) (gen_of (st_generations s) (fst k) + 1)))"
    using com unfolding committed_all_def Let_def by blast
  have less: "store_generation s (fst k) \<le> store_generation s (fst k) + 1" if kk: "fst k \<in> fst ` fst ` set ?kept"
  proof -
    obtain k' where "k' \<in> fst ` set stg" "fst k' = fst k" using kk sub by force
    then have "unat (gen_of (st_generations s) (fst k)) + 1 < 2 ^ 64"
      using fits unfolding commit_fits_def by metis
    then show ?thesis using gen_le_inc unfolding store_generation_eq by (simp add: less_imp_le)
  qed
  show "se_changed_at e \<le> store_generation s' (fst k)"
  proof (cases "om_get ?kept k")
    case None
    then have "om_get (st_signals s) k = Some e" using sig e by simp
    then have "se_changed_at e \<le> store_generation s (fst k)" using ok unfolding signals_ok_def by blast
    then show ?thesis using committed_generation [OF com, of "fst k"] less by (auto split: if_splits)
  next
    case (Some op)
    then have "fst k \<in> fst ` fst ` set ?kept" using om_get_in by force
    then show ?thesis
      using Some sig e committed_generation [OF com, of "fst k"]
      by (auto simp: publication_def store_generation_eq)
  qed
qed

text \<open>The channels of an interface changed since a mark, in the order of their ordinals.\<close>

lemma changes_of_in:
  assumes "om_wf (st_signals s)"
  shows "ch \<in> set (changes_of s m) \<longleftrightarrow> cg_iface ch = wm_iface m \<and>
    (\<exists>e. om_get (st_signals s) (wm_iface m, cg_ord ch) = Some e \<and> se_changed_at e > wm_generation m \<and>
       cg_seq ch = seq (se_envelope e))"
  using om_wf_in_iff [OF assms] by (cases ch) (fastforce simp: changes_of_def image_iff)

lemma distinct_changes_of:
  assumes "om_wf (st_signals s)"
  shows "distinct (map cg_ord (changes_of s m))"
proof -
  let ?fs = "filter (\<lambda>((i, _), e). i = wm_iface m \<and> se_changed_at e > wm_generation m) (st_signals s)"
  have d: "distinct (map fst ?fs)" using om_wf_distinct [OF assms] by (rule distinct_map_filter)
  have "map cg_ord (changes_of s m) = map snd (map fst ?fs)"
    by (simp add: changes_of_def comp_def case_prod_beta)
  moreover have "inj_on snd (set (map fst ?fs))" by (auto simp: inj_on_def)
  ultimately show ?thesis using d by (simp only: distinct_map)
qed

lemma scan_one:
  assumes "wm_generation m < store_generation s (wm_iface m)" "length (changes_of s m) \<le> length out"
  shows "store_scan s [m] out = (length (changes_of s m), [m\<lparr>wm_generation := store_generation s (wm_iface m)\<rparr>],
    put_at out 0 (changes_of s m))"
  using assms by (auto simp: store_scan_def Let_def)

lemma scan_current:
  "store_generation s (wm_iface m) \<le> wm_generation m \<Longrightarrow> store_scan s [m] out = (0, [m], out)"
  by (simp add: store_scan_def Let_def)

section \<open>Coherent reads\<close>

lemma coherent_each_eq:
  assumes "written + sum_list (map (signal_len s i) ks) \<le> length out" "index + length ks \<le> length samples"
  shows "coherent_each s i ks index written out samples =
    (written + sum_list (map (signal_len s i) ks),
     put_at out written (concat (map (\<lambda>k. case om_get (st_signals s) (i, k) of Some e \<Rightarrow> se_bytes e | None \<Rightarrow> []) ks)),
     put_at samples index (map (\<lambda>k. case om_get (st_signals s) (i, k) of Some e \<Rightarrow> sample_of e | None \<Rightarrow> unpublished) ks))"
  using assms
proof (induction ks arbitrary: index written out samples)
  case Nil
  then show ?case by (simp add: put_at_def)
next
  case (Cons k ks)
  have upd: "put_at (samples[index := x]) (Suc index) ys = put_at samples index (x # ys)" for x ys
    using Cons.prems(2) by (simp add: put_at_def take_Suc_conv_app_nth upd_conv_take_nth_drop add.commute)
  have two: "put_at (put_at out written xs) (written + length xs) ys = put_at out written (xs @ ys)"
    if "written + length xs \<le> length out" for xs ys :: bytes
    using that by (simp add: put_at_def ac_simps)
  show ?case
  proof (cases "om_get (st_signals s) (i, k)")
    case None
    then show ?thesis using Cons.prems Cons.IH by (simp add: signal_len_def upd)
  next
    case (Some e)
    then show ?thesis
      using Cons.prems by (simp add: signal_len_def upd two Cons.IH add.assoc)
  qed
qed

end
