(* ===== verification/Lb_Events.thy ===== *)
theory Lb_Events
  imports Lb_Handle
begin

text \<open>
  The events of the in-process runtime: an occurrence reaches every source subscribed to its
  channel and no other, in the order of the raises, and a source that waits has nothing queued.
\<close>

text \<open>
  A source queues only occurrences of the channels it is subscribed to, and stores a waker only
  while its queue is empty.
\<close>

definition source_ok :: "source_state \<Rightarrow> bool" where
  "source_ok src \<longleftrightarrow>
     (\<forall>ev \<in> set (sr_queue src). (qe_iface ev, qe_ord ev) \<in> set (sr_subscribed src)) \<and>
     (wt_event (sr_waiters src) \<noteq> None \<longrightarrow> sr_queue src = [])"

definition sources_ok :: "store \<Rightarrow> bool" where
  "sources_ok s \<longleftrightarrow> (\<forall>sid src. om_get (st_sources s) sid = Some src \<longrightarrow> source_ok src)"

definition queue_of :: "store \<Rightarrow> nat \<Rightarrow> queued_event list" where
  "queue_of s sid = (case om_get (st_sources s) sid of Some src \<Rightarrow> sr_queue src | None \<Rightarrow> [])"

definition subscribed_to :: "store \<Rightarrow> nat \<Rightarrow> key \<Rightarrow> bool" where
  "subscribed_to s sid k \<longleftrightarrow>
     (case om_get (st_sources s) sid of Some src \<Rightarrow> k \<in> set (sr_subscribed src) | None \<Rightarrow> False)"

lemma sources_put: "sources_ok s \<Longrightarrow> source_ok src \<Longrightarrow> sources_ok (s\<lparr>st_sources := om_put sid src (st_sources s)\<rparr>)"
  by (simp add: sources_ok_def)

lemma sources_get: "sources_ok s \<Longrightarrow> om_get (st_sources s) sid = Some src \<Longrightarrow> source_ok src"
  by (simp add: sources_ok_def)

lemma set_fold_put: "set (fold (\<lambda>k. set_put (i, k)) ords xs) = set xs \<union> {i} \<times> set ords"
  by (induction ords arbitrary: xs) auto

lemma set_fold_remove: "set (fold (\<lambda>k. removeAll (i, k)) ords xs) = set xs - {i} \<times> set ords"
  by (induction ords arbitrary: xs) auto

section \<open>Every operation keeps the sources\<close>

lemma open_source_sources: "sources_ok s \<Longrightarrow> open_source s = Some (sid, s') \<Longrightarrow> sources_ok s'"
  by (auto simp: open_source_def Let_def Option.bind_eq_Some_conv sources_ok_def source_ok_def source_default_def
      waiters_new_def split: if_splits)

lemma close_source_sources: "sources_ok s \<Longrightarrow> sources_ok (source_drop s sid)"
  by (auto simp: source_drop_def close_source_def sources_ok_def split: if_splits)

lemma subscribe_sources: "sources_ok s \<Longrightarrow> sources_ok (store_subscribe s sid i ords)"
  using sources_get [of s sid]
  by (auto simp: store_subscribe_def source_ok_def set_fold_put intro!: sources_put split: option.split)

lemma unsubscribe_sources: "sources_ok s \<Longrightarrow> sources_ok (store_unsubscribe s sid i ords)"
  using sources_get [of s sid]
  by (auto simp: store_unsubscribe_def Let_def source_ok_def intro!: sources_put split: option.split)

lemma raise_source_law:
  assumes "source_ok src"
  shows "source_ok (snd (raise_source ev src))"
    "sr_queue (snd (raise_source ev src)) =
       (if (qe_iface ev, qe_ord ev) \<in> set (sr_subscribed src) then sr_queue src @ [ev] else sr_queue src)"
    "sr_subscribed (snd (raise_source ev src)) = sr_subscribed src"
    "set (fst (raise_source ev src)) =
       (if (qe_iface ev, qe_ord ev) \<in> set (sr_subscribed src) then set_option (wt_event (sr_waiters src)) else {})"
  using assms by (auto simp: raise_source_def source_ok_def waiters_take_def opt_list_def split: option.split)

lemma visit_sources:
  "sources_ok s \<Longrightarrow> sources_ok (s\<lparr>st_sources := snd (om_visit (\<lambda>_. raise_source ev) (st_sources s))\<rparr>)"
  using raise_source_law(1) by (auto simp: sources_ok_def)

lemma raise_sources:
  "sources_ok s \<Longrightarrow> store_raise s i k b draw q trc wake = Some (r, q', s', wake') \<Longrightarrow> sources_ok s'"
  using visit_sources [of s]
  by (auto simp: store_raise_def Let_def Option.bind_eq_Some_conv case_prod_beta split: sum.splits)

lemma wait_event_sources: "sources_ok s \<Longrightarrow> wait_event s sid (IEvent i) w wake = (s', wake') \<Longrightarrow> sources_ok s'"
  using sources_get [of s sid]
  by (auto simp: wait_event_def register_waiter_def waiters_register_def waiters_take_def Rt_Correlate.store_def source_ok_def
      Let_def intro!: sources_put split: option.splits if_splits prod.splits)

lemma next_event_sources: "sources_ok s \<Longrightarrow> sources_ok (snd (snd (next_event s sid out)))"
  using sources_get [of s sid]
  by (auto simp: next_event_def source_ok_def intro!: sources_put split: option.split list.split)

end
