(* ===== verification/Lb_Steps.thy ===== *)
theory Lb_Steps
  imports Lb_Runtime Lb_Signals Lb_Events
begin

text \<open>
  Every step of the in-process runtime succeeds and keeps the invariant of the store, of its
  signals and of its sources. A counter of the runtime is at most the number of steps taken, so no
  increment overflows in a run of fewer than \<open>2 ^ 64\<close> steps.
\<close>

section \<open>The invariant of the runtime\<close>

definition below :: "nat \<Rightarrow> ('k, u64) omap \<Rightarrow> bool" where
  "below n m \<longleftrightarrow> (\<forall>k v. om_get m k = Some v \<longrightarrow> unat v \<le> n)"

definition store_ok :: "nat \<Rightarrow> store \<Rightarrow> bool" where
  "store_ok n s \<longleftrightarrow> store_inv s \<and> signals_ok s \<and> sources_ok s \<and>
     unat (st_next_sent s) \<le> n \<and> unat (st_next_claim_id s) \<le> n \<and> st_next_source_id s \<le> n \<and>
     st_next_caller_id s \<le> n \<and> st_next_handler_id s \<le> n \<and> below n (st_generations s)"

definition callers_held :: "nat \<Rightarrow> caller_handle list \<Rightarrow> store \<Rightarrow> bool" where
  "callers_held n chs s \<longleftrightarrow> distinct (map ch_id chs) \<and>
     (\<forall>ch \<in> set chs. unat (ch_next_seq ch) \<le> n \<and> ch_id ch \<in> dom (om_get (st_callers s)) \<and>
        ch_id ch < st_next_caller_id s)"

definition rt_ok :: "nat \<Rightarrow> runtime \<Rightarrow> bool" where
  "rt_ok n rt \<longleftrightarrow> store_ok n (rt_store rt) \<and>
     (\<forall>w \<in> set (rt_writers rt). om_wf (wh_staged w) \<and> below n (wh_seqs w)) \<and>
     (\<forall>q \<in> set (rt_sinks rt). below n q) \<and> callers_held n (rt_callers rt) (rt_store rt)"

lemma below_Suc: "below n m \<Longrightarrow> below (Suc n) m"
  by (auto simp: below_def intro: le_SucI)

lemma belowD: "below n m \<Longrightarrow> om_get m k = Some v \<Longrightarrow> unat v \<le> n"
  by (simp only: below_def)

lemma all_update: "\<forall>x \<in> set xs. P x \<Longrightarrow> P y \<Longrightarrow> \<forall>x \<in> set (xs[m := y]). P x"
  using set_update_subset_insert [of xs m y] by blast

lemma store_ok_Suc: "store_ok n s \<Longrightarrow> store_ok (Suc n) s"
  by (simp add: store_ok_def below_Suc)

lemma callers_held_Suc: "callers_held n chs s \<Longrightarrow> callers_held (Suc n) chs s"
  by (auto simp: callers_held_def)

lemma rt_ok_Suc: "rt_ok n rt \<Longrightarrow> rt_ok (Suc n) rt"
  by (simp add: rt_ok_def store_ok_Suc callers_held_Suc below_Suc)

lemma store_ok_counts:
  assumes "store_ok n s" "counts s' = counts s" "store_inv s'"
  shows "store_ok (Suc n) s'"
  using assms by (simp add: store_ok_def counts_def signals_ok_def store_generation_def sources_ok_def below_Suc)

lemma callers_held_counts:
  "callers_held n chs s \<Longrightarrow> counts s' = counts s \<Longrightarrow> callers_held (Suc n) chs s'"
  by (auto simp: callers_held_def counts_def)

lemma rt_ok_calls:
  assumes "rt_ok n rt" "counts s' = counts (rt_store rt)" "store_inv s'"
  shows "rt_ok (Suc n) (rt\<lparr>rt_store := s'\<rparr>)"
  using assms store_ok_counts [of n "rt_store rt" s'] callers_held_counts [of n "rt_callers rt" "rt_store rt" s']
  by (simp add: rt_ok_def below_Suc)

lemma rt_ok_inv: "rt_ok n rt \<Longrightarrow> store_inv (rt_store rt)"
  by (simp add: rt_ok_def store_ok_def)

section \<open>Steps of the calls\<close>

lemma with_store_ok:
  assumes "rt_ok n rt" "runs m (\<lambda>(s', ws). store_inv s')" "keeps (rt_store rt) m"
  shows "runs (with_store rt m) (\<lambda>(rt', ws). rt_ok (Suc n) rt')"
  using assms(2)
proof (rule runsE)
  fix x assume x: "m = Some x" "case x of (s', ws) \<Rightarrow> store_inv s'"
  then show ?thesis
    using returnsD [OF assms(3) x(1)] rt_ok_calls [OF assms(1)] by (cases x) (simp add: with_store_def)
qed

lemma with_result_ok:
  assumes "rt_ok n rt" "runs m (\<lambda>(r, s', ws). store_inv s')" "keeps_result (rt_store rt) m"
  shows "runs (with_result rt m) (\<lambda>(rt', ws). rt_ok (Suc n) rt')"
  using assms(2)
proof (rule runsE)
  fix x assume x: "m = Some x" "case x of (r, s', ws) \<Rightarrow> store_inv s'"
  then show ?thesis
    using returnsD [OF assms(3) x(1)] rt_ok_calls [OF assms(1)] by (cases x) (simp add: with_result_def)
qed

lemma with_pull_ok:
  assumes "rt_ok n rt" "runs m (\<lambda>(r, out, s', ws). store_inv s')"
    "returns m (\<lambda>(_, _, s', _). counts s' = counts (rt_store rt))"
  shows "runs (do { (_, _, s, ws) \<leftarrow> m; Some (rt\<lparr>rt_store := s\<rparr>, ws) }) (\<lambda>(rt', ws). rt_ok (Suc n) rt')"
  using assms(2)
proof (rule runsE)
  fix x assume x: "m = Some x" "case x of (r, out, s', ws) \<Rightarrow> store_inv s'"
  then show ?thesis
    using returnsD [OF assms(3) x(1)] rt_ok_calls [OF assms(1)] by (cases x) simp
qed

lemma at_handle_ok:
  assumes "rt_ok n rt" "m < length hs \<Longrightarrow> runs (f (hs ! m)) (\<lambda>(rt', ws). rt_ok (Suc n) rt')"
  shows "runs (at_handle hs m f rt) (\<lambda>(rt', ws). rt_ok (Suc n) rt')"
  using assms rt_ok_Suc by (simp add: at_handle_def)

lemma caller_streams_ok:
  assumes inv: "store_inv s"
  shows "runs (caller_pull s c no out) (\<lambda>(r, out', s', ws). store_inv s')"
    and "runs (caller_push s c no chunk) (\<lambda>(r, s', ws). store_inv s')"
    and "runs (caller_end s c no) (\<lambda>(r, s', ws). store_inv s')"
    and "runs (caller_abort s c no err) (\<lambda>(r, s', ws). store_inv s')"
  using inv store_pull_ok [OF inv] store_push_ok [OF inv] store_end_ok [OF inv] store_abort_ok [OF inv]
  by (auto simp: caller_pull_def caller_push_def caller_end_def caller_abort_def split: option.split
      dest!: caller_slotD)

lemma caller_streams_counts:
  "returns (caller_pull s c no out) (\<lambda>(_, _, s', _). counts s' = counts s)"
  "keeps_result s (caller_push s c no chunk)" "keeps_result s (caller_end s c no)"
  "keeps_result s (caller_abort s c no err)"
  using store_pull_counts store_push_counts store_end_counts store_abort_counts
  by (auto simp: caller_pull_def caller_push_def caller_end_def caller_abort_def split: option.split)

lemma handler_streams_ok:
  assumes inv: "store_inv s"
  shows "runs (handler_pull s hh i no out) (\<lambda>(r, out', s', ws). store_inv s')"
    and "runs (handler_push s hh i no chunk) (\<lambda>(r, s', ws). store_inv s')"
  using inv store_pull_ok [OF inv] store_push_ok [OF inv]
  by (auto simp: handler_pull_def handler_push_def split: option.split
      dest!: claim_slotD [OF linv_rep [OF inv [unfolded store_inv_def]]])

lemma handler_streams_counts:
  "returns (handler_pull s hh i no out) (\<lambda>(_, _, s', _). counts s' = counts s)"
  "keeps_result s (handler_push s hh i no chunk)"
  using store_pull_counts store_push_counts
  by (auto simp: handler_pull_def handler_push_def split: option.split)

lemma handler_wake_ok:
  assumes inv: "store_inv s"
  shows "runs (handler_wake_on s hh what w) (\<lambda>(s', ws). store_inv s')" "keeps s (handler_wake_on s hh what w)"
  using inv wait_claim_ok [OF inv] wait_claim_stream_ok [OF inv] wait_claim_counts wait_claim_stream_counts
  by (auto simp: handler_wake_on_def split: interest.split)

lemma caller_wake_ok:
  assumes inv: "store_inv s" and r: "caller_wake_on s ch what w = (s', ws)"
  shows "store_inv s'" "counts s' = counts s"
  using r inv wait_outcome_ok [OF inv] wait_stream_ok [OF inv] wait_slot_ok [OF inv]
    wait_outcome_counts wait_stream_counts wait_slot_counts
  by (auto simp: caller_wake_on_def split: interest.splits)

lemma settle_inv: "store_inv s \<Longrightarrow> runs (store_settle s hid i out wake) (\<lambda>(r, s', ws). store_inv s')"
  by (rule runs_mono [OF store_settle_ok]) auto

lemma forget_inv: "store_inv s \<Longrightarrow> runs (store_forget s c wake) (\<lambda>(s', ws). store_inv s')"
  by (rule runs_mono [OF store_forget_ok [where H = "{}" and C = "{}"]]) (auto simp: store_inv_def)

lemma outcome_entry:
  assumes inv: "store_inv s" and out: "outcome_of (st_table s) c = Some out"
  shows "\<exists>e. entry_of s c = Some e"
proof -
  note inv' = inv [unfolded store_inv_def]
  have "calls (st_table s) c \<noteq> None"
    using out outcome_law [of "st_table s" c] by (cases "calls (st_table s) c") auto
  then have "call_at s c \<noteq> None" using call_none(1) [OF inv', of c] by (cases "call_at s c") auto
  then show ?thesis using entry_of_call [of s c] by auto
qed

lemma ack_reply_ok:
  assumes "store_inv s"
  shows "runs (store_ack s c) (\<lambda>r. True)" "runs (store_reply s c out) (\<lambda>r. True)"
  using outcome_entry [OF assms, of c]
  by (auto simp: store_ack_def store_reply_def split: option.split sum.split)


section \<open>Steps that draw a number\<close>

lemma callers_held_update:
  assumes "callers_held n chs s" "m < length chs" "ch_id ch = ch_id (chs ! m)" "unat (ch_next_seq ch) \<le> n"
  shows "callers_held n (chs[m := ch]) s"
proof -
  have "map ch_id (chs[m := ch]) = map ch_id chs"
    using assms(2,3) by (simp add: map_update) (metis list_update_id nth_map)
  moreover have "chs ! m \<in> set chs" using assms(2) by simp
  ultimately show ?thesis
    using assms set_update_subset_insert [of chs m ch] by (fastforce simp: callers_held_def)
qed

lemma send_step_ok:
  assumes ok: "rt_ok n rt" and n: "Suc n < 2 ^ 64" and m: "m < length (rt_callers rt)"
  shows "runs (do { (_, ch1, s, ws) \<leftarrow> caller_send (rt_store rt) (rt_callers rt ! m) kd i k args trc;
                    Some (rt\<lparr>rt_store := s, rt_callers := (rt_callers rt)[m := ch1]\<rparr>, ws) })
    (\<lambda>(rt', ws). rt_ok (Suc n) rt')"
proof -
  let ?s = "rt_store rt" and ?ch = "rt_callers rt ! m"
  have inv: "store_inv ?s" using rt_ok_inv [OF ok] .
  have ch: "unat (ch_next_seq ?ch) \<le> n" "om_get (st_callers ?s) (ch_id ?ch) \<noteq> None"
    using ok m by (auto simp: rt_ok_def callers_held_def)
  have sn: "unat (st_next_sent ?s) + 1 < 2 ^ 64" "unat (st_next_sent ?s) \<le> n"
    using ok n by (auto simp: rt_ok_def store_ok_def)
  have sq: "inc_u64 (ch_next_seq ?ch) = Some (ch_next_seq ?ch + 1)"
    using ch(1) n by (intro inc_u64_below) simp
  have sqn: "unat (ch_next_seq ?ch + 1) \<le> Suc n"
    using ch(1) inc_u64_SomeD [OF sq] by simp
  obtain r s' ws where r: "store_send ?s (ch_id ?ch) kd (i, k) args (ch_next_seq ?ch + 1) trc [] = Some (r, s', ws)"
    and inv': "store_inv s'"
    using store_send_ok [OF inv ch(2) sn(1), of kd "(i, k)" args "ch_next_seq ?ch + 1" trc "[]"]
    by (auto elim!: runsE)
  have c: "unat (st_next_sent s') \<le> Suc n" "counts s' = counts (?s\<lparr>st_next_sent := st_next_sent s'\<rparr>)"
    using returnsD [OF store_send_counts r] sn(2) by simp_all
  let ?ch1 = "case r of Inl _ \<Rightarrow> ?ch | Inr _ \<Rightarrow> ?ch\<lparr>ch_next_seq := ch_next_seq ?ch + 1\<rparr>"
  let ?chs = "(rt_callers rt)[m := ?ch1]"
  have "store_ok (Suc n) s'"
    using ok c inv' by (simp add: rt_ok_def store_ok_def counts_def signals_ok_def sources_ok_def
        store_generation_def below_Suc)
  moreover have "callers_held (Suc n) ?chs s'"
  proof (rule callers_held_update [OF _ m])
    show "callers_held (Suc n) (rt_callers rt) s'"
      using ok c(2) by (auto simp: rt_ok_def callers_held_def counts_def)
  qed (use sqn ch(1) in \<open>auto split: sum.split\<close>)
  ultimately have "rt_ok (Suc n) (rt\<lparr>rt_store := s', rt_callers := ?chs\<rparr>)"
    using ok by (simp add: rt_ok_def below_Suc)
  then show ?thesis by (simp add: caller_send_def sq r)
qed


lemma next_claim_step_ok:
  assumes ok: "rt_ok n rt" and n: "Suc n < 2 ^ 64"
  shows "runs (do { (_, _, s) \<leftarrow> next_claim (rt_store rt) hid out; Some (rt\<lparr>rt_store := s\<rparr>, []) })
    (\<lambda>(rt', ws). rt_ok (Suc n) rt')"
proof -
  let ?s = "rt_store rt"
  have sn: "unat (st_next_claim_id ?s) + 1 < 2 ^ 64" "unat (st_next_claim_id ?s) \<le> n"
    using ok n by (auto simp: rt_ok_def store_ok_def)
  obtain r out' s' where r: "next_claim ?s hid out = Some (r, out', s')" and inv: "store_inv s'"
    using next_claim_ok [OF rt_ok_inv [OF ok] sn(1), of hid out] by (auto elim!: runsE)
  have c: "unat (st_next_claim_id s') \<le> Suc n" "counts s' = counts (?s\<lparr>st_next_claim_id := st_next_claim_id s'\<rparr>)"
    using returnsD [OF next_claim_counts r] sn(2) by simp_all
  have "store_ok (Suc n) s'"
    using ok c inv by (simp add: rt_ok_def store_ok_def counts_def signals_ok_def sources_ok_def
        store_generation_def below_Suc)
  moreover have "callers_held (Suc n) (rt_callers rt) s'"
    using ok c(2) by (auto simp: rt_ok_def callers_held_def counts_def)
  ultimately show ?thesis using ok r by (simp add: rt_ok_def below_Suc)
qed

text \<open>A change of the store that leaves the calls and the callers alone.\<close>

lemma rt_ok_same:
  assumes ok: "rt_ok n rt" and same: "same_calls (rt_store rt) s'" and sig: "signals_ok s'" and src: "sources_ok s'"
    and ids: "st_next_source_id s' \<le> Suc n" "st_next_caller_id s' = st_next_caller_id (rt_store rt)"
      "st_next_handler_id s' = st_next_handler_id (rt_store rt)" "below (Suc n) (st_generations s')"
  shows "rt_ok (Suc n) (rt\<lparr>rt_store := s'\<rparr>)"
proof -
  have "store_ok (Suc n) s'"
    using ok same store_inv_same [OF same] sig src ids by (simp add: rt_ok_def store_ok_def same_calls_def)
  moreover have "callers_held (Suc n) (rt_callers rt) s'"
    using ok same ids(2) by (auto simp: rt_ok_def callers_held_def same_calls_def)
  ultimately show ?thesis using ok by (simp add: rt_ok_def below_Suc)
qed

text \<open>A change of the sources alone.\<close>

lemma rt_ok_sources:
  assumes ok: "rt_ok n rt" and src: "sources_ok s'" and s': "s' = (rt_store rt)\<lparr>st_sources := st_sources s'\<rparr>"
  shows "rt_ok (Suc n) (rt\<lparr>rt_store := s'\<rparr>)"
proof (rule rt_ok_same [OF ok])
  have f: "st_signals s' = st_signals (rt_store rt)" "st_generations s' = st_generations (rt_store rt)"
    "st_next_source_id s' = st_next_source_id (rt_store rt)" "st_next_caller_id s' = st_next_caller_id (rt_store rt)"
    "st_next_handler_id s' = st_next_handler_id (rt_store rt)"
    by (subst s', simp)+
  show "same_calls (rt_store rt) s'" unfolding same_calls_def by (subst s', simp)+
  show "signals_ok s'" using ok f by (simp add: rt_ok_def store_ok_def signals_ok_def store_generation_def)
  show "st_next_source_id s' \<le> Suc n" "st_next_caller_id s' = st_next_caller_id (rt_store rt)"
    "st_next_handler_id s' = st_next_handler_id (rt_store rt)" "below (Suc n) (st_generations s')"
    using ok f by (simp_all add: rt_ok_def store_ok_def below_Suc)
qed (fact src)

lemma source_wake_ok:
  assumes "sources_ok s" "source_wake_on s sid what w = (s', ws)"
  shows "sources_ok s'" "s' = s\<lparr>st_sources := st_sources s'\<rparr>"
proof -
  show "sources_ok s'"
    using assms wait_event_sources [OF assms(1)] by (auto simp: source_wake_on_def split: interest.splits)
  show "s' = s\<lparr>st_sources := st_sources s'\<rparr>"
    using assms(2) by (auto simp: source_wake_on_def wait_event_def Let_def
        split: interest.splits option.splits prod.splits)
qed

lemma sources_self: "\<exists>x. s = s\<lparr>st_sources := x\<rparr>"
  by (rule exI [of _ "st_sources s"]) simp

lemma sources_only:
  "\<exists>x. source_drop s sid = s\<lparr>st_sources := x\<rparr>" "\<exists>x. store_subscribe s sid i ords = s\<lparr>st_sources := x\<rparr>"
  "\<exists>x. store_unsubscribe s sid i ords = s\<lparr>st_sources := x\<rparr>" "\<exists>x. snd (snd (next_event s sid out)) = s\<lparr>st_sources := x\<rparr>"
proof -
  note self = sources_self [of s]
  show "\<exists>x. source_drop s sid = s\<lparr>st_sources := x\<rparr>" by (auto simp: source_drop_def close_source_def)
  show "\<exists>x. store_subscribe s sid i ords = s\<lparr>st_sources := x\<rparr>"
    using self by (auto simp: store_subscribe_def split: option.split)
  show "\<exists>x. store_unsubscribe s sid i ords = s\<lparr>st_sources := x\<rparr>"
    using self by (auto simp: store_unsubscribe_def Let_def split: option.split)
  show "\<exists>x. snd (snd (next_event s sid out)) = s\<lparr>st_sources := x\<rparr>"
    using self by (auto simp: next_event_def split: option.split list.split)
qed

lemma rt_ok_source_op:
  assumes "rt_ok n rt" "\<exists>x. s' = (rt_store rt)\<lparr>st_sources := x\<rparr>" "sources_ok s'"
  shows "rt_ok (Suc n) (rt\<lparr>rt_store := s'\<rparr>)"
  using assms by (intro rt_ok_sources) auto

lemma rt_ok_sourcesD: "rt_ok n rt \<Longrightarrow> sources_ok (rt_store rt)"
  by (simp add: rt_ok_def store_ok_def)

lemma raise_step_ok:
  assumes ok: "rt_ok n rt" and n: "Suc n < 2 ^ 64" and m: "m < length (rt_sinks rt)"
  shows "runs (do { (_, seqs1, s, ws) \<leftarrow> sink_raise (rt_store rt) (rt_sinks rt ! m) i k b trc;
      Some (rt\<lparr>rt_store := s, rt_sinks := (rt_sinks rt)[m := seqs1]\<rparr>, ws) }) (\<lambda>(rt', ws). rt_ok (Suc n) rt')"
proof -
  let ?q = "rt_sinks rt ! m"
  have q: "below n ?q" using ok m by (simp add: rt_ok_def)
  let ?n = "case om_get ?q (i, k) of Some n \<Rightarrow> n | None \<Rightarrow> 0"
  have "unat ?n \<le> n" using q by (auto simp: below_def split: option.split)
  then have inc: "inc_u64 ?n = Some (?n + 1)" "unat (?n + 1) \<le> Suc n"
    using n inc_u64_below [of ?n] inc_u64_SomeD [of ?n "?n + 1"] by auto
  have draw: "sink_draw (i, k) ?q = Some (?n + 1, om_put (i, k) (?n + 1) ?q)"
    using inc(1) by (simp add: sink_draw_def)
  have q1: "below (Suc n) (om_put (i, k) (?n + 1) ?q)"
    using below_Suc [OF q] inc(2) by (auto simp: below_def)
  obtain r q' s' ws where r: "sink_raise (rt_store rt) ?q i k b trc = Some (r, q', s', ws)"
    and q': "q' = ?q \<or> q' = om_put (i, k) (?n + 1) ?q"
    and s': "\<exists>x. s' = (rt_store rt)\<lparr>st_sources := x\<rparr>"
  proof (cases "store_admit (rt_store rt) (i, k) Event (length b)")
    case (Inl cap)
    then show ?thesis using sources_self by (intro that) (auto simp: sink_raise_def store_raise_def)
  next
    case (Inr u)
    then show ?thesis using draw by (intro that) (auto simp: sink_raise_def store_raise_def Let_def case_prod_beta)
  qed
  have "sources_ok s'"
    by (rule raise_sources [OF rt_ok_sourcesD [OF ok] r [unfolded sink_raise_def]])
  then have "rt_ok (Suc n) (rt\<lparr>rt_store := s'\<rparr>)" by (rule rt_ok_source_op [OF ok s'])
  moreover have "\<forall>x \<in> set ((rt_sinks rt)[m := q']). below (Suc n) x"
    using rt_ok_Suc [OF ok] q' q1 below_Suc [OF q] by (intro all_update) (auto simp only: rt_ok_def)
  ultimately show ?thesis using r by (simp add: rt_ok_def)
qed


lemma commit_step_ok:
  assumes ok: "rt_ok n rt" and n: "Suc n < 2 ^ 64" and m: "m < length (rt_writers rt)"
  shows "runs (do { (s, w1) \<leftarrow> writer_commit (rt_store rt) (rt_writers rt ! m);
      Some (rt\<lparr>rt_store := s, rt_writers := (rt_writers rt)[m := w1]\<rparr>, []) }) (\<lambda>(rt', ws). rt_ok (Suc n) rt')"
proof -
  let ?w = "rt_writers rt ! m" and ?s = "rt_store rt"
  have w: "om_wf (wh_staged ?w)" "below n (wh_seqs ?w)" using ok m by (simp_all add: rt_ok_def)
  have gens: "below n (st_generations ?s)" "signals_ok ?s" "sources_ok ?s" using ok by (simp_all add: rt_ok_def store_ok_def)
  have seqs: "unat (seq_of (wh_seqs ?w) k) \<le> n" for k
    using belowD [OF w(2), of k] by (cases "om_get (wh_seqs ?w) k") (simp_all add: seq_of_def)
  have gen: "unat (gen_of (st_generations ?s) i) \<le> n" for i
    using gens(1) by (auto simp: below_def gen_of_def split: option.split)
  have up: "unat (x + 1) \<le> Suc n" if "unat x \<le> n" for x :: u64
    using that n inc_u64_SomeD [OF inc_u64_below [of x]] by simp
  have fits: "commit_fits ?s (wh_staged ?w) (wh_seqs ?w)"
    unfolding commit_fits_def
  proof (intro ballI conjI)
    fix k show "unat (seq_of (wh_seqs ?w) k) + 1 < 2 ^ 64" "unat (gen_of (st_generations ?s) (fst k)) + 1 < 2 ^ 64"
      using seqs [of k] gen [of "fst k"] n by simp_all
  qed
  obtain s' seqs' where c: "store_commit ?s (wh_staged ?w) (wh_seqs ?w) = Some (s', [], seqs')"
    and com: "committed_all ?s (wh_staged ?w) (wh_seqs ?w) s' seqs'"
    using store_commit_ok [OF w(1) fits] by (auto elim!: runsE)
  have s': "s' = ?s\<lparr>st_generations := st_generations s', st_signals := st_signals s'\<rparr>"
    and g': "om_get (st_generations s') i = (if i \<in> fst ` fst ` set (commit_kept ?s (wh_staged ?w))
         then Some (gen_of (st_generations ?s) i + 1) else om_get (st_generations ?s) i)"
    and q': "om_get seqs' k = (if om_get (commit_kept ?s (wh_staged ?w)) k = None then om_get (wh_seqs ?w) k
         else Some (seq_of (wh_seqs ?w) k + 1))" for i k
    using com unfolding committed_all_def Let_def by blast+
  have g1: "below (Suc n) (st_generations s')"
    unfolding below_def g' using below_Suc [OF gens(1)] up [OF gen] by (auto simp: below_def)
  have q1: "below (Suc n) seqs'"
    unfolding below_def q' using below_Suc [OF w(2)] up [OF seqs] unfolding below_def by (metis option.inject)
  have f: "st_sources s' = st_sources ?s" "st_next_source_id s' = st_next_source_id ?s"
    "st_next_caller_id s' = st_next_caller_id ?s" "st_next_handler_id s' = st_next_handler_id ?s"
    by (subst s', simp)+
  have "rt_ok (Suc n) (rt\<lparr>rt_store := s'\<rparr>)"
  proof (rule rt_ok_same [OF ok _ commit_signals_ok [OF gens(2) fits w(1) c com] _ _ f(3,4) g1])
    show "same_calls ?s s'" unfolding same_calls_def by (subst s', simp)+
    show "sources_ok s'" using gens(3) f(1) by (simp add: sources_ok_def)
    show "st_next_source_id s' \<le> Suc n" using ok f(2) by (simp add: rt_ok_def store_ok_def)
  qed
  moreover have "\<forall>x \<in> set ((rt_writers rt)[m := ?w\<lparr>wh_staged := [], wh_seqs := seqs'\<rparr>]).
      om_wf (wh_staged x) \<and> below (Suc n) (wh_seqs x)"
    using rt_ok_Suc [OF ok] q1 by (intro all_update) (simp_all add: rt_ok_def)
  ultimately show ?thesis using c by (simp add: writer_commit_def rt_ok_def)
qed

lemma writer_step_ok:
  assumes ok: "rt_ok n rt" and m: "m < length (rt_writers rt)"
    and w: "om_wf (wh_staged w)" "wh_seqs w = wh_seqs (rt_writers rt ! m)"
  shows "rt_ok (Suc n) (rt\<lparr>rt_writers := (rt_writers rt)[m := w]\<rparr>)"
proof -
  have "below n (wh_seqs w)" using ok m w(2) by (simp add: rt_ok_def)
  then have "\<forall>x \<in> set ((rt_writers rt)[m := w]). om_wf (wh_staged x) \<and> below (Suc n) (wh_seqs x)"
    using rt_ok_Suc [OF ok] w(1) below_Suc by (intro all_update) (simp_all add: rt_ok_def)
  then show ?thesis using rt_ok_Suc [OF ok] by (simp add: rt_ok_def)
qed

lemma writer_ops:
  assumes "om_wf (wh_staged w)"
  shows "om_wf (wh_staged (snd (writer_set s w i k b)))" "wh_seqs (snd (writer_set s w i k b)) = wh_seqs w"
    "om_wf (wh_staged (writer_invalidate w i k))" "wh_seqs (writer_invalidate w i k) = wh_seqs w"
    "om_wf (wh_staged (writer_touch w i k))" "wh_seqs (writer_touch w i k) = wh_seqs w"
  using assms by (simp_all add: writer_set_def writer_invalidate_def writer_touch_def split: sum.split)

section \<open>Opening and dropping handles\<close>

lemma inc_usize_ok: "Suc n < 2 ^ 64 \<Longrightarrow> x \<le> n \<Longrightarrow> inc_usize x = Some (Suc x)"
  by (simp add: inc_usize_def checked_add_usize_def)

lemma source_new_ok:
  assumes ok: "rt_ok n rt" and n: "Suc n < 2 ^ 64"
  shows "runs (rt_step rt Op_Source) (\<lambda>(rt', ws). rt_ok (Suc n) rt')"
proof -
  let ?s = "rt_store rt"
  have sid: "st_next_source_id ?s \<le> n" using ok by (simp add: rt_ok_def store_ok_def)
  let ?s' = "?s\<lparr>st_next_source_id := Suc (st_next_source_id ?s),
    st_sources := om_put (st_next_source_id ?s) source_default (st_sources ?s)\<rparr>"
  have r: "open_source ?s = Some (st_next_source_id ?s, ?s')"
    using inc_usize_ok [OF n sid] by (simp add: open_source_def Let_def)
  have "rt_ok (Suc n) (rt\<lparr>rt_store := ?s'\<rparr>)"
    using ok sid open_source_sources [OF _ r]
    by (intro rt_ok_same [OF ok])
      (simp_all add: same_calls_def rt_ok_def store_ok_def signals_ok_def store_generation_def below_Suc)
  then show ?thesis using r by (simp add: rt_ok_def)
qed

lemma caller_new_ok:
  assumes ok: "rt_ok n rt" and n: "Suc n < 2 ^ 64"
  shows "runs (rt_step rt Op_Caller) (\<lambda>(rt', ws). rt_ok (Suc n) rt')"
proof -
  let ?s = "rt_store rt" and ?c = "st_next_caller_id (rt_store rt)"
  have cid: "?c \<le> n" using ok by (simp add: rt_ok_def store_ok_def)
  let ?s' = "?s\<lparr>st_next_caller_id := Suc ?c, st_callers := om_put ?c waiters_new (st_callers ?s)\<rparr>"
  have r: "open_caller ?s = Some (?c, ?s')"
    using inc_usize_ok [OF n cid] by (simp add: open_caller_def Let_def)
  have "store_ok (Suc n) ?s'"
    using ok cid open_caller_ok [OF rt_ok_inv [OF ok] r]
    by (simp add: rt_ok_def store_ok_def signals_ok_def sources_ok_def store_generation_def below_Suc)
  moreover have "callers_held (Suc n) (rt_callers rt @ [\<lparr>ch_id = ?c, ch_next_seq = 0\<rparr>]) ?s'"
    using ok by (fastforce simp: rt_ok_def callers_held_def)
  ultimately show ?thesis using ok r by (simp add: caller_new_def rt_ok_def below_Suc)
qed

lemma handler_new_ok:
  assumes ok: "rt_ok n rt" and n: "Suc n < 2 ^ 64"
  shows "runs (rt_step rt Op_Handler) (\<lambda>(rt', ws). rt_ok (Suc n) rt')"
proof -
  let ?s = "rt_store rt" and ?h = "st_next_handler_id (rt_store rt)"
  have hid: "?h \<le> n" using ok by (simp add: rt_ok_def store_ok_def)
  let ?s' = "?s\<lparr>st_next_handler_id := Suc ?h, st_handlers := om_put ?h handler_default (st_handlers ?s)\<rparr>"
  have r: "open_handler ?s = Some (?h, ?s')"
    using inc_usize_ok [OF n hid] by (simp add: open_handler_def Let_def)
  have "store_ok (Suc n) ?s'"
    using ok hid open_handler_ok [OF rt_ok_inv [OF ok] r]
    by (simp add: rt_ok_def store_ok_def signals_ok_def sources_ok_def store_generation_def below_Suc)
  moreover have "callers_held (Suc n) (rt_callers rt) ?s'"
    using ok by (auto simp: rt_ok_def callers_held_def)
  ultimately show ?thesis using ok r by (simp add: handler_new_def rt_ok_def below_Suc)
qed

lemma remove_at_split: "m < length xs \<Longrightarrow> xs = take m xs @ xs ! m # drop (Suc m) xs"
  by (rule id_take_nth_drop)

lemma caller_drop_ok:
  assumes ok: "rt_ok n rt" and m: "m < length (rt_callers rt)"
  shows "runs (do { (s, ws) \<leftarrow> caller_drop (rt_store rt) (rt_callers rt ! m);
      Some (rt\<lparr>rt_store := s, rt_callers := remove_at m (rt_callers rt)\<rparr>, ws) }) (\<lambda>(rt', ws). rt_ok (Suc n) rt')"
proof -
  let ?s = "rt_store rt" and ?ch = "rt_callers rt ! m"
  obtain wts s' ws where r: "close_caller ?s (ch_id ?ch) [] = Some (wts, s', ws)" and inv: "store_inv s'"
    using close_caller_ok [OF rt_ok_inv [OF ok], of "ch_id ?ch" "[]"] by (auto elim!: runsE)
  have c: "counts s' = counts (?s\<lparr>st_callers := om_del (ch_id ?ch) (st_callers ?s)\<rparr>)"
    using r by (auto simp: close_caller_def Let_def Option.bind_eq_Some_conv
        dest!: returnsD [OF forget_each_counts])
  have "store_ok (Suc n) s'"
    using ok c inv by (simp add: rt_ok_def store_ok_def counts_def signals_ok_def sources_ok_def
        store_generation_def below_Suc)
  moreover have "callers_held (Suc n) (remove_at m (rt_callers rt)) s'"
  proof -
    have held: "callers_held n (take m (rt_callers rt) @ ?ch # drop (Suc m) (rt_callers rt)) ?s"
      using ok remove_at_split [OF m] by (simp add: rt_ok_def)
    have other: "ch_id x \<noteq> ch_id ?ch" if "x \<in> set (remove_at m (rt_callers rt))" for x
    proof -
      have "ch_id ?ch \<notin> ch_id ` set (remove_at m (rt_callers rt))"
        using held unfolding callers_held_def remove_at_def by auto
      then show ?thesis using that by (metis imageI)
    qed
    have "distinct (map ch_id (remove_at m (rt_callers rt)))"
      using held unfolding callers_held_def remove_at_def by simp
    moreover have "unat (ch_next_seq x) \<le> n" "ch_id x \<in> dom (om_get (st_callers ?s))" "ch_id x < st_next_caller_id ?s"
      if "x \<in> set (remove_at m (rt_callers rt))" for x
      using held that unfolding callers_held_def remove_at_def by auto
    ultimately show ?thesis
      using c other unfolding callers_held_def counts_def by (simp add: le_SucI)
  qed
  ultimately show ?thesis using ok r by (simp add: caller_drop_def rt_ok_def below_Suc)
qed


lemma handler_drop_ok:
  assumes ok: "rt_ok n rt"
  shows "runs (do { (s, ws) \<leftarrow> handler_drop (rt_store rt) hh; Some (rt\<lparr>rt_store := s, rt_handlers := hhs\<rparr>, ws) })
    (\<lambda>(rt', ws). rt_ok (Suc n) rt')"
proof -
  obtain wts s' ws where r: "close_handler (rt_store rt) (hh_id hh) [] = Some (wts, s', ws)" and inv: "store_inv s'"
    using close_handler_ok [OF rt_ok_inv [OF ok], of "hh_id hh" "[]"] by (auto elim!: runsE)
  have "counts s' = counts (rt_store rt)" using returnsD [OF close_handler_counts r] by simp
  from rt_ok_calls [OF ok this inv] show ?thesis using r by (simp add: handler_drop_def rt_ok_def)
qed

lemma serve_step_ok:
  assumes ok: "rt_ok n rt"
  shows "runs (do { (hh1, s, ws) \<leftarrow> handler_serve (rt_store rt) hh i ords;
      Some (rt\<lparr>rt_store := s, rt_handlers := (rt_handlers rt)[m := hh1]\<rparr>, ws) }) (\<lambda>(rt', ws). rt_ok (Suc n) rt')"
proof -
  obtain s' ws where r: "store_serve (rt_store rt) (hh_id hh) i ords [] = Some (s', ws)" and inv: "store_inv s'"
    using store_serve_ok [OF rt_ok_inv [OF ok], of "hh_id hh" i ords "[]"] by (auto elim!: runsE)
  have "counts s' = counts (rt_store rt)" using returnsD [OF store_serve_counts r] by simp
  from rt_ok_calls [OF ok this inv] show ?thesis using r by (simp add: handler_serve_def Let_def rt_ok_def)
qed

section \<open>The settings\<close>

lemma signals_ok_cong:
  "st_signals s' = st_signals s \<Longrightarrow> st_generations s' = st_generations s \<Longrightarrow> signals_ok s' = signals_ok s"
  by (simp add: signals_ok_def store_generation_def)

lemma sources_ok_cong: "st_sources s' = st_sources s \<Longrightarrow> sources_ok s' = sources_ok s"
  by (simp add: sources_ok_def)

lemma signals_put:
  assumes "signals_ok s" "om_get (st_signals s) k = Some e" "se_changed_at e' = se_changed_at e"
  shows "signals_ok (s\<lparr>st_signals := om_put k e' (st_signals s)\<rparr>)"
proof -
  have old: "se_changed_at f \<le> store_generation s (fst j)" if "om_get (st_signals s) j = Some f" for j f
    using assms(1) that unfolding signals_ok_def by blast
  have "se_changed_at f \<le> store_generation s (fst j)" if "((om_get (st_signals s))(k \<mapsto> e')) j = Some f" for j f
    using old [OF assms(2)] old [of j f] assms(3) that by (cases "j = k") simp_all
  moreover have "om_wf (om_put k e' (st_signals s))" using assms(1) by (simp add: signals_ok_def)
  ultimately show ?thesis
    unfolding signals_ok_def store_generation_def by (simp del: fun_upd_apply split_paired_All)
qed

lemma check_with_ok:
  assumes ok: "signals_ok s" and s': "s' = store_check_with s i k chk"
  shows "signals_ok s'" "same_calls s s'" "st_sources s' = st_sources s" "st_generations s' = st_generations s"
    "st_next_source_id s' = st_next_source_id s" "st_next_caller_id s' = st_next_caller_id s"
    "st_next_handler_id s' = st_next_handler_id s"
proof -
  let ?s1 = "s\<lparr>st_checks := om_put (i, k) chk (st_checks s)\<rparr>"
  have ok1: "signals_ok ?s1" using ok signals_ok_cong [of ?s1 s] by simp
  consider "s' = ?s1" | e e' where "om_get (st_signals ?s1) (i, k) = Some e" "se_changed_at e' = se_changed_at e"
    "s' = ?s1\<lparr>st_signals := om_put (i, k) e' (st_signals ?s1)\<rparr>"
  proof (cases "om_get (st_signals s) (i, k)")
    case None
    then show ?thesis using s' by (intro that(1)) (simp add: store_check_with_def Let_def)
  next
    case (Some e)
    show ?thesis
    proof (cases "se_provenance e = Live \<and> isl (chk (se_bytes e))")
      case True
      then obtain d where "chk (se_bytes e) = Inl d" by (auto simp: isl_def)
      with True Some s' show ?thesis
        by (intro that(2) [of e "e\<lparr>se_bytes := [], se_provenance := Invalid (Detected d)\<rparr>"])
          (simp_all add: store_check_with_def Let_def)
    next
      case False
      then show ?thesis
        using Some s' by (intro that(1)) (auto simp: store_check_with_def Let_def split: sum.split)
    qed
  qed
  note cases = this
  then show "signals_ok s'" using ok1 signals_put [OF ok1] by cases simp_all
  show "same_calls s s'" "st_sources s' = st_sources s" "st_generations s' = st_generations s"
    "st_next_source_id s' = st_next_source_id s" "st_next_caller_id s' = st_next_caller_id s"
    "st_next_handler_id s' = st_next_handler_id s"
    using cases by (cases, simp_all add: same_calls_def)+
qed

lemma settings_ok:
  assumes ok: "rt_ok n rt"
  shows "runs (rt_step rt (Op_Limit key l)) (\<lambda>(rt', ws). rt_ok (Suc n) rt')"
    "runs (rt_step rt (Op_Provision i k b)) (\<lambda>(rt', ws). rt_ok (Suc n) rt')"
    "runs (rt_step rt (Op_Check i k chk)) (\<lambda>(rt', ws). rt_ok (Suc n) rt')"
    "runs (rt_step rt Op_Fail_Settle) (\<lambda>(rt', ws). rt_ok (Suc n) rt')"
    "0 \<le> sint d \<Longrightarrow> runs (rt_step rt (Op_Advance d)) (\<lambda>(rt', ws). rt_ok (Suc n) rt')"
proof -
  let ?s = "rt_store rt"
  have f: "signals_ok ?s" "sources_ok ?s" "st_next_source_id ?s \<le> Suc n" "below (Suc n) (st_generations ?s)"
    using rt_ok_Suc [OF ok] by (simp_all add: rt_ok_def store_ok_def)
  have same: "rt_ok (Suc n) (rt\<lparr>rt_store := s'\<rparr>)" if "same_calls ?s s'" "st_signals s' = st_signals ?s"
      "st_sources s' = st_sources ?s" "st_generations s' = st_generations ?s"
      "st_next_source_id s' = st_next_source_id ?s" "st_next_caller_id s' = st_next_caller_id ?s"
      "st_next_handler_id s' = st_next_handler_id ?s" for s'
    using that f signals_ok_cong [of s' ?s] sources_ok_cong [of s' ?s] by (intro rt_ok_same [OF ok]) simp_all
  show "runs (rt_step rt (Op_Limit key l)) (\<lambda>(rt', ws). rt_ok (Suc n) rt')"
    by (simp add: same store_set_limit_def same_calls_def)
  show "runs (rt_step rt (Op_Provision i k b)) (\<lambda>(rt', ws). rt_ok (Suc n) rt')"
    by (simp add: same store_provision_fixed_def same_calls_def split: sum.split)
  show "runs (rt_step rt (Op_Check i k chk)) (\<lambda>(rt', ws). rt_ok (Suc n) rt')"
    using f check_with_ok [OF f(1) refl, of i k chk] sources_ok_cong [of "store_check_with ?s i k chk" ?s]
    by (simp add: rt_ok_same [OF ok])
  show "runs (rt_step rt Op_Fail_Settle) (\<lambda>(rt', ws). rt_ok (Suc n) rt')"
    by (simp add: same store_fail_next_settle_def same_calls_def)
  show "0 \<le> sint d \<Longrightarrow> runs (rt_step rt (Op_Advance d)) (\<lambda>(rt', ws). rt_ok (Suc n) rt')"
    by (simp add: same store_advance_def same_calls_def)
qed

section \<open>Every step\<close>

lemma writer_steps_ok:
  assumes ok: "rt_ok n rt" and n: "Suc n < 2 ^ 64"
  shows "runs (rt_step rt Op_Writer) (\<lambda>(rt', ws). rt_ok (Suc n) rt')"
    "runs (rt_step rt (Op_Set m i k b)) (\<lambda>(rt', ws). rt_ok (Suc n) rt')"
    "runs (rt_step rt (Op_Invalidate m i k)) (\<lambda>(rt', ws). rt_ok (Suc n) rt')"
    "runs (rt_step rt (Op_Touch m i k)) (\<lambda>(rt', ws). rt_ok (Suc n) rt')"
    "runs (rt_step rt (Op_Commit m)) (\<lambda>(rt', ws). rt_ok (Suc n) rt')"
proof -
  have w: "om_wf (wh_staged (rt_writers rt ! m))" if "m < length (rt_writers rt)"
    using ok that by (simp add: rt_ok_def)
  show "runs (rt_step rt Op_Writer) (\<lambda>(rt', ws). rt_ok (Suc n) rt')"
    using rt_ok_Suc [OF ok] by (simp add: rt_ok_def writer_new_def below_def)
  show "runs (rt_step rt (Op_Set m i k b)) (\<lambda>(rt', ws). rt_ok (Suc n) rt')"
    "runs (rt_step rt (Op_Invalidate m i k)) (\<lambda>(rt', ws). rt_ok (Suc n) rt')"
    "runs (rt_step rt (Op_Touch m i k)) (\<lambda>(rt', ws). rt_ok (Suc n) rt')"
    using rt_ok_Suc [OF ok] w writer_ops
    by (auto simp: at_handle_def intro!: writer_step_ok [OF ok])
  show "runs (rt_step rt (Op_Commit m)) (\<lambda>(rt', ws). rt_ok (Suc n) rt')"
    unfolding rt_step.simps by (rule at_handle_ok [OF ok], rule commit_step_ok [OF ok n])
qed

lemma event_steps_ok:
  assumes ok: "rt_ok n rt" and n: "Suc n < 2 ^ 64"
  shows "runs (rt_step rt (Op_Source_Drop m)) (\<lambda>(rt', ws). rt_ok (Suc n) rt')"
    "runs (rt_step rt (Op_Subscribe m i ords)) (\<lambda>(rt', ws). rt_ok (Suc n) rt')"
    "runs (rt_step rt (Op_Unsubscribe m i ords)) (\<lambda>(rt', ws). rt_ok (Suc n) rt')"
    "runs (rt_step rt (Op_Next m out)) (\<lambda>(rt', ws). rt_ok (Suc n) rt')"
    "runs (rt_step rt (Op_Source_Wake m what w)) (\<lambda>(rt', ws). rt_ok (Suc n) rt')"
    "runs (rt_step rt Op_Sink) (\<lambda>(rt', ws). rt_ok (Suc n) rt')"
    "runs (rt_step rt (Op_Raise m i k b trc)) (\<lambda>(rt', ws). rt_ok (Suc n) rt')"
proof -
  note src = rt_ok_sourcesD [OF ok]
  have drop: "rt_ok (Suc n) (rt\<lparr>rt_store := source_drop (rt_store rt) sid\<rparr>)" for sid
    by (rule rt_ok_source_op [OF ok sources_only(1) close_source_sources [OF src]])
  then show "runs (rt_step rt (Op_Source_Drop m)) (\<lambda>(rt', ws). rt_ok (Suc n) rt')"
    using rt_ok_Suc [OF ok] by (simp add: at_handle_def rt_ok_def)
  show "runs (rt_step rt (Op_Subscribe m i ords)) (\<lambda>(rt', ws). rt_ok (Suc n) rt')"
    using rt_ok_Suc [OF ok] rt_ok_source_op [OF ok sources_only(2) subscribe_sources [OF src]]
    by (simp add: at_handle_def)
  show "runs (rt_step rt (Op_Unsubscribe m i ords)) (\<lambda>(rt', ws). rt_ok (Suc n) rt')"
    using rt_ok_Suc [OF ok] rt_ok_source_op [OF ok sources_only(3) unsubscribe_sources [OF src]]
    by (simp add: at_handle_def)
  show "runs (rt_step rt (Op_Next m out)) (\<lambda>(rt', ws). rt_ok (Suc n) rt')"
    using rt_ok_Suc [OF ok] rt_ok_source_op [OF ok sources_only(4) next_event_sources [OF src]]
    by (simp add: at_handle_def)
  show "runs (rt_step rt (Op_Source_Wake m what w)) (\<lambda>(rt', ws). rt_ok (Suc n) rt')"
    unfolding rt_step.simps
  proof (rule at_handle_ok [OF ok])
    obtain s' ws where r: "source_wake_on (rt_store rt) (rt_sources rt ! m) what w = (s', ws)" by fastforce
    show "runs (with_store rt (Some (source_wake_on (rt_store rt) (rt_sources rt ! m) what w)))
        (\<lambda>(rt', ws). rt_ok (Suc n) rt')"
      using rt_ok_sources [OF ok source_wake_ok [OF src r]] r by (simp add: with_store_def)
  qed
  show "runs (rt_step rt Op_Sink) (\<lambda>(rt', ws). rt_ok (Suc n) rt')"
    using rt_ok_Suc [OF ok] by (simp add: rt_ok_def below_def)
  show "runs (rt_step rt (Op_Raise m i k b trc)) (\<lambda>(rt', ws). rt_ok (Suc n) rt')"
    unfolding rt_step.simps by (rule at_handle_ok [OF ok], rule raise_step_ok [OF ok n])
qed

lemma caller_steps_ok:
  assumes ok: "rt_ok n rt" and n: "Suc n < 2 ^ 64"
  shows "runs (rt_step rt (Op_Caller_Drop m)) (\<lambda>(rt', ws). rt_ok (Suc n) rt')"
    "runs (rt_step rt (Op_Send m kd i k args trc)) (\<lambda>(rt', ws). rt_ok (Suc n) rt')"
    "runs (rt_step rt (Op_Ack c)) (\<lambda>(rt', ws). rt_ok (Suc n) rt')"
    "runs (rt_step rt (Op_Reply c out)) (\<lambda>(rt', ws). rt_ok (Suc n) rt')"
    "runs (rt_step rt (Op_Forget c)) (\<lambda>(rt', ws). rt_ok (Suc n) rt')"
    "runs (rt_step rt (Op_Pull c no out)) (\<lambda>(rt', ws). rt_ok (Suc n) rt')"
    "runs (rt_step rt (Op_Push c no chunk)) (\<lambda>(rt', ws). rt_ok (Suc n) rt')"
    "runs (rt_step rt (Op_End c no)) (\<lambda>(rt', ws). rt_ok (Suc n) rt')"
    "runs (rt_step rt (Op_Abort c no err)) (\<lambda>(rt', ws). rt_ok (Suc n) rt')"
    "runs (rt_step rt (Op_Caller_Wake m what w)) (\<lambda>(rt', ws). rt_ok (Suc n) rt')"
proof -
  note inv = rt_ok_inv [OF ok]
  show "runs (rt_step rt (Op_Caller_Drop m)) (\<lambda>(rt', ws). rt_ok (Suc n) rt')"
    "runs (rt_step rt (Op_Send m kd i k args trc)) (\<lambda>(rt', ws). rt_ok (Suc n) rt')"
    unfolding rt_step.simps
    by (rule at_handle_ok [OF ok], rule caller_drop_ok [OF ok], assumption)
      (rule at_handle_ok [OF ok], rule send_step_ok [OF ok n])
  show "runs (rt_step rt (Op_Ack c)) (\<lambda>(rt', ws). rt_ok (Suc n) rt')"
    "runs (rt_step rt (Op_Reply c out)) (\<lambda>(rt', ws). rt_ok (Suc n) rt')"
    unfolding rt_step.simps runs_simps
    by (rule runs_mono [OF ack_reply_ok(1) [OF inv]], simp add: rt_ok_Suc [OF ok])
      (rule runs_mono [OF ack_reply_ok(2) [OF inv]], simp add: rt_ok_Suc [OF ok])
  show "runs (rt_step rt (Op_Forget c)) (\<lambda>(rt', ws). rt_ok (Suc n) rt')"
    using with_store_ok [OF ok forget_inv [OF inv] store_forget_counts] by simp
  show "runs (rt_step rt (Op_Pull c no out)) (\<lambda>(rt', ws). rt_ok (Suc n) rt')"
    using with_pull_ok [OF ok caller_streams_ok(1) [OF inv] caller_streams_counts(1)] by simp
  show "runs (rt_step rt (Op_Push c no chunk)) (\<lambda>(rt', ws). rt_ok (Suc n) rt')"
    "runs (rt_step rt (Op_End c no)) (\<lambda>(rt', ws). rt_ok (Suc n) rt')"
    "runs (rt_step rt (Op_Abort c no err)) (\<lambda>(rt', ws). rt_ok (Suc n) rt')"
    using with_result_ok [OF ok caller_streams_ok(2) [OF inv] caller_streams_counts(2)]
      with_result_ok [OF ok caller_streams_ok(3) [OF inv] caller_streams_counts(3)]
      with_result_ok [OF ok caller_streams_ok(4) [OF inv] caller_streams_counts(4)] by simp_all
  have "runs (with_store rt (Some (caller_wake_on (rt_store rt) ch what w))) (\<lambda>(rt', ws). rt_ok (Suc n) rt')" for ch
  proof -
    obtain s' ws where r: "caller_wake_on (rt_store rt) ch what w = (s', ws)" by fastforce
    show ?thesis
      using rt_ok_calls [OF ok caller_wake_ok(2) [OF inv r] caller_wake_ok(1) [OF inv r]] r
      by (simp add: with_store_def)
  qed
  then show "runs (rt_step rt (Op_Caller_Wake m what w)) (\<lambda>(rt', ws). rt_ok (Suc n) rt')"
    using rt_ok_Suc [OF ok] by (simp add: at_handle_def)
qed

lemma handler_steps_ok:
  assumes ok: "rt_ok n rt" and n: "Suc n < 2 ^ 64"
  shows "runs (rt_step rt (Op_Handler_Drop m)) (\<lambda>(rt', ws). rt_ok (Suc n) rt')"
    "runs (rt_step rt (Op_Serve m i ords)) (\<lambda>(rt', ws). rt_ok (Suc n) rt')"
    "runs (rt_step rt (Op_Next_Claim m out)) (\<lambda>(rt', ws). rt_ok (Suc n) rt')"
    "runs (rt_step rt (Op_Settle m cl oc)) (\<lambda>(rt', ws). rt_ok (Suc n) rt')"
    "runs (rt_step rt (Op_Pull_Claim m cl no out)) (\<lambda>(rt', ws). rt_ok (Suc n) rt')"
    "runs (rt_step rt (Op_Push_Claim m cl no chunk)) (\<lambda>(rt', ws). rt_ok (Suc n) rt')"
    "runs (rt_step rt (Op_End_Claim m cl no)) (\<lambda>(rt', ws). rt_ok (Suc n) rt')"
    "runs (rt_step rt (Op_Abort_Claim m cl no err)) (\<lambda>(rt', ws). rt_ok (Suc n) rt')"
    "runs (rt_step rt (Op_Handler_Wake m what w)) (\<lambda>(rt', ws). rt_ok (Suc n) rt')"
  unfolding rt_step.simps
  by (rule at_handle_ok [OF ok] handler_drop_ok [OF ok] serve_step_ok [OF ok] next_claim_step_ok [OF ok n]
      with_result_ok [OF ok settle_inv [OF rt_ok_inv [OF ok]] store_settle_counts]
      with_pull_ok [OF ok handler_streams_ok(1) [OF rt_ok_inv [OF ok]] handler_streams_counts(1)]
      with_result_ok [OF ok handler_streams_ok(2) [OF rt_ok_inv [OF ok]] handler_streams_counts(2)]
      with_result_ok [OF ok end_claim_ok [OF rt_ok_inv [OF ok]] end_claim_counts]
      with_result_ok [OF ok abort_claim_ok [OF rt_ok_inv [OF ok]] abort_claim_counts]
      with_store_ok [OF ok handler_wake_ok [OF rt_ok_inv [OF ok]]])+

lemmas rt_steps_ok = writer_steps_ok event_steps_ok source_new_ok caller_new_ok handler_new_ok
  caller_steps_ok handler_steps_ok settings_ok

lemma rt_step_ok:
  assumes "rt_ok n rt" "rt_allowed op" "Suc n < 2 ^ 64"
  shows "runs (rt_step rt op) (\<lambda>(rt', ws). rt_ok (Suc n) rt')"
proof (cases "\<exists>d. op = Op_Advance d")
  case True
  then show ?thesis using assms settings_ok(5) [OF assms(1)] by (auto simp: rt_allowed_def simp del: rt_step.simps)
next
  case False
  then show ?thesis using assms by (cases op) (simp_all add: rt_steps_ok del: rt_step.simps)
qed

interpretation lbk: counted_system rt_step rt_ok rt_allowed "2 ^ 64"
  by unfold_locales (rule rt_step_ok)

lemma rt_ok_new: "rt_ok 0 runtime_new"
proof -
  have "signals_ok store_new" "sources_ok store_new" by (simp_all add: signals_ok_def sources_ok_def store_new_def)
  then show ?thesis
    using store_new_ok by (simp add: rt_ok_def store_ok_def callers_held_def below_def runtime_new_def)
      (simp add: store_new_def)
qed

lemma rt_reaches:
  assumes "list_all rt_allowed ops" "length ops < 2 ^ 64"
  shows "runs (rt_run runtime_new ops) (\<lambda>(rt, ws). rt_ok (length ops) rt)"
  using lbk.run_ok [OF rt_ok_new assms(1)] assms(2) by (simp add: rt_run_def)

end
