(* ===== verification/Lb_Props.thy ===== *)
theory Lb_Props
  imports Lb_Steps
begin

text \<open>
  What the in-process runtime promises its users: it does not panic, it stores no waker
  for what has already happened, every
  call is in exactly one place, and a claim, a reply, a signal, an event and a stream carry what
  was given to them. The statements are over every state a program can reach by its handles.
\<close>

section \<open>Reachable states\<close>

lemma run_allowed: "rt_run rt ops = Some r \<Longrightarrow> list_all rt_allowed ops"
proof (induction ops arbitrary: rt r)
  case (Cons op ops)
  obtain rt1 ws r' where one: "rt_step rt op = Some (rt1, ws)" and rest: "rt_run rt1 ops = Some r'"
    using Cons.prems by (auto simp: rt_run_def Option.bind_eq_Some_conv)
  have "rt_allowed op"
    using one by (cases op) (auto simp: rt_allowed_def store_advance_def split: if_splits)
  with Cons.IH [OF rest] show ?case by simp
qed simp

lemma reached:
  assumes "rt_run runtime_new ops = Some (rt, ws)" "length ops < 2 ^ 64"
  shows "rt_ok (length ops) rt"
  using rt_reaches [OF run_allowed [OF assms(1)] assms(2)] assms(1) by simp

lemma reached_inv:
  assumes "rt_run runtime_new ops = Some (rt, ws)" "length ops < 2 ^ 64"
  shows "store_inv (rt_store rt)" "signals_ok (rt_store rt)" "sources_ok (rt_store rt)"
  using reached [OF assms] by (simp_all add: rt_ok_def store_ok_def)

section \<open>The runtime does not panic\<close>

text \<open>
  C1: A program that holds any number of handles on one in-process runtime and calls their methods
  in any order, fewer than \<open>2 ^ 64\<close> of them and never advancing the clock backwards, never meets a
  panic: no \<open>expect\<close>, \<open>unreachable!\<close>, map index or counter overflow of the store is reached.
\<close>

theorem runtime_never_panics:
  assumes "list_all rt_allowed ops" "length ops < 2 ^ 64"
  shows "\<exists>rt ws. rt_run runtime_new ops = Some (rt, ws)"
  using rt_reaches [OF assms] by (auto simp: runs_def)

theorem runtime_never_panics_witness:
  "\<exists>rt ws. rt_run runtime_new [Op_Caller, Op_Handler, Op_Send 0 CK_Query 1 2 [7] None, Op_Next_Claim 0 [0],
     Op_Push_Claim 0 0 REPLY_STREAM [9], Op_Handler_Drop 0, Op_Caller_Drop 0] = Some (rt, ws)"
  by (rule runtime_never_panics) (simp_all add: rt_allowed_def)

text \<open>
  C6: The runtime is sound in the sense of a type system: from a well-formed state every method a
  program may call returns (progress), and returns a well-formed state (preservation). Well-formed:
  the call table, the waiting calls, the claims and the entries agree on every call, the maps are
  ordered, no waker is stored for a condition that holds, no signal is newer than its interface's
  generation, and every counter is at most the number of calls made.
\<close>

theorem runtime_sound:
  assumes "rt_ok n rt" "rt_allowed op" "Suc n < 2 ^ 64"
  shows "\<exists>rt' ws. rt_step rt op = Some (rt', ws) \<and> rt_ok (Suc n) rt'"
  using rt_step_ok [OF assms] by (auto simp: runs_def)

theorem runtime_sound_witness:
  "\<exists>rt' ws. rt_step runtime_new Op_Caller = Some (rt', ws) \<and> rt_ok (Suc 0) rt'"
  using runtime_sound [OF rt_ok_new, of Op_Caller] by (simp add: rt_allowed_def)

section \<open>Stored wakers\<close>

text \<open>
  C2: Whatever a program did, a waker the runtime still stores waits for something that has not
  happened: a caller's \<open>Slot\<close> waker is stored only while all sixteen slots are taken, a handler's
  \<open>Claim\<close> waker only while no waiting call is one the handler serves, and a source's \<open>Event\<close> waker
  only while the source's queue is empty.
\<close>

theorem stored_wakers_wait:
  assumes "rt_run runtime_new ops = Some (rt, ws)" "length ops < 2 ^ 64"
  shows "(\<forall>cid wts. om_get (st_callers (rt_store rt)) cid = Some wts \<and> wt_slot wts \<noteq> None \<longrightarrow>
       length (st_calls (rt_store rt)) = SLOTS) \<and>
    (\<forall>hid h. om_get (st_handlers (rt_store rt)) hid = Some h \<and> wt_claim (hs_waiters h) \<noteq> None \<longrightarrow>
       (\<forall>c e. c \<in> set (st_pending (rt_store rt)) \<and> entry_of (rt_store rt) c = Some e \<longrightarrow>
          \<not> serves h (ce_iface e, ce_ord e))) \<and>
    (\<forall>sid src. om_get (st_sources (rt_store rt)) sid = Some src \<and> wt_event (sr_waiters src) \<noteq> None \<longrightarrow>
       sr_queue src = [])"
proof -
  note inv = reached_inv [OF assms]
  note inv' = inv(1) [unfolded store_inv_def]
  have call: "call_at (rt_store rt) c = Some e" if "c \<in> set (st_pending (rt_store rt))" "entry_of (rt_store rt) c = Some e" for c e
    using pending_calls [OF inv', rule_format, OF that(1)] entry_of_call that(2) by fastforce
  show ?thesis
    using linv_waiters [OF inv'] call inv(3)
    unfolding waiters_ok_def sources_ok_def source_ok_def by blast
qed

theorem stored_wakers_wait_witness:
  "\<exists>rt ws. rt_run runtime_new [Op_Handler, Op_Handler_Wake 0 (IClaim 1) (Waker 5 5), Op_Caller,
       Op_Send 0 CK_Command 1 2 [] None] = Some (rt, ws) \<and>
     (\<forall>hid h. om_get (st_handlers (rt_store rt)) hid = Some h \<and> wt_claim (hs_waiters h) \<noteq> None \<longrightarrow>
       (\<forall>c e. c \<in> set (st_pending (rt_store rt)) \<and> entry_of (rt_store rt) c = Some e \<longrightarrow>
          \<not> serves h (ce_iface e, ce_ord e)))"
proof -
  let ?ops = "[Op_Handler, Op_Handler_Wake 0 (IClaim 1) (Waker 5 5), Op_Caller, Op_Send 0 CK_Command 1 2 [] None]"
  obtain rt ws where run: "rt_run runtime_new ?ops = Some (rt, ws)"
    using rt_reaches [of ?ops] by (auto simp: runs_def rt_allowed_def)
  have "length ?ops < 2 ^ 64" by simp
  from stored_wakers_wait [OF run this] run show ?thesis by blast
qed


section \<open>Where a call is\<close>

text \<open>
  C3: Whatever a program did, at most sixteen calls are held, the call table holds a call exactly
  when the store keeps its entry, and each call is in exactly one place: waiting and nobody's claim,
  offered to an open handler and still waiting, taken by an open handler and no longer waiting, or
  settled and nobody's claim.
\<close>

theorem calls_accounted:
  assumes "rt_run runtime_new ops = Some (rt, ws)" "length ops < 2 ^ 64"
  shows "length (st_calls (rt_store rt)) \<le> SLOTS \<and>
    (calls (st_table (rt_store rt)) c = None \<longleftrightarrow> call_at (rt_store rt) c = None) \<and>
    (\<forall>e. call_at (rt_store rt) c = Some e \<longrightarrow>
      (case do { i \<leftarrow> ce_claim e; om_get (st_claims (rt_store rt)) i } of
         None \<Rightarrow> if c \<in> set (st_pending (rt_store rt)) then calls (st_table (rt_store rt)) c = Some (InFlight False)
                else (\<exists>out. calls (st_table (rt_store rt)) c = Some (Settled out))
       | Some own \<Rightarrow> co_call own = c \<and> om_get (st_handlers (rt_store rt)) (co_handler own) \<noteq> None \<and>
           (\<exists>f. calls (st_table (rt_store rt)) c = Some (InFlight f)) \<and>
           (c \<in> set (st_pending (rt_store rt)) \<longleftrightarrow> \<not> co_taken own)))"
proof -
  note inv = reached_inv(1) [OF assms, unfolded store_inv_def]
  note core = linv_core [OF inv, unfolded core_of_def]
  let ?s = "rt_store rt"
  have dom: "calls (st_table ?s) c = None \<longleftrightarrow> call_at ?s c = None"
    using core_dom [OF core, of c] call_ok_state [OF core_call [OF core, of c]] 
    by (cases "call_at (rt_store rt) c"; cases "calls (st_table (rt_store rt)) c") auto
  have place: "case do { i \<leftarrow> ce_claim e; om_get (st_claims ?s) i } of
         None \<Rightarrow> if c \<in> set (st_pending ?s) then calls (st_table ?s) c = Some (InFlight False)
                else (\<exists>out. calls (st_table ?s) c = Some (Settled out))
       | Some own \<Rightarrow> co_call own = c \<and> om_get (st_handlers ?s) (co_handler own) \<noteq> None \<and>
           (\<exists>f. calls (st_table ?s) c = Some (InFlight f)) \<and> (c \<in> set (st_pending ?s) \<longleftrightarrow> \<not> co_taken own)"
    if e: "call_at ?s c = Some e" for e
  proof -
    have own: "do { i \<leftarrow> ce_claim e; om_get (st_claims ?s) i } = owner (om_get (st_claims ?s)) e"
      by (cases "ce_claim e") (simp_all add: owner_def)
    obtain cst where cst: "calls (st_table ?s) c = Some cst"
      "place_ok cst (c \<in> set (st_pending ?s)) (owner (om_get (st_claims ?s)) e) e"
      using call_place [OF inv e] by blast
    show ?thesis
    proof (cases "owner (om_get (st_claims ?s)) e")
      case None
      then show ?thesis using cst own by (auto simp: place_ok_def)
    next
      case (Some o1)
      then obtain i where i: "ce_claim e = Some i" "om_get (st_claims ?s) i = Some o1"
        by (auto simp: owner_def split: option.splits)
      have "co_call o1 = c" by (rule call_ok_owner [OF core_call [OF core e] i])
      moreover have "om_get (st_handlers ?s) (co_handler o1) \<noteq> None"
        using linv_open [OF inv] i(2) unfolding open_ok_def by blast
      ultimately show ?thesis using cst own Some by (auto simp: place_ok_def)
    qed
  qed
  show ?thesis using calls_length [OF inv] dom place by blast
qed

theorem calls_accounted_witness:
  "\<exists>rt ws. rt_run runtime_new [Op_Caller, Op_Handler, Op_Send 0 CK_Query 1 2 [7] None, Op_Next_Claim 0 [0]] =
       Some (rt, ws) \<and> length (st_calls (rt_store rt)) \<le> SLOTS"
proof -
  let ?ops = "[Op_Caller, Op_Handler, Op_Send 0 CK_Query 1 2 [7] None, Op_Next_Claim 0 [0]]"
  obtain rt ws where run: "rt_run runtime_new ?ops = Some (rt, ws)"
    using rt_reaches [of ?ops] by (auto simp: runs_def rt_allowed_def)
  have "length ?ops < 2 ^ 64" by simp
  from calls_accounted [OF run this, of 0] run show ?thesis by blast
qed

section \<open>The order of claims\<close>

lemma claim_identity_inv:
  assumes rep: "store_rep s" and e: "call_at s c = Some e" and i: "claim_identity s c = Some (i, s1)"
  shows "call_at s1 = (call_at s)(c \<mapsto> e\<lparr>ce_claim := Some i\<rparr>) \<and> st_pending s1 = st_pending s \<and>
    (ce_claim e = Some i \<or> ce_claim e = None \<and> i = st_next_claim_id s)"
proof -
  note get = call_at_get [OF e]
  note put = call_at_put_call [OF e, of "e\<lparr>ce_claim := Some i\<rparr>"]
  show ?thesis
  proof (cases "ce_claim e")
    case None
    then have "i = st_next_claim_id s" "\<exists>n. s1 = (put_call s (slot_of c) (e\<lparr>ce_claim := Some i\<rparr>))\<lparr>st_next_claim_id := n\<rparr>"
      using i get by (auto simp: claim_identity_def Option.bind_eq_Some_conv)
    with None put get show ?thesis by auto
  next
    case (Some j)
    then have "j = i" "s1 = s" using i get by (simp_all add: claim_identity_def)
    moreover have "e\<lparr>ce_claim := Some i\<rparr> = e" using Some \<open>j = i\<close> by simp
    ultimately show ?thesis using Some e by auto
  qed
qed

text \<open>What \<open>next_claim\<close> does to present a call, in a state that is well-formed.\<close>

lemma next_claim_taken:
  assumes inv: "store_inv s" and nc: "next_claim s hid out = Some (Inr (Some cl), out', s')"
  obtains h p c e where "om_get (st_handlers s) hid = Some h"
    "position (\<lambda>c. serves h (key_at s c)) (st_pending s) = Some p" "c = st_pending s ! p"
    "call_at s c = Some e" "cl = \<lparr>cl_id = cl_id cl, cl_iface = ce_iface e, cl_ord = ce_ord e,
        cl_envelope = ce_envelope e, cl_trace = ce_trace e, cl_remaining = None, cl_len = length (ce_args e)\<rparr>"
    "length (ce_args e) \<le> length out" "out' = put_at out 0 (ce_args e)"
    "ce_claim e = Some (cl_id cl) \<or> ce_claim e = None \<and> cl_id cl = st_next_claim_id s"
    "call_at s' = (call_at s)(c \<mapsto> e\<lparr>ce_claim := Some (cl_id cl)\<rparr>)"
    "st_pending s' = remove_at p (st_pending s)"
    "om_get (st_claims s') (cl_id cl) = Some \<lparr>co_call = c, co_handler = hid, co_taken = True\<rparr>"
proof -
  note inv' = inv [unfolded store_inv_def]
  obtain h where h: "om_get (st_handlers s) hid = Some h"
    using nc by (auto simp: next_claim_def split: option.splits)
  note found = find_served_eq [OF pending_calls [OF inv'], of h]
  obtain p where p: "position (\<lambda>c. serves h (key_at s c)) (st_pending s) = Some p"
    using nc h found by (auto simp: next_claim_def split: option.splits)
  define c where "c = st_pending s ! p"
  have "c \<in> set (st_pending s)" using position_SomeD [OF p] by (simp add: c_def)
  then obtain e where e: "call_at s c = Some e" using pending_calls [OF inv'] by auto
  note get = call_at_get [OF e]
  obtain i s1 where i: "claim_identity s c = Some (i, s1)"
    using nc h found p by (auto simp: next_claim_def c_def [symmetric] Let_def Option.bind_eq_Some_conv)
  have s1: "call_at s1 = (call_at s)(c \<mapsto> e\<lparr>ce_claim := Some i\<rparr>)" "st_pending s1 = st_pending s"
    "ce_claim e = Some i \<or> ce_claim e = None \<and> i = st_next_claim_id s"
    using claim_identity_inv [OF linv_rep [OF inv'] e i] by simp_all
  have e1: "om_get (st_calls s1) (slot_of c) = Some (e\<lparr>ce_claim := Some i\<rparr>)"
    using s1(1) call_at_get [of s1 c] by simp
  have fit: "\<not> length out < length (ce_args e)"
    using nc h found p i e1 by (auto simp: next_claim_def c_def [symmetric] Let_def split: if_splits)
  have res: "cl = \<lparr>cl_id = i, cl_iface = ce_iface e, cl_ord = ce_ord e, cl_envelope = ce_envelope e,
      cl_trace = ce_trace e, cl_remaining = None, cl_len = length (ce_args e)\<rparr>"
    "out' = put_at out 0 (ce_args e)"
    "s' = s1\<lparr>st_pending := remove_at p (st_pending s1),
        st_claims := om_put i \<lparr>co_call = c, co_handler = hid, co_taken = True\<rparr> (st_claims s1)\<rparr>"
    using nc h found p i e1 fit by (auto simp: next_claim_def c_def [symmetric] Let_def split: if_splits)
  have id: "cl_id cl = i" by (simp add: res(1))
  have E': "call_at s' = call_at s1" by (simp add: res(3) call_at_def fun_eq_iff)
  show thesis
    by (rule that [OF h p c_def e, unfolded id E']) (use res s1 fit in simp_all)
qed

text \<open>
  C4: A claim \<open>next_claim\<close> presents is the earliest sent of the waiting calls the handler serves,
  whatever calls were withdrawn, offered or returned by a dropped handler before. The claim carries
  the arguments, the envelope and the trace context of that call, the call leaves the waiting calls,
  and the claim is the handler's.
\<close>

theorem claims_in_send_order:
  assumes "rt_run runtime_new ops = Some (rt, ws)" "length ops < 2 ^ 64"
    and "next_claim (rt_store rt) hid out = Some (Inr (Some cl), out', s')"
  shows "\<exists>h c e. om_get (st_handlers (rt_store rt)) hid = Some h \<and> c \<in> set (st_pending (rt_store rt)) \<and>
    entry_of (rt_store rt) c = Some e \<and> serves h (ce_iface e, ce_ord e) \<and>
    (cl_iface cl, cl_ord cl, cl_envelope cl, cl_trace cl) = (ce_iface e, ce_ord e, ce_envelope e, ce_trace e) \<and>
    cl_len cl = length (ce_args e) \<and> out' = put_at out 0 (ce_args e) \<and>
    set (st_pending s') = set (st_pending (rt_store rt)) - {c} \<and>
    om_get (st_claims s') (cl_id cl) = Some \<lparr>co_call = c, co_handler = hid, co_taken = True\<rparr> \<and>
    (\<forall>d f. d \<in> set (st_pending (rt_store rt)) \<and> d \<noteq> c \<and> entry_of (rt_store rt) d = Some f \<and>
       serves h (ce_iface f, ce_ord f) \<longrightarrow> ce_sent e < ce_sent f)"
proof -
  let ?s = "rt_store rt"
  note inv = reached_inv(1) [OF assms(1,2)]
  note inv' = inv [unfolded store_inv_def]
  note core = linv_core [OF inv', unfolded core_of_def]
  obtain h p c e where h: "om_get (st_handlers ?s) hid = Some h"
    and p: "position (\<lambda>c. serves h (key_at ?s c)) (st_pending ?s) = Some p" and c: "c = st_pending ?s ! p"
    and e: "call_at ?s c = Some e"
    and cl: "cl = \<lparr>cl_id = cl_id cl, cl_iface = ce_iface e, cl_ord = ce_ord e,
        cl_envelope = ce_envelope e, cl_trace = ce_trace e, cl_remaining = None, cl_len = length (ce_args e)\<rparr>"
    and out: "out' = put_at out 0 (ce_args e)"
    and pend: "st_pending s' = remove_at p (st_pending ?s)"
    and own: "om_get (st_claims s') (cl_id cl) = Some \<lparr>co_call = c, co_handler = hid, co_taken = True\<rparr>"
    by (rule next_claim_taken [OF inv assms(3)])
  note pos = position_SomeD [OF p]
  have "set (st_pending s') = set (st_pending ?s) - {c}"
    using remove_at_nth [OF core_distinct [OF core], of p] pos core_distinct [OF core] by (simp add: pend c)
  moreover have "ce_sent e < ce_sent f"
    if d: "d \<in> set (st_pending ?s)" "d \<noteq> c" "entry_of ?s d = Some f" "serves h (ce_iface f, ce_ord f)" for d f
  proof -
    obtain f' where f': "call_at ?s d = Some f'" using pending_calls [OF inv'] d(1) by auto
    then have f: "call_at ?s d = Some f" using entry_of_call [OF f'] d(3) by simp
    obtain j where j: "j < length (st_pending ?s)" "st_pending ?s ! j = d" using d(1) by (metis in_set_conv_nth)
    have "\<not> j < p" using pos d(4) j(2) f by (auto simp: key_at_def)
    moreover have "j \<noteq> p" using j(2) c d(2) by auto
    ultimately have "sent_at (call_at ?s) (st_pending ?s ! p) < sent_at (call_at ?s) (st_pending ?s ! j)"
      using sorted_wrt_nth_less [OF core_sorted [OF core], of p j] j(1) by simp
    then show ?thesis using c e f j(2) by (simp add: sent_at_def)
  qed
  moreover have "c \<in> set (st_pending ?s)" "serves h (ce_iface e, ce_ord e)" using pos c e by (simp_all add: key_at_def)
  moreover have "(cl_iface cl, cl_ord cl, cl_envelope cl, cl_trace cl) = (ce_iface e, ce_ord e, ce_envelope e, ce_trace e)"
    "cl_len cl = length (ce_args e)" by (subst cl; simp)+
  ultimately show ?thesis using h entry_of_call [OF e] out own by blast
qed


text \<open>Runs of the runtime that the examples below start from.\<close>

lemma replicate_numeral: "replicate (numeral k) x = x # replicate (pred_numeral k) x"
  by (simp add: numeral_eq_Suc)

lemmas run_defs = rt_run_def at_handle_def with_store_def with_result_def caller_new_def open_caller_def
  handler_new_def open_handler_def caller_send_def store_send_def store_admit_def store_limit_def table_insert_def
  wake_handlers_serving_def om_visit_def wake_handler_def runtime_new_def store_new_def inc_u64_def inc_usize_def
  checked_add_usize_def table_new_def SLOTS_def put_call_def put_entry_def waiters_new_def handler_default_def
  om_get_def Let_def slot_of_def entry_FREE_def serves_def waiters_take_def CALL_CEILING_def SLOT_MASK_def SLOT_BITS_def
  entry_of_def

definition sample_ops :: "rt_op list" where
  "sample_ops = [Op_Caller, Op_Handler, Op_Send 0 CK_Query 1 2 [7] None, Op_Send 0 CK_Command 1 3 [8, 9] None]"

definition sample_store :: "store \<Rightarrow> bool" where
  "sample_store s \<longleftrightarrow> st_pending s = [0, 1] \<and>
     om_get (st_handlers s) 0 = Some \<lparr>hs_served = [], hs_waiters = waiters_new\<rparr> \<and>
     (\<exists>e. om_get (st_calls s) 0 = Some e \<and> ce_args e = [7] \<and> ce_claim e = None) \<and> st_next_claim_id s = 0"

lemma sample_run: "\<exists>rt ws. rt_run runtime_new sample_ops = Some (rt, ws) \<and> sample_store (rt_store rt)"
  by (simp add: sample_ops_def sample_store_def run_defs replicate_numeral)

lemma sample_claim:
  assumes "sample_store s"
  shows "\<exists>cl s'. next_claim s 0 [0] = Some (Inr (Some cl), [7], s')"
proof -
  obtain e where "om_get (st_calls s) 0 = Some e \<and> ce_args e = [7] \<and> ce_claim e = None"
    using assms by (auto simp: sample_store_def)
  moreover have "st_pending s = [0, 1]" "om_get (st_handlers s) 0 = Some \<lparr>hs_served = [], hs_waiters = waiters_new\<rparr>"
    "st_next_claim_id s = 0" using assms by (simp_all add: sample_store_def)
  ultimately show ?thesis
    by (simp add: next_claim_def claim_identity_def put_at_def put_call_def entry_of_def slot_of_def
        serves_def inc_u64_def Let_def)
qed

theorem claims_in_send_order_witness:
  "\<exists>rt ws cl s'. rt_run runtime_new sample_ops = Some (rt, ws) \<and>
     next_claim (rt_store rt) 0 [0] = Some (Inr (Some cl), [7], s') \<and>
     (\<exists>h c e. om_get (st_handlers (rt_store rt)) 0 = Some h \<and> entry_of (rt_store rt) c = Some e \<and>
        (cl_iface cl, cl_ord cl) = (ce_iface e, ce_ord e) \<and>
        (\<forall>d f. d \<in> set (st_pending (rt_store rt)) \<and> d \<noteq> c \<and> entry_of (rt_store rt) d = Some f \<and>
           serves h (ce_iface f, ce_ord f) \<longrightarrow> ce_sent e < ce_sent f))"
proof -
  obtain rt ws where run: "rt_run runtime_new sample_ops = Some (rt, ws)" and smp: "sample_store (rt_store rt)"
    using sample_run by blast
  from sample_claim [OF smp] obtain cl s' where
    nc: "next_claim (rt_store rt) 0 [0] = Some (Inr (Some cl), [7], s')" by blast
  have "length sample_ops < 2 ^ 64" by (simp add: sample_ops_def)
  from claims_in_send_order [OF run this nc] obtain h c e where
    "om_get (st_handlers (rt_store rt)) 0 = Some h" "entry_of (rt_store rt) c = Some e"
    "(cl_iface cl, cl_ord cl) = (ce_iface e, ce_ord e)"
    "\<forall>d f. d \<in> set (st_pending (rt_store rt)) \<and> d \<noteq> c \<and> entry_of (rt_store rt) d = Some f \<and>
       serves h (ce_iface f, ce_ord f) \<longrightarrow> ce_sent e < ce_sent f" by (elim exE conjE) simp
  then show ?thesis
    by (intro exI [of _ rt] exI [of _ ws] exI [of _ cl] exI [of _ s'] exI [of _ h] exI [of _ c] exI [of _ e]
        conjI run nc)
qed

end
