(* ===== verification/Lb_Queues.thy ===== *)
theory Lb_Queues
  imports Lb_Props
begin

text \<open>
  The queues of the in-process runtime against what a user sees of them: coherent reads against
  single reads, one queue of occurrences per source, and one queue of chunks with a window per
  stream of a call.
\<close>

section \<open>Coherent reads\<close>

text \<open>
  A coherent read of several signals of an interface answers what a read of each of them on its
  own answers, with the bytes one after another and one sample per signal, and it needs exactly the
  room of their bytes.
\<close>

lemma read_coherent_reads:
  assumes "length ks \<le> length samples" "sum_list (map (signal_len s i) ks) \<le> length out"
  shows "\<exists>parts rs. store_read_coherent s i ks out samples =
      (Inr (length (concat parts)), put_at out 0 (concat parts), put_at samples 0 rs) \<and>
    length parts = length ks \<and> length rs = length ks \<and>
    (\<forall>j < length ks. \<forall>buf. length (parts ! j) \<le> length buf \<longrightarrow>
       store_read s i (ks ! j) buf = (Inr (rs ! j), put_at buf 0 (parts ! j)))"
proof -
  let ?part = "\<lambda>k. case om_get (st_signals s) (i, k) of Some e \<Rightarrow> se_bytes e | None \<Rightarrow> []"
  let ?sample = "\<lambda>k. case om_get (st_signals s) (i, k) of Some e \<Rightarrow> sample_of e | None \<Rightarrow> unpublished"
  have len: "sum_list (map (signal_len s i) ks) = length (concat (map ?part ks))"
    by (induction ks) (auto simp: signal_len_def split: option.split)
  have "store_read_coherent s i ks out samples =
      (Inr (length (concat (map ?part ks))), put_at out 0 (concat (map ?part ks)), put_at samples 0 (map ?sample ks))"
    using coherent_each_eq [of 0 s i ks out 0 samples] assms len by (simp add: store_read_coherent_def Let_def)
  moreover have "store_read s i (ks ! j) buf = (Inr (map ?sample ks ! j), put_at buf 0 (map ?part ks ! j))"
    if "j < length ks" "length (map ?part ks ! j) \<le> length buf" for j buf
    using that by (cases "om_get (st_signals s) (i, ks ! j)") (simp_all add: store_read_def put_at_def)
  ultimately show ?thesis
    by (intro exI [of _ "map ?part ks"] exI [of _ "map ?sample ks"]) simp
qed

section \<open>Events\<close>

text \<open>
  C10: An event is a queue per source. An accepted \<open>raise\<close> appends one occurrence, with the bytes and
  the trace context given and the next number of the sink, to the queue of every source subscribed
  to the member and to no other, and wakes exactly those of them that wait. \<open>next\<close> on a source
  copies the first occurrence of its queue and takes it off, and leaves the other queues alone.
\<close>

theorem events_delivered:
  shows "sink_raise s q i k b trc = Some (Inr (), q', s', woken) \<Longrightarrow>
    (\<exists>ev. (qe_iface ev, qe_ord ev, qe_bytes ev, qe_trace ev) = (i, k, b, trc) \<and>
       qe_envelope ev = \<lparr>stamp = st_now s, seq = (case om_get q (i, k) of None \<Rightarrow> 0 | Some n \<Rightarrow> n) + 1\<rparr> \<and>
       (\<forall>sid. queue_of s' sid = queue_of s sid @ (if subscribed_to s sid (i, k) then [ev] else [])) \<and>
       (\<forall>w. w \<in> set woken \<longleftrightarrow> (\<exists>p \<in> set (st_sources s). (i, k) \<in> set (sr_subscribed (snd p)) \<and>
          wt_event (sr_waiters (snd p)) = Some w))) \<and>
    (queue_of s sid = ev # rest \<and> length (qe_bytes ev) \<le> length out \<longrightarrow>
       (\<exists>s2. next_event s sid out = (Inr (Some \<lparr>ro_iface = qe_iface ev, ro_ord = qe_ord ev,
            ro_envelope = qe_envelope ev, ro_trace = qe_trace ev, ro_len = length (qe_bytes ev)\<rparr>),
            put_at out 0 (qe_bytes ev), s2) \<and>
          queue_of s2 = (queue_of s)(sid := rest)))"
proof (rule conjI)
  assume raise: "sink_raise s q i k b trc = Some (Inr (), q', s', woken)"
  obtain n where n: "n = (case om_get q (i, k) of None \<Rightarrow> 0 | Some n \<Rightarrow> n) + 1" by blast
  let ?ev = "\<lparr>qe_iface = i, qe_ord = k, qe_bytes = b, qe_envelope = \<lparr>stamp = st_now s, seq = n\<rparr>, qe_trace = trc\<rparr>"
  have s': "s' = s\<lparr>st_sources := snd (om_visit (\<lambda>_. raise_source ?ev) (st_sources s))\<rparr>"
    and woken: "woken = fst (om_visit (\<lambda>_. raise_source ?ev) (st_sources s))"
    using raise by (auto simp: sink_raise_def store_raise_def sink_draw_def inc_u64_def Let_def Option.bind_eq_Some_conv
        case_prod_beta n split: sum.splits if_splits)
  have "queue_of s' sid = queue_of s sid @ (if subscribed_to s sid (i, k) then [?ev] else [])" for sid
    by (cases "om_get (st_sources s) sid")
      (auto simp: s' queue_of_def subscribed_to_def raise_source_def split: prod.split)
  moreover have "w \<in> set woken \<longleftrightarrow> (\<exists>p \<in> set (st_sources s). (i, k) \<in> set (sr_subscribed (snd p)) \<and>
      wt_event (sr_waiters (snd p)) = Some w)" for w
  proof -
    have "w \<in> set (fst (raise_source ?ev src)) \<longleftrightarrow> (i, k) \<in> set (sr_subscribed src) \<and> wt_event (sr_waiters src) = Some w" for src
      by (auto simp: raise_source_def waiters_take_def opt_list_def split: option.splits if_splits)
    then show ?thesis unfolding woken set_wakes_visit by simp
  qed
  ultimately show "\<exists>ev. (qe_iface ev, qe_ord ev, qe_bytes ev, qe_trace ev) = (i, k, b, trc) \<and>
       qe_envelope ev = \<lparr>stamp = st_now s, seq = (case om_get q (i, k) of None \<Rightarrow> 0 | Some n \<Rightarrow> n) + 1\<rparr> \<and>
       (\<forall>sid. queue_of s' sid = queue_of s sid @ (if subscribed_to s sid (i, k) then [ev] else [])) \<and>
       (\<forall>w. w \<in> set woken \<longleftrightarrow> (\<exists>p \<in> set (st_sources s). (i, k) \<in> set (sr_subscribed (snd p)) \<and>
          wt_event (sr_waiters (snd p)) = Some w))"
    using n by (intro exI [of _ ?ev]) simp
next
  show "queue_of s sid = ev # rest \<and> length (qe_bytes ev) \<le> length out \<longrightarrow>
       (\<exists>s2. next_event s sid out = (Inr (Some \<lparr>ro_iface = qe_iface ev, ro_ord = qe_ord ev,
            ro_envelope = qe_envelope ev, ro_trace = qe_trace ev, ro_len = length (qe_bytes ev)\<rparr>),
            put_at out 0 (qe_bytes ev), s2) \<and>
          queue_of s2 = (queue_of s)(sid := rest))"
    by (cases "om_get (st_sources s) sid") (auto simp: queue_of_def next_event_def fun_eq_iff)
qed


theorem events_delivered_witness:
  "\<exists>q' s' woken. sink_raise (store_new\<lparr>st_sources := [(0, source_default\<lparr>sr_subscribed := [(1, 2)]\<rparr>)]\<rparr>) [] 1 2 [7] None =
       Some (Inr (), q', s', woken) \<and>
     (\<exists>ev. qe_bytes ev = [7] \<and> queue_of s' 0 = [ev]) \<and> queue_of s' 1 = []"
proof -
  let ?s = "store_new\<lparr>st_sources := [(0, source_default\<lparr>sr_subscribed := [(1, 2)]\<rparr>)]\<rparr>"
  obtain q' s' woken where raise: "sink_raise ?s [] 1 2 [7] None = Some (Inr (), q', s', woken)"
    by (simp add: sink_raise_def store_raise_def store_admit_def store_limit_def sink_draw_def inc_u64_def store_new_def
        om_get_def SIGNAL_EVENT_CEILING_def om_visit_def Let_def)
  from events_delivered [OF raise] have "\<exists>ev. qe_bytes ev = [7] \<and>
      (\<forall>sid. queue_of s' sid = queue_of ?s sid @ (if subscribed_to ?s sid (1, 2) then [ev] else []))" by blast
  moreover have "queue_of ?s 0 = []" "queue_of ?s 1 = []" "subscribed_to ?s 0 (1, 2)" "\<not> subscribed_to ?s 1 (1, 2)"
    by (simp_all add: queue_of_def subscribed_to_def om_get_def source_default_def)
  ultimately show ?thesis using raise by auto
qed

section \<open>Streams\<close>

definition chunks_of :: "store \<Rightarrow> correlation \<Rightarrow> stream_no \<Rightarrow> bytes list" where
  "chunks_of s c no =
     (case call_at s c of
        None \<Rightarrow> []
      | Some e \<Rightarrow> (case om_get (ce_streams e) no of None \<Rightarrow> [] | Some st \<Rightarrow> ss_chunks st))"

lemma entry_stream_chunks:
  assumes "entry_stream e no = (st, e1)"
  shows "om_get (ce_streams e1) no = Some st"
    "ss_chunks st = (case om_get (ce_streams e) no of None \<Rightarrow> [] | Some st \<Rightarrow> ss_chunks st)"
    "no' \<noteq> no \<Longrightarrow> om_get (ce_streams e1) no' = om_get (ce_streams e) no'"
  using assms by (auto simp: entry_stream_def put_stream_def stream_release_def stream_default_def Let_def
      split: option.splits if_splits)

lemma chunks_put_call:
  assumes "call_at s c = Some e" "ce_correlation e' = c"
  shows "chunks_of (put_call s (slot_of c) e') d no =
    (if d = c then (case om_get (ce_streams e') no of None \<Rightarrow> [] | Some st \<Rightarrow> ss_chunks st) else chunks_of s d no)"
  using call_at_put_call [OF assms] by (simp add: chunks_of_def)

lemma take_stream_waker_chunks:
  assumes e: "call_at s c = Some e" and w: "take_stream_waker s (slot_of c) no sd = (w, s')"
  shows "chunks_of s' = chunks_of s"
proof (cases sd)
  case Side_Caller
  then have "st_calls s' = st_calls s" using w by (auto simp: take_stream_waker_def split: option.splits prod.splits)
  then show ?thesis using call_at_cong [of s' s] by (simp add: chunks_of_def fun_eq_iff)
next
  case Side_Provider
  note get = call_at_get [OF e]
  show ?thesis
  proof (cases "om_get (ce_streams e) no")
    case None
    then show ?thesis using w get Side_Provider by (simp add: take_stream_waker_def)
  next
    case (Some st)
    have "s' = put_call s (slot_of c) (put_stream e no (st\<lparr>ss_claim_waker := None\<rparr>))"
      using w get Side_Provider Some by (simp add: take_stream_waker_def)
    then show ?thesis
      using chunks_put_call [OF e, of "put_stream e no (st\<lparr>ss_claim_waker := None\<rparr>)"] get Some e
      by (auto simp: put_stream_def chunks_of_def fun_eq_iff)
  qed
qed

text \<open>The chunks of the call's streams after the entry with the stream named is put back.\<close>

lemma chunks_named:
  assumes e: "call_at s c = Some e" and st: "entry_stream e no = (st, e1)"
  shows "chunks_of (put_call s (slot_of c) e1) = chunks_of s"
    "ss_chunks st = chunks_of s c no"
    "call_at (put_call s (slot_of c) e1) c = Some e1"
    "chunks_of (put_call s (slot_of c) (mark_used sd (put_stream e1 no st'))) =
       (\<lambda>d n. if d = c \<and> n = no then ss_chunks st' else chunks_of s d n)"
proof -
  note get = call_at_get [OF e]
  have corr: "ce_correlation e1 = c" "ce_correlation (mark_used sd (put_stream e1 no st')) = c"
    using entry_stream_alike [OF st] get by (auto simp: alike_def kin_def mark_used_def put_stream_def)
  note ch = entry_stream_chunks [OF st]
  show "ss_chunks st = chunks_of s c no" using ch(2) e by (simp add: chunks_of_def)
  have e1: "(case om_get (ce_streams e1) n of None \<Rightarrow> [] | Some st \<Rightarrow> ss_chunks st) = chunks_of s c n" for n
    using ch e by (cases "n = no") (simp_all add: chunks_of_def)
  show "chunks_of (put_call s (slot_of c) e1) = chunks_of s"
    using chunks_put_call [OF e corr(1)] e1 by (auto simp: fun_eq_iff)
  show "call_at (put_call s (slot_of c) e1) c = Some e1" using call_at_put_call [OF e corr(1)] by simp
  have "(case om_get (ce_streams (mark_used sd (put_stream e1 no st'))) n of None \<Rightarrow> [] | Some st \<Rightarrow> ss_chunks st) =
      (if n = no then ss_chunks st' else chunks_of s c n)" for n
    using e1 [of n] by (simp add: mark_used_def put_stream_def)
  then show "chunks_of (put_call s (slot_of c) (mark_used sd (put_stream e1 no st'))) =
       (\<lambda>d n. if d = c \<and> n = no then ss_chunks st' else chunks_of s d n)"
    using chunks_put_call [OF e corr(2)] by (auto simp: fun_eq_iff)
qed


definition window_full :: "bytes list \<Rightarrow> bool" where
  "window_full chs \<longleftrightarrow> length (filter (\<lambda>chunk. chunk \<noteq> []) chs) \<ge> STREAM_WINDOW"

lemma push_queue:
  assumes e: "call_at s c = Some e"
  shows "\<exists>r s' wake'. store_push s (slot_of c) sd no chunk wake = Some (r, s', wake') \<and>
    (case r of
       Inl _ \<Rightarrow> chunks_of s' = chunks_of s
     | Inr n \<Rightarrow>
         if chunk \<noteq> [] \<and> window_full (chunks_of s c no) then n = 0 \<and> chunks_of s' = chunks_of s
         else n = length chunk \<and> chunks_of s' = (\<lambda>d m. if d = c \<and> m = no then chunks_of s c no @ [chunk] else chunks_of s d m))"
proof -
  note get = call_at_get [OF e]
  obtain st e1 where st: "entry_stream e no = (st, e1)" by fastforce
  note named = chunks_named [OF e st]
  let ?s1 = "put_call s (slot_of c) e1"
  show ?thesis
  proof (cases "producer no \<noteq> sd \<or> (sd = Side_Provider \<and> ce_forgotten e)")
    case True
    then show ?thesis using get by (auto simp: store_push_def)
  next
    case False
    have full: "stream_full st \<longleftrightarrow> window_full (chunks_of s c no)" by (simp add: stream_full_def window_full_def named(2))
    consider (closed) err where "stream_closed st sd = Some err"
      | (large) cap where "stream_closed st sd = None"
          "store_admit ?s1 (ce_iface e, ce_ord e) (call_kind_kind (ce_kind e)) (length chunk) = Inl cap"
      | (fits) u where "stream_closed st sd = None"
          "store_admit ?s1 (ce_iface e, ce_ord e) (call_kind_kind (ce_kind e)) (length chunk) = Inr u"
      by (cases "stream_closed st sd"; cases "store_admit ?s1 (ce_iface e, ce_ord e) (call_kind_kind (ce_kind e)) (length chunk)") auto
    then show ?thesis
    proof cases
      case fits
      let ?st = "st\<lparr>ss_chunks := ss_chunks st @ [chunk]\<rparr>"
      let ?s2 = "put_call s (slot_of c) (mark_used sd (put_stream e1 no ?st))"
      obtain w s3 where w: "take_stream_waker ?s2 (slot_of c) no (side_other sd) = (w, s3)" by fastforce
      have corr: "ce_correlation (mark_used sd (put_stream e1 no ?st)) = c"
        using entry_stream_alike [OF st] get by (auto simp: alike_def kin_def mark_used_def put_stream_def)
      have s3: "chunks_of s3 = chunks_of ?s2"
        by (rule take_stream_waker_chunks [OF _ w]) (simp add: call_at_put_call [OF e corr])
      have run: "store_push s (slot_of c) sd no chunk wake =
          (if chunk \<noteq> [] \<and> window_full (chunks_of s c no) then Some (Inr 0, ?s1, wake)
           else Some (Inr (length chunk), s3, wake @ opt_list w))"
        using False get st fits full w by (cases chunk) (simp_all add: store_push_def Let_def)
      show ?thesis
        using s3 named(1,2,4) unfolding run
        by (cases "chunk \<noteq> [] \<and> window_full (chunks_of s c no)") (auto simp: fun_eq_iff)
    qed (use False get st named(1) in \<open>auto simp: store_push_def\<close>)
  qed
qed

lemma pull_queue:
  assumes inv: "store_inv s" and e: "call_at s c = Some e"
  shows "\<exists>r out' s' wake'. store_pull s (slot_of c) sd no out wake = Some (r, out', s', wake') \<and>
    (producer no = sd \<and> r = Inl (Read_Contract UnknownInteraction) \<and> chunks_of s' = chunks_of s \<or>
     producer no \<noteq> sd \<and>
     (case chunks_of s c no of
        [] \<Rightarrow> r = Inr Pull_Pending \<and> chunks_of s' = chunks_of s \<or> r = Inr Pull_End \<or> (\<exists>err. r = Inr (Pull_Failed err))
      | chunk # rest \<Rightarrow>
          if length out < length chunk then r = Inl (Read_Short (length chunk)) \<and> chunks_of s' = chunks_of s
          else r = Inr (Pull_Chunk (length chunk)) \<and> out' = put_at out 0 chunk \<and>
            chunks_of s' = (\<lambda>d m. if d = c \<and> m = no then rest else chunks_of s d m)))"
proof (cases "producer no = sd")
  case True
  then show ?thesis by (simp add: store_pull_def)
next
  case False
  note get = call_at_get [OF e]
  obtain st e1 where st: "entry_stream e no = (st, e1)" by fastforce
  note named = chunks_named [OF e st]
  show ?thesis
  proof (cases "ss_chunks st")
    case Nil
    obtain r out' s' wake' where run: "store_pull s (slot_of c) sd no out wake = Some (r, out', s', wake')"
      using store_pull_ok [OF inv e, of sd no out wake] by (auto simp: runs_def)
    have "r = Inr Pull_Pending \<and> chunks_of s' = chunks_of s \<or> r = Inr Pull_End \<or> (\<exists>err. r = Inr (Pull_Failed err))"
      using run False get st Nil named(1)
      by (auto simp: store_pull_def Option.bind_eq_Some_conv split: if_splits option.splits)
    then show ?thesis using run False Nil named(2) by simp
  next
    case (Cons chunk rest)
    let ?s2 = "put_call s (slot_of c) (mark_used sd (put_stream e1 no (st\<lparr>ss_chunks := rest\<rparr>)))"
    obtain w s3 where w: "take_stream_waker ?s2 (slot_of c) no (side_other sd) = (w, s3)" by fastforce
    have corr: "ce_correlation (mark_used sd (put_stream e1 no (st\<lparr>ss_chunks := rest\<rparr>))) = c"
      using entry_stream_alike [OF st] get by (auto simp: alike_def kin_def mark_used_def put_stream_def)
    have s3: "chunks_of s3 = chunks_of ?s2"
      by (rule take_stream_waker_chunks [OF _ w]) (simp add: call_at_put_call [OF e corr])
    show ?thesis
      using False get st Cons w s3 named by (auto simp: store_pull_def fun_eq_iff)
  qed
qed

text \<open>
  C7: A stream of a call is a queue of chunks with a window. For any call of a reachable runtime, a
  push either is refused with an error and changes no queue, or answers 0 and changes none because
  the chunk is not empty and four non-empty chunks are unread, or takes the whole chunk at the end
  of this stream's queue alone. A pull copies the first unread chunk and takes it off, or asks for a
  larger buffer and changes nothing; it reports pending, end or failure only when no chunk is unread.
\<close>

theorem stream_is_queue:
  assumes run: "rt_run runtime_new ops = Some (rt, ws)" "length ops < 2 ^ 64"
    and e: "call_at (rt_store rt) c = Some e"
  shows "(\<exists>r s' wake'. store_push (rt_store rt) (slot_of c) sd no chunk wake = Some (r, s', wake') \<and>
      (case r of
         Inl _ \<Rightarrow> chunks_of s' = chunks_of (rt_store rt)
       | Inr n \<Rightarrow>
           if chunk \<noteq> [] \<and> window_full (chunks_of (rt_store rt) c no) then n = 0 \<and> chunks_of s' = chunks_of (rt_store rt)
           else n = length chunk \<and>
             chunks_of s' = (\<lambda>d m. if d = c \<and> m = no then chunks_of (rt_store rt) c no @ [chunk] else chunks_of (rt_store rt) d m))) \<and>
    (\<exists>r out' s' wake'. store_pull (rt_store rt) (slot_of c) sd no out wake = Some (r, out', s', wake') \<and>
      (producer no = sd \<and> r = Inl (Read_Contract UnknownInteraction) \<and> chunks_of s' = chunks_of (rt_store rt) \<or>
       producer no \<noteq> sd \<and>
       (case chunks_of (rt_store rt) c no of
          [] \<Rightarrow> r = Inr Pull_Pending \<and> chunks_of s' = chunks_of (rt_store rt) \<or> r = Inr Pull_End \<or>
               (\<exists>err. r = Inr (Pull_Failed err))
        | chunk # rest \<Rightarrow>
            if length out < length chunk then r = Inl (Read_Short (length chunk)) \<and> chunks_of s' = chunks_of (rt_store rt)
            else r = Inr (Pull_Chunk (length chunk)) \<and> out' = put_at out 0 chunk \<and>
              chunks_of s' = (\<lambda>d m. if d = c \<and> m = no then rest else chunks_of (rt_store rt) d m))))"
  by (rule conjI [OF push_queue [OF e] pull_queue [OF reached_inv(1) [OF run] e]])


theorem stream_is_queue_witness:
  "\<exists>rt ws c e. rt_run runtime_new [Op_Caller, Op_Send 0 CK_Command 1 2 [] None] = Some (rt, ws) \<and>
     call_at (rt_store rt) c = Some e \<and>
     (\<exists>r s' wake'. store_push (rt_store rt) (slot_of c) Side_Caller 1 [5] [] = Some (r, s', wake') \<and>
       (case r of
          Inl _ \<Rightarrow> chunks_of s' = chunks_of (rt_store rt)
        | Inr n \<Rightarrow> window_full (chunks_of (rt_store rt) c 1) \<or> n = 1))"
proof -
  have "\<exists>rt ws. rt_run runtime_new [Op_Caller, Op_Send 0 CK_Command 1 2 [] None] = Some (rt, ws) \<and>
      (\<exists>e. call_at (rt_store rt) 0 = Some e)"
    by (simp add: run_defs call_at_def replicate_numeral)
  then obtain rt ws e where run: "rt_run runtime_new [Op_Caller, Op_Send 0 CK_Command 1 2 [] None] = Some (rt, ws)"
    and e: "call_at (rt_store rt) 0 = Some e" by blast
  have "length [Op_Caller, Op_Send 0 CK_Command 1 2 [] None] < 2 ^ 64" by simp
  from conjunct1 [OF stream_is_queue [OF run this e, of Side_Caller 1 "[5]" "[]"]]
  obtain r s' wake' where push: "store_push (rt_store rt) (slot_of 0) Side_Caller 1 [5] [] = Some (r, s', wake')"
    and r: "case r of
         Inl _ \<Rightarrow> chunks_of s' = chunks_of (rt_store rt)
       | Inr n \<Rightarrow>
           if [5 :: u8] \<noteq> [] \<and> window_full (chunks_of (rt_store rt) 0 1) then n = 0 \<and> chunks_of s' = chunks_of (rt_store rt)
           else n = length [5 :: u8] \<and>
             chunks_of s' = (\<lambda>d m. if d = 0 \<and> m = 1 then chunks_of (rt_store rt) 0 1 @ [[5]] else chunks_of (rt_store rt) d m)"
    by (elim exE conjE)
  have "case r of
          Inl _ \<Rightarrow> chunks_of s' = chunks_of (rt_store rt)
        | Inr n \<Rightarrow> window_full (chunks_of (rt_store rt) 0 1) \<or> n = 1"
    using r by (cases r) (auto split: if_splits)
  with push show ?thesis
    by (intro exI [of _ rt] exI [of _ ws] exI [of _ 0] exI [of _ e] exI [of _ r] exI [of _ s'] exI [of _ wake'] conjI run e)
qed

end
