(* ===== verification/Ws_Upload.thy ===== *)
theory Ws_Upload
  imports Ws_Frame Lb_Queues
begin

text \<open>
  One parameter stream a client sends to a session of the WebSocket server
  (\<open>crates/ridl-transport-ws/src/server/upload.rs\<close>): the frames received, the queue of chunks that
  wait for the backend, the credit the client has left, and the drain of the queue into the
  backend's \<open>StreamCaller\<close>. The backend is any runtime behind the port trait, so \<open>push\<close> and \<open>end\<close>
  are arguments of \<open>upload_drain\<close>; the locale \<open>stream_sink\<close> states what the trait promises of them,
  and the in-process runtime interprets it. \<open>None\<close> is a panic: of the backend, or of an addition
  that leaves its \<open>u32\<close>.
\<close>

section \<open>Model\<close>

type_synonym instant = nat

datatype upload_state = Upload_Open | Upload_Ended | Upload_Stopped

record upload =
  up_no :: stream_no
  up_seq_in :: u64
  up_credit :: u32
  up_queue :: "bytes list"
  up_end_received :: bool
  up_state :: upload_state
  up_last_activity :: instant

datatype receive = Receive_Queued | Receive_Gap | Receive_CreditExceeded | Receive_Dropped

datatype drain_end = Drain_Ended | Drain_Refused call_error | Drain_Detached

record drain_answer =
  dr_taken :: u32
  dr_end :: "drain_end option"

definition inc_u32 :: "u32 \<Rightarrow> u32 option" where
  "inc_u32 n = (if unat n + 1 < 2 ^ 32 then Some (n + 1) else None)"

definition upload_new :: "stream_no \<Rightarrow> instant \<Rightarrow> upload" where
  "upload_new no now =
     \<lparr>up_no = no, up_seq_in = 0, up_credit = INITIAL_CREDIT, up_queue = [], up_end_received = False,
      up_state = Upload_Open, up_last_activity = now\<rparr>"

definition upload_receive_chunk :: "upload \<Rightarrow> u64 \<Rightarrow> bytes \<Rightarrow> instant \<Rightarrow> receive \<times> upload" where
  "upload_receive_chunk u sq payload now =
     (if up_state u \<noteq> Upload_Open \<or> up_end_received u then (Receive_Dropped, u)
      else if up_credit u = 0 then (Receive_CreditExceeded, u)
      else if inc_u64 (up_seq_in u) \<noteq> Some sq then (Receive_Gap, u)
      else (Receive_Queued, u\<lparr>up_seq_in := sq, up_credit := up_credit u - 1, up_queue := up_queue u @ [payload],
              up_last_activity := now\<rparr>))"

definition upload_receive_end :: "upload \<Rightarrow> u64 \<Rightarrow> instant \<Rightarrow> receive \<times> upload" where
  "upload_receive_end u sq now =
     (if up_state u \<noteq> Upload_Open \<or> up_end_received u then (Receive_Dropped, u)
      else if inc_u64 (up_seq_in u) \<noteq> Some sq then (Receive_Gap, u)
      else (Receive_Queued, u\<lparr>up_seq_in := sq, up_end_received := True, up_last_activity := now\<rparr>))"

fun refusal :: "push_error \<Rightarrow> drain_end" where
  "refusal (Push_Failed err) = Drain_Refused err"
| "refusal (Push_Contract c) = Drain_Refused (CallContract c)"
| "refusal (Push_TooLarge _) = Drain_Refused (CallTransport Corrupt)"
| "refusal Push_Ended = Drain_Refused (CallTransport Interrupted)"
| "refusal Push_Detached = Drain_Detached"

definition upload_failed :: "upload \<Rightarrow> push_error \<Rightarrow> drain_end \<times> upload" where
  "upload_failed u err = (refusal err, u\<lparr>up_state := Upload_Stopped, up_queue := []\<rparr>)"

type_synonym 's port_push = "'s \<Rightarrow> correlation \<Rightarrow> stream_no \<Rightarrow> bytes \<Rightarrow> ((push_error + nat) \<times> 's) option"
type_synonym 's port_end = "'s \<Rightarrow> correlation \<Rightarrow> stream_no \<Rightarrow> ((push_error + unit) \<times> 's) option"

text \<open>
  The \<open>while let Some(chunk) = self.queue.front()\<close> loop; the last argument is the queue it still
  has to offer. The result carries the end of a refused push, at which \<open>drain\<close> returns.
\<close>

fun drain_loop ::
    "'s port_push \<Rightarrow> 's \<Rightarrow> correlation \<Rightarrow> instant \<Rightarrow> upload \<Rightarrow> u32 \<Rightarrow> bytes list \<Rightarrow>
     (u32 \<times> drain_end option \<times> upload \<times> 's) option" where
  "drain_loop push p c now u taken [] = Some (taken, None, u, p)"
| "drain_loop push p c now u taken (chunk # rest) =
     do {
       (r, p1) \<leftarrow> push p c (up_no u) chunk;
       (case r of
          Inr n \<Rightarrow>
            if n = 0 \<and> chunk \<noteq> [] then Some (taken, None, u, p1)
            else do {
              taken1 \<leftarrow> inc_u32 taken;
              credit1 \<leftarrow> inc_u32 (up_credit u);
              drain_loop push p1 c now (u\<lparr>up_queue := rest, up_credit := credit1, up_last_activity := now\<rparr>) taken1 rest
            }
        | Inl err \<Rightarrow> let (d, u1) = upload_failed u err in Some (taken, Some d, u1, p1))
     }"

definition upload_drain ::
    "'s port_push \<Rightarrow> 's port_end \<Rightarrow> upload \<Rightarrow> correlation \<Rightarrow> 's \<Rightarrow> instant \<Rightarrow> (drain_answer \<times> upload \<times> 's) option" where
  "upload_drain push fin u c p now =
     (if up_state u \<noteq> Upload_Open then Some (\<lparr>dr_taken = 0, dr_end = None\<rparr>, u, p)
      else do {
        (taken, stop, u1, p1) \<leftarrow> drain_loop push p c now u 0 (up_queue u);
        (case stop of
           Some d \<Rightarrow> Some (\<lparr>dr_taken = taken, dr_end = Some d\<rparr>, u1, p1)
         | None \<Rightarrow>
             if up_end_received u1 \<and> up_queue u1 = [] then do {
               (r, p2) \<leftarrow> fin p1 c (up_no u1);
               (case r of
                  Inr _ \<Rightarrow> Some (\<lparr>dr_taken = taken, dr_end = Some Drain_Ended\<rparr>, u1\<lparr>up_state := Upload_Ended\<rparr>, p2)
                | Inl err \<Rightarrow> let (d, u2) = upload_failed u1 err in
                    Some (\<lparr>dr_taken = taken, dr_end = Some d\<rparr>, u2, p2))
             }
             else Some (\<lparr>dr_taken = taken, dr_end = None\<rparr>, u1, p1))
      })"

section \<open>Credit\<close>

text \<open>The chunks the client may still send and the chunks that wait are the initial credit.\<close>

definition upload_wf :: "upload \<Rightarrow> bool" where
  "upload_wf u \<longleftrightarrow>
     unat (up_credit u) \<le> unat INITIAL_CREDIT \<and>
     (if up_state u = Upload_Open then unat (up_credit u) + length (up_queue u) = unat INITIAL_CREDIT
      else up_queue u = [])"

lemma inc_u32_small: "unat n + 1 < 2 ^ 32 \<Longrightarrow> \<exists>m. inc_u32 n = Some m \<and> unat m = unat n + 1"
  by (auto simp: inc_u32_def unat_word_ariths)

lemma upload_new_wf [simp]: "upload_wf (upload_new no now)"
  by (simp add: upload_wf_def upload_new_def)

lemma up_no_new [simp]: "up_no (upload_new no now) = no"
  by (simp add: upload_new_def)

lemma unat_pred_u32: "n \<noteq> 0 \<Longrightarrow> unat (n - 1 :: u32) = unat n - 1"
  by (rule unat_minus_one)

lemma upload_receive_wf:
  assumes "upload_wf u"
  shows "upload_wf (snd (upload_receive_chunk u sq payload now))" "upload_wf (snd (upload_receive_end u sq now))"
proof -
  have "unat (up_credit u) \<noteq> 0" if "up_credit u \<noteq> 0" using that by (simp add: unat_eq_0)
  then show "upload_wf (snd (upload_receive_chunk u sq payload now))"
    using assms by (auto simp: upload_receive_chunk_def upload_wf_def unat_pred_u32)
  show "upload_wf (snd (upload_receive_end u sq now))"
    using assms by (auto simp: upload_receive_end_def upload_wf_def)
qed

section \<open>The life of a stream\<close>

text \<open>
  The calls a session makes on one upload, with the payloads that \<open>receive_chunk\<close> answered
  \<open>Queued\<close> for, in order.
\<close>

datatype upload_op = Up_Chunk u64 bytes instant | Up_End u64 instant | Up_Drain instant

fun upload_step ::
    "'s port_push \<Rightarrow> 's port_end \<Rightarrow> correlation \<Rightarrow> upload \<times> 's \<times> bytes list \<Rightarrow> upload_op \<Rightarrow> (upload \<times> 's \<times> bytes list) option" where
  "upload_step push fin c (u, p, acc) (Up_Chunk sq payload now) =
     (let (r, u1) = upload_receive_chunk u sq payload now in
      Some (u1, p, if r = Receive_Queued then acc @ [payload] else acc))"
| "upload_step push fin c (u, p, acc) (Up_End sq now) = Some (snd (upload_receive_end u sq now), p, acc)"
| "upload_step push fin c (u, p, acc) (Up_Drain now) = map_option (\<lambda>(_, u1, p1). (u1, p1, acc)) (upload_drain push fin u c p now)"

fun upload_run ::
    "'s port_push \<Rightarrow> 's port_end \<Rightarrow> correlation \<Rightarrow> upload \<times> 's \<times> bytes list \<Rightarrow> upload_op list \<Rightarrow> (upload \<times> 's \<times> bytes list) option" where
  "upload_run push fin c st [] = Some st"
| "upload_run push fin c st (x # xs) = do { st1 \<leftarrow> upload_step push fin c st x; upload_run push fin c st1 xs }"

text \<open>
  The stream so far: \<open>acc\<close> has been accepted under the numbers from one, the backend has its first
  \<open>k\<close> chunks, and the rest waits in the queue while the stream is open.
\<close>

definition stream_so_far :: "upload \<Rightarrow> bytes list \<Rightarrow> nat \<Rightarrow> bool" where
  "stream_so_far u acc k \<longleftrightarrow>
     upload_wf u \<and> k \<le> length acc \<and>
     unat (up_seq_in u) = length acc + (if up_end_received u then 1 else 0) \<and>
     (up_state u = Upload_Open \<longrightarrow> up_queue u = drop k acc) \<and>
     (up_state u = Upload_Ended \<longrightarrow> up_end_received u \<and> k = length acc)"

lemma receive_chunk_so_far:
  assumes "stream_so_far u acc k" "upload_receive_chunk u sq payload now = (r, u')"
  shows "stream_so_far u' (if r = Receive_Queued then acc @ [payload] else acc) k"
  using assms upload_receive_wf(1) [of u sq payload now]
  by (auto simp: stream_so_far_def upload_receive_chunk_def dest!: inc_u64_SomeD split: if_splits)

lemma receive_end_so_far:
  assumes "stream_so_far u acc k"
  shows "stream_so_far (snd (upload_receive_end u sq now)) acc k"
  using assms upload_receive_wf(2) [of u sq now]
  by (auto simp: stream_so_far_def upload_receive_end_def dest!: inc_u64_SomeD split: if_splits)

section \<open>A backend that keeps its streams\<close>

text \<open>
  What the \<open>StreamCaller\<close> trait promises a producer: a port call returns, a chunk is taken whole at
  the end of its stream or not at all, a non-empty chunk that is not taken answers zero, and an end
  changes no chunk.
\<close>

locale stream_sink =
  fixes push :: "'s port_push" and fin :: "'s port_end"
    and sane :: "'s \<Rightarrow> bool" and chunks :: "'s \<Rightarrow> correlation \<Rightarrow> stream_no \<Rightarrow> bytes list"
  assumes push_law: "sane p \<Longrightarrow> \<exists>r p'. push p c no chunk = Some (r, p') \<and> sane p' \<and>
      (case r of
         Inl _ \<Rightarrow> chunks p' = chunks p
       | Inr n \<Rightarrow>
           if n = 0 \<and> chunk \<noteq> [] then chunks p' = chunks p
           else n = length chunk \<and> chunks p' = (\<lambda>d m. if d = c \<and> m = no then chunks p c no @ [chunk] else chunks p d m))"
    and end_law: "sane p \<Longrightarrow> \<exists>r p'. fin p c no = Some (r, p') \<and> sane p' \<and> chunks p' = chunks p"
begin

lemma loop_delivers:
  assumes "sane p" "upload_wf u" "up_state u = Upload_Open" "up_queue u = q" "unat taken + length q < 2 ^ 32"
  shows "\<exists>k taken' stop u' p'. drain_loop push p c now u taken q = Some (taken', stop, u', p') \<and> sane p' \<and>
    k \<le> length q \<and> unat taken' = unat taken + k \<and> upload_wf u' \<and>
    (up_no u', up_seq_in u', up_end_received u') = (up_no u, up_seq_in u, up_end_received u) \<and>
    chunks p' = (\<lambda>d m. if d = c \<and> m = up_no u then chunks p c (up_no u) @ take k q else chunks p d m) \<and>
    (case stop of
       None \<Rightarrow> up_state u' = Upload_Open \<and> up_queue u' = drop k q
     | Some d \<Rightarrow> up_state u' = Upload_Stopped \<and> d \<noteq> Drain_Ended)"
  using assms
proof (induction q arbitrary: p u taken)
  case Nil
  then show ?case by - (rule exI [of _ 0], auto simp: fun_eq_iff)
next
  case (Cons chunk rest)
  obtain r p1 where push: "push p c (up_no u) chunk = Some (r, p1)" "sane p1"
    and r: "case r of
         Inl _ \<Rightarrow> chunks p1 = chunks p
       | Inr n \<Rightarrow>
           if n = 0 \<and> chunk \<noteq> [] then chunks p1 = chunks p
           else n = length chunk \<and> chunks p1 = (\<lambda>d m. if d = c \<and> m = up_no u then chunks p c (up_no u) @ [chunk] else chunks p d m)"
    using push_law [OF Cons.prems(1)] by blast
  consider (refused) err where "r = Inl err" | (full) "r = Inr 0" "chunk \<noteq> []"
    | (taken) n where "r = Inr n" "\<not> (n = 0 \<and> chunk \<noteq> [])" by (cases r) auto
  then show ?case
  proof cases
    case refused
    have "refusal err \<noteq> Drain_Ended" by (cases err) simp_all
    then show ?thesis using refused push r Cons.prems
      by - (rule exI [of _ 0], auto simp: upload_failed_def upload_wf_def fun_eq_iff)
  next
    case full
    then show ?thesis using push r Cons.prems by - (rule exI [of _ 0], auto simp: fun_eq_iff)
  next
    case taken
    have cr: "unat (up_credit u) + Suc (length rest) = 4" using Cons.prems by (simp add: upload_wf_def)
    obtain credit1 where credit1: "inc_u32 (up_credit u) = Some credit1" "unat credit1 = unat (up_credit u) + 1"
      using inc_u32_small [of "up_credit u"] cr by auto
    obtain taken1 where taken1: "inc_u32 taken = Some taken1" "unat taken1 = unat taken + 1"
      using inc_u32_small [of taken] Cons.prems by auto
    let ?u = "u\<lparr>up_queue := rest, up_credit := credit1, up_last_activity := now\<rparr>"
    have "upload_wf ?u" using Cons.prems cr credit1 by (auto simp: upload_wf_def)
    from Cons.IH [OF push(2) this, where taken = taken1] Cons.prems taken1
    obtain k taken' stop u' p' where ih: "drain_loop push p1 c now ?u taken1 rest = Some (taken', stop, u', p')" "sane p'"
      "k \<le> length rest" "unat taken' = unat taken1 + k" "upload_wf u'"
      "(up_no u', up_seq_in u', up_end_received u') = (up_no u, up_seq_in u, up_end_received u)"
      "chunks p' = (\<lambda>d m. if d = c \<and> m = up_no u then chunks p1 c (up_no u) @ take k rest else chunks p1 d m)"
      "case stop of
         None \<Rightarrow> up_state u' = Upload_Open \<and> up_queue u' = drop k rest
       | Some d \<Rightarrow> up_state u' = Upload_Stopped \<and> d \<noteq> Drain_Ended"
      by (auto cong: if_cong)
    have run: "drain_loop push p c now u taken (chunk # rest) = Some (taken', stop, u', p')"
      using taken push credit1 taken1 ih(1) by auto
    have ch: "chunks p1 = (\<lambda>d m. if d = c \<and> m = up_no u then chunks p c (up_no u) @ [chunk] else chunks p d m)"
      using r taken by (auto split: if_splits)
    show ?thesis
      by (rule exI [of _ "Suc k"], rule exI [of _ taken'], rule exI [of _ stop], rule exI [of _ u'], rule exI [of _ p'])
        (use run ih ch taken1 in \<open>auto simp: fun_eq_iff split: option.splits\<close>)
  qed
qed

lemma drain_delivers:
  assumes "sane p" "upload_wf u"
  shows "\<exists>k d u' p'. upload_drain push fin u c p now = Some (d, u', p') \<and> sane p' \<and> upload_wf u' \<and>
    k \<le> length (up_queue u) \<and> unat (dr_taken d) = k \<and>
    (up_no u', up_seq_in u', up_end_received u') = (up_no u, up_seq_in u, up_end_received u) \<and>
    chunks p' = (\<lambda>e m. if e = c \<and> m = up_no u then chunks p c (up_no u) @ take k (up_queue u) else chunks p e m) \<and>
    (case dr_end d of
       None \<Rightarrow> up_state u' = up_state u \<and> up_queue u' = drop k (up_queue u)
     | Some Drain_Ended \<Rightarrow> up_state u = Upload_Open \<and> up_state u' = Upload_Ended \<and> up_end_received u \<and> k = length (up_queue u)
     | Some _ \<Rightarrow> up_state u' = Upload_Stopped)"
proof (cases "up_state u = Upload_Open")
  case False
  then show ?thesis using assms by - (rule exI [of _ 0], auto simp: upload_drain_def fun_eq_iff)
next
  case True
  have "length (up_queue u) \<le> 4" using assms(2) True by (simp add: upload_wf_def)
  then obtain k taken stop u1 p1 where loop: "drain_loop push p c now u 0 (up_queue u) = Some (taken, stop, u1, p1)"
    and p1: "sane p1" "k \<le> length (up_queue u)" "unat taken = k" "upload_wf u1"
      "up_no u1 = up_no u" "up_seq_in u1 = up_seq_in u" "up_end_received u1 = up_end_received u"
      "chunks p1 = (\<lambda>d m. if d = c \<and> m = up_no u then chunks p c (up_no u) @ take k (up_queue u) else chunks p d m)"
      "case stop of None \<Rightarrow> up_state u1 = Upload_Open \<and> up_queue u1 = drop k (up_queue u)
       | Some d \<Rightarrow> up_state u1 = Upload_Stopped \<and> d \<noteq> Drain_Ended"
    using loop_delivers [OF assms True refl, of 0 c now] by auto
  show ?thesis
  proof (cases "stop = None \<and> up_end_received u1 \<and> up_queue u1 = []")
    case False
    let ?d = "\<lparr>dr_taken = taken, dr_end = stop\<rparr>"
    have "upload_drain push fin u c p now = Some (?d, u1, p1)"
      using False loop True by (auto simp: upload_drain_def split: option.splits)
    then show ?thesis using p1 True
      by (intro exI [of _ k] exI [of _ ?d] exI [of _ u1] exI [of _ p1]) (auto split: option.splits drain_end.splits)
  next
    case ended: True
    obtain r p2 where fin: "fin p1 c (up_no u1) = Some (r, p2)" "sane p2" "chunks p2 = chunks p1"
      using end_law [OF p1(1)] by blast
    have k: "k = length (up_queue u)" using ended p1 by auto
    show ?thesis
    proof (cases r)
      case (Inr x)
      let ?d = "\<lparr>dr_taken = taken, dr_end = Some Drain_Ended\<rparr>"
      have "upload_drain push fin u c p now = Some (?d, u1\<lparr>up_state := Upload_Ended\<rparr>, p2)"
        using ended loop True fin Inr by (simp add: upload_drain_def)
      then show ?thesis using p1 ended fin k True
        by (intro exI [of _ k] exI [of _ ?d] exI [of _ "u1\<lparr>up_state := Upload_Ended\<rparr>"] exI [of _ p2]) (auto simp: upload_wf_def)
    next
      case (Inl err)
      let ?d = "\<lparr>dr_taken = taken, dr_end = Some (refusal err)\<rparr>"
      let ?u = "u1\<lparr>up_state := Upload_Stopped, up_queue := []\<rparr>"
      have "upload_drain push fin u c p now = Some (?d, ?u, p2)"
        using ended loop True fin Inl by (simp add: upload_drain_def upload_failed_def)
      moreover have "refusal err \<noteq> Drain_Ended" by (cases err) simp_all
      ultimately show ?thesis using p1 ended fin k
        by (intro exI [of _ k] exI [of _ ?d] exI [of _ ?u] exI [of _ p2]) (auto simp: upload_wf_def split: drain_end.splits)
    qed
  qed
qed

lemma step_so_far:
  assumes "sane p" "stream_so_far u acc k"
  shows "\<exists>u' p' acc' k'. upload_step push fin c (u, p, acc) x = Some (u', p', acc') \<and> sane p' \<and> up_no u' = up_no u \<and>
    stream_so_far u' acc' k' \<and> k \<le> k' \<and> take k acc' = take k acc \<and>
    chunks p' = (\<lambda>e m. if e = c \<and> m = up_no u then chunks p c (up_no u) @ drop k (take k' acc') else chunks p e m)"
proof (cases x)
  case (Up_Chunk sq payload now)
  obtain r u' where r: "upload_receive_chunk u sq payload now = (r, u')" by fastforce
  have "up_no u' = up_no u" using r by (auto simp: upload_receive_chunk_def split: if_splits)
  then show ?thesis using Up_Chunk r receive_chunk_so_far [OF assms(2) r] assms
    by (auto simp: fun_eq_iff stream_so_far_def split: if_splits intro!: exI [of _ k])
next
  case (Up_End sq now)
  have "up_no (snd (upload_receive_end u sq now)) = up_no u" by (simp add: upload_receive_end_def)
  then show ?thesis using Up_End receive_end_so_far [OF assms(2)] assms(1)
    by (auto simp: fun_eq_iff intro!: exI [of _ k])
next
  case (Up_Drain now)
  from assms(2) have wf: "upload_wf u" and len: "k \<le> length acc" by (simp_all add: stream_so_far_def)
  obtain j d u' p' where d: "upload_drain push fin u c p now = Some (d, u', p')" "sane p'" "upload_wf u'"
    "j \<le> length (up_queue u)" "up_no u' = up_no u" "up_seq_in u' = up_seq_in u" "up_end_received u' = up_end_received u"
    "chunks p' = (\<lambda>e m. if e = c \<and> m = up_no u then chunks p c (up_no u) @ take j (up_queue u) else chunks p e m)"
    "case dr_end d of
       None \<Rightarrow> up_state u' = up_state u \<and> up_queue u' = drop j (up_queue u)
     | Some Drain_Ended \<Rightarrow> up_state u = Upload_Open \<and> up_state u' = Upload_Ended \<and> up_end_received u \<and> j = length (up_queue u)
     | Some _ \<Rightarrow> up_state u' = Upload_Stopped"
    using drain_delivers [OF assms(1) wf, of c now] by auto
  have q: "up_queue u = (if up_state u = Upload_Open then drop k acc else [])"
    using assms(2) wf by (auto simp: stream_so_far_def upload_wf_def)
  have "stream_so_far u' acc (k + j)"
    using assms(2) d q len by (auto simp: stream_so_far_def add.commute split: option.splits drain_end.splits if_splits)
  moreover have "take j (up_queue u) = drop k (take (k + j) acc)"
    using d(4) q by (auto simp: drop_take)
  ultimately show ?thesis using Up_Drain d
    by (auto simp: fun_eq_iff intro!: exI [of _ "k + j"])
qed

lemma run_so_far:
  assumes "sane p" "stream_so_far u acc k"
  shows "\<exists>u' p' acc' k'. upload_run push fin c (u, p, acc) xs = Some (u', p', acc') \<and> sane p' \<and> up_no u' = up_no u \<and>
    stream_so_far u' acc' k' \<and> k \<le> k' \<and> take k acc' = take k acc \<and>
    chunks p' = (\<lambda>e m. if e = c \<and> m = up_no u then chunks p c (up_no u) @ drop k (take k' acc') else chunks p e m)"
  using assms
proof (induction xs arbitrary: u p acc k)
  case Nil
  then show ?case by (auto simp: fun_eq_iff intro!: exI [of _ k])
next
  case (Cons x xs)
  obtain u1 p1 acc1 k1 where s: "upload_step push fin c (u, p, acc) x = Some (u1, p1, acc1)" "sane p1" "up_no u1 = up_no u"
    "stream_so_far u1 acc1 k1" "k \<le> k1" "take k acc1 = take k acc"
    "chunks p1 = (\<lambda>e m. if e = c \<and> m = up_no u then chunks p c (up_no u) @ drop k (take k1 acc1) else chunks p e m)"
    using step_so_far [OF Cons.prems] by blast
  obtain u' p' acc' k' where r: "upload_run push fin c (u1, p1, acc1) xs = Some (u', p', acc')" "sane p'" "up_no u' = up_no u1"
    "stream_so_far u' acc' k'" "k1 \<le> k'" "take k1 acc' = take k1 acc1"
    "chunks p' = (\<lambda>e m. if e = c \<and> m = up_no u1 then chunks p1 c (up_no u1) @ drop k1 (take k' acc') else chunks p1 e m)"
    using Cons.IH [OF s(2,4)] by blast
  have cut: "drop k (take k1 acc1) @ drop k1 (take k' acc') = drop k (take k' acc')"
  proof -
    have "take k' acc' = take k1 acc1 @ drop k1 (take k' acc')"
      using append_take_drop_id [of k1 "take k' acc'"] r(5,6) by (simp add: min_absorb1)
    moreover have "k \<le> length (take k1 acc1)" using s(4,5) by (simp add: stream_so_far_def)
    ultimately show ?thesis by (metis diff_is_0_eq drop_0 drop_append)
  qed
  have "take k acc' = take k acc"
    using r(6) s(5,6) by (metis min_absorb1 take_take)
  then show ?case using s r cut
    by (auto simp: fun_eq_iff intro!: exI [of _ k'])
qed

end

section \<open>The in-process runtime as the backend\<close>

text \<open>The handle wakes the wakers its store returned, and the port call answers the rest.\<close>

definition lb_port_push :: "store port_push" where
  "lb_port_push s c no chunk = map_option (\<lambda>(r, s', _). (r, s')) (caller_push s c no chunk)"

definition lb_port_end :: "store port_end" where
  "lb_port_end s c no = map_option (\<lambda>(r, s', _). (r, s')) (caller_end s c no)"

lemma end_queue:
  assumes e: "call_at s c = Some e" and r: "store_end s (slot_of c) sd no wake = Some (r, s', wake')"
  shows "chunks_of s' = chunks_of s"
proof -
  note get = call_at_get [OF e]
  obtain st e1 where st: "entry_stream e no = (st, e1)" by fastforce
  note named = chunks_named [OF e st]
  let ?e2 = "put_stream e1 no (st\<lparr>ss_ended := True\<rparr>)"
  have corr: "ce_correlation ?e2 = c"
    using entry_stream_alike [OF st] get by (auto simp: alike_def kin_def put_stream_def)
  have e2: "chunks_of (put_call s (slot_of c) ?e2) = chunks_of s"
    using chunks_put_call [OF e corr] entry_stream_chunks [OF st] e named(2)
    by (auto simp: fun_eq_iff put_stream_def chunks_of_def)
  obtain w s3 where w: "take_stream_waker (put_call s (slot_of c) ?e2) (slot_of c) no (side_other sd) = (w, s3)" by fastforce
  have "chunks_of s3 = chunks_of (put_call s (slot_of c) ?e2)"
    by (rule take_stream_waker_chunks [OF _ w]) (simp add: call_at_put_call [OF e corr])
  then show ?thesis
    using r get st w e2 named(1) by (auto simp: store_end_def Let_def split: if_splits option.splits)
qed

lemma lb_push_law:
  assumes inv: "store_inv s"
  shows "\<exists>r s'. lb_port_push s c no chunk = Some (r, s') \<and> store_inv s' \<and>
    (case r of
       Inl _ \<Rightarrow> chunks_of s' = chunks_of s
     | Inr n \<Rightarrow>
         if n = 0 \<and> chunk \<noteq> [] then chunks_of s' = chunks_of s
         else n = length chunk \<and> chunks_of s' = (\<lambda>d m. if d = c \<and> m = no then chunks_of s c no @ [chunk] else chunks_of s d m))"
proof (cases "caller_slot s c")
  case None
  then show ?thesis using inv by (simp add: lb_port_push_def caller_push_def)
next
  case (Some slot)
  obtain e where e: "call_at s c = Some e" "slot = slot_of c" using caller_slotD [OF Some] by blast
  obtain r s' wake' where push: "store_push s (slot_of c) Side_Caller no chunk [] = Some (r, s', wake')"
    and r: "case r of
       Inl _ \<Rightarrow> chunks_of s' = chunks_of s
     | Inr n \<Rightarrow>
         if chunk \<noteq> [] \<and> window_full (chunks_of s c no) then n = 0 \<and> chunks_of s' = chunks_of s
         else n = length chunk \<and> chunks_of s' = (\<lambda>d m. if d = c \<and> m = no then chunks_of s c no @ [chunk] else chunks_of s d m)"
    using push_queue [OF e(1)] by blast
  have "store_inv s'" using store_push_ok [OF inv e(1), of Side_Caller no chunk "[]"] push by (simp add: runs_def)
  then show ?thesis
    using push r Some e(2) by (auto simp: lb_port_push_def caller_push_def split: sum.splits if_splits)
qed

lemma lb_end_law:
  assumes inv: "store_inv s"
  shows "\<exists>r s'. lb_port_end s c no = Some (r, s') \<and> store_inv s' \<and> chunks_of s' = chunks_of s"
proof (cases "caller_slot s c")
  case None
  then show ?thesis using inv by (simp add: lb_port_end_def caller_end_def)
next
  case (Some slot)
  obtain e where e: "call_at s c = Some e" "slot = slot_of c" using caller_slotD [OF Some] by blast
  obtain r s' wake' where fin: "store_end s (slot_of c) Side_Caller no [] = Some (r, s', wake')" "store_inv s'"
    using store_end_ok [OF inv e(1), of Side_Caller no "[]"] by (auto simp: runs_def)
  then show ?thesis
    using end_queue [OF e(1) fin(1)] Some e(2) by (simp add: lb_port_end_def caller_end_def)
qed

interpretation lb_sink: stream_sink lb_port_push lb_port_end store_inv chunks_of
  by unfold_locales (rule lb_push_law, assumption, rule lb_end_law)

lemma upload_new_so_far: "stream_so_far (upload_new no now) [] 0"
  by (simp add: stream_so_far_def) (simp add: upload_new_def)

text \<open>
  C11: A parameter stream of a WebSocket session arrives at the in-process runtime whole and in order.
  Whatever frames a client sends on a new upload and whenever the session drains it into any
  reachable runtime, with no other operation of that runtime in between, nothing panics; the chunks
  the runtime's stream has gained are a prefix of the payloads accepted, no other stream changes, and while the upload is open the rest of them waits in
  its queue, which with the client's credit is always four; an upload that ended has delivered every
  chunk, and the frames accepted carried the numbers from one without a gap.
\<close>

theorem upload_delivered:
  assumes run: "rt_run runtime_new ops = Some (rt, ws)" "length ops < 2 ^ 64"
  shows "\<exists>u s' acc k. upload_run lb_port_push lb_port_end c (upload_new no now, rt_store rt, []) xs = Some (u, s', acc) \<and>
    k \<le> length acc \<and> unat (up_seq_in u) = length acc + (if up_end_received u then 1 else 0) \<and>
    chunks_of s' = (\<lambda>d m. if d = c \<and> m = no then chunks_of (rt_store rt) c no @ take k acc else chunks_of (rt_store rt) d m) \<and>
    (case up_state u of
       Upload_Open \<Rightarrow> up_queue u = drop k acc \<and> unat (up_credit u) + length (up_queue u) = 4
     | Upload_Ended \<Rightarrow> up_end_received u \<and> k = length acc \<and> up_queue u = []
     | Upload_Stopped \<Rightarrow> up_queue u = [])"
proof -
  obtain u s' acc k where "upload_run lb_port_push lb_port_end c (upload_new no now, rt_store rt, []) xs = Some (u, s', acc)"
    "stream_so_far u acc k"
    "chunks_of s' = (\<lambda>e m. if e = c \<and> m = no then chunks_of (rt_store rt) c no @ take k acc else chunks_of (rt_store rt) e m)"
    using lb_sink.run_so_far [OF reached_inv(1) [OF run] upload_new_so_far, of c no now xs] by (auto cong: if_cong)
  then show ?thesis
    by (intro exI [of _ u] exI [of _ s'] exI [of _ acc] exI [of _ k])
      (auto simp: stream_so_far_def upload_wf_def split: upload_state.splits)
qed

theorem upload_delivered_witness:
  "\<exists>rt ws u s' acc k. rt_run runtime_new [Op_Caller, Op_Send 0 CK_Command 1 2 [] None] = Some (rt, ws) \<and>
     upload_run lb_port_push lb_port_end 0 (upload_new 1 0, rt_store rt, []) [Up_Chunk 1 [5] 0, Up_Drain 0, Up_End 2 0, Up_Drain 0] =
       Some (u, s', acc) \<and> k \<le> length acc \<and> unat (up_seq_in u) = length acc + (if up_end_received u then 1 else 0)"
proof -
  have "\<exists>rt ws. rt_run runtime_new [Op_Caller, Op_Send 0 CK_Command 1 2 [] None] = Some (rt, ws)"
    by (simp add: run_defs replicate_numeral)
  then obtain rt ws where run: "rt_run runtime_new [Op_Caller, Op_Send 0 CK_Command 1 2 [] None] = Some (rt, ws)" by blast
  have "length [Op_Caller, Op_Send 0 CK_Command 1 2 [] None] < 2 ^ 64" by simp
  from upload_delivered [OF run this, of 0 1 0 "[Up_Chunk 1 [5] 0, Up_Drain 0, Up_End 2 0, Up_Drain 0]"] run
  show ?thesis by blast
qed

end
