(* ===== verification/Ws_Calls.thy ===== *)
theory Ws_Calls
  imports Ws_Upload Ordered_Map
begin

text \<open>
  The calls of one session of the WebSocket server
  (\<open>crates/ridl-transport-ws/src/server/calls.rs\<close>): the calls in flight and the responses kept
  for a repeated request. A \<open>Timestamp\<close> is ordered by its signed value, so the set \<open>by_until\<close>
  has the value of the instant in its keys. The assertion of a debug build that a number is settled
  once is not part of the model: a second settlement takes the branch of a release build. An
  addition or a subtraction that leaves \<open>usize\<close> is \<open>None\<close>.
\<close>

section \<open>Model\<close>

definition RETAINED :: nat where "RETAINED = 64"

record reply_stream =
  rp_seq_out :: u64
  rp_credit :: u32
  rp_last_activity :: instant
  rp_held :: "bytes option"

record in_flight =
  if_correlation :: correlation
  if_target :: target
  if_seq :: u64
  if_sent :: instant
  if_stamp :: timestamp
  if_receipt :: timestamp
  if_stream :: "reply_stream option"
  if_uploads :: "upload list"
  if_settled :: bool

datatype seen = Seen_New | Seen_InFlight | Seen_Settled bytes | Seen_Older

record kept =
  kp_bytes :: bytes
  kp_until :: "timestamp option"

record calls_state =
  cs_in_flight :: "in_flight list"
  cs_settled :: "(u64, kept) omap"
  cs_by_until :: "(int \<times> u64, unit) omap"
  cs_ring :: "u64 list"
  cs_bytes :: nat
  cs_highest :: u64

definition calls_default :: calls_state where
  "calls_default = \<lparr>cs_in_flight = [], cs_settled = [], cs_by_until = [], cs_ring = [], cs_bytes = 0, cs_highest = 0\<rparr>"

definition calls_seen :: "calls_state \<Rightarrow> u64 \<Rightarrow> seen" where
  "calls_seen cs sq =
     (if sq > cs_highest cs then Seen_New
      else if list_ex (\<lambda>call. if_seq call = sq) (cs_in_flight cs) then Seen_InFlight
      else (case om_get (cs_settled cs) sq of
              Some k \<Rightarrow> Seen_Settled (kp_bytes k)
            | None \<Rightarrow> Seen_Older))"

definition calls_accept :: "u64 \<Rightarrow> calls_state \<Rightarrow> calls_state" where
  "calls_accept sq cs = cs\<lparr>cs_highest := sq\<rparr>"

definition calls_track :: "in_flight \<Rightarrow> calls_state \<Rightarrow> calls_state" where
  "calls_track call cs = cs\<lparr>cs_in_flight := cs_in_flight cs @ [call]\<rparr>"

definition calls_by_seq :: "calls_state \<Rightarrow> u64 \<Rightarrow> in_flight option" where
  "calls_by_seq cs sq = find (\<lambda>call. if_seq call = sq) (cs_in_flight cs)"

definition calls_streamed :: "calls_state \<Rightarrow> u64 \<Rightarrow> in_flight option" where
  "calls_streamed cs sq = find (\<lambda>call. if_seq call = sq \<and> if_stream call \<noteq> None) (cs_in_flight cs)"

text \<open>A write through the reference that \<open>iter_mut().find\<close> returns.\<close>

fun change_first :: "('a \<Rightarrow> bool) \<Rightarrow> ('a \<Rightarrow> 'a) \<Rightarrow> 'a list \<Rightarrow> 'a list" where
  "change_first P f [] = []"
| "change_first P f (x # xs) = (if P x then f x # xs else x # change_first P f xs)"

definition calls_save :: "in_flight \<Rightarrow> calls_state \<Rightarrow> calls_state" where
  "calls_save call cs = cs\<lparr>cs_in_flight := change_first (\<lambda>x. if_seq x = if_seq call) (\<lambda>_. call) (cs_in_flight cs)\<rparr>"

definition calls_update :: "correlation \<Rightarrow> reply_stream \<Rightarrow> calls_state \<Rightarrow> calls_state" where
  "calls_update c stream cs =
     cs\<lparr>cs_in_flight := change_first (\<lambda>x. if_correlation x = c) (\<lambda>x. x\<lparr>if_stream := Some stream\<rparr>) (cs_in_flight cs)\<rparr>"

definition calls_remove :: "correlation \<Rightarrow> calls_state \<Rightarrow> calls_state" where
  "calls_remove c cs = cs\<lparr>cs_in_flight := filter (\<lambda>x. if_correlation x \<noteq> c) (cs_in_flight cs)\<rparr>"

definition calls_drain :: "calls_state \<Rightarrow> correlation list \<times> calls_state" where
  "calls_drain cs = (map if_correlation (cs_in_flight cs), cs\<lparr>cs_in_flight := []\<rparr>)"

definition checked_sub_usize :: "nat \<Rightarrow> nat \<Rightarrow> nat option" where
  "checked_sub_usize a b = (if b \<le> a then Some (a - b) else None)"

definition calls_unkeep :: "u64 \<Rightarrow> kept \<Rightarrow> calls_state \<Rightarrow> calls_state option" where
  "calls_unkeep sq old cs =
     do {
       n \<leftarrow> checked_sub_usize (cs_bytes cs) (length (kp_bytes old));
       Some (case kp_until old of
          Some until \<Rightarrow> cs\<lparr>cs_bytes := n, cs_by_until := om_del (sint until, sq) (cs_by_until cs)\<rparr>
        | None \<Rightarrow> cs\<lparr>cs_bytes := n, cs_ring := filter (\<lambda>s. s \<noteq> sq) (cs_ring cs)\<rparr>)
     }"

definition calls_forget :: "u64 \<Rightarrow> calls_state \<Rightarrow> calls_state option" where
  "calls_forget sq cs =
     (case om_get (cs_settled cs) sq of
        Some k \<Rightarrow> do {
          n \<leftarrow> checked_sub_usize (cs_bytes cs) (length (kp_bytes k));
          Some (cs\<lparr>cs_settled := om_del sq (cs_settled cs), cs_bytes := n\<rparr>)
        }
      | None \<Rightarrow> Some cs)"

definition calls_settle :: "u64 \<Rightarrow> bytes \<Rightarrow> timestamp option \<Rightarrow> calls_state \<Rightarrow> calls_state option" where
  "calls_settle sq response until cs =
     do {
       n \<leftarrow> checked_add_usize (cs_bytes cs) (length response);
       let replaced = om_get (cs_settled cs) sq;
       let cs1 = cs\<lparr>cs_bytes := n, cs_settled := om_put sq \<lparr>kp_bytes = response, kp_until = until\<rparr> (cs_settled cs)\<rparr>;
       cs2 \<leftarrow> (case replaced of Some old \<Rightarrow> calls_unkeep sq old cs1 | None \<Rightarrow> Some cs1);
       (case until of
          Some t \<Rightarrow> Some (cs2\<lparr>cs_by_until := om_put (sint t, sq) () (cs_by_until cs2)\<rparr>)
        | None \<Rightarrow>
            (let ring = cs_ring cs2 @ [sq] in
             if length ring > RETAINED
             then calls_forget (hd ring) (cs2\<lparr>cs_ring := tl ring\<rparr>)
             else Some (cs2\<lparr>cs_ring := ring\<rparr>)))
     }"

text \<open>The loop of \<open>expire\<close> over the entries of \<open>by_until\<close> in their order.\<close>

fun expire_loop :: "timestamp \<Rightarrow> (int \<times> u64, unit) omap \<Rightarrow> calls_state \<Rightarrow> calls_state option" where
  "expire_loop now [] cs = Some cs"
| "expire_loop now (((until, sq), _) # rest) cs =
     (if sint now \<le> until then Some cs
      else do {
        cs1 \<leftarrow> calls_forget sq (cs\<lparr>cs_by_until := rest\<rparr>);
        expire_loop now rest cs1
      })"

definition calls_expire :: "timestamp \<Rightarrow> calls_state \<Rightarrow> calls_state option" where
  "calls_expire now cs = expire_loop now (cs_by_until cs) cs"

definition calls_retained_bytes :: "calls_state \<Rightarrow> nat" where
  "calls_retained_bytes cs = cs_bytes cs"

section \<open>The responses kept\<close>

definition kept_bytes :: "(u64, kept) omap \<Rightarrow> nat" where
  "kept_bytes m = sum_list (map (\<lambda>p. length (kp_bytes (snd p))) m)"

text \<open>
  The two indexes name exactly the responses kept, each under its own bound, and the count is the
  sum of their lengths. \<open>R\<close> is the set of numbers whose index entry has been taken off and whose
  response is about to be forgotten.
\<close>

definition ledger :: "u64 set \<Rightarrow> calls_state \<Rightarrow> bool" where
  "ledger R cs \<longleftrightarrow>
     om_wf (cs_settled cs) \<and> om_wf (cs_by_until cs) \<and> distinct (cs_ring cs) \<and>
     (\<forall>t sq. (t, sq) \<in> fst ` set (cs_by_until cs) \<longleftrightarrow>
        sq \<notin> R \<and> (\<exists>k until. om_get (cs_settled cs) sq = Some k \<and> kp_until k = Some until \<and> sint until = t)) \<and>
     (\<forall>sq. sq \<in> set (cs_ring cs) \<longleftrightarrow> sq \<notin> R \<and> (\<exists>k. om_get (cs_settled cs) sq = Some k \<and> kp_until k = None)) \<and>
     cs_bytes cs = kept_bytes (cs_settled cs)"

lemma ledger_until:
  "ledger R cs \<Longrightarrow> (t, sq) \<in> fst ` set (cs_by_until cs) \<longleftrightarrow>
     sq \<notin> R \<and> (\<exists>k until. om_get (cs_settled cs) sq = Some k \<and> kp_until k = Some until \<and> sint until = t)"
  unfolding ledger_def by blast

lemma ledger_ring:
  "ledger R cs \<Longrightarrow> sq \<in> set (cs_ring cs) \<longleftrightarrow> sq \<notin> R \<and> (\<exists>k. om_get (cs_settled cs) sq = Some k \<and> kp_until k = None)"
  unfolding ledger_def by blast

lemma ledgerI:
  assumes "om_wf (cs_settled cs)" "om_wf (cs_by_until cs)" "distinct (cs_ring cs)" "cs_bytes cs = kept_bytes (cs_settled cs)"
    and "\<And>t sq. (t, sq) \<in> fst ` set (cs_by_until cs) \<longleftrightarrow>
        sq \<notin> R \<and> (\<exists>k until. om_get (cs_settled cs) sq = Some k \<and> kp_until k = Some until \<and> sint until = t)"
    and "\<And>sq. sq \<in> set (cs_ring cs) \<longleftrightarrow> sq \<notin> R \<and> (\<exists>k. om_get (cs_settled cs) sq = Some k \<and> kp_until k = None)"
  shows "ledger R cs"
  using assms unfolding ledger_def by blast

lemma kept_bytes_Nil [simp]: "kept_bytes [] = 0"
  by (simp add: kept_bytes_def)

lemma kept_bytes_put:
  "om_wf m \<Longrightarrow> kept_bytes (om_put k v m) + (case om_get m k of None \<Rightarrow> 0 | Some old \<Rightarrow> length (kp_bytes old)) =
     kept_bytes m + length (kp_bytes v)"
proof (induction m)
  case (Cons p m)
  have "map_of m k = None" if "\<not> fst p < k" "fst p \<noteq> k"
    using that Cons.prems by (cases "map_of m k") (auto simp: om_wf_def dest!: map_of_SomeD)
  with Cons show ?case
    by (cases p) (auto simp: kept_bytes_def om_wf_def om_get_def split: option.splits)
qed (simp add: kept_bytes_def)

lemma kept_bytes_del:
  "om_wf m \<Longrightarrow> om_get m k = Some v \<Longrightarrow> kept_bytes (om_del k m) + length (kp_bytes v) = kept_bytes m"
proof (induction m)
  case (Cons p m)
  have "om_del k m = m" if "fst p = k"
    using that Cons.prems by (auto simp: om_wf_def om_del_def filter_id_conv)
  with Cons show ?case
    by (cases p) (auto simp: kept_bytes_def om_wf_def om_get_def om_del_def)
qed simp

lemma forget_ledger:
  assumes "ledger {sq} cs"
  shows "\<exists>cs'. calls_forget sq cs = Some cs' \<and> ledger {} cs' \<and>
    cs_by_until cs' = cs_by_until cs \<and> cs_ring cs' = cs_ring cs \<and> cs_in_flight cs' = cs_in_flight cs \<and> cs_highest cs' = cs_highest cs \<and>
    om_get (cs_settled cs') = (om_get (cs_settled cs))(sq := None) \<and> cs_bytes cs' \<le> cs_bytes cs"
proof (cases "om_get (cs_settled cs) sq")
  case None
  then have "(om_get (cs_settled cs))(sq := None) = om_get (cs_settled cs)" by (simp add: fun_upd_idem)
  moreover have "ledger {} cs" using assms None by (auto simp: ledger_def)
  ultimately show ?thesis using None by (simp add: calls_forget_def)
next
  case (Some k)
  have cnt: "kept_bytes (om_del sq (cs_settled cs)) + length (kp_bytes k) = cs_bytes cs"
    using assms kept_bytes_del [of "cs_settled cs" sq k] Some by (simp add: ledger_def)
  then have sub: "checked_sub_usize (cs_bytes cs) (length (kp_bytes k)) = Some (kept_bytes (om_del sq (cs_settled cs)))"
    by (simp add: checked_sub_usize_def)
  let ?cs = "cs\<lparr>cs_settled := om_del sq (cs_settled cs), cs_bytes := kept_bytes (om_del sq (cs_settled cs))\<rparr>"
  have "ledger {} ?cs" using assms unfolding ledger_def by auto
  then show ?thesis using Some sub cnt by (auto simp: calls_forget_def)
qed

text \<open>The response replaced leaves its index and the count.\<close>

lemma replaced_ledger:
  assumes inv: "ledger {} cs" and n: "n = cs_bytes cs + length (kp_bytes k)"
  shows "\<exists>cs2. (case om_get (cs_settled cs) sq of
        Some old \<Rightarrow> calls_unkeep sq old (cs\<lparr>cs_bytes := n, cs_settled := om_put sq k (cs_settled cs)\<rparr>)
      | None \<Rightarrow> Some (cs\<lparr>cs_bytes := n, cs_settled := om_put sq k (cs_settled cs)\<rparr>)) = Some cs2 \<and>
    ledger {sq} cs2 \<and> cs_settled cs2 = om_put sq k (cs_settled cs) \<and> cs_ring cs2 = filter (\<lambda>s. s \<noteq> sq) (cs_ring cs) \<and>
    cs_in_flight cs2 = cs_in_flight cs \<and> cs_highest cs2 = cs_highest cs"
proof (cases "om_get (cs_settled cs) sq")
  case None
  then have "filter (\<lambda>s. s \<noteq> sq) (cs_ring cs) = cs_ring cs"
    using inv by (auto simp: ledger_def filter_id_conv)
  then show ?thesis
    using None inv kept_bytes_put [of "cs_settled cs" sq k] n by (auto simp: ledger_def)
next
  case (Some old)
  let ?m = "om_put sq k (cs_settled cs)"
  have cnt: "kept_bytes ?m + length (kp_bytes old) = n"
    using inv n Some kept_bytes_put [of "cs_settled cs" sq k] by (simp add: ledger_def)
  then have sub: "checked_sub_usize n (length (kp_bytes old)) = Some (kept_bytes ?m)"
    by (simp add: checked_sub_usize_def)
  show ?thesis
  proof (cases "kp_until old")
    case None
    then show ?thesis using Some sub inv by (auto simp: calls_unkeep_def ledger_def)
  next
    case (Some t)
    have ring: "filter (\<lambda>s. s \<noteq> sq) (cs_ring cs) = cs_ring cs"
      using inv \<open>om_get (cs_settled cs) sq = Some old\<close> Some by (auto simp: ledger_def filter_id_conv)
    let ?cs = "cs\<lparr>cs_settled := ?m, cs_bytes := kept_bytes ?m, cs_by_until := om_del (sint t, sq) (cs_by_until cs)\<rparr>"
    have "(u, q) \<in> fst ` set (om_del (sint t, sq) (cs_by_until cs)) \<longleftrightarrow>
        (u, q) \<in> fst ` set (cs_by_until cs) \<and> (u, q) \<noteq> (sint t, sq)" for u q
      by (auto simp: om_del_def)
    then have "ledger {sq} ?cs"
      using inv \<open>om_get (cs_settled cs) sq = Some old\<close> Some by (auto simp: ledger_def)
    then show ?thesis using ring sub Some \<open>om_get (cs_settled cs) sq = Some old\<close> by (simp add: calls_unkeep_def)
  qed
qed

lemma settle_ledger:
  assumes inv: "ledger {} cs" and ring: "length (cs_ring cs) \<le> RETAINED"
    and room: "cs_bytes cs + length response \<le> usize_max"
  shows "\<exists>cs'. calls_settle sq response until cs = Some cs' \<and> ledger {} cs' \<and> length (cs_ring cs') \<le> RETAINED \<and>
    cs_in_flight cs' = cs_in_flight cs \<and> cs_highest cs' = cs_highest cs \<and> cs_bytes cs' \<le> cs_bytes cs + length response \<and>
    (let new = (om_get (cs_settled cs))(sq \<mapsto> \<lparr>kp_bytes = response, kp_until = until\<rparr>);
         others = filter (\<lambda>s. s \<noteq> sq) (cs_ring cs)
     in if until \<noteq> None then om_get (cs_settled cs') = new \<and> cs_ring cs' = others
        else if length others < RETAINED then om_get (cs_settled cs') = new \<and> cs_ring cs' = others @ [sq]
        else om_get (cs_settled cs') = new(hd others := None) \<and> cs_ring cs' = tl others @ [sq])"
proof -
  let ?k = "\<lparr>kp_bytes = response, kp_until = until\<rparr>"
  let ?others = "filter (\<lambda>s. s \<noteq> sq) (cs_ring cs)"
  obtain cs2 where cs2: "(case om_get (cs_settled cs) sq of
        Some old \<Rightarrow> calls_unkeep sq old (cs\<lparr>cs_bytes := cs_bytes cs + length response, cs_settled := om_put sq ?k (cs_settled cs)\<rparr>)
      | None \<Rightarrow> Some (cs\<lparr>cs_bytes := cs_bytes cs + length response, cs_settled := om_put sq ?k (cs_settled cs)\<rparr>)) = Some cs2"
    and inv2: "ledger {sq} cs2" and m2: "cs_settled cs2 = om_put sq ?k (cs_settled cs)"
    and ring2: "cs_ring cs2 = ?others" and same: "cs_in_flight cs2 = cs_in_flight cs" "cs_highest cs2 = cs_highest cs"
    using replaced_ledger [OF inv, of "cs_bytes cs + length response" ?k sq] by auto
  have cnt: "cs_bytes cs2 \<le> cs_bytes cs + length response"
    using kept_bytes_put [of "cs_settled cs" sq ?k] inv inv2 m2 by (simp add: ledger_def)
  have len: "length ?others \<le> RETAINED" using ring le_trans [OF length_filter_le] by blast
  have run: "calls_settle sq response until cs =
     (case until of
        Some t \<Rightarrow> Some (cs2\<lparr>cs_by_until := om_put (sint t, sq) () (cs_by_until cs2)\<rparr>)
      | None \<Rightarrow>
          (let ring = cs_ring cs2 @ [sq] in
           if length ring > RETAINED then calls_forget (hd ring) (cs2\<lparr>cs_ring := tl ring\<rparr>)
           else Some (cs2\<lparr>cs_ring := ring\<rparr>)))"
    using room cs2 by (simp add: calls_settle_def checked_add_usize_def)
  consider (bound) t where "until = Some t" | (room) "until = None" "length ?others < RETAINED"
    | (full) "until = None" "length ?others = RETAINED"
    using len by (cases until) (auto simp: order_le_less)
  then show ?thesis
  proof cases
    case bound
    have "(u, q) \<in> fst ` set (om_put (sint t, sq) () (cs_by_until cs2)) \<longleftrightarrow>
        (u, q) = (sint t, sq) \<or> (u, q) \<in> fst ` set (cs_by_until cs2)" for u q
      using keys_om_put [of "(sint t, sq)" "()" "cs_by_until cs2"] by (auto simp: image_def)
    then have "ledger {} (cs2\<lparr>cs_by_until := om_put (sint t, sq) () (cs_by_until cs2)\<rparr>)"
      using inv2 m2 bound by (auto simp: ledger_def)
    then show ?thesis using run bound m2 ring2 same len cnt by simp
  next
    case room
    have "ledger {} (cs2\<lparr>cs_ring := ?others @ [sq]\<rparr>)"
      using inv2 m2 room ring2 by (auto simp: ledger_def)
    then show ?thesis using run room m2 ring2 same cnt by (simp add: Let_def)
  next
    case full
    then obtain q rest where o: "?others = q # rest" by (cases ?others) (auto simp: RETAINED_def)
    have "q \<in> set ?others" using o by simp
    then have qs: "q \<noteq> sq" by simp
    have d: "distinct (q # rest)" using inv2 ring2 o by (simp add: ledger_def)
    have sqk: "om_get (cs_settled cs2) sq = Some ?k" using m2 by simp
    obtain kq where kq: "om_get (cs_settled cs2) q = Some kq" "kp_until kq = None"
      using ledger_ring [OF inv2, of q] ring2 o by auto
    have "ledger {q} (cs2\<lparr>cs_ring := rest @ [sq]\<rparr>)"
    proof (rule ledgerI, goal_cases)
      case (5 t x)
      show ?case using ledger_until [OF inv2, of t x] sqk kq full(1) qs by auto
    next
      case (6 x)
      show ?case using ledger_ring [OF inv2, of x] sqk full(1) qs d ring2 o by auto
    qed (use inv2 d ring2 o qs in \<open>auto simp: ledger_def\<close>)
    from forget_ledger [OF this] obtain cs' where cs': "calls_forget q (cs2\<lparr>cs_ring := rest @ [sq]\<rparr>) = Some cs'" "ledger {} cs'"
      "cs_ring cs' = rest @ [sq]" "cs_in_flight cs' = cs_in_flight cs2" "cs_highest cs' = cs_highest cs2"
      "om_get (cs_settled cs') = (om_get (cs_settled cs2))(q := None)" "cs_bytes cs' \<le> cs_bytes cs2" by auto
    then show ?thesis using run full ring2 o m2 same len cnt by (simp add: Let_def)
  qed
qed

definition outlives :: "timestamp \<Rightarrow> kept \<Rightarrow> bool" where
  "outlives now k \<longleftrightarrow> (case kp_until k of None \<Rightarrow> True | Some until \<Rightarrow> sint now \<le> sint until)"

definition surviving :: "timestamp \<Rightarrow> (u64 \<rightharpoonup> kept) \<Rightarrow> (u64 \<rightharpoonup> kept)" where
  "surviving now m = (\<lambda>sq. case m sq of Some k \<Rightarrow> if outlives now k then Some k else None | None \<Rightarrow> None)"

lemma expire_loop_ledger:
  assumes "ledger {} cs" "cs_by_until cs = xs"
  shows "\<exists>cs'. expire_loop now xs cs = Some cs' \<and> ledger {} cs' \<and> cs_ring cs' = cs_ring cs \<and>
    cs_in_flight cs' = cs_in_flight cs \<and> cs_highest cs' = cs_highest cs \<and>
    om_get (cs_settled cs') = surviving now (om_get (cs_settled cs)) \<and> cs_bytes cs' \<le> cs_bytes cs"
  using assms
proof (induction xs arbitrary: cs)
  case Nil
  then have "outlives now k" if "om_get (cs_settled cs) sq = Some k" for sq k
    using that by (auto simp: ledger_def outlives_def split: option.split)
  then show ?case using Nil by (auto simp: surviving_def fun_eq_iff split: option.split)
next
  case (Cons x xs)
  obtain until sq w where x: "x = ((until, sq), w)" by (metis prod.collapse)
  have "om_wf (x # xs)" using Cons.prems by (simp add: ledger_def)
  then have sorted: "until \<le> t" if "(t, q) \<in> fst ` set (x # xs)" for t q
    using that x by (auto simp: om_wf_def less_prod_def)
  show ?case
  proof (cases "sint now \<le> until")
    case True
    have "outlives now k" if "om_get (cs_settled cs) q = Some k" for q k
    proof (cases "kp_until k")
      case (Some t)
      then have "(sint t, q) \<in> fst ` set (x # xs)" using that Cons.prems by (auto simp: ledger_def)
      from sorted [OF this] show ?thesis using True Some by (simp add: outlives_def)
    qed (simp add: outlives_def)
    then show ?thesis using True x Cons.prems by (auto simp: surviving_def fun_eq_iff split: option.split)
  next
    case False
    have gone: "(until, sq) \<notin> fst ` set xs" and wf: "om_wf xs"
      using Cons.prems x by (auto simp: ledger_def om_wf_def)
    obtain k t where k: "om_get (cs_settled cs) sq = Some k" "kp_until k = Some t" "sint t = until"
      using Cons.prems x unfolding ledger_def by (metis fst_conv image_eqI list.set_intros(1))
    have mem: "(u, q) \<in> fst ` set (cs_by_until cs) \<longleftrightarrow> (u, q) = (until, sq) \<or> (u, q) \<in> fst ` set xs" for u q
      using Cons.prems(2) x by auto
    have "ledger {sq} (cs\<lparr>cs_by_until := xs\<rparr>)"
    proof (rule ledgerI, goal_cases)
      case (5 u q)
      have "(u, q) \<in> fst ` set (cs_by_until cs) \<longleftrightarrow>
          (\<exists>k until. om_get (cs_settled cs) q = Some k \<and> kp_until k = Some until \<and> sint until = u)"
        using ledger_until [OF Cons.prems(1), of u q] by simp
      then have "(u, q) \<in> fst ` set xs \<longleftrightarrow> q \<noteq> sq \<and>
          (\<exists>k until. om_get (cs_settled cs) q = Some k \<and> kp_until k = Some until \<and> sint until = u)"
        using mem [of u q] gone k by (cases "q = sq") (metis option.inject, blast)
      then show ?case by simp
    next
      case (6 q)
      show ?case using ledger_ring [OF Cons.prems(1), of q] k by auto
    qed (use Cons.prems(1) wf in \<open>simp_all add: ledger_def\<close>)
    from forget_ledger [OF this] obtain cs1 where cs1: "calls_forget sq (cs\<lparr>cs_by_until := xs\<rparr>) = Some cs1" "ledger {} cs1"
      "cs_by_until cs1 = xs" "cs_ring cs1 = cs_ring cs" "cs_in_flight cs1 = cs_in_flight cs" "cs_highest cs1 = cs_highest cs"
      "om_get (cs_settled cs1) = (om_get (cs_settled cs))(sq := None)" "cs_bytes cs1 \<le> cs_bytes cs" by auto
    have "\<not> outlives now k" using False k by (simp add: outlives_def)
    then have "surviving now (om_get (cs_settled cs1)) = surviving now (om_get (cs_settled cs))"
      using cs1(7) k(1) by (simp add: surviving_def fun_eq_iff)
    moreover obtain cs' where cs': "expire_loop now xs cs1 = Some cs'" "ledger {} cs'" "cs_ring cs' = cs_ring cs1"
      "cs_in_flight cs' = cs_in_flight cs1" "cs_highest cs' = cs_highest cs1"
      "om_get (cs_settled cs') = surviving now (om_get (cs_settled cs1))" "cs_bytes cs' \<le> cs_bytes cs1"
      using Cons.IH [OF cs1(2,3)] by blast
    ultimately show ?thesis
      by (intro exI [of _ cs'] conjI) (use False x cs1(1,4-6,8) in simp_all)
  qed
qed

lemma expire_ledger:
  assumes "ledger {} cs"
  shows "\<exists>cs'. calls_expire now cs = Some cs' \<and> ledger {} cs' \<and> cs_ring cs' = cs_ring cs \<and>
    cs_in_flight cs' = cs_in_flight cs \<and> cs_highest cs' = cs_highest cs \<and>
    om_get (cs_settled cs') = surviving now (om_get (cs_settled cs)) \<and> cs_bytes cs' \<le> cs_bytes cs"
  unfolding calls_expire_def by (rule expire_loop_ledger [OF assms refl])

section \<open>The life of a session\<close>

datatype calls_op = Co_Accept u64 | Co_Track in_flight | Co_Save in_flight | Co_Update correlation reply_stream
  | Co_Remove correlation | Co_Drain | Co_Settle u64 bytes "timestamp option" | Co_Expire timestamp

fun calls_op_step :: "calls_op \<Rightarrow> calls_state \<Rightarrow> calls_state option" where
  "calls_op_step (Co_Accept sq) cs = Some (calls_accept sq cs)"
| "calls_op_step (Co_Track call) cs = Some (calls_track call cs)"
| "calls_op_step (Co_Save call) cs = Some (calls_save call cs)"
| "calls_op_step (Co_Update c stream) cs = Some (calls_update c stream cs)"
| "calls_op_step (Co_Remove c) cs = Some (calls_remove c cs)"
| "calls_op_step Co_Drain cs = Some (snd (calls_drain cs))"
| "calls_op_step (Co_Settle sq response until) cs = calls_settle sq response until cs"
| "calls_op_step (Co_Expire now) cs = calls_expire now cs"

fun calls_run :: "calls_op list \<Rightarrow> calls_state \<Rightarrow> calls_state option" where
  "calls_run [] cs = Some cs"
| "calls_run (x # xs) cs = do { cs1 \<leftarrow> calls_op_step x cs; calls_run xs cs1 }"

fun response_len :: "calls_op \<Rightarrow> nat" where
  "response_len (Co_Settle _ response _) = length response"
| "response_len _ = 0"

lemmas calls_in_flight_defs = calls_accept_def calls_track_def calls_save_def calls_update_def calls_remove_def calls_drain_def

lemma ledger_cong:
  assumes "ledger R cs" "cs_settled cs' = cs_settled cs" "cs_by_until cs' = cs_by_until cs" "cs_ring cs' = cs_ring cs"
    "cs_bytes cs' = cs_bytes cs"
  shows "ledger R cs'"
  using assms unfolding ledger_def by simp

lemma calls_step_ledger:
  assumes inv: "ledger {} cs" "length (cs_ring cs) \<le> RETAINED" and room: "cs_bytes cs + response_len x \<le> usize_max"
  shows "\<exists>cs'. calls_op_step x cs = Some cs' \<and> ledger {} cs' \<and> length (cs_ring cs') \<le> RETAINED \<and> cs_bytes cs' \<le> cs_bytes cs + response_len x"
proof (cases x)
  case (Co_Settle sq response until)
  with assms have "cs_bytes cs + length response \<le> usize_max" by simp
  from settle_ledger [OF inv this] Co_Settle show ?thesis by auto
next
  case (Co_Expire now)
  then show ?thesis using expire_ledger [OF inv(1), of now] inv(2) by auto
qed (use inv in \<open>auto simp: calls_in_flight_defs intro: ledger_cong [OF inv(1)]\<close>)

lemma calls_run_ledger:
  assumes "ledger {} cs" "length (cs_ring cs) \<le> RETAINED" "cs_bytes cs + sum_list (map response_len xs) \<le> usize_max"
  shows "\<exists>cs'. calls_run xs cs = Some cs' \<and> ledger {} cs' \<and> length (cs_ring cs') \<le> RETAINED \<and>
    cs_bytes cs' \<le> cs_bytes cs + sum_list (map response_len xs)"
  using assms
proof (induction xs arbitrary: cs)
  case (Cons x xs)
  obtain cs1 where cs1: "calls_op_step x cs = Some cs1" "ledger {} cs1" "length (cs_ring cs1) \<le> RETAINED"
    "cs_bytes cs1 \<le> cs_bytes cs + response_len x"
    using calls_step_ledger [of cs x] Cons.prems by auto
  then show ?case using Cons.IH [OF cs1(2,3)] Cons.prems(3) by fastforce
qed simp

lemma ledger_default [simp]: "ledger {} calls_default"
  by (simp add: ledger_def calls_default_def)

text \<open>
  C12: The books of a session's responses balance. Whatever calls a session accepts, tracks, saves,
  removes and settles and whenever it expires, no addition or subtraction leaves \<open>usize\<close> as long as
  the responses fit in memory; every response kept is in exactly one of the two indexes, under its
  own bound, and the indexes name nothing else; the bytes counted are the bytes of the responses
  kept; and at most 64 responses without a bound are kept.
\<close>

theorem calls_ledger:
  assumes "sum_list (map response_len xs) \<le> usize_max"
  shows "\<exists>cs. calls_run xs calls_default = Some cs \<and>
    (\<forall>t sq. (t, sq) \<in> fst ` set (cs_by_until cs) \<longleftrightarrow>
       (\<exists>k until. om_get (cs_settled cs) sq = Some k \<and> kp_until k = Some until \<and> sint until = t)) \<and>
    (\<forall>sq. sq \<in> set (cs_ring cs) \<longleftrightarrow> (\<exists>k. om_get (cs_settled cs) sq = Some k \<and> kp_until k = None)) \<and>
    calls_retained_bytes cs = kept_bytes (cs_settled cs) \<and>
    distinct (cs_ring cs) \<and> length (cs_ring cs) \<le> 64"
proof -
  have "cs_bytes calls_default + sum_list (map response_len xs) \<le> usize_max" "length (cs_ring calls_default) \<le> RETAINED"
    using assms by (simp_all add: calls_default_def)
  then obtain cs where "calls_run xs calls_default = Some cs" and inv: "ledger {} cs" "length (cs_ring cs) \<le> RETAINED"
    using calls_run_ledger [OF ledger_default] by blast
  moreover have "distinct (cs_ring cs)" "cs_bytes cs = kept_bytes (cs_settled cs)" using inv by (simp_all add: ledger_def)
  ultimately show ?thesis
    using ledger_until [OF inv(1)] ledger_ring [OF inv(1)] by (simp add: calls_retained_bytes_def RETAINED_def)
qed

theorem calls_ledger_witness:
  "\<exists>cs. calls_run [Co_Accept 1, Co_Settle 1 [5, 6] None, Co_Settle 2 [7] (Some 9), Co_Expire 10] calls_default = Some cs \<and>
     calls_retained_bytes cs = kept_bytes (cs_settled cs) \<and> length (cs_ring cs) \<le> 64"
  using calls_ledger [of "[Co_Accept 1, Co_Settle 1 [5, 6] None, Co_Settle 2 [7] (Some 9), Co_Expire 10]"] by auto

section \<open>Repeated requests\<close>

text \<open>
  The steps after which the response to \<open>sq\<close> is still kept: numbers only rise, no call takes the
  number again, and no expiry is past the bound.
\<close>

fun keeps_response :: "u64 \<Rightarrow> timestamp option \<Rightarrow> calls_op \<Rightarrow> bool" where
  "keeps_response sq until (Co_Accept n) \<longleftrightarrow> sq \<le> n"
| "keeps_response sq until (Co_Track call) \<longleftrightarrow> if_seq call \<noteq> sq"
| "keeps_response sq until (Co_Settle n _ _) \<longleftrightarrow> n \<noteq> sq"
| "keeps_response sq until (Co_Expire now) \<longleftrightarrow> (case until of None \<Rightarrow> True | Some t \<Rightarrow> sint now \<le> sint t)"
| "keeps_response sq until _ \<longleftrightarrow> True"

fun unbounded :: "calls_op \<Rightarrow> bool" where
  "unbounded (Co_Settle _ _ None) \<longleftrightarrow> True"
| "unbounded _ \<longleftrightarrow> False"

text \<open>How many responses without a bound have been settled after \<open>sq\<close> and are still kept.\<close>

definition younger :: "u64 \<Rightarrow> u64 list \<Rightarrow> nat" where
  "younger sq ring = length (takeWhile (\<lambda>s. s \<noteq> sq) (rev ring))"

lemma younger_snoc [simp]: "younger sq (ring @ [n]) = (if n = sq then 0 else Suc (younger sq ring))"
  by (simp add: younger_def)

lemma younger_filter: "younger sq (filter (\<lambda>s. s \<noteq> n) ring) \<le> younger sq ring" if "n \<noteq> sq"
  using that by (induction ring rule: rev_induct) (auto simp: le_Suc_eq) 

lemma younger_tl: "x \<noteq> sq \<Longrightarrow> sq \<in> set ring \<Longrightarrow> younger sq (x # ring) = younger sq ring"
  by (simp add: younger_def takeWhile_append1)

lemma younger_hd: "sq \<notin> set ring \<Longrightarrow> younger sq (sq # ring) = length ring"
  by (auto simp: younger_def takeWhile_append)

definition holds_response :: "u64 \<Rightarrow> kept \<Rightarrow> nat \<Rightarrow> calls_state \<Rightarrow> bool" where
  "holds_response sq k j cs \<longleftrightarrow>
     ledger {} cs \<and> length (cs_ring cs) \<le> RETAINED \<and> sq \<le> cs_highest cs \<and>
     (\<forall>call \<in> set (cs_in_flight cs). if_seq call \<noteq> sq) \<and> om_get (cs_settled cs) sq = Some k \<and>
     (kp_until k = None \<longrightarrow> younger sq (cs_ring cs) \<le> j)"

lemma holds_response_seen: "holds_response sq k j cs \<Longrightarrow> calls_seen cs sq = Seen_Settled (kp_bytes k)"
  by (auto simp: holds_response_def calls_seen_def list_ex_iff)

lemma change_first_seqs:
  assumes "\<And>x. P x \<Longrightarrow> if_seq (f x) = if_seq x"
  shows "(\<forall>x \<in> set (change_first P f xs). if_seq x \<noteq> sq) \<longleftrightarrow> (\<forall>x \<in> set xs. if_seq x \<noteq> sq)"
  using assms by (induction xs) auto

lemma settle_holds:
  assumes h: "holds_response sq k j cs" and n: "n \<noteq> sq" and room: "cs_bytes cs + length response \<le> usize_max"
    and j: "kp_until k = None \<and> until = None \<longrightarrow> Suc j < RETAINED"
  shows "\<exists>cs'. calls_settle n response until cs = Some cs' \<and>
    holds_response sq k (if until = None then Suc j else j) cs' \<and> cs_bytes cs' \<le> cs_bytes cs + length response"
proof -
  let ?o = "filter (\<lambda>s. s \<noteq> n) (cs_ring cs)"
  from h have inv: "ledger {} cs" "length (cs_ring cs) \<le> RETAINED" and get: "om_get (cs_settled cs) sq = Some k"
    by (simp_all add: holds_response_def)
  obtain cs' where cs': "calls_settle n response until cs = Some cs'" "ledger {} cs'" "length (cs_ring cs') \<le> RETAINED"
    "cs_in_flight cs' = cs_in_flight cs" "cs_highest cs' = cs_highest cs" "cs_bytes cs' \<le> cs_bytes cs + length response"
    and eff: "let new = (om_get (cs_settled cs))(n \<mapsto> \<lparr>kp_bytes = response, kp_until = until\<rparr>)
     in if until \<noteq> None then om_get (cs_settled cs') = new \<and> cs_ring cs' = ?o
        else if length ?o < RETAINED then om_get (cs_settled cs') = new \<and> cs_ring cs' = ?o @ [n]
        else om_get (cs_settled cs') = new(hd ?o := None) \<and> cs_ring cs' = tl ?o @ [n]"
    using settle_ledger [OF inv room, of n until] by metis
  have young: "kp_until k = None \<Longrightarrow> younger sq ?o \<le> j"
    using h le_trans [OF younger_filter [OF n]] by (simp add: holds_response_def)
  have mem: "kp_until k = None \<Longrightarrow> sq \<in> set ?o" "kp_until k \<noteq> None \<Longrightarrow> sq \<notin> set ?o"
    using ledger_ring [OF inv(1), of sq] get n by auto
  have "om_get (cs_settled cs') sq = Some k \<and> (kp_until k = None \<longrightarrow> younger sq (cs_ring cs') \<le> (if until = None then Suc j else j))"
  proof (cases "until = None \<and> \<not> length ?o < RETAINED")
    case False
    then show ?thesis using eff get n young by (auto simp: Let_def)
  next
    case True
    then obtain x rest where o: "?o = x # rest" by (cases ?o) (auto simp: RETAINED_def)
    have dist: "distinct (x # rest)" using inv(1) o by (metis ledger_def distinct_filter)
    have "length ?o = RETAINED" using True inv(2) length_filter_le [of "\<lambda>s. s \<noteq> n" "cs_ring cs"] by linarith
    then have len: "Suc (length rest) = RETAINED" using o by simp
    have xs: "x \<noteq> sq"
    proof
      assume "x = sq"
      have un: "kp_until k = None" using mem(2) o \<open>x = sq\<close> by (cases "kp_until k") auto
      have "younger sq ?o = length rest" using o dist \<open>x = sq\<close> younger_hd [of sq rest] by simp
      then show False using young [OF un] un j True len by simp
    qed
    then have "kp_until k = None \<Longrightarrow> younger sq rest \<le> j"
      using young mem(1) o younger_tl [of x sq rest] by simp
    then show ?thesis using eff True o get n xs by (auto simp: Let_def)
  qed
  then show ?thesis using cs' h by (simp add: holds_response_def)
qed

lemma step_holds:
  assumes h: "holds_response sq k j cs" and x: "keeps_response sq (kp_until k) x" and room: "cs_bytes cs + response_len x \<le> usize_max"
    and j: "kp_until k = None \<and> unbounded x \<longrightarrow> Suc j < RETAINED"
  shows "\<exists>cs'. calls_op_step x cs = Some cs' \<and> holds_response sq k (if unbounded x then Suc j else j) cs' \<and>
    cs_bytes cs' \<le> cs_bytes cs + response_len x"
proof (cases x)
  case (Co_Settle n response until)
  then show ?thesis using settle_holds [OF h, of n response until] x room j by (cases until) auto
next
  case (Co_Expire now)
  from h have inv: "ledger {} cs" by (simp add: holds_response_def)
  have "outlives now k" using x Co_Expire by (auto simp: outlives_def split: option.splits)
  then show ?thesis using expire_ledger [OF inv, of now] h Co_Expire by (auto simp: holds_response_def surviving_def)
next
  case (Co_Save call)
  then show ?thesis
    using h by (auto simp: holds_response_def calls_save_def change_first_seqs intro: ledger_cong)
next
  case (Co_Update c stream)
  then show ?thesis
    using h by (auto simp: holds_response_def calls_update_def change_first_seqs intro: ledger_cong)
qed (use h x in \<open>auto simp: holds_response_def calls_in_flight_defs intro: ledger_cong\<close>)

lemma run_holds:
  assumes "holds_response sq k j cs" "list_all (keeps_response sq (kp_until k)) xs"
    "cs_bytes cs + sum_list (map response_len xs) \<le> usize_max"
    "kp_until k = None \<longrightarrow> j + length (filter unbounded xs) < RETAINED"
  shows "\<exists>cs' j'. calls_run xs cs = Some cs' \<and> holds_response sq k j' cs'"
  using assms
proof (induction xs arbitrary: cs j)
  case (Cons x xs)
  obtain cs1 where "calls_op_step x cs = Some cs1" "holds_response sq k (if unbounded x then Suc j else j) cs1"
    "cs_bytes cs1 \<le> cs_bytes cs + response_len x"
    using step_holds [OF Cons.prems(1), of x] Cons.prems(2-4) by (auto split: if_splits)
  then show ?case using Cons.IH [of "if unbounded x then Suc j else j" cs1] Cons.prems(2-4) by (auto split: if_splits)
qed auto

text \<open>
  C13: A repeated request is answered with the same bytes. When a session that has accepted a number
  and has no call in flight under it settles it, then after any further work of the session a
  request that repeats the number is recognised and answered with exactly the response settled: up
  to the response's bound when it has one, and otherwise until 64 responses without a bound have
  been settled after it.
\<close>

theorem response_repeated:
  assumes run: "calls_run ops calls_default = Some cs"
    and room: "sum_list (map response_len ops) + length response + sum_list (map response_len xs) \<le> usize_max"
    and sq: "sq \<le> cs_highest cs" "calls_by_seq cs sq = None"
    and keep: "list_all (keeps_response sq until) xs" "until = None \<longrightarrow> length (filter unbounded xs) < 64"
  shows "\<exists>cs'. calls_run (Co_Settle sq response until # xs) cs = Some cs' \<and> calls_seen cs' sq = Seen_Settled response"
proof -
  let ?k = "\<lparr>kp_bytes = response, kp_until = until\<rparr>"
  have "length (cs_ring calls_default) \<le> RETAINED" "cs_bytes calls_default + sum_list (map response_len ops) \<le> usize_max"
    using room by (simp_all add: calls_default_def)
  from calls_run_ledger [OF ledger_default this] have inv: "ledger {} cs" "length (cs_ring cs) \<le> RETAINED"
    and cnt: "cs_bytes cs \<le> sum_list (map response_len ops)"
    using run by (auto simp: calls_default_def)
  have fits: "cs_bytes cs + length response \<le> usize_max" using cnt room by linarith
  obtain cs1 where cs1: "calls_settle sq response until cs = Some cs1" "ledger {} cs1" "length (cs_ring cs1) \<le> RETAINED"
    "cs_in_flight cs1 = cs_in_flight cs" "cs_highest cs1 = cs_highest cs" "cs_bytes cs1 \<le> cs_bytes cs + length response"
    and eff: "let new = (om_get (cs_settled cs))(sq \<mapsto> ?k); others = filter (\<lambda>s. s \<noteq> sq) (cs_ring cs)
     in if until \<noteq> None then om_get (cs_settled cs1) = new \<and> cs_ring cs1 = others
        else if length others < RETAINED then om_get (cs_settled cs1) = new \<and> cs_ring cs1 = others @ [sq]
        else om_get (cs_settled cs1) = new(hd others := None) \<and> cs_ring cs1 = tl others @ [sq]"
    using settle_ledger [OF inv fits, of sq until] by metis
  have "hd (filter (\<lambda>s. s \<noteq> sq) (cs_ring cs)) \<noteq> sq" if "\<not> length (filter (\<lambda>s. s \<noteq> sq) (cs_ring cs)) < RETAINED"
  proof -
    have "filter (\<lambda>s. s \<noteq> sq) (cs_ring cs) \<noteq> []" using that by (auto simp: RETAINED_def)
    from hd_in_set [OF this] show ?thesis by simp
  qed
  then have "om_get (cs_settled cs1) sq = Some ?k \<and> (until = None \<longrightarrow> younger sq (cs_ring cs1) = 0)"
    using eff by (auto simp: Let_def split: if_splits)
  then have "holds_response sq ?k 0 cs1"
    using cs1 sq by (auto simp: holds_response_def calls_by_seq_def find_None_iff)
  from run_holds [OF this, of xs] obtain cs' j' where "calls_run xs cs1 = Some cs'" "holds_response sq ?k j' cs'"
    using keep cs1(6) cnt room by (auto simp: RETAINED_def)
  then show ?thesis using cs1(1) holds_response_seen [of sq ?k j' cs'] by simp
qed

theorem response_repeated_witness:
  "\<exists>cs'. calls_run [Co_Settle 1 [5, 6] (Some 9), Co_Accept 2, Co_Settle 2 [7] None, Co_Expire 9]
       (calls_default\<lparr>cs_highest := 1\<rparr>) = Some cs' \<and> calls_seen cs' 1 = Seen_Settled [5, 6]"
proof -
  have "calls_run [Co_Accept 1] calls_default = Some (calls_default\<lparr>cs_highest := 1\<rparr>)" by (simp add: calls_accept_def)
  from response_repeated [OF this, of "[5, 6]" "[Co_Accept 2, Co_Settle 2 [7] None, Co_Expire 9]" 1 "Some 9"]
  show ?thesis by (simp add: calls_by_seq_def calls_default_def)
qed

end
