(* ===== verification/Lb_Delivery.thy ===== *)
theory Lb_Delivery
  imports Lb_Props
begin

text \<open>
  What the in-process runtime delivers: the reply of a call, the value of a signal, the occurrences
  of an event and the chunks of a stream are the bytes that were given, in the order they were
  given.
\<close>

section \<open>Calls\<close>

lemma settle_entry_reply:
  assumes "settle_entry e hid (Inr b) wake = (e', wake')"
  shows "ce_reply e' = b"
proof -
  let ?e1 = "e\<lparr>ce_reply := b, ce_settled_by := Some hid\<rparr>"
  obtain e2 wake1 where e2: "(if ce_kind ?e1 = CK_Query \<or> isl (Inr b :: call_error + bytes)
      then release_parameters ?e1 wake else (?e1, wake)) = (e2, wake1)" by fastforce
  obtain st e3 where e3: "entry_stream e2 REPLY_STREAM = (st, e3)" by fastforce
  have "\<exists>st'. e' = put_stream e3 REPLY_STREAM st'"
    using assms e2 e3 by (auto simp: settle_entry_def Let_def)
  moreover have "ce_reply e2 = b"
    using e2 by (auto simp: release_parameters_def Let_def split: if_splits prod.splits)
  moreover have "ce_reply e3 = ce_reply e2"
    using e3 by (auto simp: entry_stream_def put_stream_def Let_def split: option.splits)
  ultimately show ?thesis by (auto simp: put_stream_def)
qed

text \<open>A settlement that is admitted is recorded, and the reply it carries is what the caller reads.\<close>

lemma settle_recorded:
  assumes inv: "store_inv s" and own: "om_get (st_claims s) i = Some own" "co_handler own = hid"
    and e: "call_at s (co_call own) = Some e" and live: "\<not> ce_forgotten e"
    and admit: "store_admit s (ce_iface e, ce_ord e) (call_kind_kind (ce_kind e)) (length b) = Inr ()"
    and no_fault: "\<not> st_fail_next_settle s"
  shows "\<exists>s' wake' e'. store_settle s hid i (Inr b) wake = Some (Inr (), s', wake') \<and>
    call_at s' (co_call own) = Some e' \<and> ce_reply e' = b \<and> ce_kind e' = ce_kind e \<and> \<not> ce_pending_forget e' \<and>
    outcome_of (st_table s') (co_call own) = Some (Inr ())"
proof -
  let ?c = "co_call own"
  note inv' = inv [unfolded store_inv_def]
  note rep = linv_rep [OF inv'] and core = linv_core [OF inv', unfolded core_of_def]
  have claim: "ce_claim e = Some i" using core_owner [OF core own(1)] e by auto
  obtain cst where cst: "calls (st_table s) ?c = Some cst"
    "place_ok cst (?c \<in> set (st_pending s)) (Some own) e" "mark_ok cst (Some own) e"
    using call_place [OF inv' e] claim own(1) by (auto simp: owner_def)
  have pend: "\<not> ce_pending_forget e" and flight: "calls (st_table s) ?c = Some (InFlight False)"
    using cst live by (auto simp: mark_ok_def place_ok_def)
  obtain a t where a: "settle (st_table s) ?c (Inr ()) = (a, t)" by fastforce
  note wf = rep_table_wf [OF rep]
  from tbl.settl_law [OF wf a] flight obtain w where w: "a = Recorded w" and t: "table_wf t"
    "calls t = (calls (st_table s))(?c \<mapsto> Settled (Inr ()))" by auto
  obtain e2 wake2 where e2: "settle_entry e hid (Inr b) wake = (e2, wake2)" by fastforce
  note el = settle_entry_law [OF e2]
  obtain ws t1 where t1: "take_streams t (slot_of ?c) = (ws, t1)" by fastforce
  let ?P = "if co_taken own then st_pending s else remove1 ?c (st_pending s)"
  let ?s1 = "s\<lparr>st_claims := om_del i (st_claims s), st_pending := ?P\<rparr>"
  let ?s2 = "(put_call ?s1 (slot_of ?c) e2)\<lparr>st_table := t1\<rparr>"
  have "settle_call ?s1 ?c hid (Inr b) wake = Some (?s2, wake2 @ opt_list w @ ws)"
    using a w e2 t1 call_at_get [OF e] pend el
    by (simp add: settle_call_def release_if_drained_def put_call_def)
  then have run: "store_settle s hid i (Inr b) wake = Some (Inr (), ?s2, wake2 @ opt_list w @ ws)"
    using own admit no_fault entry_of_call [OF e] by (simp add: store_settle_def settle_admit_def Let_def)
  have corr: "ce_correlation e2 = ?c" using el call_at_get [OF e] by (simp add: kin_def)
  have "call_at ?s2 ?c = Some e2" using corr by (simp add: call_at_def put_call_def)
  moreover have "outcome_of (st_table ?s2) ?c = Some (Inr ())"
    using take_streams_law [OF t(1) t1] t(2) by (simp add: outcome_law)
  ultimately show ?thesis
    using run settle_entry_reply [OF e2] el pend by (auto simp: kin_def)
qed

lemma reply_read:
  assumes "call_at s c = Some e" "\<not> ce_pending_forget e" "outcome_of (st_table s) c = Some (Inr ())"
    "length (ce_reply e) \<le> length out"
  shows "store_reply s c out = Some (Inr (Some (Inr (length (ce_reply e)))), put_at out 0 (ce_reply e))"
  using assms call_at_get [OF assms(1)] by (simp add: store_reply_def forgotten_pending_def entry_of_def)

lemma send_accepted:
  assumes "store_send s caller kd k args sq trc wake = Some (Inr c, s', wake')"
  shows "st_pending s' = st_pending s @ [c]" "st_limits s' = st_limits s" "st_next_claim_id s' = st_next_claim_id s"
    "st_fail_next_settle s' = st_fail_next_settle s"
    "om_get (st_handlers s) hid = Some h \<Longrightarrow> \<exists>h'. om_get (st_handlers s') hid = Some h' \<and> hs_served h' = hs_served h"
  using assms by (auto simp: store_send_def wake_handlers_serving_def wake_handler_def put_call_def Let_def
      Option.bind_eq_Some_conv case_prod_beta split: sum.splits prod.splits option.splits)

text \<open>A send wakes every handler that serves the member and had stored a \<open>Claim\<close> waker.\<close>

lemma send_wakes:
  assumes "store_send s caller kd k args sq trc wake = Some (Inr c, s', wake')"
    and "om_get (st_handlers s) hid = Some h" "serves h k" "wt_claim (hs_waiters h) = Some w"
  shows "w \<in> set wake'"
proof -
  have h: "(hid, h) \<in> set (st_handlers s)" using assms(2) by (rule om_get_in)
  have "w \<in> set (fst (wake_handler k h))" using assms(3,4) by (simp add: wake_handler_def waiters_take_def opt_list_def)
  with h have "w \<in> set (fst (om_visit (\<lambda>_. wake_handler k) (st_handlers s)))"
    unfolding set_wakes_visit by force
  then show ?thesis
    using assms(1) by (auto simp: store_send_def wake_handlers_serving_def put_call_def Let_def
        Option.bind_eq_Some_conv case_prod_beta split: sum.splits prod.splits option.splits)
qed

lemma position_last: "\<forall>x \<in> set xs. \<not> p x \<Longrightarrow> p y \<Longrightarrow> position p (xs @ [y]) = Some (length xs)"
  by (induction xs) simp_all

text \<open>
  The call at the end of the waiting calls, presented to a handler that serves it and none of the
  calls before it, with room for its arguments.
\<close>

lemma next_claim_last:
  assumes inv: "store_inv s" and n: "unat (st_next_claim_id s) + 1 < 2 ^ 64" and pend: "st_pending s = P @ [c]"
    and e: "call_at s c = Some e" and h: "om_get (st_handlers s) hid = Some h" "serves h (ce_iface e, ce_ord e)"
    and first: "\<forall>d \<in> set P. \<not> serves h (key_at s d)" and room: "length (ce_args e) \<le> length out"
  obtains i m where "next_claim s hid out = Some (Inr (Some \<lparr>cl_id = i, cl_iface = ce_iface e, cl_ord = ce_ord e,
      cl_envelope = ce_envelope e, cl_trace = ce_trace e, cl_remaining = None, cl_len = length (ce_args e)\<rparr>),
      put_at out 0 (ce_args e), presented s c e i m hid True)"
    "store_inv (presented s c e i m hid True)"
    "call_at (presented s c e i m hid True) c = Some (e\<lparr>ce_claim := Some i\<rparr>)" "remove1 c (st_pending s) = P"
proof -
  note inv' = inv [unfolded store_inv_def]
  obtain i m where im: "claim_identity s c = Some (i, identified s c e i m)"
    "(ce_claim e = Some i \<and> m = st_next_claim_id s) \<or> (ce_claim e = None \<and> i = st_next_claim_id s \<and> st_next_claim_id s < m)"
    by (rule claim_identity_ok [OF inv' e n])
  have get: "om_get (st_calls (identified s c e i m)) (slot_of c) = Some (e\<lparr>ce_claim := Some i\<rparr>)"
    by (simp add: identified_def put_call_def)
  have ids: "st_pending (identified s c e i m) = P @ [c]" "st_claims (identified s c e i m) = st_claims s"
    by (simp_all add: identified_def pend)
  have "serves h (key_at s c)" using h(2) e by (simp add: key_at_def)
  then have found: "find_served s h (st_pending s) = Some (Some (length P))"
    using find_served_eq [OF pending_calls [OF inv'], of h] position_last [OF first] by (simp add: pend)
  have "distinct (P @ [c])" using core_distinct [OF linv_core [OF inv', unfolded core_of_def]] by (simp add: pend)
  then have rem: "remove1 c (st_pending s) = P" by (simp add: pend remove1_append)
  have "c \<in> set (st_pending s)" by (simp add: pend)
  note law = linv_claim [OF inv' e this _ im(2), of hid True]
  show thesis
  proof (rule that)
    show "next_claim s hid out = Some (Inr (Some \<lparr>cl_id = i, cl_iface = ce_iface e, cl_ord = ce_ord e,
      cl_envelope = ce_envelope e, cl_trace = ce_trace e, cl_remaining = None, cl_len = length (ce_args e)\<rparr>),
      put_at out 0 (ce_args e), presented s c e i m hid True)"
      using room by (simp add: next_claim_def h found im(1) get ids Let_def presented_def rem)
        (simp add: pend im(1) get ids remove_at_def)
    show "store_inv (presented s c e i m hid True)" using law(1) h(1) by (simp add: store_inv_def)
    show "call_at (presented s c e i m hid True) c = Some (e\<lparr>ce_claim := Some i\<rparr>)" using law(2) h(1) by simp
  qed (fact rem)
qed

text \<open>
  C5: A call makes its round trip past every other waiting call. An accepted send wakes a handler
  that serves the member and had stored a \<open>Claim\<close> waker. A handler that serves the member and
  serves none of the calls that were waiting before, whose buffer has room for the arguments, is then
  presented exactly that call: the claim is the handler's, names the call, and
  its buffer has the arguments sent, while the calls that waited still wait. If no fault is injected
  into the next settlement, the handler's settlement with a reply within the member's limit is then
  accepted, and a caller's buffer with room for it receives exactly the reply's bytes. (Which of
  several served calls a handler is presented first is the order of sending, shown separately.)
\<close>

theorem call_roundtrip:
  assumes run: "rt_run runtime_new ops = Some (rt, ws)" "Suc (length ops) < 2 ^ 64"
    and ch: "ch \<in> set (rt_callers rt)"
    and send: "caller_send (rt_store rt) ch kd i k args trc = Some (Inr c, ch', s1, w1)"
    and h: "om_get (st_handlers (rt_store rt)) hid = Some h" "serves h (i, k)" "length args \<le> length out"
    and first: "\<forall>d f. d \<in> set (st_pending (rt_store rt)) \<and> entry_of (rt_store rt) d = Some f \<longrightarrow>
      \<not> serves h (ce_iface f, ce_ord f)"
    and reply: "store_admit (rt_store rt) (i, k) (call_kind_kind kd) (length b) = Inr ()"
      "\<not> st_fail_next_settle (rt_store rt)" "length b \<le> length buf"
  shows "(\<forall>w. wt_claim (hs_waiters h) = Some w \<longrightarrow> w \<in> set w1) \<and>
    (\<exists>cl s2 s3 w3. next_claim s1 hid out = Some (Inr (Some cl), put_at out 0 args, s2) \<and>
    (cl_iface cl, cl_ord cl, cl_trace cl, cl_len cl) = (i, k, trc, length args) \<and>
    om_get (st_claims s2) (cl_id cl) = Some \<lparr>co_call = c, co_handler = hid, co_taken = True\<rparr> \<and>
    st_pending s2 = st_pending (rt_store rt) \<and>
    store_settle s2 hid (cl_id cl) (Inr b) [] = Some (Inr (), s3, w3) \<and>
    store_reply s3 c buf = Some (Inr (Some (Inr (length b))), put_at buf 0 b))"
proof -
  let ?s = "rt_store rt"
  have ok: "rt_ok (length ops) rt" using reached [OF run(1)] run(2) by simp
  note inv = rt_ok_inv [OF ok]
  obtain sq where sq: "store_send ?s (ch_id ch) kd (i, k) args sq trc [] = Some (Inr c, s1, w1)"
    using send by (auto simp: caller_send_def Option.bind_eq_Some_conv split: sum.splits)
  have bounds: "unat (st_next_sent ?s) + 1 < 2 ^ 64" "unat (st_next_claim_id ?s) + 1 < 2 ^ 64"
    "om_get (st_callers ?s) (ch_id ch) \<noteq> None"
    using ok run(2) ch by (auto simp: rt_ok_def store_ok_def callers_held_def)
  define e where "e = new_entry c (ch_id ch) kd (i, k) args \<lparr>stamp = st_now ?s, seq = sq\<rparr> trc (st_next_sent ?s)"
  have s1: "store_inv s1" "call_at ?s c = None" "call_at s1 = (call_at ?s)(c \<mapsto> e)"
    using store_send_ok [OF inv bounds(3,1), of kd "(i, k)" args sq trc "[]"] sq by (auto simp: e_def)
  have ef: "ce_iface e = i" "ce_ord e = k" "ce_args e = args" "ce_trace e = trc" "ce_kind e = kd" "\<not> ce_forgotten e"
    by (simp_all add: e_def new_entry_def)
  note sent = send_accepted [OF sq]
  obtain h' where h': "om_get (st_handlers s1) hid = Some h'" "hs_served h' = hs_served h" using sent(5) [OF h(1)] by blast
  have serves_eq: "serves h' q = serves h q" for q using h'(2) by (simp add: serves_def)
  have waiting: "\<not> serves h' (key_at s1 d)" if d: "d \<in> set (st_pending ?s)" for d
  proof -
    obtain f where f: "call_at ?s d = Some f" using pending_calls [OF inv [unfolded store_inv_def]] d by auto
    then have "\<not> serves h (ce_iface f, ce_ord f)" using first d entry_of_call [OF f] by blast
    moreover have "call_at s1 d = Some f" using f s1(2,3) by (cases "d = c") auto
    ultimately show ?thesis by (simp add: serves_eq key_at_def)
  qed
  have claims: "unat (st_next_claim_id s1) + 1 < 2 ^ 64" "call_at s1 c = Some e" "serves h' (ce_iface e, ce_ord e)"
    "length (ce_args e) \<le> length out" "\<forall>d \<in> set (st_pending ?s). \<not> serves h' (key_at s1 d)"
    using sent(3) bounds(2) s1(3) h(2,3) waiting by (simp_all add: serves_eq ef)
  obtain j m where nc: "next_claim s1 hid out = Some (Inr (Some \<lparr>cl_id = j, cl_iface = ce_iface e, cl_ord = ce_ord e,
      cl_envelope = ce_envelope e, cl_trace = ce_trace e, cl_remaining = None, cl_len = length (ce_args e)\<rparr>),
      put_at out 0 (ce_args e), presented s1 c e j m hid True)"
    and inv2: "store_inv (presented s1 c e j m hid True)"
    and e2: "call_at (presented s1 c e j m hid True) c = Some (e\<lparr>ce_claim := Some j\<rparr>)"
    and rem: "remove1 c (st_pending s1) = st_pending ?s"
    by (rule next_claim_last [OF s1(1) claims(1) sent(1) claims(2) h'(1) claims(3,5,4)])
  let ?s2 = "presented s1 c e j m hid True"
  have own: "om_get (st_claims ?s2) j = Some \<lparr>co_call = c, co_handler = hid, co_taken = True\<rparr>"
    and wait: "st_pending ?s2 = st_pending ?s"
    by (simp_all add: presented_def rem)
  have "st_limits ?s2 = st_limits ?s" "st_fail_next_settle ?s2 = st_fail_next_settle ?s"
    using sent by (simp_all add: presented_def identified_def put_call_def)
  then have "store_admit ?s2 (i, k) (call_kind_kind kd) (length b) = Inr ()" "\<not> st_fail_next_settle ?s2"
    using reply by (simp_all add: store_admit_def store_limit_def)
  then obtain s3 w3 e3 where st: "store_settle ?s2 hid j (Inr b) [] = Some (Inr (), s3, w3)"
    "call_at s3 c = Some e3" "ce_reply e3 = b" "\<not> ce_pending_forget e3" "outcome_of (st_table s3) c = Some (Inr ())"
    using settle_recorded [OF inv2 own, of hid "e\<lparr>ce_claim := Some j\<rparr>" b "[]"] e2 ef by auto
  show ?thesis
    using nc st(1) reply_read [OF st(2,4,5), of buf] st(3) reply(3) ef own wait send_wakes [OF sq h(1,2)] by auto
qed

text \<open>
  A runtime in which a call of member \<open>(1, 3)\<close> waits, with a handler that serves \<open>(1, 2)\<close> only and
  has stored a waker.
\<close>

lemma sample_sent:
  "\<exists>rt ws d f. rt_run runtime_new [Op_Caller, Op_Send 0 CK_Query 1 3 [5] None, Op_Handler, Op_Serve 0 1 [2],
       Op_Handler_Wake 0 (IClaim 1) (Waker 5 5)] = Some (rt, ws) \<and>
     rt_callers rt = [\<lparr>ch_id = 0, ch_next_seq = 1\<rparr>] \<and> st_pending (rt_store rt) = [d] \<and>
     entry_of (rt_store rt) d = Some f \<and> (ce_iface f, ce_ord f) = (1, 3) \<and>
     om_get (st_handlers (rt_store rt)) 0 = Some \<lparr>hs_served = [(1, 2)], hs_waiters = waiters_new\<lparr>wt_claim := Some (Waker 5 5)\<rparr>\<rparr> \<and>
     \<not> st_fail_next_settle (rt_store rt) \<and> store_admit (rt_store rt) (1, 2) Query (Suc (Suc 0)) = Inr () \<and>
     (\<exists>c ch s w. caller_send (rt_store rt) \<lparr>ch_id = 0, ch_next_seq = 1\<rparr> CK_Query 1 2 [7] None = Some (Inr c, ch, s, w))"
  by (simp add: run_defs replicate_numeral handler_serve_def store_serve_def
      handler_wake_on_def wait_claim_def claim_waiting_def register_waiter_def waiters_register_def Rt_Correlate.store_def)

theorem call_roundtrip_witness:
  "\<exists>c cl s1 s2 s3 w1 w3. Waker 5 5 \<in> set w1 \<and> next_claim s1 0 [0, 0] = Some (Inr (Some cl), [7, 0], s2) \<and>
     length (st_pending s2) = 1 \<and> store_settle s2 0 (cl_id cl) (Inr [8, 9]) [] = Some (Inr (), s3, w3) \<and>
     store_reply s3 c [0, 0] = Some (Inr (Some (Inr 2)), [8, 9])"
proof -
  let ?ops = "[Op_Caller, Op_Send 0 CK_Query 1 3 [5] None, Op_Handler, Op_Serve 0 1 [2], Op_Handler_Wake 0 (IClaim 1) (Waker 5 5)]"
  let ?h = "\<lparr>hs_served = [(1, 2)], hs_waiters = waiters_new\<lparr>wt_claim := Some (Waker 5 5)\<rparr>\<rparr>"
  obtain rt ws d f c ch s w where run: "rt_run runtime_new ?ops = Some (rt, ws)"
    and rt: "rt_callers rt = [\<lparr>ch_id = 0, ch_next_seq = 1\<rparr>]" "st_pending (rt_store rt) = [d]"
      "entry_of (rt_store rt) d = Some f" "(ce_iface f, ce_ord f) = (1, 3)"
      "om_get (st_handlers (rt_store rt)) 0 = Some ?h"
      "\<not> st_fail_next_settle (rt_store rt)" "store_admit (rt_store rt) (1, 2) Query (Suc (Suc 0)) = Inr ()"
    and send: "caller_send (rt_store rt) \<lparr>ch_id = 0, ch_next_seq = 1\<rparr> CK_Query 1 2 [7] None = Some (Inr c, ch, s, w)"
    using sample_sent by (elim exE conjE)
  have "Waker 5 5 \<in> set w \<and> (\<exists>cl s2 s3 w3. next_claim s 0 [0, 0] = Some (Inr (Some cl), put_at [0, 0] 0 [7], s2) \<and>
    st_pending s2 = [d] \<and> store_settle s2 0 (cl_id cl) (Inr [8, 9]) [] = Some (Inr (), s3, w3) \<and>
    store_reply s3 c [0, 0] = Some (Inr (Some (Inr (Suc (Suc 0)))), put_at [0, 0] 0 [8, 9]))"
    using call_roundtrip [OF run _ _ send rt(5), of "[0, 0]" "[8, 9]" "[0, 0]"] rt by (auto simp: serves_def)
  then obtain cl s2 s3 w3 where "Waker 5 5 \<in> set w" "next_claim s 0 [0, 0] = Some (Inr (Some cl), put_at [0, 0] 0 [7], s2)"
    "st_pending s2 = [d]" "store_settle s2 0 (cl_id cl) (Inr [8, 9]) [] = Some (Inr (), s3, w3)"
    "store_reply s3 c [0, 0] = Some (Inr (Some (Inr (Suc (Suc 0)))), put_at [0, 0] 0 [8, 9])" by blast
  then show ?thesis
    by (intro exI [of _ c] exI [of _ cl] exI [of _ s] exI [of _ s2] exI [of _ s3] exI [of _ w] exI [of _ w3])
      (simp add: put_at_def numeral_2_eq_2)
qed

section \<open>Signals\<close>

lemma writer_fits:
  assumes ok: "rt_ok n rt" and n: "Suc n < 2 ^ 64" and w: "w \<in> set (rt_writers rt)"
  shows "commit_fits (rt_store rt) stg (wh_seqs w)" "om_wf (wh_staged w)"
proof -
  have b: "below n (wh_seqs w)" "below n (st_generations (rt_store rt))" "om_wf (wh_staged w)"
    using ok w by (simp_all add: rt_ok_def store_ok_def)
  have sq: "unat (seq_of (wh_seqs w) k) \<le> n" for k
    using belowD [OF b(1), of k] by (cases "om_get (wh_seqs w) k") (simp_all add: seq_of_def)
  have gn: "unat (gen_of (st_generations (rt_store rt)) i) \<le> n" for i
    using belowD [OF b(2), of i] by (cases "om_get (st_generations (rt_store rt)) i") (simp_all add: gen_of_def)
  show "commit_fits (rt_store rt) stg (wh_seqs w)"
    unfolding commit_fits_def
  proof (intro ballI conjI)
    fix k show "unat (seq_of (wh_seqs w) k) + 1 < 2 ^ 64" "unat (gen_of (st_generations (rt_store rt)) (fst k)) + 1 < 2 ^ 64"
      using sq [of k] gn [of "fst k"] n by simp_all
  qed
  show "om_wf (wh_staged w)" by (fact b(3))
qed

text \<open>A commit of a writer of a reachable runtime, and what it published.\<close>

lemma writer_commits:
  assumes "rt_ok n rt" "Suc n < 2 ^ 64" "w \<in> set (rt_writers rt)" "om_wf stg"
  obtains s' seqs' where "writer_commit (rt_store rt) (w\<lparr>wh_staged := stg\<rparr>) = Some (s', w\<lparr>wh_staged := [], wh_seqs := seqs'\<rparr>)"
    "store_commit (rt_store rt) stg (wh_seqs w) = Some (s', [], seqs')"
    "committed_all (rt_store rt) stg (wh_seqs w) s' seqs'"
proof -
  obtain s' seqs' where c: "store_commit (rt_store rt) stg (wh_seqs w) = Some (s', [], seqs')"
    "committed_all (rt_store rt) stg (wh_seqs w) s' seqs'"
    using store_commit_ok [OF assms(4) writer_fits(1) [OF assms(1-3)]] by (auto elim!: runsE)
  then show thesis by (intro that) (simp_all add: writer_commit_def)
qed

text \<open>
  C8: A value set and committed is the value read. When the member's check accepts the value, or the
  member has none, a read after the commit copies exactly the bytes set, as live, stamped with the
  clock and the next number of the writer's sequence for that member. When the check rejects the
  value, the read has the bytes published before and the detection as the cause.
\<close>

theorem set_commit_read:
  assumes run: "rt_run runtime_new ops = Some (rt, ws)" "Suc (length ops) < 2 ^ 64" and w: "w \<in> set (rt_writers rt)"
    and set: "writer_set (rt_store rt) w i k b = (Inr (), w1)" and room: "length b \<le> length out"
    and old: "\<forall>e. om_get (st_signals (rt_store rt)) (i, k) = Some e \<longrightarrow> length (se_bytes e) \<le> length out"
  shows "\<exists>s' w2. writer_commit (rt_store rt) w1 = Some (s', w2) \<and> wh_staged w2 = [] \<and>
    store_read s' i k out =
      (let verdict = (case om_get (st_checks (rt_store rt)) (i, k) of None \<Rightarrow> Inr () | Some chk \<Rightarrow> chk b);
           before = (case om_get (st_signals (rt_store rt)) (i, k) of None \<Rightarrow> [] | Some e \<Rightarrow> se_bytes e);
           n = (case om_get (wh_seqs w) (i, k) of None \<Rightarrow> 0 | Some n \<Rightarrow> n) + 1;
           (bs, prov) = (case verdict of Inr _ \<Rightarrow> (b, Live) | Inl d \<Rightarrow> (before, Invalid (Detected d)))
       in (Inr \<lparr>rs_provenance = prov, rs_freshness = Unbounded,
               rs_envelope = \<lparr>stamp = st_now (rt_store rt), seq = n\<rparr>, rs_len = length bs\<rparr>, put_at out 0 bs))"
proof -
  let ?s = "rt_store rt" and ?stg = "om_put (i, k) (Staged_Set b) (wh_staged w)"
  have ok: "rt_ok (length ops) rt" using reached [OF run(1)] run(2) by simp
  have w1: "w1 = w\<lparr>wh_staged := ?stg\<rparr>" using set by (auto simp: writer_set_def split: sum.splits)
  have wf: "om_wf ?stg" using writer_fits(2) [OF ok run(2) w] by simp
  obtain s' seqs' where c: "writer_commit ?s w1 = Some (s', w\<lparr>wh_staged := [], wh_seqs := seqs'\<rparr>)"
    and com: "committed_all ?s ?stg (wh_seqs w) s' seqs'"
    using writer_commits [OF ok run(2) w wf] unfolding w1 by blast
  have "om_get (commit_kept ?s ?stg) (i, k) = Some (Staged_Set b)" using commit_kept_get [OF wf] by simp
  moreover have "om_get (st_signals s') key = (case om_get (commit_kept ?s ?stg) key of
         None \<Rightarrow> om_get (st_signals ?s) key
       | Some op \<Rightarrow> Some (publication ?s key op (seq_of (wh_seqs w) key + 1) (gen_of (st_generations ?s) (fst key) + 1)))" for key
    using com unfolding committed_all_def Let_def by blast
  ultimately have "\<exists>g. om_get (st_signals s') (i, k) = Some (publication ?s (i, k) (Staged_Set b) (seq_of (wh_seqs w) (i, k) + 1) g)"
    by auto
  then obtain g where e: "om_get (st_signals s') (i, k) = Some (publication ?s (i, k) (Staged_Set b) (seq_of (wh_seqs w) (i, k) + 1) g)" ..
  have "store_read s' i k out =
      (let verdict = (case om_get (st_checks ?s) (i, k) of None \<Rightarrow> Inr () | Some chk \<Rightarrow> chk b);
           before = (case om_get (st_signals ?s) (i, k) of None \<Rightarrow> [] | Some e \<Rightarrow> se_bytes e);
           n = (case om_get (wh_seqs w) (i, k) of None \<Rightarrow> 0 | Some n \<Rightarrow> n) + 1;
           (bs, prov) = (case verdict of Inr _ \<Rightarrow> (b, Live) | Inl d \<Rightarrow> (before, Invalid (Detected d)))
       in (Inr \<lparr>rs_provenance = prov, rs_freshness = Unbounded,
               rs_envelope = \<lparr>stamp = st_now ?s, seq = n\<rparr>, rs_len = length bs\<rparr>, put_at out 0 bs))"
    using e room old
    by (cases "om_get (st_checks ?s) (i, k)"; cases "om_get (st_signals ?s) (i, k)")
      (auto simp: store_read_def publication_def commit_value_def sample_of_def seq_of_def Let_def split: sum.splits option.split)
  then show ?thesis
    by (intro exI [of _ s'] exI [of _ "w\<lparr>wh_staged := [], wh_seqs := seqs'\<rparr>"] conjI c) simp_all
qed


theorem set_commit_read_witness:
  "\<exists>(rt :: runtime) s' (w1 :: writer_handle) w2. writer_commit (rt_store rt) w1 = Some (s', w2) \<and>
     store_read s' 1 2 [0, 0] = (Inr \<lparr>rs_provenance = Live, rs_freshness = Unbounded,
       rs_envelope = \<lparr>stamp = 0, seq = 1\<rparr>, rs_len = 1\<rparr>, [7, 0])"
proof -
  have run: "rt_run runtime_new [Op_Writer] = Some (runtime_new\<lparr>rt_writers := [writer_new]\<rparr>, [])" (is "_ = Some (?rt, _)")
    by (simp add: rt_run_def) (simp add: runtime_new_def)
  have set: "writer_set (rt_store ?rt) writer_new 1 2 [7] = (Inr (), writer_new\<lparr>wh_staged := [((1, 2), Staged_Set [7])]\<rparr>)"
    by (simp add: writer_set_def store_admit_def store_limit_def runtime_new_def store_new_def writer_new_def om_get_def
        SIGNAL_EVENT_CEILING_def)
  from set_commit_read [OF run _ _ set, of "[0, 0]"] obtain s' w2 where
    "writer_commit (rt_store ?rt) (writer_new\<lparr>wh_staged := [((1, 2), Staged_Set [7])]\<rparr>) = Some (s', w2)"
    "store_read s' 1 2 [0, 0] = (Inr \<lparr>rs_provenance = Live, rs_freshness = Unbounded,
       rs_envelope = \<lparr>stamp = 0, seq = 1\<rparr>, rs_len = 1\<rparr>, [7, 0])"
    by (auto simp: runtime_new_def store_new_def writer_new_def om_get_def put_at_def Let_def)
  then show ?thesis
    by (rule exI [of _ ?rt, OF exI [of _ s', OF exI [of _ "writer_new\<lparr>wh_staged := [((1, 2), Staged_Set [7])]\<rparr>",
        OF exI [of _ w2, OF conjI]]]])
qed

text \<open>What a commit changes, as seen by a watermark that was current before it.\<close>

lemma kept_newer:
  assumes fits: "commit_fits s (wh_staged w) seqs" and mark: "wm_generation m = store_generation s (wm_iface m)"
    and kept: "om_get (commit_kept s (wh_staged w)) (wm_iface m, k) = Some op"
  shows "wm_generation m < gen_of (st_generations s) (wm_iface m) + 1"
proof -
  have "((wm_iface m, k), op) \<in> set (wh_staged w)" using om_get_in [OF kept] by (auto simp: commit_kept_def)
  then have "unat (gen_of (st_generations s) (wm_iface m)) + 1 < 2 ^ 64" using fits by (force simp: commit_fits_def)
  from gen_le_inc [OF this] show ?thesis using mark by (simp add: store_generation_eq)
qed

lemma committed_changes:
  assumes sig: "signals_ok s" and wf: "om_wf (st_signals s')" and fits: "commit_fits s (wh_staged w) seqs"
    and com: "committed_all s (wh_staged w) seqs s' seqs'" and mark: "wm_generation m = store_generation s (wm_iface m)"
  shows "set (changes_of s' m) = {\<lparr>cg_iface = wm_iface m, cg_ord = k, cg_seq = seq_of seqs (wm_iface m, k) + 1\<rparr> | k.
    om_get (commit_kept s (wh_staged w)) (wm_iface m, k) \<noteq> None}" (is "_ = ?R")
proof (intro set_eqI iffI)
  have sg: "om_get (st_signals s') key = (case om_get (commit_kept s (wh_staged w)) key of
         None \<Rightarrow> om_get (st_signals s) key
       | Some op \<Rightarrow> Some (publication s key op (seq_of seqs key + 1) (gen_of (st_generations s) (fst key) + 1)))" for key
    using com unfolding committed_all_def Let_def by blast
  have old: "\<not> se_changed_at e > wm_generation m" if "om_get (st_signals s) (wm_iface m, k) = Some e" for k e
    using sig that mark by (auto simp: signals_ok_def not_less)
  fix ch
  show "ch \<in> ?R" if ch: "ch \<in> set (changes_of s' m)"
  proof -
    obtain e where "cg_iface ch = wm_iface m" "om_get (st_signals s') (wm_iface m, cg_ord ch) = Some e"
      "se_changed_at e > wm_generation m" "cg_seq ch = seq (se_envelope e)"
      using ch changes_of_in [OF wf] by blast
    then show ?thesis
      using sg [of "(wm_iface m, cg_ord ch)"] old by (cases ch) (auto simp: publication_def split: option.splits)
  qed
  show "ch \<in> set (changes_of s' m)" if ch: "ch \<in> ?R"
  proof -
    obtain k op where k: "ch = \<lparr>cg_iface = wm_iface m, cg_ord = k, cg_seq = seq_of seqs (wm_iface m, k) + 1\<rparr>"
      "om_get (commit_kept s (wh_staged w)) (wm_iface m, k) = Some op" using ch by auto
    then show ?thesis
      using sg [of "(wm_iface m, k)"] kept_newer [OF fits mark k(2)] unfolding changes_of_in [OF wf]
      by (simp add: publication_def)
  qed
qed

lemma unchanged_current:
  assumes fits: "commit_fits s (wh_staged w) seqs" and com: "committed_all s (wh_staged w) seqs s' seqs'"
    and mark: "wm_generation m = store_generation s (wm_iface m)" and cur: "store_generation s' (wm_iface m) \<le> wm_generation m"
  shows "om_get (commit_kept s (wh_staged w)) (wm_iface m, k) = None"
proof (rule ccontr)
  assume "om_get (commit_kept s (wh_staged w)) (wm_iface m, k) \<noteq> None"
  then obtain op where op: "om_get (commit_kept s (wh_staged w)) (wm_iface m, k) = Some op" by blast
  have "wm_iface m \<in> fst ` fst ` set (commit_kept s (wh_staged w))" using om_get_in [OF op] by force
  then have "store_generation s' (wm_iface m) = store_generation s (wm_iface m) + 1"
    using committed_generation [OF com] by simp
  then show False using kept_newer [OF fits mark op] cur by (simp add: store_generation_eq)
qed

lemma scan_marked:
  assumes wf: "om_wf (st_signals s)" and room: "length (st_signals s) \<le> length out"
    and none: "store_generation s (wm_iface m) \<le> wm_generation m \<Longrightarrow> changes_of s m = []"
  shows "\<exists>n m' out'. store_scan s [m] out = (n, [m'], out') \<and> take n out' = changes_of s m \<and>
    store_scan s [m'] out' = (0, [m'], out')"
proof (cases "wm_generation m < store_generation s (wm_iface m)")
  case True
  let ?m = "m\<lparr>wm_generation := store_generation s (wm_iface m)\<rparr>" and ?out = "put_at out 0 (changes_of s m)"
  have len: "length (changes_of s m) \<le> length out"
    using room by (rule order_trans [rotated]) (simp add: changes_of_def)
  have "take (length (changes_of s m)) ?out = changes_of s m" by (simp add: put_at_def)
  moreover have "store_scan s [?m] ?out = (0, [?m], ?out)" by (rule scan_current) simp
  ultimately show ?thesis using scan_one [OF True len] by blast
next
  case False
  then have "store_scan s [m] out = (0, [m], out)" "changes_of s m = []"
    using none by (auto intro: scan_current simp: not_less)
  then show ?thesis by auto
qed

text \<open>
  C9: A scan reports exactly what a commit published. For a watermark that was current before the
  commit, a scan after it into a buffer with room reports each member of that interface the commit
  published, once, with its new sequence number, and nothing else; the watermark it returns is
  current, so the next scan reports nothing. A touch of a member never published is not reported.
\<close>

theorem scan_after_commit:
  assumes run: "rt_run runtime_new ops = Some (rt, ws)" "Suc (length ops) < 2 ^ 64" and w: "w \<in> set (rt_writers rt)"
    and commit: "writer_commit (rt_store rt) w = Some (s', w2)"
    and mark: "wm_generation m = store_generation (rt_store rt) (wm_iface m)" and room: "length (st_signals s') \<le> length out"
  shows "\<exists>n m' out'. store_scan s' [m] out = (n, [m'], out') \<and>
    set (take n out') = {\<lparr>cg_iface = wm_iface m, cg_ord = k, cg_seq = (case om_get (wh_seqs w) (wm_iface m, k) of None \<Rightarrow> 0 | Some q \<Rightarrow> q) + 1\<rparr> | k.
       \<exists>op. om_get (wh_staged w) (wm_iface m, k) = Some op \<and>
         (op = Staged_Touch \<longrightarrow> om_get (st_signals (rt_store rt)) (wm_iface m, k) \<noteq> None)} \<and>
    distinct (map cg_ord (take n out')) \<and> store_scan s' [m'] out' = (0, [m'], out')"
proof -
  let ?s = "rt_store rt" and ?i = "wm_iface m"
  have ok: "rt_ok (length ops) rt" using reached [OF run(1)] run(2) by simp
  have sig: "signals_ok ?s" using ok by (simp add: rt_ok_def store_ok_def)
  note fits = writer_fits(1) [OF ok run(2) w, of "wh_staged w"] writer_fits(2) [OF ok run(2) w]
  obtain seqs' where c: "store_commit ?s (wh_staged w) (wh_seqs w) = Some (s', [], seqs')"
    and com: "committed_all ?s (wh_staged w) (wh_seqs w) s' seqs'"
    using writer_commits [OF ok run(2) w fits(2)] commit by auto
  have wf: "om_wf (st_signals s')"
    using commit_signals_ok [OF sig fits c com] by (simp add: signals_ok_def)
  note changes = committed_changes [OF sig wf fits(1) com mark]
  have kept: "(om_get (commit_kept ?s (wh_staged w)) (?i, k) \<noteq> None) \<longleftrightarrow> (\<exists>op. om_get (wh_staged w) (?i, k) = Some op \<and>
         (op = Staged_Touch \<longrightarrow> om_get (st_signals ?s) (?i, k) \<noteq> None))" for k
    using commit_kept_get [OF fits(2)] by (auto split: if_splits)
  have "changes_of s' m = []" if "store_generation s' ?i \<le> wm_generation m"
    using unchanged_current [OF fits(1) com mark that] changes by simp
  from scan_marked [OF wf room this] obtain n m' out' where scan: "store_scan s' [m] out = (n, [m'], out')"
    "take n out' = changes_of s' m" "store_scan s' [m'] out' = (0, [m'], out')" by blast
  show ?thesis
    using distinct_changes_of [OF wf, of m] changes unfolding kept seq_of_def
    by (intro exI [of _ n] exI [of _ m'] exI [of _ out'] conjI scan(1,3)) (simp_all only: scan(2))
qed

theorem scan_after_commit_witness:
  "\<exists>(rt :: runtime) s' (w :: writer_handle) w2 n m' out'. writer_commit (rt_store rt) w = Some (s', w2) \<and>
     store_scan s' [\<lparr>wm_iface = 1, wm_generation = 0\<rparr>] [\<lparr>cg_iface = 0, cg_ord = 0, cg_seq = 0\<rparr>] = (n, [m'], out') \<and>
     set (take n out') = {\<lparr>cg_iface = 1, cg_ord = 2, cg_seq = 1\<rparr>}"
proof -
  let ?w = "writer_new\<lparr>wh_staged := [((1, 2), Staged_Set [7])]\<rparr>"
  let ?rt = "runtime_new\<lparr>rt_writers := [?w]\<rparr>"
  have run: "rt_run runtime_new [Op_Writer, Op_Set 0 1 2 [7]] = Some (?rt, [])"
    by (simp add: rt_run_def at_handle_def runtime_new_def writer_set_def store_admit_def store_limit_def store_new_def
        writer_new_def om_get_def SIGNAL_EVENT_CEILING_def)
  have c: "\<exists>s' w2. writer_commit (rt_store ?rt) ?w = Some (s', w2) \<and> length (st_signals s') = 1"
    by (simp add: writer_commit_def store_commit_def commit_kept_def commit_one_def commit_value_def inc_u64_def
        runtime_new_def store_new_def writer_new_def om_get_def Let_def)
  then obtain s' w2 where commit: "writer_commit (rt_store ?rt) ?w = Some (s', w2)" and one: "length (st_signals s') = 1"
    by blast
  have eq: "{\<lparr>cg_iface = 1, cg_ord = k, cg_seq = (case om_get (wh_seqs ?w) (1, k) of None \<Rightarrow> 0 | Some q \<Rightarrow> q) + 1\<rparr> | k.
       \<exists>op. om_get (wh_staged ?w) (1, k) = Some op \<and>
         (op = Staged_Touch \<longrightarrow> om_get (st_signals (rt_store ?rt)) (1, k) \<noteq> None)} = {\<lparr>cg_iface = 1, cg_ord = 2, cg_seq = 1\<rparr>}"
    by (auto simp: writer_new_def om_get_def)
  have "\<exists>n m' out'. store_scan s' [\<lparr>wm_iface = 1, wm_generation = 0\<rparr>] [\<lparr>cg_iface = 0, cg_ord = 0, cg_seq = 0\<rparr>] = (n, [m'], out') \<and>
     set (take n out') = {\<lparr>cg_iface = 1, cg_ord = 2, cg_seq = 1\<rparr>}"
    using scan_after_commit [OF run _ _ commit, of "\<lparr>wm_iface = 1, wm_generation = 0\<rparr>" "[\<lparr>cg_iface = 0, cg_ord = 0, cg_seq = 0\<rparr>]"]
      one eq by (auto simp: store_generation_def runtime_new_def store_new_def om_get_def)
  with commit show ?thesis by blast
qed

end
