(* ===== verification/Syn_Keywords.thy ===== *)
theory Syn_Keywords
  imports Prelude
begin

text \<open>
  The token kinds of the family grammar (\<open>crates/ridl-syntax/src/syntax_kind.rs\<close>) and the
  reserved-word registry (\<open>crates/ridl-syntax/src/keywords.rs\<close>). The node kinds, which only the
  parser produces, are left out of the datatype. A \<open>&str\<close> is the bytes it holds.
\<close>

section \<open>Token kinds\<close>

text \<open>The groups of the source's \<open>SyntaxKind\<close>: the keywords of each profile, punctuation, expression operators.\<close>

datatype typl_kw =
    PackageKw | ImportKw | AsKw | InternalKw | TypeKw | ConstKw | StructKw | EnumKw | EnumsetKw
  | UnionKw | BooleanKw | IntegerKw | FloatKw | StringKw | BytesKw | TrueKw | FalseKw | StepKw
  | MatchKw | ReservedKw | ErrorKw

datatype ridl_kw =
    InterfaceKw | ServiceKw | SignalKw | EventKw | CommandKw | QueryKw | FixedKw | RequireKw
  | EnsureKw

datatype rsdl_kw =
    SystemKw | ComponentKw | DistributionKw | DeploymentKw | MachineKw | OffersKw | RequiresKw
  | ForKw

datatype punct =
    Colon | Eq | LBracket | RBracket | LBrace | RBrace | LParen | RParen | DotDot | Dot | Slash
  | Comma | Question | Semicolon | At | Pipe | Percent | Minus

datatype operator =
    Lt | Le | Gt | Ge | EqEq | Neq | AmpAmp | PipePipe | Bang | Plus | Star

datatype syntax_kind =
    Typl_Kw typl_kw | OpenKw | Ridl_Kw ridl_kw | Rsdl_Kw rsdl_kw | ReservedWord
  | Ident | IntNumber | FloatNumber | String | Regex | Duration | Punct punct | Operator operator
  | Whitespace | LineComment | BlockComment | DocComment | Error

definition is_trivia :: "syntax_kind \<Rightarrow> bool" where
  "is_trivia k \<longleftrightarrow> k = Whitespace \<or> k = LineComment \<or> k = BlockComment \<or> k = DocComment"

section \<open>The registry\<close>

datatype profile = Typl | Ridl | Rsdl

definition TYPL_KEYWORDS :: "(bytes \<times> syntax_kind) list" where
  "TYPL_KEYWORDS = [
    (ascii ''package'', Typl_Kw PackageKw), (ascii ''import'', Typl_Kw ImportKw), (ascii ''as'', Typl_Kw AsKw),
    (ascii ''internal'', Typl_Kw InternalKw), (ascii ''type'', Typl_Kw TypeKw), (ascii ''const'', Typl_Kw ConstKw),
    (ascii ''struct'', Typl_Kw StructKw), (ascii ''enum'', Typl_Kw EnumKw), (ascii ''enumset'', Typl_Kw EnumsetKw),
    (ascii ''union'', Typl_Kw UnionKw), (ascii ''boolean'', Typl_Kw BooleanKw), (ascii ''integer'', Typl_Kw IntegerKw),
    (ascii ''float'', Typl_Kw FloatKw), (ascii ''string'', Typl_Kw StringKw), (ascii ''bytes'', Typl_Kw BytesKw),
    (ascii ''true'', Typl_Kw TrueKw), (ascii ''false'', Typl_Kw FalseKw), (ascii ''step'', Typl_Kw StepKw),
    (ascii ''match'', Typl_Kw MatchKw), (ascii ''reserved'', Typl_Kw ReservedKw), (ascii ''error'', Typl_Kw ErrorKw)]"

definition RIDL_KEYWORDS :: "(bytes \<times> syntax_kind) list" where
  "RIDL_KEYWORDS = [
    (ascii ''interface'', Ridl_Kw InterfaceKw), (ascii ''service'', Ridl_Kw ServiceKw),
    (ascii ''signal'', Ridl_Kw SignalKw), (ascii ''event'', Ridl_Kw EventKw), (ascii ''command'', Ridl_Kw CommandKw),
    (ascii ''query'', Ridl_Kw QueryKw), (ascii ''fixed'', Ridl_Kw FixedKw), (ascii ''require'', Ridl_Kw RequireKw),
    (ascii ''ensure'', Ridl_Kw EnsureKw)]"

definition RSDL_KEYWORDS :: "(bytes \<times> syntax_kind) list" where
  "RSDL_KEYWORDS = [
    (ascii ''system'', Rsdl_Kw SystemKw), (ascii ''component'', Rsdl_Kw ComponentKw),
    (ascii ''distribution'', Rsdl_Kw DistributionKw), (ascii ''deployment'', Rsdl_Kw DeploymentKw),
    (ascii ''machine'', Rsdl_Kw MachineKw), (ascii ''offers'', Rsdl_Kw OffersKw), (ascii ''requires'', Rsdl_Kw RequiresKw),
    (ascii ''for'', Rsdl_Kw ForKw)]"

definition FAMILY_RESERVED :: "bytes list" where
  "FAMILY_RESERVED = map ascii [
    ''package'', ''import'', ''as'', ''internal'', ''type'', ''const'', ''struct'', ''enum'',
    ''enumset'', ''union'', ''boolean'', ''integer'', ''float'', ''string'', ''bytes'', ''true'',
    ''false'', ''step'', ''match'', ''reserved'', ''error'', ''interface'', ''service'',
    ''signal'', ''event'', ''command'', ''query'', ''fixed'', ''states'', ''during'', ''require'',
    ''ensure'', ''model'', ''function'', ''let'', ''init'', ''last'', ''case'', ''if'', ''then'',
    ''else'', ''when'', ''emit'', ''merge'', ''current'', ''state'', ''transition'', ''automaton'',
    ''system'', ''component'', ''distribution'', ''deployment'', ''machine'', ''offers'',
    ''requires'', ''for'']"

definition find_word :: "(bytes \<times> syntax_kind) list \<Rightarrow> bytes \<Rightarrow> syntax_kind option" where
  "find_word table text = map_option snd (List.find (\<lambda>(word, _). word = text) table)"

definition typl_keyword :: "bytes \<Rightarrow> syntax_kind option" where
  "typl_keyword text = find_word TYPL_KEYWORDS text"

definition ridl_keyword :: "bytes \<Rightarrow> syntax_kind option" where
  "ridl_keyword text = find_word RIDL_KEYWORDS text"

definition rsdl_keyword :: "bytes \<Rightarrow> syntax_kind option" where
  "rsdl_keyword text = find_word RSDL_KEYWORDS text"

fun or_else :: "'a option \<Rightarrow> 'a option \<Rightarrow> 'a option" where
  "or_else (Some x) _ = Some x"
| "or_else None y = y"

fun keyword_in :: "profile \<Rightarrow> bytes \<Rightarrow> syntax_kind option" where
  "keyword_in Typl text = typl_keyword text"
| "keyword_in Ridl text = or_else (typl_keyword text) (ridl_keyword text)"
| "keyword_in Rsdl text = or_else (typl_keyword text) (rsdl_keyword text)"

definition is_reserved :: "bytes \<Rightarrow> bool" where
  "is_reserved text \<longleftrightarrow> text \<in> set FAMILY_RESERVED"

section \<open>The tables are consistent\<close>

lemma find_word_iff:
  assumes "distinct (map fst table)"
  shows "find_word table text = Some k \<longleftrightarrow> (text, k) \<in> set table"
  using assms
proof (induction table)
  case Nil
  then show ?case by (simp add: find_word_def)
next
  case (Cons e table)
  then show ?case by (cases e) (force simp: find_word_def)
qed

lemma find_word_append: "find_word (as @ bs) text = or_else (find_word as text) (find_word bs text)"
  by (induction as) (auto simp: find_word_def)

text \<open>The words active in a profile.\<close>

fun profile_words :: "profile \<Rightarrow> (bytes \<times> syntax_kind) list" where
  "profile_words Typl = TYPL_KEYWORDS"
| "profile_words Ridl = TYPL_KEYWORDS @ RIDL_KEYWORDS"
| "profile_words Rsdl = TYPL_KEYWORDS @ RSDL_KEYWORDS"

text \<open>No word has two meanings, within a table or between two, and every active word is reserved.\<close>

lemma tables_distinct: "distinct (map fst (TYPL_KEYWORDS @ RIDL_KEYWORDS @ RSDL_KEYWORDS))"
  by code_simp

lemma profile_words_distinct: "distinct (map fst (profile_words profile))"
  using tables_distinct by (cases profile) auto

lemma keyword_in_iff: "keyword_in profile text = Some k \<longleftrightarrow> (text, k) \<in> set (profile_words profile)"
proof -
  have "keyword_in profile text = find_word (profile_words profile) text"
    by (cases profile) (simp_all add: find_word_append typl_keyword_def ridl_keyword_def rsdl_keyword_def)
  then show ?thesis by (simp add: find_word_iff profile_words_distinct)
qed

lemma tables_kinds:
  "list_all (\<lambda>(w, k). is_reserved w \<and> k \<noteq> Ident \<and> k \<noteq> ReservedWord \<and> k \<noteq> String \<and> k \<noteq> Regex)
     (TYPL_KEYWORDS @ RIDL_KEYWORDS @ RSDL_KEYWORDS)"
  by code_simp

lemma profile_words_kinds:
  "list_all (\<lambda>(w, k). is_reserved w \<and> k \<noteq> Ident \<and> k \<noteq> ReservedWord \<and> k \<noteq> String \<and> k \<noteq> Regex) (profile_words profile)"
  using tables_kinds by (cases profile) simp_all

lemma keyword_reserved:
  assumes "keyword_in profile text = Some k"
  shows "is_reserved text" "k \<noteq> Ident" "k \<noteq> ReservedWord" "k \<noteq> String" "k \<noteq> Regex"
  using profile_words_kinds [of profile] assms by (auto simp: keyword_in_iff list_all_iff)

end
