(* ===== verification/Syn_Lexer.thy ===== *)
theory Syn_Lexer
  imports Syn_Keywords
begin

text \<open>
  The family lexer (\<open>crates/ridl-syntax/src/lexer.rs\<close>). The \<open>logos\<close> crate, which runs the token
  patterns, is the argument \<open>eng\<close>: given the rest of the input it returns the pattern it matched and
  the bytes of the match, or how many bytes it skipped as an error. What the lexer relies on is
  \<open>logos_contract\<close>: the longest match of the patterns the source declares, and an error of at least
  one whole character. An operation returns \<open>None\<close> when it panics, which for a string is a slice at
  a position that does not start a character.
\<close>

section \<open>Strings\<close>

definition is_char_boundary :: "bytes \<Rightarrow> nat \<Rightarrow> bool" where
  "is_char_boundary s i \<longleftrightarrow> i = length s \<or> i < length s \<and> \<not> cont_byte (s ! i)"

definition str_slice :: "bytes \<Rightarrow> nat \<Rightarrow> nat \<Rightarrow> bytes option" where
  "str_slice s a b =
     (if a \<le> b \<and> b \<le> length s \<and> is_char_boundary s a \<and> is_char_boundary s b then Some (take (b - a) (drop a s)) else None)"

section \<open>The token patterns\<close>

datatype raw_token = Raw_Ident | Raw_FloatNumber | Raw_IntNumber | Raw_Str | Raw_DocCommentLine | Raw_LineComment
  | Raw_BlockComment bool | Raw_Punct punct | Raw_Operator operator | Raw_Whitespace

fun raw_kind :: "raw_token \<Rightarrow> syntax_kind" where
  "raw_kind Raw_Ident = Ident"
| "raw_kind Raw_FloatNumber = FloatNumber"
| "raw_kind Raw_IntNumber = IntNumber"
| "raw_kind Raw_Str = String"
| "raw_kind Raw_DocCommentLine = DocComment"
| "raw_kind Raw_LineComment = LineComment"
| "raw_kind (Raw_BlockComment is_doc) = (if is_doc then DocComment else BlockComment)"
| "raw_kind (Raw_Punct p) = Punct p"
| "raw_kind (Raw_Operator r) = Operator r"
| "raw_kind Raw_Whitespace = Whitespace"

definition is_letter :: "u8 \<Rightarrow> bool" where
  "is_letter b \<longleftrightarrow> 0x41 \<le> b \<and> b \<le> 0x5A \<or> 0x61 \<le> b \<and> b \<le> 0x7A"

definition is_digit :: "u8 \<Rightarrow> bool" where
  "is_digit b \<longleftrightarrow> 0x30 \<le> b \<and> b \<le> 0x39"

definition is_white :: "u8 \<Rightarrow> bool" where
  "is_white b \<longleftrightarrow> b = 0x20 \<or> b = 0x09 \<or> b = 0x0D \<or> b = 0x0A"

text \<open>The length of the longest match of each \<open>#[regex]\<close> at the start of the text, zero when there is none.\<close>

definition ident_len :: "bytes \<Rightarrow> nat" where
  "ident_len s = (case s of [] \<Rightarrow> 0
     | b # r \<Rightarrow> if is_letter b then 1 + length (takeWhile (\<lambda>c. is_letter c \<or> is_digit c \<or> c = 0x5F) r) else 0)"

definition int_len :: "bytes \<Rightarrow> nat" where
  "int_len s = length (takeWhile is_digit s)"

definition float_len :: "bytes \<Rightarrow> nat" where
  "float_len s =
     (let d = int_len s; f = int_len (drop (d + 1) s) in
      if 0 < d \<and> d < length s \<and> s ! d = 0x2E \<and> 0 < f then d + 1 + f else 0)"

definition whitespace_len :: "bytes \<Rightarrow> nat" where
  "whitespace_len s = length (takeWhile is_white s)"

text \<open>The \<open>#[token]\<close> literals.\<close>

definition literals :: "(bytes \<times> raw_token) list" where
  "literals = map (\<lambda>(s, t). (ascii s, t)) [
     ([CHR 0x22], Raw_Str), (''///'', Raw_DocCommentLine), (''//'', Raw_LineComment), (''/*'', Raw_BlockComment False),
     ('':'', Raw_Punct Colon), (''='', Raw_Punct Eq), (''['', Raw_Punct LBracket), ('']'', Raw_Punct RBracket), (''{'', Raw_Punct LBrace),
     (''}'', Raw_Punct RBrace), (''('', Raw_Punct LParen), ('')'', Raw_Punct RParen), (''..'', Raw_Punct DotDot), (''.'', Raw_Punct Dot),
     (''/'', Raw_Punct Slash), ('','', Raw_Punct Comma), (''?'', Raw_Punct Question), ('';'', Raw_Punct Semicolon), (''@'', Raw_Punct At),
     (''|'', Raw_Punct Pipe), (''%'', Raw_Punct Percent), (''-'', Raw_Punct Minus), (''<'', Raw_Operator Lt), (''<='', Raw_Operator Le), (''>'', Raw_Operator Gt),
     (''>='', Raw_Operator Ge), (''=='', Raw_Operator EqEq), (''!='', Raw_Operator Neq), (''&&'', Raw_Operator AmpAmp), (''||'', Raw_Operator PipePipe),
     (''!'', Raw_Operator Bang), (''+'', Raw_Operator Plus), (''*'', Raw_Operator Star)]"

definition starts_with :: "bytes \<Rightarrow> bytes \<Rightarrow> bool" where
  "starts_with s p \<longleftrightarrow> take (length p) s = p"

definition pattern_matches :: "bytes \<Rightarrow> (raw_token \<times> nat) list" where
  "pattern_matches s = filter (\<lambda>(_, n). 0 < n)
     ([(Raw_Ident, ident_len s), (Raw_FloatNumber, float_len s), (Raw_IntNumber, int_len s), (Raw_Whitespace, whitespace_len s)] @
      map (\<lambda>(p, t). (t, length p)) (filter (\<lambda>(p, _). starts_with s p) literals))"

datatype lexeme = Matched raw_token nat | Unmatched nat

type_synonym engine = "bytes \<Rightarrow> lexeme"

section \<open>The callbacks\<close>

definition is_line_break :: "bytes \<Rightarrow> nat \<Rightarrow> bool" where
  "is_line_break s i \<longleftrightarrow> s ! i = 0x0A \<or> s ! i = 0x0D \<and> \<not> (i + 1 < length s \<and> s ! (i + 1) = 0x0A)"

function string_from :: "bytes \<Rightarrow> nat \<Rightarrow> bool \<times> nat" where
  "string_from s i =
     (if i < length s then
        (if is_line_break s i then (False, i)
         else if s ! i = 0x5C then
           (if i + 1 \<ge> length s \<or> is_line_break s (i + 1) then (False, i + 1) else string_from s (i + 2))
         else if s ! i = 0x22 then (True, i + 1)
         else string_from s (i + 1))
      else (False, length s))"
  by pat_completeness auto
termination by (relation "measure (\<lambda>(s, i). length s - i)") auto

declare string_from.simps [simp del]

definition lex_string :: "bytes \<Rightarrow> bool \<times> nat" where
  "lex_string remainder = string_from remainder 0"

definition lex_line_comment :: "bytes \<Rightarrow> nat" where
  "lex_line_comment remainder =
     (case List.find (is_line_break remainder) [0..<length remainder] of Some i \<Rightarrow> i | None \<Rightarrow> length remainder)"

fun find_close :: "bytes \<Rightarrow> nat option" where
  "find_close (b # c # r) = (if b = 0x2A \<and> c = 0x2F then Some 0 else map_option Suc (find_close (c # r)))"
| "find_close _ = None"

definition lex_block_comment :: "bytes \<Rightarrow> bool option \<times> nat" where
  "lex_block_comment rest =
     (let is_doc = starts_with rest (ascii ''*'') \<and> \<not> starts_with rest (ascii ''*/'') in
      case find_close rest of Some idx \<Rightarrow> (Some is_doc, idx + 2) | None \<Rightarrow> (None, length rest))"

text \<open>\<open>lexer.next()\<close>: the match, and the callback of its pattern, which may extend the token (\<open>bump\<close>).\<close>

definition bump :: "bytes \<Rightarrow> nat \<Rightarrow> nat \<Rightarrow> syntax_kind \<Rightarrow> (syntax_kind \<times> nat) option" where
  "bump rest n k kind = (if n + k \<le> length rest \<and> is_char_boundary rest (n + k) then Some (kind, n + k) else None)"

definition next_raw :: "engine \<Rightarrow> bytes \<Rightarrow> (syntax_kind \<times> nat) option" where
  "next_raw eng rest = (case eng rest of
     Unmatched n \<Rightarrow> Some (Error, n)
   | Matched t n \<Rightarrow>
       (case t of
          Raw_Str \<Rightarrow> let (ok, k) = lex_string (drop n rest) in bump rest n k (if ok then raw_kind t else Error)
        | Raw_DocCommentLine \<Rightarrow> bump rest n (lex_line_comment (drop n rest)) (raw_kind t)
        | Raw_LineComment \<Rightarrow> bump rest n (lex_line_comment (drop n rest)) (raw_kind t)
        | Raw_BlockComment _ \<Rightarrow>
            (case lex_block_comment (drop n rest) of
               (Some is_doc, k) \<Rightarrow> bump rest n k (raw_kind (Raw_BlockComment is_doc))
             | (None, k) \<Rightarrow> bump rest n k Error)
        | _ \<Rightarrow> Some (raw_kind t, n)))"

section \<open>The raw stream with its regex literals\<close>

record raw =
  r_kind :: syntax_kind
  r_start :: nat
  r_end :: nat

definition starts_regex :: "syntax_kind option \<Rightarrow> bytes \<Rightarrow> bool" where
  "starts_regex prev_kind prev_text \<longleftrightarrow> prev_kind = Some (Punct Eq) \<or> prev_kind = Some Ident \<and> prev_text = ascii ''match''"

function regex_from :: "bytes \<Rightarrow> nat \<Rightarrow> syntax_kind \<times> nat" where
  "regex_from s i =
     (if i < length s then
        (if s ! i = 0x5C then
           (if i + 1 \<ge> length s then (Error, length s)
            else if is_line_break s (i + 1) then (Error, i + 1)
            else regex_from s (i + 2))
         else if s ! i = 0x2F then (Regex, i + 1)
         else if is_line_break s i then (Error, i)
         else regex_from s (i + 1))
      else (Error, length s))"
  by pat_completeness auto
termination by (relation "measure (\<lambda>(s, i). length s - i)") auto

declare regex_from.simps [simp del]

definition scan_regex :: "bytes \<Rightarrow> nat \<Rightarrow> syntax_kind \<times> nat" where
  "scan_regex input start = regex_from input (start + 1)"

partial_function (option) raw_from :: "engine \<Rightarrow> bytes \<Rightarrow> nat \<Rightarrow> syntax_kind option \<Rightarrow> bytes \<Rightarrow> raw list option" where
  "raw_from eng input at prev_kind prev_text =
     (if at \<ge> length input then Some []
      else Option.bind (next_raw eng (drop at input)) (\<lambda>(kind, n).
        if kind = Punct Slash \<and> starts_regex prev_kind prev_text then
          (let (regex_kind, regex_end) = scan_regex input at in
           Option.bind (str_slice input at regex_end) (\<lambda>text.
           Option.bind (str_slice input regex_end (length input)) (\<lambda>_.
           Option.bind (raw_from eng input regex_end (Some regex_kind) text) (\<lambda>rs.
           Some (\<lparr>r_kind = regex_kind, r_start = at, r_end = regex_end\<rparr> # rs)))))
        else if is_trivia kind then
          Option.bind (raw_from eng input (at + n) prev_kind prev_text) (\<lambda>rs.
          Some (\<lparr>r_kind = kind, r_start = at, r_end = at + n\<rparr> # rs))
        else
          Option.bind (str_slice input at (at + n)) (\<lambda>text.
          Option.bind (raw_from eng input (at + n) (Some kind) text) (\<lambda>rs.
          Some (\<lparr>r_kind = kind, r_start = at, r_end = at + n\<rparr> # rs)))))"

declare raw_from.simps [code]

definition raw_tokens :: "engine \<Rightarrow> bytes \<Rightarrow> raw list option" where
  "raw_tokens eng input = raw_from eng input 0 None []"

section \<open>Durations and keywords\<close>

record token =
  t_kind :: syntax_kind
  t_text :: bytes

definition is_time_atom :: "bytes \<Rightarrow> bool" where
  "is_time_atom text \<longleftrightarrow> text \<in> set (map ascii [''us'', ''ms'', ''s'', ''min'', ''h''])"

definition refine_one :: "bytes \<Rightarrow> profile \<Rightarrow> raw \<Rightarrow> token option" where
  "refine_one input profile raw =
     Option.bind (str_slice input (r_start raw) (r_end raw)) (\<lambda>text.
       Some \<lparr>t_kind =
         (if r_kind raw = Ident then
            (case keyword_in profile text of Some k \<Rightarrow> k | None \<Rightarrow> if is_reserved text then ReservedWord else Ident)
          else r_kind raw), t_text = text\<rparr>)"

fun refine :: "bytes \<Rightarrow> profile \<Rightarrow> raw list \<Rightarrow> token list option" where
  "refine input profile [] = Some []"
| "refine input profile [raw] = Option.bind (refine_one input profile raw) (\<lambda>t. Some [t])"
| "refine input profile (raw # next # rest) =
     (let plain = Option.bind (refine_one input profile raw) (\<lambda>t.
        Option.bind (refine input profile (next # rest)) (\<lambda>ts. Some (t # ts))) in
      if (r_kind raw = IntNumber \<or> r_kind raw = FloatNumber) \<and> r_kind next = Ident then
        Option.bind (str_slice input (r_start next) (r_end next)) (\<lambda>atom.
        if is_time_atom atom then
          Option.bind (str_slice input (r_start raw) (r_end next)) (\<lambda>text.
          Option.bind (refine input profile rest) (\<lambda>ts. Some (\<lparr>t_kind = Duration, t_text = text\<rparr> # ts)))
        else plain)
      else plain)"

definition lex_tokens :: "engine \<Rightarrow> bytes \<Rightarrow> profile \<Rightarrow> token list option" where
  "lex_tokens eng input profile = Option.bind (raw_tokens eng input) (refine input profile)"

section \<open>What the lexer relies on\<close>

text \<open>
  The documented behaviour of \<open>logos\<close>: the longest match of the patterns; where none matches, an
  error that covers at least one whole character.
\<close>

definition logos_contract :: "engine \<Rightarrow> bool" where
  "logos_contract eng \<longleftrightarrow> (\<forall>s. s \<noteq> [] \<and> utf8_valid s \<longrightarrow>
     (if pattern_matches s = [] then \<exists>n. eng s = Unmatched n \<and> 0 < n \<and> n \<le> length s \<and> is_char_boundary s n
      else \<exists>t n. eng s = Matched t n \<and> (t, n) \<in> set (pattern_matches s) \<and> (\<forall>(t', n') \<in> set (pattern_matches s). n' \<le> n)))"

section \<open>Character boundaries\<close>

lemma utf8_head: "utf8_valid (b # s) \<Longrightarrow> \<not> cont_byte b"
  by (auto simp: cont_byte_def word_le_nat_alt split: if_splits)

lemma utf8_second_cont: "utf8_second b c \<Longrightarrow> cont_byte c"
  by (auto simp: utf8_second_def cont_byte_def word_le_nat_alt split: if_splits)

text \<open>A string starts with an ASCII byte or with a character of several bytes.\<close>

lemma utf8_cons_cases:
  assumes "utf8_valid (b # s)"
  obtains (one) "b \<le> 0x7F" "utf8_valid s"
    | (more) cs r where "s = cs @ r" "\<forall>c \<in> set cs. cont_byte c" "utf8_valid r" "\<And>r'. utf8_valid r' \<Longrightarrow> utf8_valid (b # cs @ r')"
proof (cases "b \<le> 0x7F")
  case True
  with assms that(1) show ?thesis by simp
next
  case b1: False
  show ?thesis
  proof (cases "0xC2 \<le> b \<and> b \<le> 0xDF")
    case True
    with assms b1 obtain c r where "s = c # r" "cont_byte c" "utf8_valid r" by (auto split: list.splits)
    with True b1 that(2) [of "[c]" r] show ?thesis by simp
  next
    case b2: False
    show ?thesis
    proof (cases "0xE0 \<le> b \<and> b \<le> 0xEF")
      case True
      with assms b1 b2 obtain c d r where cd: "s = c # d # r" "utf8_second b c" "cont_byte d" "utf8_valid r"
        by (simp only: utf8_valid.simps if_False if_True) (auto split: list.splits)
      show ?thesis
      proof (rule that(2) [of "[c, d]" r])
        show "utf8_valid (b # [c, d] @ r')" if "utf8_valid r'" for r'
          unfolding append.simps utf8_valid.simps(2) [of b] if_not_P [OF b1] if_not_P [OF b2] if_P [OF True] using cd that by simp
      qed (use cd in \<open>simp_all add: utf8_second_cont\<close>)
    next
      case b3: False
      with assms b1 b2 have b4: "0xF0 \<le> b \<and> b \<le> 0xF4" by (simp only: utf8_valid.simps if_False split: if_splits)
      with assms b1 b2 b3 obtain c d e r where cde: "s = c # d # e # r" "utf8_second b c" "cont_byte d" "cont_byte e" "utf8_valid r"
        by (simp only: utf8_valid.simps if_False if_True) (auto split: list.splits)
      show ?thesis
      proof (rule that(2) [of "[c, d, e]" r])
        show "utf8_valid (b # [c, d, e] @ r')" if "utf8_valid r'" for r'
          unfolding append.simps utf8_valid.simps(2) [of b] if_not_P [OF b1] if_not_P [OF b2] if_not_P [OF b3] if_P [OF b4] using cde that by simp
      qed (use cde in \<open>simp_all add: utf8_second_cont\<close>)
    qed
  qed
qed

lemma utf8_split:
  "utf8_valid s \<Longrightarrow> is_char_boundary s i \<Longrightarrow> utf8_valid (take i s) \<and> utf8_valid (drop i s)"
proof (induction "length s" arbitrary: s i rule: less_induct)
  case less
  show ?case
  proof (cases s)
    case (Cons b s')
    from less.prems(1) [unfolded Cons] show ?thesis
    proof (cases rule: utf8_cons_cases)
      case one
      show ?thesis
      proof (cases i)
        case 0
        with less.prems(1) show ?thesis by simp
      next
        case (Suc j)
        then have "is_char_boundary s' j" using less.prems(2) by (simp add: is_char_boundary_def Cons)
        with less.hyps [of s' j] one Suc show ?thesis by (simp add: Cons)
      qed
    next
      case (more cs r)
      show ?thesis
      proof (cases "i = 0")
        case True
        with less.prems(1) show ?thesis by simp
      next
        case i: False
        have "\<not> i \<le> length cs"
        proof
          assume le: "i \<le> length cs"
          with i have "s ! i = cs ! (i - 1)" "cs ! (i - 1) \<in> set cs" by (auto simp: Cons more(1) nth_append nth_Cons')
          with more(2) le less.prems(2) show False by (auto simp: is_char_boundary_def Cons more(1))
        qed
        then obtain k where k: "i = Suc (length cs + k)" by (auto simp: not_le less_iff_Suc_add)
        have "is_char_boundary r k"
          using less.prems(2) by (simp add: is_char_boundary_def Cons more(1) k nth_append)
        with less.hyps [of r k] more(3) have "utf8_valid (take k r) \<and> utf8_valid (drop k r)" by (simp add: Cons more(1))
        then show ?thesis using more(4) by (simp add: Cons more(1) k del: utf8_valid.simps)
      qed
    qed
  qed simp
qed

lemmas utf8_take = conjunct1 [OF utf8_split] and utf8_drop = conjunct2 [OF utf8_split]

lemma boundary_0: "utf8_valid s \<Longrightarrow> is_char_boundary s 0"
  by (cases s) (auto simp: is_char_boundary_def simp del: utf8_valid.simps dest: utf8_head)

lemma boundary_drop [simp]: "n \<le> length s \<Longrightarrow> is_char_boundary (drop n s) k = is_char_boundary s (n + k)"
  by (auto simp: is_char_boundary_def)

lemma ascii_here: "i < length s \<Longrightarrow> s ! i \<le> 0x7F \<Longrightarrow> is_char_boundary s i"
  by (auto simp: is_char_boundary_def cont_byte_def word_le_nat_alt)

lemma ascii_next:
  assumes "utf8_valid s" "i < length s" "s ! i \<le> 0x7F"
  shows "is_char_boundary s (i + 1)"
proof -
  have "utf8_valid (s ! i # drop (Suc i) s)"
    using utf8_drop [OF assms(1) ascii_here [OF assms(2,3)]] assms(2) by (simp add: Cons_nth_drop_Suc)
  then have "utf8_valid (drop (Suc i) s)" using assms(3) by simp
  from boundary_0 [OF this] show ?thesis using assms(2) by simp
qed

section \<open>A token ends on a boundary\<close>

definition ascii_run :: "bytes \<Rightarrow> nat \<Rightarrow> bool" where
  "ascii_run s n \<longleftrightarrow> n \<le> length s \<and> (\<forall>b \<in> set (take n s). b \<le> 0x7F)"

lemma ascii_run_0 [simp]: "ascii_run s 0"
  by (simp add: ascii_run_def)

lemma ascii_run_boundary:
  assumes "utf8_valid s" "ascii_run s n"
  shows "is_char_boundary s n"
proof (cases n)
  case (Suc m)
  with assms(2) have "m < length s" "s ! m \<in> set (take n s)" by (auto simp: ascii_run_def in_set_conv_nth)
  with assms Suc ascii_next [of s m] show ?thesis by (simp add: ascii_run_def)
qed (use assms boundary_0 in simp)

lemma takeWhile_run: "(\<And>b. P b \<Longrightarrow> b \<le> 0x7F) \<Longrightarrow> ascii_run s (length (takeWhile P s))"
  by (auto simp: ascii_run_def takeWhile_eq_take [symmetric] length_takeWhile_le dest: set_takeWhileD)

lemma char_classes: "is_letter b \<Longrightarrow> b \<le> 0x7F" "is_digit b \<Longrightarrow> b \<le> 0x7F" "is_white b \<Longrightarrow> b \<le> 0x7F"
  by (auto simp: is_letter_def is_digit_def is_white_def word_le_nat_alt)

lemma ident_run: "ascii_run s (ident_len s)"
proof (cases s)
  case (Cons b r)
  have "ascii_run r (length (takeWhile (\<lambda>c. is_letter c \<or> is_digit c \<or> c = 0x5F) r))"
    by (rule takeWhile_run) (auto dest: char_classes)
  then show ?thesis by (auto simp: ident_len_def ascii_run_def Cons dest: char_classes)
qed (simp add: ident_len_def ascii_run_def)

lemma int_run: "ascii_run s (int_len s)"
  unfolding int_len_def by (rule takeWhile_run) (rule char_classes)

lemma ascii_run_append: "ascii_run s n \<Longrightarrow> ascii_run (drop n s) m \<Longrightarrow> ascii_run s (n + m)"
  by (auto simp: ascii_run_def take_add)

lemma float_run: "ascii_run s (float_len s)"
proof -
  have "ascii_run s (int_len s + (1 + int_len (drop (int_len s + 1) s)))" if "int_len s < length s" "s ! int_len s = 0x2E"
  proof (intro ascii_run_append int_run)
    show "ascii_run (drop (int_len s) s) 1"
      using that by (auto simp: ascii_run_def take_Suc hd_drop_conv_nth)
    show "ascii_run (drop 1 (drop (int_len s) s)) (int_len (drop (int_len s + 1) s))"
      using int_run [of "drop (int_len s + 1) s"] by simp
  qed
  then show ?thesis by (auto simp: float_len_def Let_def)
qed

lemma whitespace_run: "ascii_run s (whitespace_len s)"
  unfolding whitespace_len_def by (rule takeWhile_run) (rule char_classes)

lemma literals_ascii: "list_all (\<lambda>(p, t). list_all (\<lambda>b. b \<le> 0x7F) p) literals"
  by code_simp

lemma pattern_matches_iff:
  "(t, n) \<in> set (pattern_matches s) \<longleftrightarrow> 0 < n \<and>
     (t = Raw_Ident \<and> n = ident_len s \<or> t = Raw_FloatNumber \<and> n = float_len s \<or> t = Raw_IntNumber \<and> n = int_len s \<or>
      t = Raw_Whitespace \<and> n = whitespace_len s \<or> (\<exists>p. (p, t) \<in> set literals \<and> starts_with s p \<and> n = length p))"
  unfolding pattern_matches_def set_filter by auto

lemma pattern_run: "(t, n) \<in> set (pattern_matches s) \<Longrightarrow> 0 < n \<and> ascii_run s n"
proof -
  assume m: "(t, n) \<in> set (pattern_matches s)"
  have "ascii_run s (length p)" if "(p, t) \<in> set literals" "starts_with s p" for p t
    using literals_ascii that by (fastforce simp: list_all_iff starts_with_def ascii_run_def dest: arg_cong [of _ _ length])
  then show ?thesis
    using m ident_run float_run int_run whitespace_run by (auto simp: pattern_matches_iff)
qed

lemma line_break_ascii: "is_line_break s i \<Longrightarrow> s ! i \<le> 0x7F"
  by (auto simp: is_line_break_def)

lemma string_from_step:
  assumes "i < length s"
  shows "is_line_break s i \<Longrightarrow> string_from s i = (False, i)"
    "\<not> is_line_break s i \<Longrightarrow> s ! i = 0x5C \<Longrightarrow> string_from s i =
       (if i + 1 \<ge> length s \<or> is_line_break s (i + 1) then (False, i + 1) else string_from s (i + 2))"
    "\<not> is_line_break s i \<Longrightarrow> s ! i = 0x22 \<Longrightarrow> string_from s i = (True, i + 1)"
    "\<not> is_line_break s i \<Longrightarrow> s ! i \<noteq> 0x5C \<Longrightarrow> s ! i \<noteq> 0x22 \<Longrightarrow> string_from s i = string_from s (i + 1)"
  using assms by (simp_all add: string_from.simps [of s i])

lemma regex_from_step:
  assumes "i < length s"
  shows "s ! i = 0x5C \<Longrightarrow> regex_from s i =
       (if i + 1 \<ge> length s then (Error, length s) else if is_line_break s (i + 1) then (Error, i + 1) else regex_from s (i + 2))"
    "s ! i = 0x2F \<Longrightarrow> regex_from s i = (Regex, i + 1)"
    "s ! i \<noteq> 0x5C \<Longrightarrow> s ! i \<noteq> 0x2F \<Longrightarrow> regex_from s i = (if is_line_break s i then (Error, i) else regex_from s (i + 1))"
  using assms by (simp_all add: regex_from.simps [of s i])

lemma string_from_boundary:
  assumes "utf8_valid s"
  shows "i \<le> length s \<Longrightarrow> i \<le> snd (string_from s i) \<and> snd (string_from s i) \<le> length s \<and> is_char_boundary s (snd (string_from s i))"
proof (induction "length s - i" arbitrary: i rule: less_induct)
  case less
  show ?case
  proof (cases "i < length s")
    case i: True
    have IH: "i \<le> snd (string_from s (i + 1)) \<and> snd (string_from s (i + 1)) \<le> length s \<and> is_char_boundary s (snd (string_from s (i + 1)))"
      using less.hyps [of "i + 1"] i by fastforce
    have IH2: "i \<le> snd (string_from s (i + 2)) \<and> snd (string_from s (i + 2)) \<le> length s \<and> is_char_boundary s (snd (string_from s (i + 2)))"
      if "i + 2 \<le> length s" using less.hyps [of "i + 2"] i that by fastforce
    show ?thesis
    proof (cases "is_line_break s i")
      case True
      then show ?thesis using i ascii_here [OF i line_break_ascii] by (simp add: string_from_step)
    next
      case nl: False
      show ?thesis
      proof (cases "s ! i = 0x5C")
        case True
        then show ?thesis
          using i nl IH2 ascii_here [of "i + 1" s] line_break_ascii [of s "i + 1"]
          by (auto simp: string_from_step(2) is_char_boundary_def [of s "Suc i"])
      next
        case False
        then show ?thesis
          using i nl IH ascii_next [OF assms i] by (cases "s ! i = 0x22") (auto simp: string_from_step(3,4))
      qed
    qed
  next
    case False
    then have "i = length s" using less.prems by simp
    then show ?thesis by (simp add: string_from.simps [of s "length s"] is_char_boundary_def)
  qed
qed

lemma regex_from_boundary:
  assumes "utf8_valid s"
  shows "i \<le> length s \<Longrightarrow> i \<le> snd (regex_from s i) \<and> snd (regex_from s i) \<le> length s \<and> is_char_boundary s (snd (regex_from s i))"
proof (induction "length s - i" arbitrary: i rule: less_induct)
  case less
  show ?case
  proof (cases "i < length s")
    case i: True
    have IH: "i \<le> snd (regex_from s (i + 1)) \<and> snd (regex_from s (i + 1)) \<le> length s \<and> is_char_boundary s (snd (regex_from s (i + 1)))"
      using less.hyps [of "i + 1"] i by fastforce
    have IH2: "i \<le> snd (regex_from s (i + 2)) \<and> snd (regex_from s (i + 2)) \<le> length s \<and> is_char_boundary s (snd (regex_from s (i + 2)))"
      if "i + 2 \<le> length s" using less.hyps [of "i + 2"] i that by fastforce
    show ?thesis
    proof (cases "s ! i = 0x5C")
      case True
      then show ?thesis
        using i IH2 ascii_here [of "i + 1" s] line_break_ascii [of s "i + 1"]
        by (auto simp: regex_from_step(1) is_char_boundary_def [of s "length s"])
    next
      case False
      then show ?thesis
        using i IH ascii_next [OF assms i] ascii_here [OF i] line_break_ascii [of s i]
        by (cases "s ! i = 0x2F") (auto simp: regex_from_step(2,3))
    qed
  next
    case False
    then have "i = length s" using less.prems by simp
    then show ?thesis by (simp add: regex_from.simps [of s "length s"] is_char_boundary_def)
  qed
qed

lemma line_comment_boundary:
  "utf8_valid s \<Longrightarrow> lex_line_comment s \<le> length s \<and> is_char_boundary s (lex_line_comment s)"
proof (cases "List.find (is_line_break s) [0..<length s]")
  case (Some i)
  then have "i < length s" "is_line_break s i" by (auto simp: find_Some_iff)
  then show ?thesis using Some ascii_here line_break_ascii by (auto simp: lex_line_comment_def)
qed (simp add: lex_line_comment_def is_char_boundary_def)

lemma find_close_at:
  "find_close s = Some i \<Longrightarrow> i + 1 < length s \<and> s ! i = 0x2A \<and> s ! (i + 1) = 0x2F"
  by (induction s arbitrary: i rule: find_close.induct) (auto split: if_splits)

lemma block_comment_boundary:
  assumes "utf8_valid s"
  shows "snd (lex_block_comment s) \<le> length s \<and> is_char_boundary s (snd (lex_block_comment s))"
proof (cases "find_close s")
  case (Some i)
  from find_close_at [OF this] ascii_next [OF assms, of "i + 1"] show ?thesis
    by (simp add: lex_block_comment_def Let_def Some)
qed (simp add: lex_block_comment_def Let_def is_char_boundary_def)

section \<open>A literal stays on its line\<close>

definition one_line :: "bytes \<Rightarrow> bool" where
  "one_line s \<longleftrightarrow> 0x0A \<notin> set s \<and> 0x0D \<notin> set s"

text \<open>A carriage return that does not end a line is followed by the line feed that does.\<close>

lemma cr_before_lf:
  assumes "\<not> is_line_break s i"
  shows "s ! i \<noteq> 0x0A \<and> (s ! i = 0x0D \<longrightarrow> i + 1 < length s \<and> is_line_break s (i + 1))"
  using assms by (auto simp: is_line_break_def)

lemma string_one_line:
  "fst (string_from s i) \<Longrightarrow> i \<le> j \<Longrightarrow> j < snd (string_from s i) \<Longrightarrow> s ! j \<noteq> 0x0A \<and> s ! j \<noteq> 0x0D"
proof (induction "length s - i" arbitrary: i rule: less_induct)
  case less
  have i: "i < length s" using less.prems(1) by (simp add: string_from.simps [of s i] split: if_splits)
  have nl: "\<not> is_line_break s i" using less.prems(1) string_from_step(1) [OF i] by auto
  note cr = cr_before_lf [OF nl]
  show ?case
  proof (cases "s ! i = 0x5C")
    case True
    then have i1: "i + 1 < length s" "\<not> is_line_break s (i + 1)" and step: "string_from s i = string_from s (i + 2)"
      using less.prems(1) nl by (auto simp: string_from_step(2) [OF i] split: if_splits)
    have "s ! (i + 1) \<noteq> 0x0D"
      using cr_before_lf [OF i1(2)] string_from_step(1) [of "i + 2" s] less.prems(1) step by auto
    moreover have "s ! j \<noteq> 0x0A \<and> s ! j \<noteq> 0x0D" if "i + 2 \<le> j"
      using less.hyps [of "i + 2"] less.prems i that by (simp add: step)
    moreover have "j = i \<or> j = i + 1 \<or> i + 2 \<le> j" using less.prems(2) by arith
    ultimately show ?thesis using True cr_before_lf [OF i1(2)] by auto
  next
    case bs: False
    have this_byte: "s ! i \<noteq> 0x0D" if "string_from s i = string_from s (i + 1)"
      using cr string_from_step(1) [of "i + 1" s] less.prems(1) that by auto
    show ?thesis
    proof (cases "s ! i = 0x22")
      case True
      with less.prems(2,3) nl have "j = i" by (simp add: string_from_step(3) [OF i])
      then show ?thesis using True by simp
    next
      case False
      note step = string_from_step(4) [OF i nl bs False]
      have "s ! j \<noteq> 0x0A \<and> s ! j \<noteq> 0x0D" if "i + 1 \<le> j"
        using less.hyps [of "i + 1"] less.prems i that by (simp add: step)
      moreover have "j = i \<or> i + 1 \<le> j" using less.prems(2) by arith
      ultimately show ?thesis using this_byte [OF step] cr by auto
    qed
  qed
qed

lemma regex_one_line:
  "fst (regex_from s i) = Regex \<Longrightarrow> i \<le> j \<Longrightarrow> j < snd (regex_from s i) \<Longrightarrow> s ! j \<noteq> 0x0A \<and> s ! j \<noteq> 0x0D"
proof (induction "length s - i" arbitrary: i rule: less_induct)
  case less
  have i: "i < length s" using less.prems(1) by (simp add: regex_from.simps [of s i] split: if_splits)
  have break: "fst (regex_from s k) \<noteq> Regex" if "k < length s" "is_line_break s k" for k
    using that line_break_ascii [OF that(2)] regex_from_step [OF that(1)] by (auto simp: is_line_break_def)
  have nl: "\<not> is_line_break s i" using less.prems(1) break [OF i] by auto
  note cr = cr_before_lf [OF nl]
  show ?case
  proof (cases "s ! i = 0x5C")
    case True
    then have i1: "i + 1 < length s" "\<not> is_line_break s (i + 1)" and step: "regex_from s i = regex_from s (i + 2)"
      using less.prems(1) by (auto simp: regex_from_step(1) [OF i] split: if_splits)
    have "s ! (i + 1) \<noteq> 0x0D"
      using cr_before_lf [OF i1(2)] break [of "i + 2"] less.prems(1) step by auto
    moreover have "s ! j \<noteq> 0x0A \<and> s ! j \<noteq> 0x0D" if "i + 2 \<le> j"
      using less.hyps [of "i + 2"] less.prems i that by (simp add: step)
    moreover have "j = i \<or> j = i + 1 \<or> i + 2 \<le> j" using less.prems(2) by arith
    ultimately show ?thesis using True cr_before_lf [OF i1(2)] by auto
  next
    case bs: False
    show ?thesis
    proof (cases "s ! i = 0x2F")
      case True
      with less.prems(2,3) have "j = i" by (simp add: regex_from_step(2) [OF i])
      then show ?thesis using True by simp
    next
      case False
      have step: "regex_from s i = regex_from s (i + 1)" using regex_from_step(3) [OF i bs False] nl by simp
      have "s ! i \<noteq> 0x0D" using cr break [of "i + 1"] less.prems(1) step by auto
      moreover have "s ! j \<noteq> 0x0A \<and> s ! j \<noteq> 0x0D" if "i + 1 \<le> j"
        using less.hyps [of "i + 1"] less.prems i that by (simp add: step)
      moreover have "j = i \<or> i + 1 \<le> j" using less.prems(2) by arith
      ultimately show ?thesis using cr by auto
    qed
  qed
qed

section \<open>One step of the raw lexer\<close>

definition step_ok :: "bytes \<Rightarrow> syntax_kind \<times> nat \<Rightarrow> bool" where
  "step_ok s r \<longleftrightarrow> (case r of (kind, n) \<Rightarrow> 0 < n \<and> n \<le> length s \<and> is_char_boundary s n \<and>
     kind \<noteq> Regex \<and> kind \<noteq> Duration \<and> kind \<noteq> ReservedWord \<and> (kind = String \<longrightarrow> one_line (take n s)) \<and> (kind = Punct Slash \<longrightarrow> s ! 0 = 0x2F))"

abbreviation raw_only :: "syntax_kind \<Rightarrow> bool" where
  "raw_only kind \<equiv> kind \<noteq> Regex \<and> kind \<noteq> Duration \<and> kind \<noteq> ReservedWord"

lemma bump_ok:
  assumes "n \<le> length s" "0 < n" "k \<le> length (drop n s) \<and> is_char_boundary (drop n s) k" "raw_only kind \<and> kind \<noteq> Punct Slash"
    "kind = String \<longrightarrow> one_line (take (n + k) s)"
  shows "\<exists>r. bump s n k kind = Some r \<and> step_ok s r"
proof -
  have "n + k \<le> length s" using assms(1,3) by auto
  then show ?thesis using assms by (simp add: bump_def step_ok_def)
qed

lemma string_pattern:
  assumes "(Raw_Str, n) \<in> set (pattern_matches s)"
  shows "n = 1" "s \<noteq> []" "s ! 0 = 0x22"
proof -
  have "list_all (\<lambda>(p, t). t = Raw_Str \<longrightarrow> p = [0x22]) literals" by code_simp
  then have "n = 1 \<and> starts_with s [0x22]" using assms by (auto simp: pattern_matches_iff list_all_iff)
  then show "n = 1" "s \<noteq> []" "s ! 0 = 0x22" by (cases s; simp add: starts_with_def)+
qed

lemma slash_pattern:
  assumes "(Raw_Punct Slash, n) \<in> set (pattern_matches s)"
  shows "s ! 0 = 0x2F"
proof -
  have "list_all (\<lambda>(p, t). t = Raw_Punct Slash \<longrightarrow> p = [0x2F]) literals" by code_simp
  then have "starts_with s [0x2F]" using assms by (auto simp: pattern_matches_iff list_all_iff)
  then show ?thesis by (cases s) (simp_all add: starts_with_def)
qed

lemma string_token_one_line:
  assumes "s \<noteq> []" "s ! 0 = 0x22" "fst (lex_string (drop 1 s))"
  shows "one_line (take (1 + snd (lex_string (drop 1 s))) s)"
proof -
  obtain r where s: "s = 0x22 # r" using assms(1,2) by (cases s) simp_all
  have "take (snd (string_from r 0)) r ! j \<noteq> 0x0A \<and> take (snd (string_from r 0)) r ! j \<noteq> 0x0D" if "j < length (take (snd (string_from r 0)) r)" for j
    using string_one_line [of r 0 j] assms(3) that by (simp add: s lex_string_def)
  then show ?thesis by (auto simp: s lex_string_def one_line_def in_set_conv_nth)
qed

text \<open>
  A pattern engine that keeps the contract: every step of the raw lexer returns a nonempty token that ends on a
  character boundary.
\<close>

locale logos_engine =
  fixes eng :: engine
  assumes contract: "logos_contract eng"
begin

lemma unmatched:
  assumes "s \<noteq> []" "utf8_valid s" "pattern_matches s = []"
  obtains n where "eng s = Unmatched n" "0 < n" "n \<le> length s" "is_char_boundary s n"
proof -
  have "\<exists>n. eng s = Unmatched n \<and> 0 < n \<and> n \<le> length s \<and> is_char_boundary s n"
    using contract [unfolded logos_contract_def, rule_format, of s] assms by simp
  then show ?thesis using that by blast
qed

lemma matched:
  assumes "s \<noteq> []" "utf8_valid s" "pattern_matches s \<noteq> []"
  obtains t n where "eng s = Matched t n" "(t, n) \<in> set (pattern_matches s)"
proof -
  have "\<exists>t n. eng s = Matched t n \<and> (t, n) \<in> set (pattern_matches s)"
    using contract [unfolded logos_contract_def, rule_format, of s] assms by auto
  then show ?thesis using that by blast
qed

lemma next_raw_ok:
  assumes s: "s \<noteq> []" "utf8_valid s"
  shows "\<exists>r. next_raw eng s = Some r \<and> step_ok s r"
proof (cases "pattern_matches s = []")
  case True
  obtain n where "eng s = Unmatched n" "0 < n" "n \<le> length s" "is_char_boundary s n" by (rule unmatched [OF s True])
  then show ?thesis by (simp add: next_raw_def step_ok_def)
next
  case False
  obtain t n where eng: "eng s = Matched t n" "(t, n) \<in> set (pattern_matches s)" by (rule matched [OF s False])
  then have run: "0 < n" "ascii_run s n" using pattern_run by blast+
  then have n: "n \<le> length s" and b: "is_char_boundary s n"
    using ascii_run_boundary [OF s(2)] by (simp_all add: ascii_run_def)
  have rest: "utf8_valid (drop n s)" by (rule utf8_drop [OF s(2) b])
  note bump = bump_ok [OF n run(1)]
  show ?thesis
  proof (cases t)
    case Raw_Str
    note str = string_pattern [OF eng(2) [unfolded Raw_Str]]
    obtain ok k where k: "lex_string (drop n s) = (ok, k)" by (cases "lex_string (drop n s)")
    then have "k \<le> length (drop n s) \<and> is_char_boundary (drop n s) k"
      using string_from_boundary [OF rest, of 0] by (simp add: lex_string_def)
    moreover have "ok \<longrightarrow> one_line (take (n + k) s)" using string_token_one_line [OF str(2,3)] str(1) k by simp
    ultimately show ?thesis using bump [of k "if ok then String else Error"]
      by (cases ok) (simp_all add: next_raw_def eng Raw_Str k)
  next
    case (Raw_BlockComment d)
    obtain o1 k where k: "lex_block_comment (drop n s) = (o1, k)" by (cases "lex_block_comment (drop n s)")
    then have "k \<le> length (drop n s) \<and> is_char_boundary (drop n s) k" using block_comment_boundary [OF rest] by simp
    note bump [OF this]
    then show ?thesis by (cases o1) (simp_all add: next_raw_def eng Raw_BlockComment k)
  next
    case (Raw_Punct x)
    then show ?thesis using n b run eng(2) slash_pattern by (auto simp: next_raw_def eng(1) step_ok_def)
  qed (use bump [OF line_comment_boundary [OF rest]] n b run in \<open>simp_all add: next_raw_def eng step_ok_def\<close>)
qed

end

section \<open>The tokens cover the input\<close>

text \<open>A run of raw tokens from a position to the end of the input, without gaps.\<close>

fun tiles :: "bytes \<Rightarrow> nat \<Rightarrow> raw list \<Rightarrow> bool" where
  "tiles input at [] \<longleftrightarrow> at = length input"
| "tiles input at (r # rs) \<longleftrightarrow> r_start r = at \<and> at < r_end r \<and> r_end r \<le> length input \<and> is_char_boundary input (r_end r) \<and>
     r_kind r \<noteq> Duration \<and> r_kind r \<noteq> ReservedWord \<and>
     (r_kind r = String \<or> r_kind r = Regex \<longrightarrow> one_line (take (r_end r - at) (drop at input))) \<and> tiles input (r_end r) rs"

lemma slice_ok: "a \<le> b \<Longrightarrow> b \<le> length s \<Longrightarrow> is_char_boundary s a \<Longrightarrow> is_char_boundary s b \<Longrightarrow>
    str_slice s a b = Some (take (b - a) (drop a s))"
  by (simp add: str_slice_def)

lemma scan_regex_ok:
  assumes "utf8_valid input" "at < length input" "scan_regex input at = (kind, e)"
  shows "at < e" "e \<le> length input" "is_char_boundary input e" "kind = Regex \<or> kind = Error"
proof -
  have "fst (regex_from s i) = Regex \<or> fst (regex_from s i) = Error" for s i
    by (induction s i rule: regex_from.induct) (simp add: regex_from.simps)
  from this [of input "at + 1"] assms regex_from_boundary [OF assms(1), of "at + 1"]
  show "at < e" "e \<le> length input" "is_char_boundary input e" "kind = Regex \<or> kind = Error"
    by (auto simp: scan_regex_def)
qed

lemma regex_token_one_line:
  assumes "at < length input" "input ! at = 0x2F" "scan_regex input at = (Regex, e)"
  shows "one_line (take (e - at) (drop at input))"
proof -
  have *: "input ! j \<noteq> 0x0A \<and> input ! j \<noteq> 0x0D" if "at \<le> j" "j < e" for j
    using regex_one_line [of input "at + 1" j] assms that by (cases "j = at") (auto simp: scan_regex_def)
  show ?thesis using * [of "at + _"] by (auto simp: one_line_def in_set_conv_nth)
qed

context logos_engine
begin

lemma raw_from_ok:
  assumes utf8: "utf8_valid input"
  shows "at \<le> length input \<Longrightarrow> is_char_boundary input at \<Longrightarrow> \<exists>rs. raw_from eng input at pk pt = Some rs \<and> tiles input at rs"
proof (induction "length input - at" arbitrary: at pk pt rule: less_induct)
  case less
  note step = raw_from.simps [of eng input at pk pt]
  show ?case
  proof (cases "at < length input")
    case False
    then show ?thesis using less.prems(1) by (auto simp: raw_from.simps [of eng input "length input" pk pt])
  next
    case at: True
    have rest: "drop at input \<noteq> []" "utf8_valid (drop at input)" using at utf8_drop [OF utf8 less.prems(2)] by simp_all
    obtain kind n where next_raw: "next_raw eng (drop at input) = Some (kind, n)" and ok: "step_ok (drop at input) (kind, n)"
      using next_raw_ok [OF rest] by auto
    have n: "0 < n" "at + n \<le> length input" "is_char_boundary input (at + n)"
      using ok at by (auto simp: step_ok_def)
    show ?thesis
    proof (cases "kind = Punct Slash \<and> starts_regex pk pt")
      case True
      obtain rk re where re: "scan_regex input at = (rk, re)" by (cases "scan_regex input at")
      note s = scan_regex_ok [OF utf8 at re]
      let ?text = "take (re - at) (drop at input)"
      have "length input - re < length input - at" using s(1) at by simp
      then obtain rs where rs: "raw_from eng input re (Some rk) ?text = Some rs" "tiles input re rs"
        using less.hyps [OF _ s(2,3)] by blast
      have "input ! at = 0x2F" using ok True at by (simp add: step_ok_def)
      then have "rk = Regex \<longrightarrow> one_line ?text" using regex_token_one_line [OF at] re by auto
      moreover have "str_slice input at re = Some ?text" "str_slice input re (length input) = Some (drop re input)"
        using slice_ok s less.prems(2) by (simp_all add: is_char_boundary_def)
      ultimately show ?thesis
        using at s rs True by (auto simp: step next_raw re)
    next
      case False
      have slice: "str_slice input at (at + n) = Some (take n (drop at input))"
        using slice_ok [of at "at + n" input] n less.prems(2) by simp
      have "\<exists>rs. raw_from eng input (at + n) pk' pt' = Some rs \<and> tiles input (at + n) rs" for pk' pt'
        using less.hyps [of "at + n"] n by simp
      then obtain rs1 rs2 where rs: "raw_from eng input (at + n) pk pt = Some rs1" "tiles input (at + n) rs1"
          "raw_from eng input (at + n) (Some kind) (take n (drop at input)) = Some rs2" "tiles input (at + n) rs2" by blast
      show ?thesis
        using at n ok rs False slice by (cases "is_trivia kind") (auto simp: step next_raw step_ok_def)
    qed
  qed
qed

end

section \<open>Refinement of the raw stream\<close>

definition word_kind :: "profile \<Rightarrow> bytes \<Rightarrow> syntax_kind" where
  "word_kind profile text =
     (case keyword_in profile text of Some k \<Rightarrow> k | None \<Rightarrow> if is_reserved text then ReservedWord else Ident)"

text \<open>What is known of a token of the refined stream.\<close>

definition token_ok :: "profile \<Rightarrow> token \<Rightarrow> bool" where
  "token_ok profile t \<longleftrightarrow> t_text t \<noteq> [] \<and> utf8_valid (t_text t) \<and>
     (t_kind t = String \<or> t_kind t = Regex \<longrightarrow> one_line (t_text t)) \<and>
     (t_kind t = Ident \<longrightarrow> \<not> is_reserved (t_text t)) \<and>
     (t_kind t = ReservedWord \<longrightarrow> is_reserved (t_text t) \<and> keyword_in profile (t_text t) = None)"

text \<open>A raw token of the run, as the stream without durations has it.\<close>

lemma refine_one_ok:
  assumes utf8: "utf8_valid input" and at: "is_char_boundary input at" and t: "tiles input at (r # rs)"
  shows "\<exists>t. refine_one input profile r = Some t \<and> token_ok profile t \<and> t_text t = take (r_end r - at) (drop at input)"
proof -
  let ?text = "take (r_end r - at) (drop at input)"
  have r: "r_start r = at" "at < r_end r" "r_end r \<le> length input" "is_char_boundary input (r_end r)"
    and k: "r_kind r \<noteq> Duration" "r_kind r \<noteq> ReservedWord" "r_kind r = String \<or> r_kind r = Regex \<longrightarrow> one_line ?text"
    using t by simp_all
  have "str_slice input at (r_end r) = Some ?text" using slice_ok r at by simp
  moreover have "utf8_valid ?text"
    using utf8_take [OF utf8_drop [OF utf8 at], of "r_end r - at"] r at by simp
  moreover have "?text \<noteq> []" using r by simp
  ultimately show ?thesis
    using k by (auto simp: refine_one_def r(1) token_ok_def keyword_reserved split: option.split)
qed

lemma take_drop_join: "a \<le> b \<Longrightarrow> b \<le> c \<Longrightarrow> take (b - a) (drop a s) @ take (c - b) (drop b s) = take (c - a) (drop a s)"
  using take_add [of "b - a" "c - b" "drop a s"] by simp

lemma refine_ok:
  assumes utf8: "utf8_valid input"
  shows "is_char_boundary input at \<Longrightarrow> tiles input at rs \<Longrightarrow>
    \<exists>ts. refine input profile rs = Some ts \<and> list_all (token_ok profile) ts \<and> concat (map t_text ts) = drop at input"
proof (induction rs arbitrary: at rule: induct_list012)
  case 1
  then show ?case by simp
next
  case (2 r)
  then obtain t where "refine_one input profile r = Some t" "token_ok profile t" "t_text t = drop at input"
    using refine_one_ok [OF utf8 "2.prems"] by auto
  then show ?case by simp
next
  case (3 r nxt rest)
  have r: "r_start r = at" "at < r_end r" "r_end r \<le> length input" "is_char_boundary input (r_end r)"
    and nxt: "tiles input (r_end r) (nxt # rest)" using "3.prems"(2) by simp_all
  obtain t where t: "refine_one input profile r = Some t" "token_ok profile t" "t_text t = take (r_end r - at) (drop at input)"
    using refine_one_ok [OF utf8 "3.prems"] by blast
  obtain ts where ts: "refine input profile (nxt # rest) = Some ts" "list_all (token_ok profile) ts"
      "concat (map t_text ts) = drop (r_end r) input"
    using "3.IH"(2) [OF r(4) nxt] by blast
  have plain: "t_text t @ drop (r_end r) input = drop at input"
    using append_take_drop_id [of "r_end r - at" "drop at input"] t(3) r(2) by simp
  have n: "r_start nxt = r_end r" "r_end r < r_end nxt" "r_end nxt \<le> length input" "is_char_boundary input (r_end nxt)"
      "tiles input (r_end nxt) rest" using nxt by simp_all
  show ?case
  proof (cases "(r_kind r = IntNumber \<or> r_kind r = FloatNumber) \<and> r_kind nxt = Ident")
    case True
    let ?atom = "take (r_end nxt - r_end r) (drop (r_end r) input)" and ?text = "take (r_end nxt - at) (drop at input)"
    have atom: "str_slice input (r_start nxt) (r_end nxt) = Some ?atom" using slice_ok n r by simp
    have whole: "str_slice input (r_start r) (r_end nxt) = Some ?text" using slice_ok n r "3.prems"(1) by simp
    obtain us where us: "refine input profile rest = Some us" "list_all (token_ok profile) us" "concat (map t_text us) = drop (r_end nxt) input"
      using "3.IH"(1) [OF n(4,5)] by blast
    have "utf8_valid ?text" using utf8_take [OF utf8_drop [OF utf8 "3.prems"(1)], of "r_end nxt - at"] n r by simp
    then have "token_ok profile \<lparr>t_kind = Duration, t_text = ?text\<rparr>" using n r by (simp add: token_ok_def)
    moreover have "?text @ drop (r_end nxt) input = drop at input"
      using append_take_drop_id [of "r_end nxt - at" "drop at input"] n r by simp
    ultimately show ?thesis
      using True atom whole us t ts plain by (cases "is_time_atom ?atom") (simp_all add: Let_def)
  next
    case False
    then show ?thesis using t ts plain by (auto simp: Let_def)
  qed
qed

section \<open>The longest-match engine\<close>

text \<open>The engine the contract describes, with an error of one character.\<close>

definition char_len :: "bytes \<Rightarrow> nat" where
  "char_len s = 1 + length (takeWhile cont_byte (tl s))"

definition longest :: engine where
  "longest s = (case pattern_matches s of [] \<Rightarrow> Unmatched (char_len s)
     | m # ms \<Rightarrow> (case foldl (\<lambda>a b. if snd b > snd a then b else a) m ms of (t, n) \<Rightarrow> Matched t n))"

lemma foldl_longest:
  "foldl (\<lambda>a b. if snd b > snd a then b else a) m ms \<in> set (m # ms) \<and>
   (\<forall>x \<in> set (m # ms). snd x \<le> snd (foldl (\<lambda>a b. if snd b > snd a then b else a) (m :: 'a \<times> nat) ms))"
proof (induction ms arbitrary: m)
  case (Cons b ms)
  from Cons [of "if snd b > snd m then b else m"] show ?case by (auto split: if_splits)
qed simp

lemma char_len_boundary:
  assumes "s \<noteq> []"
  shows "0 < char_len s \<and> char_len s \<le> length s \<and> is_char_boundary s (char_len s)"
proof -
  obtain b r where s: "s = b # r" using assms by (cases s) simp_all
  let ?k = "length (takeWhile cont_byte r)"
  have "?k \<le> length r" by (rule length_takeWhile_le)
  moreover have "\<not> cont_byte (r ! ?k)" if "?k < length r" using nth_length_takeWhile that by blast
  ultimately show ?thesis by (auto simp: s char_len_def is_char_boundary_def)
qed

lemma longest_contract: "logos_contract longest"
  unfolding logos_contract_def
proof (intro allI impI)
  fix s :: bytes
  assume s: "s \<noteq> [] \<and> utf8_valid s"
  show "if pattern_matches s = [] then \<exists>n. longest s = Unmatched n \<and> 0 < n \<and> n \<le> length s \<and> is_char_boundary s n
    else \<exists>t n. longest s = Matched t n \<and> (t, n) \<in> set (pattern_matches s) \<and> (\<forall>(t', n') \<in> set (pattern_matches s). n' \<le> n)"
  proof (cases "pattern_matches s")
    case Nil
    then show ?thesis using s char_len_boundary by (simp add: longest_def)
  next
    case (Cons m ms)
    obtain t n where f: "foldl (\<lambda>a b. if snd b > snd a then b else a) m ms = (t, n)"
      by (cases "foldl (\<lambda>a b. if snd b > snd a then b else a) m ms")
    from foldl_longest [of m ms] show ?thesis by (auto simp: longest_def Cons f)
  qed
qed

interpretation logos_longest: logos_engine longest
  by unfold_locales (rule longest_contract)

section \<open>The lexer\<close>

context logos_engine
begin

lemma lex_ok:
  assumes "utf8_valid input"
  shows "\<exists>ts. lex_tokens eng input profile = Some ts \<and> list_all (token_ok profile) ts \<and> concat (map t_text ts) = input"
proof -
  have b: "is_char_boundary input 0" by (rule boundary_0 [OF assms])
  obtain rs where rs: "raw_from eng input 0 None [] = Some rs" "tiles input 0 rs" using raw_from_ok [OF assms, of 0] b by blast
  with refine_ok [OF assms b rs(2)] show ?thesis by (simp add: lex_tokens_def raw_tokens_def)
qed

end

text \<open>
  C26: Lexing is total and lossless. On every string, under every profile and with every pattern engine
  that keeps its contract, the lexer returns (no slice off a character boundary, no endless loop), and
  the texts of its tokens, none empty and each a string, are the input byte for byte.
\<close>

theorem lex_lossless:
  assumes "logos_contract eng" "utf8_valid input"
  shows "\<exists>ts. lex_tokens eng input profile = Some ts \<and> concat (map t_text ts) = input \<and>
    list_all (\<lambda>t. t_text t \<noteq> [] \<and> utf8_valid (t_text t)) ts"
proof -
  obtain ts where "lex_tokens eng input profile = Some ts" "list_all (token_ok profile) ts" "concat (map t_text ts) = input"
    using logos_engine.lex_ok [OF logos_engine.intro [OF assms(1)] assms(2)] by blast
  then show ?thesis by (auto simp: list_all_iff token_ok_def)
qed

theorem lex_lossless_witness:
  "\<exists>ts. lex_tokens longest (ascii ''a = /x/ 5ms'') Ridl = Some ts \<and> concat (map t_text ts) = ascii ''a = /x/ 5ms''"
proof -
  have "utf8_valid (ascii ''a = /x/ 5ms'')" by code_simp
  from lex_lossless [OF longest_contract this, of Ridl] show ?thesis by blast
qed

text \<open>
  C27: Every token is classified by its text. A string and a regex literal hold no line feed and no carriage
  return. An identifier is no word of the registry; a reserved word is one, and is not a keyword the profile
  uses.
\<close>

theorem lex_classifies:
  assumes "logos_contract eng" "utf8_valid input" "lex_tokens eng input profile = Some ts" "t \<in> set ts"
  shows "(t_kind t = String \<or> t_kind t = Regex \<longrightarrow> 0x0A \<notin> set (t_text t) \<and> 0x0D \<notin> set (t_text t)) \<and>
    (t_kind t = Ident \<longrightarrow> \<not> is_reserved (t_text t)) \<and>
    (t_kind t = ReservedWord \<longrightarrow> is_reserved (t_text t) \<and> keyword_in profile (t_text t) = None)"
  using logos_engine.lex_ok [OF logos_engine.intro [OF assms(1)] assms(2), of profile] assms(3,4)
  by (auto simp: list_all_iff token_ok_def one_line_def)

theorem lex_classifies_witness:
  "\<exists>ts t. lex_tokens longest (ascii ''event'') Typl = Some ts \<and> t \<in> set ts \<and> t_kind t = ReservedWord \<and>
     is_reserved (t_text t) \<and> keyword_in Typl (t_text t) = None"
proof -
  let ?t = "\<lparr>t_kind = ReservedWord, t_text = ascii ''event''\<rparr>"
  have ev: "lex_tokens longest (ascii ''event'') Typl = Some [?t]" by code_simp
  have "utf8_valid (ascii ''event'')" by code_simp
  from lex_classifies [OF longest_contract this ev, of ?t] ev show ?thesis by auto
qed

text \<open>Two tokens of one text, whose kinds differ only for a word of the registry.\<close>

definition same_token :: "token \<Rightarrow> token \<Rightarrow> bool" where
  "same_token t u \<longleftrightarrow> t_text t = t_text u \<and> (t_kind t \<noteq> t_kind u \<longrightarrow> is_reserved (t_text t))"

lemma refine_one_profile: "rel_option same_token (refine_one input p raw) (refine_one input q raw)"
  by (cases "str_slice input (r_start raw) (r_end raw)")
    (auto simp: refine_one_def same_token_def dest: keyword_reserved(1) split: option.splits)

lemma rel_option_bind:
  "rel_option R m m' \<Longrightarrow> (\<And>x y. R x y \<Longrightarrow> rel_option S (f x) (g y)) \<Longrightarrow> rel_option S (Option.bind m f) (Option.bind m' g)"
  by (auto elim!: option.rel_cases)

lemma refine_profile: "rel_option (list_all2 same_token) (refine input p rs) (refine input q rs)"
proof (induction rs rule: induct_list012)
  case (2 r)
  show ?case by (auto intro!: rel_option_bind [OF refine_one_profile])
next
  case (3 r nxt rest)
  let ?plain = "\<lambda>p. Option.bind (refine_one input p r) (\<lambda>t. Option.bind (refine input p (nxt # rest)) (\<lambda>ts. Some (t # ts)))"
  have plain: "rel_option (list_all2 same_token) (?plain p) (?plain q)"
    by (intro rel_option_bind [OF refine_one_profile] rel_option_bind [OF 3(2)]) simp
  have whole: "rel_option (list_all2 same_token)
      (Option.bind (refine input p rest) (\<lambda>ts. Some (\<lparr>t_kind = Duration, t_text = w\<rparr> # ts)))
      (Option.bind (refine input q rest) (\<lambda>ts. Some (\<lparr>t_kind = Duration, t_text = w\<rparr> # ts)))" for w
    using same_token_def [of "\<lparr>t_kind = Duration, t_text = w\<rparr>" "\<lparr>t_kind = Duration, t_text = w\<rparr>"]
    by (intro rel_option_bind [OF 3(1)]) simp
  show ?case
    by (cases "str_slice input (r_start nxt) (r_end nxt)"; cases "str_slice input (r_start r) (r_end nxt)")
      (simp_all only: refine.simps Let_def bind.simps option.rel_inject plain whole if_cancel split: if_split, simp_all add: plain whole)
qed simp

text \<open>
  The profile decides only which words of the registry are keywords. Under two profiles one input has
  tokens of the same texts, and of the same kinds but for words of the registry.
\<close>

lemma lex_profile:
  assumes "lex_tokens eng input p = Some ts"
  shows "\<exists>us. lex_tokens eng input q = Some us \<and>
    list_all2 (\<lambda>t u. t_text t = t_text u \<and> (t_kind t \<noteq> t_kind u \<longrightarrow> is_reserved (t_text t))) ts us"
proof -
  obtain rs where rs: "raw_tokens eng input = Some rs" "refine input p rs = Some ts"
    using assms by (auto simp: lex_tokens_def bind_eq_Some_conv)
  from refine_profile [of input p rs q] obtain us where "refine input q rs = Some us" "list_all2 same_token ts us"
    by (auto simp: rs(2) elim: option.rel_cases)
  then show ?thesis using rs(1) by (auto simp: lex_tokens_def same_token_def [abs_def])
qed

end
