(* ===== verification/Sem_Scalar.thy ===== *)
theory Sem_Scalar
  imports Complex_Main Prelude "HOL-Library.Signed_Division"
begin

text \<open>
  Exact scalar arithmetic of the semantic analysis (\<open>crates/ridl-sem/src/scalar.rs\<close>): literals as
  exact rationals, the wire widths of integer and float ranges, and the checks of ranges and steps.
  A \<open>BigInt\<close> is an \<open>int\<close>, a \<open>BigUint\<close> a \<open>nat\<close> and a \<open>BigRational\<close>, which is kept reduced with a
  positive denominator, a \<open>rat\<close>, whose \<open>quotient_of\<close> is that fraction. The functions of the crates
  behind them that read and write text or look at bits are the fields of the argument \<open>bn\<close>, and
  \<open>bignum_contract\<close> is what their documentation promises. The outer option of a result is \<open>None\<close>
  when the code panics.
\<close>

section \<open>The number crates\<close>

record bignum =
  bn_parse_bytes :: "bytes \<Rightarrow> int option"
  bn_to_string :: "int \<Rightarrow> bytes"
  bn_trailing_zeros :: "nat \<Rightarrow> nat option"
  bn_bits :: "nat \<Rightarrow> nat"

definition is_ascii_digit :: "u8 \<Rightarrow> bool" where
  "is_ascii_digit b \<longleftrightarrow> 0x30 \<le> b \<and> b \<le> 0x39"

definition digit_value :: "u8 \<Rightarrow> nat" where
  "digit_value b = unat b - 48"

definition decimal :: "bytes \<Rightarrow> nat" where
  "decimal ds = foldl (\<lambda>n b. 10 * n + digit_value b) 0 ds"

text \<open>
  \<open>parse_bytes\<close> in radix ten reads a non-empty run of digits; the display of an integer is its
  canonical decimal numeral with a minus sign in front when it is negative; \<open>trailing_zeros\<close> is the
  exponent of the largest power of two that divides a number other than zero; \<open>bits\<close> is the least
  number of bits that hold the value.
\<close>

definition bignum_contract :: "bignum \<Rightarrow> bool" where
  "bignum_contract bn \<longleftrightarrow>
     (\<forall>ds. ds \<noteq> [] \<and> list_all is_ascii_digit ds \<longrightarrow> bn_parse_bytes bn ds = Some (int (decimal ds))) \<and>
     (\<forall>n. bn_to_string bn (int n) \<noteq> [] \<and> list_all is_ascii_digit (bn_to_string bn (int n)) \<and> decimal (bn_to_string bn (int n)) = n) \<and>
     (\<forall>n > 0. bn_to_string bn (- int n) = 0x2D # bn_to_string bn (int n)) \<and>
     (\<forall>n > 0. \<exists>t. bn_trailing_zeros bn n = Some t \<and> 2 ^ t dvd n \<and> \<not> 2 ^ Suc t dvd n) \<and>
     (\<forall>n k. bn_bits bn n \<le> k \<longleftrightarrow> n < 2 ^ k)"

section \<open>Exact values\<close>

definition pow10 :: "bignum \<Rightarrow> nat \<Rightarrow> int option" where
  "pow10 bn e = bn_parse_bytes bn (0x31 # replicate e 0x30)"

text \<open>\<open>split_once\<close> at the first byte \<open>c\<close>.\<close>

definition split_point :: "u8 \<Rightarrow> bytes \<Rightarrow> (bytes \<times> bytes) option" where
  "split_point c s =
     (if c \<in> set s then Some (takeWhile (\<lambda>b. b \<noteq> c) s, tl (dropWhile (\<lambda>b. b \<noteq> c) s)) else None)"

text \<open>The length of the fraction is cut to a \<open>u32\<close>, and \<open>BigRational::new\<close> panics on a zero denominator.\<close>

definition parse_parts :: "bignum \<Rightarrow> bool \<Rightarrow> bytes \<Rightarrow> bytes \<Rightarrow> rat option option" where
  "parse_parts bn negative int_str frac_str =
     (case bn_parse_bytes bn (int_str @ frac_str) of
        None \<Rightarrow> Some None
      | Some n \<Rightarrow> do {
          denom \<leftarrow> pow10 bn (length frac_str mod 2 ^ 32);
          if denom = 0 then None
          else Some (Some (Fract (if negative then - n else n) denom))
        })"

definition parse_body :: "bignum \<Rightarrow> bool \<Rightarrow> bytes \<Rightarrow> rat option option" where
  "parse_body bn negative body =
     (if body = [] then Some None
      else
        (let (int_str, frac_str) = (case split_point 0x2E body of Some p \<Rightarrow> p | None \<Rightarrow> (body, [])) in
         if int_str = [] then Some None
         else if 0x2E \<in> set body \<and> frac_str = [] then Some None
         else if \<not> list_all is_ascii_digit int_str then Some None
         else if \<not> list_all is_ascii_digit frac_str then Some None
         else parse_parts bn negative int_str frac_str))"

definition exact_parse :: "bignum \<Rightarrow> bytes \<Rightarrow> rat option option" where
  "exact_parse bn txt =
     (case txt of
        b # rest \<Rightarrow> if b = 0x2D then parse_body bn True rest else parse_body bn False txt
      | [] \<Rightarrow> parse_body bn False txt)"

text \<open>
  The loop that divides a factor out and counts it in a \<open>u32\<close>. The source would not leave the loop
  on zero, which is no denominator.
\<close>

function strip_factor :: "nat \<Rightarrow> nat \<Rightarrow> nat \<Rightarrow> (nat \<times> nat) option" where
  "strip_factor p r cnt =
     (if 1 < p \<and> 0 < r \<and> r mod p = 0
      then (if cnt + 1 < 2 ^ 32 then strip_factor p (r div p) (cnt + 1) else None)
      else Some (r, cnt))"
  by auto
termination
  by (relation "measure (\<lambda>(p, r, cnt). r)") auto

declare strip_factor.simps [simp del]

definition terminating_decimal_places :: "int \<Rightarrow> nat option option" where
  "terminating_decimal_places denom =
     do {
       (r1, twos) \<leftarrow> strip_factor 2 (nat \<bar>denom\<bar>) 0;
       (r2, fives) \<leftarrow> strip_factor 5 r1 0;
       Some (if r2 = 1 then Some (max twos fives) else None)
     }"

definition format_scaled_decimal :: "bignum \<Rightarrow> int \<Rightarrow> nat \<Rightarrow> bytes option" where
  "format_scaled_decimal bn scaled places =
     (let digits0 = bn_to_string bn \<bar>scaled\<bar>;
          digits = (if length digits0 \<le> places then replicate (places + 1 - length digits0) 0x30 @ digits0 else digits0);
          split = length digits - places
      in Some ((if scaled < 0 then [0x2D] else []) @ take split digits @ [0x2E] @ drop split digits))"

definition to_decimal_string :: "bignum \<Rightarrow> rat \<Rightarrow> bytes option" where
  "to_decimal_string bn v =
     (let (numer, denom) = quotient_of v in
      if denom = 1 then Some (bn_to_string bn numer)
      else do {
        places \<leftarrow> terminating_decimal_places denom;
        (case places of
           Some n \<Rightarrow> do {
             p \<leftarrow> pow10 bn n;
             format_scaled_decimal bn (numer * p sdiv denom) n
           }
         | None \<Rightarrow> Some (bn_to_string bn numer @ [0x2F] @ bn_to_string bn denom))
      })"

section \<open>Widths\<close>

datatype int_width = U8 | I8 | U16 | I16 | U32 | I32 | U64 | I64

datatype float_width = F32 | F64

record int_range =
  ir_min :: rat
  ir_max :: rat

record float_range =
  fr_min :: rat
  fr_max :: rat
  fr_step :: "rat option"

datatype width_error = OutsideInt64Domain

datatype diag_kind = MinGreaterThanMax | StepNonPositive | StepLargerThanRange | StepTypeMismatch

fun width_error_code :: "width_error \<Rightarrow> bytes" where
  "width_error_code OutsideInt64Domain = ascii ''TYPL-111''"

fun diag_kind_code :: "diag_kind \<Rightarrow> bytes" where
  "diag_kind_code MinGreaterThanMax = ascii ''TYPL-104''"
| "diag_kind_code StepNonPositive = ascii ''TYPL-105''"
| "diag_kind_code StepLargerThanRange = ascii ''TYPL-105''"
| "diag_kind_code StepTypeMismatch = ascii ''TYPL-105''"

definition int_width_domains :: "(int_width \<times> rat \<times> rat) list" where
  "int_width_domains =
     [(U8, 0, 255), (I8, - 128, 127), (U16, 0, 65535), (I16, - 32768, 32767),
      (U32, 0, 4294967295), (I32, - 2147483648, 2147483647),
      (U64, 0, 9223372036854775807), (I64, - 9223372036854775808, 9223372036854775807)]"

fun first_width :: "int_range \<Rightarrow> (int_width \<times> rat \<times> rat) list \<Rightarrow> width_error + int_width" where
  "first_width r [] = Inl OutsideInt64Domain"
| "first_width r ((w, lo, hi) # rest) = (if ir_min r \<ge> lo \<and> ir_max r \<le> hi then Inr w else first_width r rest)"

definition derive_int_width :: "int_range \<Rightarrow> width_error + int_width" where
  "derive_int_width r = first_width r int_width_domains"

text \<open>The sign of a value is the sign of the numerator, as the denominator is positive.\<close>

definition is_binary32_representable :: "bignum \<Rightarrow> rat \<Rightarrow> bool option" where
  "is_binary32_representable bn v =
     (let (n, d) = quotient_of v in
      if n = 0 then Some True
      else do {
        let numer = nat \<bar>n\<bar>;
        let denom = nat \<bar>d\<bar>;
        s \<leftarrow> bn_trailing_zeros bn denom;
        if bn_bits bn denom \<noteq> s + 1 then Some False
        else do {
          t \<leftarrow> bn_trailing_zeros bn numer;
          let mantissa = numer div 2 ^ t;
          let k = int t - int s;
          let bit_len = int (bn_bits bn mantissa);
          let high = k + bit_len - 1;
          Some (bit_len \<le> 24 \<and> k \<ge> - 149 \<and> high \<le> 127)
        }
      })"

definition derive_float_width :: "bignum \<Rightarrow> float_range \<Rightarrow> float_width option" where
  "derive_float_width bn r =
     (case fr_step r of
        None \<Rightarrow> Some F64
      | Some step \<Rightarrow>
          if \<not> 0 < fst (quotient_of step) then Some F64
          else
            (let span = fr_max r - fr_min r in
             if fst (quotient_of span) < 0 then Some F64
             else
               (let count = span / step + 1 in
                if \<not> count \<le> 2 ^ 24 then Some F64
                else do {
                  lo \<leftarrow> is_binary32_representable bn (fr_min r);
                  if \<not> lo then Some F64
                  else do {
                    hi \<leftarrow> is_binary32_representable bn (fr_max r);
                    Some (if hi then F32 else F64)
                  }
                })))"

definition enumset_width :: "u32 \<Rightarrow> int_width" where
  "enumset_width highest_bit =
     (if highest_bit \<le> 7 then U8 else if highest_bit \<le> 15 then U16 else if highest_bit \<le> 31 then U32 else U64)"

section \<open>Ranges and steps\<close>

definition range_accepts :: "rat \<Rightarrow> rat option \<Rightarrow> rat option \<Rightarrow> bool" where
  "range_accepts v mn mx \<longleftrightarrow>
     (case mn of None \<Rightarrow> True | Some lo \<Rightarrow> v \<ge> lo) \<and> (case mx of None \<Rightarrow> True | Some hi \<Rightarrow> v \<le> hi)"

definition validate_range :: "rat \<Rightarrow> rat \<Rightarrow> diag_kind option" where
  "validate_range mn mx = (if mn > mx then Some MinGreaterThanMax else None)"

definition validate_step :: "float_range \<Rightarrow> diag_kind option" where
  "validate_step r =
     (case fr_step r of
        None \<Rightarrow> None
      | Some step \<Rightarrow>
          if \<not> 0 < fst (quotient_of step) then Some StepNonPositive
          else
            (let span = fr_max r - fr_min r in
             if fst (quotient_of span) < 0 then None
             else if step > span then Some StepLargerThanRange
             else None))"

section \<open>Decimal texts\<close>

lemma decimal_Nil [simp]: "decimal [] = 0"
  by (simp add: decimal_def)

lemma decimal_foldl: "foldl (\<lambda>n b. 10 * n + digit_value b) m ds = m * 10 ^ length ds + decimal ds"
proof (induction ds arbitrary: m)
  case (Cons b ds)
  show ?case using Cons [of "10 * m + digit_value b"] Cons [of "digit_value b"] by (simp add: decimal_def algebra_simps)
qed simp

lemma decimal_Cons: "decimal (b # ds) = digit_value b * 10 ^ length ds + decimal ds"
  using decimal_foldl [of "digit_value b" ds] by (simp add: decimal_def)

lemma decimal_append: "decimal (xs @ ys) = decimal xs * 10 ^ length ys + decimal ys"
  using decimal_foldl [of "decimal xs" ys] by (simp add: decimal_def)

lemma decimal_zeros [simp]: "decimal (replicate k 0x30) = 0"
  by (induction k) (simp_all add: decimal_Cons digit_value_def)

lemma digit_facts: "is_ascii_digit b \<Longrightarrow> b \<noteq> 0x2D \<and> b \<noteq> 0x2E"
  by (auto simp: is_ascii_digit_def)

lemma digits_no_point: "list_all is_ascii_digit ds \<Longrightarrow> 0x2E \<notin> set ds \<and> 0x2D \<notin> set ds"
  using digit_facts by (auto simp: list_all_iff)

text \<open>A factor is divided out completely.\<close>

lemma strip_factor_eq:
  assumes "1 < p" "\<not> p dvd q" "cnt + a < 2 ^ 32"
  shows "strip_factor p (q * p ^ a) cnt = Some (q, cnt + a)"
  using assms
proof (induction a arbitrary: cnt)
  case 0
  then show ?case by (auto simp: strip_factor.simps [of p q] dvd_eq_mod_eq_0)
next
  case (Suc a)
  have "0 < q" using Suc.prems(2) by (cases q) auto
  then have "strip_factor p (q * p ^ Suc a) cnt = strip_factor p (q * p ^ a) (cnt + 1)"
    by (subst strip_factor.simps) (use Suc.prems in \<open>simp add: mult.left_commute\<close>)
  then show ?case using Suc by simp
qed

lemma factor_out: "1 < p \<Longrightarrow> 0 < d \<Longrightarrow> \<exists>q a. d = q * p ^ a \<and> \<not> p dvd (q :: nat)"
proof (induction d rule: less_induct)
  case (less d)
  show ?case
  proof (cases "p dvd d")
    case True
    then obtain e where e: "d = p * e" by (elim dvdE)
    with less.prems have "e < d" "0 < e" by auto
    then obtain q a where "e = q * p ^ a" "\<not> p dvd q" using less by blast
    then show ?thesis using e by (intro exI [of _ q] exI [of _ "Suc a"]) simp
  next
    case False
    then show ?thesis by (intro exI [of _ d] exI [of _ 0]) simp
  qed
qed

lemma dvd_5: "g dvd (5 :: nat) \<Longrightarrow> g = 1 \<or> g = 5"
proof -
  assume g: "g dvd 5"
  then have "g \<le> 5" by (rule dvd_imp_le) simp
  then have "g = 0 \<or> g = 1 \<or> g = 2 \<or> g = 3 \<or> g = 4 \<or> g = 5" by presburger
  then show ?thesis using g by auto
qed

lemma coprime_5: "\<not> 5 dvd (q :: nat) \<Longrightarrow> coprime q 5"
  using dvd_5 [of "gcd q 5"] by (metis coprime_iff_gcd_eq_1 gcd_dvd1 gcd_dvd2)

text \<open>The fraction digits of a denominator that divides a power of ten.\<close>

lemma places_of_divisor:
  assumes d: "0 < d" "d dvd 10 ^ f" and f: "f < 2 ^ 32"
  shows "\<exists>n. terminating_decimal_places (int d) = Some (Some n) \<and> n \<le> f \<and> d dvd 10 ^ n"
proof -
  obtain q a where a: "d = q * 2 ^ a" "\<not> 2 dvd q" using factor_out [of 2 d] d(1) by auto
  then have "0 < q" using d(1) by (cases q) auto
  then obtain r b where b: "q = r * 5 ^ b" "\<not> 5 dvd r" using factor_out [of 5 q] by auto
  have ten: "(10 :: nat) ^ n = 2 ^ n * 5 ^ n" for n by (simp flip: power_mult_distrib)
  have odd_r: "\<not> 2 dvd r" using a(2) b(1) by auto
  have "coprime r (10 ^ f)"
    using coprime_5 [OF b(2)] odd_r unfolding ten by (simp add: coprime_mult_right_iff coprime_power_right_iff)
  moreover have "r dvd 10 ^ f" using d(2) a(1) b(1) by (metis dvd_mult_left)
  ultimately have r: "r = 1" by (metis coprime_absorb_left nat_dvd_1_iff_1 is_unit_right_imp_coprime coprime_common_divisor dvd_refl)
  have "2 ^ a dvd (10 :: nat) ^ f" "5 ^ b dvd (10 :: nat) ^ f"
    using d(2) a(1) b(1) by (metis dvd_mult_right, metis dvd_mult_left dvd_mult_right)
  then have "2 ^ a dvd (2 :: nat) ^ f" "5 ^ b dvd (5 :: nat) ^ f"
    unfolding ten by (simp_all add: coprime_dvd_mult_left_iff coprime_dvd_mult_right_iff)
  then have ab: "a \<le> f" "b \<le> f" by (auto dest: power_dvd_imp_le)
  have "strip_factor 2 d 0 = Some (q, a)" "strip_factor 5 q 0 = Some (r, b)"
    using strip_factor_eq [of 2 q 0 a] strip_factor_eq [of 5 r 0 b] a b ab f by simp_all
  then have "terminating_decimal_places (int d) = Some (Some (max a b))"
    using r by (simp add: terminating_decimal_places_def)
  moreover have "d dvd 10 ^ max a b"
    unfolding ten using a b r by (auto intro!: mult_dvd_mono le_imp_power_dvd simp: mult.commute)
  ultimately show ?thesis using ab by auto
qed

locale number_crates =
  fixes bn :: bignum
  assumes contract: "bignum_contract bn"
begin

lemma parse_digits: "ds \<noteq> [] \<Longrightarrow> list_all is_ascii_digit ds \<Longrightarrow> bn_parse_bytes bn ds = Some (int (decimal ds))"
  using contract by (simp add: bignum_contract_def)

lemma show_nat: "bn_to_string bn (int n) \<noteq> []" "list_all is_ascii_digit (bn_to_string bn (int n))" "decimal (bn_to_string bn (int n)) = n"
  using contract by (simp_all add: bignum_contract_def)

lemma show_neg: "0 < n \<Longrightarrow> bn_to_string bn (- int n) = 0x2D # bn_to_string bn (int n)"
  using contract by (simp add: bignum_contract_def)

lemma pow10_eq: "pow10 bn e = Some (10 ^ e)"
proof -
  have "list_all is_ascii_digit (0x31 # replicate e 0x30)"
    by (induction e) (simp_all add: is_ascii_digit_def)
  then show ?thesis
    using parse_digits [of "0x31 # replicate e 0x30"] by (simp add: pow10_def decimal_Cons digit_value_def)
qed

lemma parse_parts_eq:
  assumes "ip \<noteq> []" "list_all is_ascii_digit ip" "list_all is_ascii_digit fp"
  shows "parse_parts bn neg ip fp =
    Some (Some (Fract ((if neg then - 1 else 1) * int (decimal (ip @ fp))) (10 ^ (length fp mod 2 ^ 32))))"
  using assms parse_digits [of "ip @ fp"] by (simp add: parse_parts_def pow10_eq)

lemma exact_parse_text:
  assumes ip: "ip \<noteq> []" "list_all is_ascii_digit ip" and fp: "list_all is_ascii_digit fp" "length fp < 2 ^ 32"
  shows "exact_parse bn ((if neg then [0x2D] else []) @ ip @ (if fp = [] then [] else 0x2E # fp)) =
    Some (Some (Fract ((if neg then - 1 else 1) * int (decimal (ip @ fp))) (10 ^ length fp)))"
proof -
  let ?body = "ip @ (if fp = [] then [] else 0x2E # fp)"
  have hd: "\<exists>c r. ?body = c # r \<and> c \<noteq> 0x2D"
    using ip digit_facts by (cases ip) auto
  have sp: "(case split_point 0x2E ?body of Some p \<Rightarrow> p | None \<Rightarrow> (?body, [])) = (ip, fp)"
    using digits_no_point [OF ip(2)] by (cases "fp = []") (auto simp: split_point_def takeWhile_append dropWhile_append)
  have "parse_body bn n ?body = parse_parts bn n ip fp" for n
    unfolding parse_body_def sp prod.case Let_def using ip fp digits_no_point [OF ip(2)] by (cases "fp = []") auto
  moreover have "exact_parse bn ((if neg then [0x2D] else []) @ ?body) = parse_body bn neg ?body"
    using hd by (cases neg) (auto simp: exact_parse_def)
  ultimately show ?thesis using parse_parts_eq [OF ip fp(1), of neg] fp(2) by simp
qed

text \<open>Reading never panics, and a value read is a decimal fraction.\<close>

lemma exact_parse_cases:
  "exact_parse bn txt = Some None \<or> (\<exists>n f. exact_parse bn txt = Some (Some (Fract n (10 ^ f))) \<and> f < 2 ^ 32)"
proof -
  have "parse_parts bn neg ip fp = Some None \<or> (\<exists>n f. parse_parts bn neg ip fp = Some (Some (Fract n (10 ^ f))) \<and> f < 2 ^ 32)" for neg ip fp
    by (cases "bn_parse_bytes bn (ip @ fp)")
      (auto simp: parse_parts_def pow10_eq intro!: exI [of _ "length fp mod 2 ^ 32"])
  then have "parse_body bn neg body = Some None \<or> (\<exists>n f. parse_body bn neg body = Some (Some (Fract n (10 ^ f))) \<and> f < 2 ^ 32)" for neg body
    unfolding parse_body_def Let_def by (simp split: prod.split)
  then show ?thesis unfolding exact_parse_def by (simp split: list.split)
qed

text \<open>A decimal numeral with a point is read back.\<close>

lemma parse_split:
  assumes "list_all is_ascii_digit ds" "0 < places" "places < length ds" "places < 2 ^ 32"
  shows "exact_parse bn ((if neg then [0x2D] else []) @ take (length ds - places) ds @ 0x2E # drop (length ds - places) ds) =
    Some (Some (Fract ((if neg then - 1 else 1) * int (decimal ds)) (10 ^ places)))"
proof -
  obtain ip fp where ds: "take (length ds - places) ds = ip" "drop (length ds - places) ds = fp" "ds = ip @ fp"
    by (metis append_take_drop_id)
  have "length fp = places" using ds(2) assms(3) length_drop [of "length ds - places" ds] by simp
  then have len: "length fp = places" "ip \<noteq> []" "fp \<noteq> []" using ds(3) assms(2,3) by auto
  have "list_all is_ascii_digit ip" "list_all is_ascii_digit fp" using assms(1) ds(3) by simp_all
  from exact_parse_text [OF len(2) this, of neg] show ?thesis using ds len assms(4) by simp
qed

lemma format_parse:
  assumes "0 < places" "places < 2 ^ 32"
  shows "\<exists>t. format_scaled_decimal bn scaled places = Some t \<and> exact_parse bn t = Some (Some (Fract scaled (10 ^ places)))"
proof -
  obtain n where n: "\<bar>scaled\<bar> = int n" by (metis abs_ge_zero zero_le_imp_eq_int)
  let ?d0 = "bn_to_string bn (int n)"
  obtain ds where ds: "ds = (if length ?d0 \<le> places then replicate (places + 1 - length ?d0) 0x30 @ ?d0 else ?d0)" by blast
  have digits: "list_all is_ascii_digit ds"
    using show_nat(2) [of n] by (simp add: ds list_all_iff is_ascii_digit_def)
  have val: "decimal ds = n" using show_nat(3) [of n] by (simp add: ds decimal_append)
  have len: "places < length ds" by (simp add: ds)
  have "(if scaled < 0 then - 1 else 1) * int n = scaled" using n by auto
  then have "exact_parse bn ((if scaled < 0 then [0x2D] else []) @ take (length ds - places) ds @ 0x2E # drop (length ds - places) ds) =
      Some (Some (Fract scaled (10 ^ places)))"
    using parse_split [OF digits assms(1) len assms(2), of "scaled < 0"] val by simp
  then show ?thesis unfolding format_scaled_decimal_def n Let_def ds [symmetric] by simp
qed

lemma show_parse_int: "exact_parse bn (bn_to_string bn z) = Some (Some (of_int z))"
proof (cases "z < 0")
  case True
  then have n: "z = - int (nat (- z))" "0 < nat (- z)" by simp_all
  show ?thesis
    using exact_parse_text [OF show_nat(1,2) [of "nat (- z)"], of "[]" True] show_neg [OF n(2)] show_nat(3) [of "nat (- z)"] True
    by (simp add: of_int_rat)
next
  case False
  then show ?thesis
    using exact_parse_text [OF show_nat(1,2) [of "nat z"], of "[]" False] show_nat(3) [of "nat z"] by (simp add: of_int_rat)
qed

lemma show_parse:
  assumes v: "v = Fract n (10 ^ f)" and f: "f < 2 ^ 32"
  shows "\<exists>t. to_decimal_string bn v = Some t \<and> exact_parse bn t = Some (Some v)"
proof -
  obtain nu de where q: "quotient_of v = (nu, de)" by fastforce
  have vq: "v = Fract nu de" "0 < de" "coprime nu de"
    using quotient_of_div [OF q] quotient_of_denom_pos [OF q] quotient_of_coprime [OF q] by (simp_all add: Fract_of_int_quotient)
  show ?thesis
  proof (cases "de = 1")
    case True
    then show ?thesis using q show_parse_int [of nu] vq by (simp add: to_decimal_string_def of_int_rat)
  next
    case False
    have "Fract nu de = Fract n (10 ^ f)" using v vq by simp
    then have "nu * 10 ^ f = n * de" using vq(2) by (simp add: eq_rat)
    then have "de dvd nu * 10 ^ f" by simp
    then have "de dvd 10 ^ f" using vq(3) by (simp add: coprime_commute coprime_dvd_mult_right_iff)
    then have "nat de dvd 10 ^ f" using vq(2) by (metis nat_dvd_iff of_nat_numeral of_nat_power order_less_imp_le)
    then obtain m where m: "terminating_decimal_places de = Some (Some m)" "m \<le> f" "nat de dvd 10 ^ m"
      using places_of_divisor [of "nat de" f] vq(2) f by auto
    have m0: "0 < m" using m(3) False vq(2) by (cases m) auto
    have dm: "de dvd 10 ^ m" using m(3) vq(2) by (metis int_dvd_int_iff int_nat_eq of_nat_numeral of_nat_power order_less_imp_le)
    then obtain k where k: "10 ^ m = de * k" by (elim dvdE)
    have sc: "nu * 10 ^ m sdiv de = nu * k" using k vq(2) by (simp add: signed_divide_int_eq_divide_int)
    have "de * k \<noteq> 0" by (simp flip: k)
    then have "Fract (nu * k) (10 ^ m) = v" using k vq by (simp add: eq_rat)
    then show ?thesis
      using format_parse [OF m0, of "nu * k"] m f q False sc by (simp add: to_decimal_string_def pow10_eq)
  qed
qed

end

section \<open>Numbers that keep the contract\<close>

fun numeral_of :: "nat \<Rightarrow> bytes" where
  "numeral_of n = (if n < 10 then [of_nat (48 + n)] else numeral_of (n div 10) @ [of_nat (48 + n mod 10)])"

fun low_zeros :: "nat \<Rightarrow> nat" where
  "low_zeros n = (if n = 0 \<or> odd n then 0 else Suc (low_zeros (n div 2)))"

fun bit_length :: "nat \<Rightarrow> nat" where
  "bit_length n = (if n = 0 then 0 else Suc (bit_length (n div 2)))"

declare numeral_of.simps [simp del] low_zeros.simps [simp del] bit_length.simps [simp del]

definition bignum_std :: bignum where
  "bignum_std =
     \<lparr>bn_parse_bytes = (\<lambda>ds. if ds \<noteq> [] \<and> list_all is_ascii_digit ds then Some (int (decimal ds)) else None),
      bn_to_string = (\<lambda>z. if z < 0 then 0x2D # numeral_of (nat (- z)) else numeral_of (nat z)),
      bn_trailing_zeros = (\<lambda>n. if n = 0 then None else Some (low_zeros n)),
      bn_bits = bit_length\<rparr>"

lemma unat_digit: "n < 10 \<Longrightarrow> unat (of_nat (48 + n) :: u8) = 48 + n"
  by (rule unat_of_nat_u8) simp

lemma digit_of_nat: "n < 10 \<Longrightarrow> is_ascii_digit (of_nat (48 + n)) \<and> digit_value (of_nat (48 + n)) = n"
  using unat_digit [of n] by (simp add: is_ascii_digit_def digit_value_def word_le_nat_alt)

lemma numeral_of_ok: "numeral_of n \<noteq> [] \<and> list_all is_ascii_digit (numeral_of n) \<and> decimal (numeral_of n) = n"
proof (induction n rule: numeral_of.induct)
  case (1 n)
  show ?case
  proof (cases "n < 10")
    case True
    then show ?thesis using digit_of_nat [of n] by (simp add: numeral_of.simps [of n] decimal_Cons)
  next
    case False
    then show ?thesis using 1 digit_of_nat [of "n mod 10"] by (simp add: numeral_of.simps [of n] decimal_append decimal_Cons)
  qed
qed

lemma low_zeros_ok: "0 < n \<Longrightarrow> 2 ^ low_zeros n dvd n \<and> \<not> 2 ^ Suc (low_zeros n) dvd n"
proof (induction n rule: low_zeros.induct)
  case (1 n)
  show ?case
  proof (cases "odd n")
    case False
    then obtain m where m: "n = 2 * m" by blast
    have "low_zeros n = Suc (low_zeros m)" by (subst low_zeros.simps) (use m 1 in simp)
    then show ?thesis using 1 False m by simp
  qed (simp add: low_zeros.simps [of n])
qed

lemma bit_length_ok: "bit_length n \<le> k \<longleftrightarrow> n < 2 ^ k"
proof (induction n arbitrary: k rule: bit_length.induct)
  case (1 n)
  show ?case
  proof (cases "n = 0")
    case False
    have "bit_length n = Suc (bit_length (n div 2))" by (subst bit_length.simps) (use False in simp)
    then show ?thesis using 1 [OF False, of "k - 1"] False by (cases k) auto
  qed (simp add: bit_length.simps [of 0])
qed

lemma bignum_std_contract: "bignum_contract bignum_std"
  unfolding bignum_contract_def bignum_std_def using numeral_of_ok low_zeros_ok bit_length_ok by auto

interpretation std_numbers: number_crates bignum_std
  by unfold_locales (rule bignum_std_contract)

text \<open>
  C30: Exact literals survive printing. Reading a literal never panics, and every value read from a
  source text prints to a decimal text that reads back to exactly that value, whatever spelling the
  source had.
\<close>

theorem decimal_roundtrip:
  assumes "bignum_contract bn"
  shows "exact_parse bn txt \<noteq> None \<and>
    (\<forall>v. exact_parse bn txt = Some (Some v) \<longrightarrow> (\<exists>t. to_decimal_string bn v = Some t \<and> exact_parse bn t = Some (Some v)))"
proof -
  have crates: "number_crates bn" by unfold_locales (rule assms)
  show ?thesis
    using number_crates.exact_parse_cases [OF crates, of "txt"] number_crates.show_parse [OF crates] by auto
qed

theorem decimal_roundtrip_witness:
  "\<exists>t. exact_parse bignum_std (ascii ''-0.50'') = Some (Some (- 1 / 2)) \<and>
     to_decimal_string bignum_std (- 1 / 2) = Some t \<and> exact_parse bignum_std t = Some (Some (- 1 / 2))"
proof -
  have "exact_parse bignum_std (ascii ''-0.50'') = Some (Some (Fract (- 50) 100))"
    using std_numbers.exact_parse_text [of "ascii ''0''" "ascii ''50''" True]
    by (simp add: ascii_def of_char_def is_ascii_digit_def decimal_def digit_value_def)
  moreover have "Fract (- 50) 100 = - 1 / 2" by (simp add: Fract_of_int_quotient)
  ultimately have "exact_parse bignum_std (ascii ''-0.50'') = Some (Some (- 1 / 2))" by simp
  with decimal_roundtrip [OF bignum_std_contract, of "ascii ''-0.50''"] show ?thesis by blast
qed

section \<open>Widths against their definition\<close>

fun width_bits :: "int_width \<Rightarrow> nat" where
  "width_bits U8 = 8" | "width_bits I8 = 8" | "width_bits U16 = 16" | "width_bits I16 = 16"
| "width_bits U32 = 32" | "width_bits I32 = 32" | "width_bits U64 = 64" | "width_bits I64 = 64"

fun width_signed :: "int_width \<Rightarrow> bool" where
  "width_signed w \<longleftrightarrow> w \<in> {I8, I16, I32, I64}"

text \<open>The values of a width, within the language's 64-bit signed domain.\<close>

definition width_holds :: "int_width \<Rightarrow> int_range \<Rightarrow> bool" where
  "width_holds w r \<longleftrightarrow>
     (if width_signed w then - (2 ^ (width_bits w - 1)) \<le> ir_min r \<and> ir_max r \<le> 2 ^ (width_bits w - 1) - 1
      else 0 \<le> ir_min r \<and> ir_max r \<le> min (2 ^ width_bits w - 1) (2 ^ 63 - 1))"

lemma width_holds_table:
  "width_holds U8 r \<longleftrightarrow> 0 \<le> ir_min r \<and> ir_max r \<le> 255" "width_holds I8 r \<longleftrightarrow> - 128 \<le> ir_min r \<and> ir_max r \<le> 127"
  "width_holds U16 r \<longleftrightarrow> 0 \<le> ir_min r \<and> ir_max r \<le> 65535" "width_holds I16 r \<longleftrightarrow> - 32768 \<le> ir_min r \<and> ir_max r \<le> 32767"
  "width_holds U32 r \<longleftrightarrow> 0 \<le> ir_min r \<and> ir_max r \<le> 4294967295"
  "width_holds I32 r \<longleftrightarrow> - 2147483648 \<le> ir_min r \<and> ir_max r \<le> 2147483647"
  "width_holds U64 r \<longleftrightarrow> 0 \<le> ir_min r \<and> ir_max r \<le> 9223372036854775807"
  "width_holds I64 r \<longleftrightarrow> - 9223372036854775808 \<le> ir_min r \<and> ir_max r \<le> 9223372036854775807"
  by (simp_all add: width_holds_def min_def)

lemma derive_int_width_eq:
  "derive_int_width r =
     (if width_holds U8 r then Inr U8 else if width_holds I8 r then Inr I8
      else if width_holds U16 r then Inr U16 else if width_holds I16 r then Inr I16
      else if width_holds U32 r then Inr U32 else if width_holds I32 r then Inr I32
      else if width_holds U64 r then Inr U64 else if width_holds I64 r then Inr I64
      else Inl OutsideInt64Domain)"
  by (simp add: derive_int_width_def int_width_domains_def width_holds_table)

text \<open>
  C32: The wire width of an integer range is the narrowest one that holds it. A width derived holds
  the whole range, every other width that holds it has more bits or is the signed one of the same
  size, and no width is derived exactly when the range leaves the 64-bit signed domain.
\<close>

theorem int_width_narrowest:
  "case derive_int_width r of
     Inr w \<Rightarrow> width_holds w r \<and>
       (\<forall>w'. width_holds w' r \<longrightarrow> w' = w \<or> width_bits w < width_bits w' \<or> width_bits w = width_bits w' \<and> \<not> width_signed w)
   | Inl _ \<Rightarrow> \<not> (- (2 ^ 63) \<le> ir_min r \<and> ir_max r \<le> 2 ^ 63 - 1)"
proof -
  have *: "(\<forall>w. P w) \<longleftrightarrow> P U8 \<and> P I8 \<and> P U16 \<and> P I16 \<and> P U32 \<and> P I32 \<and> P U64 \<and> P I64" for P
    by (metis int_width.exhaust)
  have "\<not> width_holds I64 r \<longleftrightarrow> \<not> (- (2 ^ 63) \<le> ir_min r \<and> ir_max r \<le> 2 ^ 63 - 1)"
    by (simp add: width_holds_table)
  then show ?thesis unfolding derive_int_width_eq * by simp
qed

theorem int_width_narrowest_witness:
  "derive_int_width \<lparr>ir_min = - 1, ir_max = 200\<rparr> = Inr I16 \<and> width_holds I16 \<lparr>ir_min = - 1, ir_max = 200\<rparr> \<and>
   \<not> width_holds U16 \<lparr>ir_min = - 1, ir_max = 200\<rparr> \<and> \<not> width_holds I8 \<lparr>ir_min = - 1, ir_max = 200\<rparr>"
proof -
  have "derive_int_width \<lparr>ir_min = - 1, ir_max = 200\<rparr> = Inr I16"
    by (simp add: derive_int_width_def int_width_domains_def)
  with int_width_narrowest [of "\<lparr>ir_min = - 1, ir_max = 200\<rparr>"] show ?thesis by fastforce
qed

text \<open>An odd number times a power of two as a significand of bounded width with a bounded exponent.\<close>

lemma significand_iff:
  assumes "odd m"
  shows "(\<exists>M e. m * 2 ^ T = M * 2 ^ e \<and> M < 2 ^ w \<and> e \<le> E) \<longleftrightarrow> m < 2 ^ w \<and> m * 2 ^ T < (2 :: nat) ^ (w + E)"
proof
  assume "\<exists>M e. m * 2 ^ T = M * 2 ^ e \<and> M < 2 ^ w \<and> e \<le> E"
  then obtain M e where M: "m * 2 ^ T = M * 2 ^ e" "M < 2 ^ w" "e \<le> E" by blast
  have "m dvd M * 2 ^ e" using M(1) by (metis dvd_triv_left)
  then have "m dvd M" using assms by (simp add: coprime_dvd_mult_left_iff coprime_power_right_iff)
  moreover have "0 < M" using M(1) assms by (cases M) (auto elim: oddE)
  ultimately have "m \<le> M" by (simp add: dvd_imp_le)
  moreover have "m * 2 ^ T < 2 ^ w * 2 ^ e" using M(1,2) by simp
  moreover have "(2 :: nat) ^ w * 2 ^ e \<le> 2 ^ (w + E)" using M(3) by (simp add: power_add power_increasing)
  ultimately show "m < 2 ^ w \<and> m * 2 ^ T < 2 ^ (w + E)" using M(2) by linarith
next
  assume m: "m < 2 ^ w \<and> m * 2 ^ T < 2 ^ (w + E)"
  show "\<exists>M e. m * 2 ^ T = M * 2 ^ e \<and> M < 2 ^ w \<and> e \<le> E"
  proof (cases "T \<le> E")
    case True
    then show ?thesis using m by blast
  next
    case False
    then have T: "2 ^ T = (2 :: nat) ^ (T - E) * 2 ^ E" by (simp flip: power_add)
    have "m * 2 ^ (T - E) * 2 ^ E < 2 ^ w * (2 :: nat) ^ E" using m T by (simp add: mult.assoc power_add)
    then have "m * 2 ^ (T - E) < 2 ^ w" using mult_less_cancel2 by blast
    then show ?thesis using T by (intro exI [of _ "m * 2 ^ (T - E)"] exI [of _ E]) (simp add: mult.assoc)
  qed
qed

lemma scaled_less: "m * 2 ^ T < (2 :: nat) ^ H \<longleftrightarrow> (\<exists>b. m < 2 ^ b \<and> T + b \<le> H)" if "0 < m"
proof
  assume m: "m * 2 ^ T < (2 :: nat) ^ H"
  have "2 ^ T \<le> m * (2 :: nat) ^ T" using that by simp
  with m have "(2 :: nat) ^ T < 2 ^ H" by linarith
  then have "T < H" by simp
  then have "(2 :: nat) ^ H = 2 ^ (H - T) * 2 ^ T" by (simp flip: power_add)
  then have "m < 2 ^ (H - T)" using m by (metis mult_less_cancel2)
  then show "\<exists>b. m < 2 ^ b \<and> T + b \<le> H" using \<open>T < H\<close> by (intro exI [of _ "H - T"]) simp
next
  assume "\<exists>b. m < 2 ^ b \<and> T + b \<le> H"
  then obtain b where b: "m < 2 ^ b" "T + b \<le> H" by blast
  have "m * 2 ^ T < 2 ^ b * 2 ^ T" using b(1) by simp
  also have "\<dots> \<le> (2 :: nat) ^ H" using b(2) by (simp add: power_increasing flip: power_add)
  finally show "m * 2 ^ T < 2 ^ H" .
qed

text \<open>The test of the code on an odd significand, against the numbers \<open>M * 2 ^ (e - L)\<close>.\<close>

lemma dyadic_iff:
  assumes m: "odd m" and d: "s = 0 \<or> t = 0" and bits: "\<And>k. bl \<le> k \<longleftrightarrow> m < 2 ^ k"
  shows "(\<exists>M e. M < 2 ^ w \<and> e \<le> E \<and> m * 2 ^ t * 2 ^ L = M * 2 ^ e * (2 :: nat) ^ s) \<longleftrightarrow>
    bl \<le> w \<and> s \<le> L + t \<and> t + L + bl \<le> w + E + s"
proof (cases "s \<le> L + t")
  case False
  then have t: "t = 0" "L < s" using d by auto
  have "m * 2 ^ L \<noteq> M * 2 ^ e * (2 :: nat) ^ s" for M e
  proof
    assume "m * 2 ^ L = M * 2 ^ e * 2 ^ s"
    also have "\<dots> = (M * 2 ^ e * 2 ^ (s - L)) * 2 ^ L" using t by (simp add: mult.assoc flip: power_add)
    finally have "m = M * 2 ^ e * 2 ^ (s - L)" by simp
    then show False using m t by simp
  qed
  then show ?thesis using False t by auto
next
  case True
  let ?T = "t + L - s"
  have shift: "m * 2 ^ t * 2 ^ L = m * 2 ^ ?T * (2 :: nat) ^ s" using True by (simp add: mult.assoc add.commute flip: power_add)
  have "m * 2 ^ t * 2 ^ L = M * 2 ^ e * (2 :: nat) ^ s \<longleftrightarrow> m * 2 ^ ?T = M * 2 ^ e" for M e unfolding shift by simp
  then have "(\<exists>M e. M < 2 ^ w \<and> e \<le> E \<and> m * 2 ^ t * 2 ^ L = M * 2 ^ e * (2 :: nat) ^ s) \<longleftrightarrow>
      m < 2 ^ w \<and> m * 2 ^ ?T < 2 ^ (w + E)"
    using significand_iff [OF m, of ?T w E] by blast
  also have "\<dots> \<longleftrightarrow> bl \<le> w \<and> (\<exists>b. bl \<le> b \<and> ?T + b \<le> w + E)"
    using scaled_less [of m ?T "w + E"] odd_pos [OF m] by (simp add: bits)
  also have "(\<exists>b. bl \<le> b \<and> ?T + b \<le> w + E) \<longleftrightarrow> ?T + bl \<le> w + E"
    by (meson add_le_cancel_left le_refl le_trans)
  finally show ?thesis using True by auto
qed

lemma abs_quotient:
  assumes "quotient_of v = (nu, de)" "n = nat \<bar>nu\<bar>" "d = nat \<bar>de\<bar>"
  shows "0 < d" "coprime n d" "n = 0 \<longleftrightarrow> nu = 0" "\<bar>v\<bar> * 2 ^ L = of_nat N \<longleftrightarrow> n * 2 ^ L = N * d"
proof -
  have de: "0 < de" using quotient_of_denom_pos [OF assms(1)] .
  then show d: "0 < d" by (simp add: assms)
  show "coprime n d" using quotient_of_coprime [OF assms(1)] by (simp add: assms coprime_nat_abs_left_iff coprime_nat_abs_right_iff)
  show "n = 0 \<longleftrightarrow> nu = 0" by (simp add: assms)
  have abs: "\<bar>v\<bar> = of_nat n / of_nat d" using quotient_of_div [OF assms(1)] de by (simp add: assms abs_divide)
  have "\<bar>v\<bar> * 2 ^ L = of_nat N \<longleftrightarrow> of_nat n * 2 ^ L = (of_nat N :: rat) * of_nat d"
    unfolding abs using d by (simp add: field_simps)
  also have "\<dots> \<longleftrightarrow> (of_nat (n * 2 ^ L) :: rat) = of_nat (N * d)" by simp
  also have "\<dots> \<longleftrightarrow> n * 2 ^ L = N * d" by (rule of_nat_eq_iff)
  finally show "\<bar>v\<bar> * 2 ^ L = of_nat N \<longleftrightarrow> n * 2 ^ L = N * d" .
qed

text \<open>A denominator with an odd factor has no finite binary expansion.\<close>

lemma odd_factor_not_dyadic:
  assumes "coprime n (q * 2 ^ s)" "odd q" "q \<noteq> 1"
  shows "n * 2 ^ L \<noteq> N * (q * 2 ^ s :: nat)"
proof
  assume eq: "n * 2 ^ L = N * (q * 2 ^ s)"
  have "coprime q n" using assms(1) by (simp add: coprime_commute)
  moreover have "q dvd n * 2 ^ L" unfolding eq by simp
  moreover have "coprime q (2 ^ L)" using assms(2) by (simp add: coprime_power_right_iff)
  ultimately have "q dvd 1" by (metis coprime_dvd_mult_right_iff coprime_absorb_left dvd_refl)
  then show False using assms(3) by simp
qed

text \<open>
  C31: A bound counts as representable exactly when it is a finite binary32 number. Without any
  floating point, the test answers whether the value is a significand of at most 24 bits times a
  power of two with an exponent from \<open>-149\<close> to \<open>104\<close>, and it never panics.
\<close>

theorem binary32_exact:
  assumes "bignum_contract bn"
  shows "is_binary32_representable bn v =
    Some (\<exists>M e. M < 2 ^ 24 \<and> e \<le> 253 \<and> \<bar>v\<bar> * 2 ^ 149 = of_nat (M * 2 ^ e))"
proof -
  obtain nu de where q: "quotient_of v = (nu, de)" by fastforce
  define n d where nd: "n = nat \<bar>nu\<bar>" "d = nat \<bar>de\<bar>"
  note v = abs_quotient [OF q nd]
  have tz: "\<exists>t. bn_trailing_zeros bn x = Some t \<and> 2 ^ t dvd x \<and> \<not> 2 ^ Suc t dvd x" if "0 < x" for x
    using assms that by (simp add: bignum_contract_def)
  have bits: "bn_bits bn x \<le> k \<longleftrightarrow> x < 2 ^ k" for x k using assms by (simp add: bignum_contract_def)
  show ?thesis
  proof (cases "n = 0")
    case True
    have "\<exists>M e. M < 2 ^ 24 \<and> e \<le> 253 \<and> \<bar>v\<bar> * 2 ^ 149 = of_nat (M * 2 ^ e)"
      unfolding v(4) True by (intro exI [of _ 0]) simp
    then show ?thesis using q True v(3) by (simp add: is_binary32_representable_def)
  next
    case False
    obtain s c where s: "bn_trailing_zeros bn d = Some s" "d = c * 2 ^ s" "odd c"
      using tz [OF v(1)] by (auto elim!: dvdE simp: mult.commute)
    obtain t m where t: "bn_trailing_zeros bn n = Some t" "n = m * 2 ^ t" "odd m"
      using tz [of n] False by (auto elim!: dvdE simp: mult.commute)
    have one: "bn_bits bn d = s + 1 \<longleftrightarrow> c = 1"
      using bits [of d "s + 1"] bits [of d s] s(2) odd_pos [OF s(3)] by (auto simp: le_Suc_eq)
    have mant: "n div 2 ^ t = m" using t(2) by simp
    have run: "is_binary32_representable bn v =
        Some (c = 1 \<and> bn_bits bn m \<le> 24 \<and> s \<le> 149 + t \<and> t + 149 + bn_bits bn m \<le> 24 + 253 + s)"
      using q s(1) t(1) one v(3) False mant by (auto simp: is_binary32_representable_def Let_def nd [symmetric])
    show ?thesis
    proof (cases "c = 1")
      case True
      have "s = 0 \<or> t = 0" using v(2) s(2) t(2) True by (cases s; cases t) auto
      note test = dyadic_iff [OF t(3) this bits, of 24 253 149]
      have "d = 2 ^ s" using s(2) True by simp
      then show ?thesis unfolding run v(4) t(2) using test True by blast
    next
      case False
      have "n * 2 ^ 149 \<noteq> N * d" for N
        unfolding s(2) by (rule odd_factor_not_dyadic [OF _ s(3) False]) (use v(2) s(2) in simp)
      then show ?thesis unfolding run v(4) using False by blast
    qed
  qed
qed

theorem binary32_exact_witness:
  "is_binary32_representable bignum_std (1 / 10) =
     Some (\<exists>M e. M < 2 ^ 24 \<and> e \<le> 253 \<and> \<bar>1 / 10 :: rat\<bar> * 2 ^ 149 = of_nat (M * 2 ^ e)) \<and>
   is_binary32_representable bignum_std (1 / 10) = Some False"
proof -
  have "quotient_of (1 / 10) = (1, 10)" by code_simp
  then have "is_binary32_representable bignum_std (1 / 10) = Some False"
    by (simp add: is_binary32_representable_def bignum_std_def low_zeros.simps bit_length.simps)
  with binary32_exact [OF bignum_std_contract, of "1 / 10"] show ?thesis by simp
qed

end
