(* ===== verification/Sem_Expr.thy ===== *)
theory Sem_Expr
  imports Sem_Scalar Syn_Keywords
begin

text \<open>
  The evaluator of contract expressions (\<open>crates/ridl-sem/src/expr_eval.rs\<close>) over the syntax tree:
  the typed views of \<open>crates/ridl-syntax/src/ast.rs\<close> and its accessors, the duration literals of
  \<open>timing.rs\<close>, and every operator of the guaranteed subset. A node of the tree is its kind and its
  children in source order, and a node kind that is no expression is \<open>OtherNode\<close>; a half-parsed tree
  is a node some of whose children are missing. A message of \<open>TypeMismatch\<close> is a constructor with the
  pieces the text is formatted from. A result is \<open>None\<close> when the code panics, \<open>Inl\<close> an error, \<open>Inr\<close> a
  value.
\<close>

section \<open>The tree\<close>

datatype node_kind = BinaryExpr | PrefixExpr | MemberExpr | PathExpr | ParenExpr | LiteralExpr | OtherNode

datatype element = Token syntax_kind bytes | Node node_kind "element list"

datatype expr = Binary "element list" | Prefix "element list" | Member "element list" | Path "element list"
  | Paren "element list" | Literal "element list"

fun expr_cast :: "element \<Rightarrow> expr option" where
  "expr_cast (Node BinaryExpr ch) = Some (Binary ch)"
| "expr_cast (Node PrefixExpr ch) = Some (Prefix ch)"
| "expr_cast (Node MemberExpr ch) = Some (Member ch)"
| "expr_cast (Node PathExpr ch) = Some (Path ch)"
| "expr_cast (Node ParenExpr ch) = Some (Paren ch)"
| "expr_cast (Node LiteralExpr ch) = Some (Literal ch)"
| "expr_cast _ = None"

definition nth_child :: "element list \<Rightarrow> nat \<Rightarrow> expr option" where
  "nth_child ch n = (let es = List.map_filter expr_cast ch in if n < length es then Some (es ! n) else None)"

definition child :: "element list \<Rightarrow> expr option" where
  "child ch = nth_child ch 0"

fun element_token :: "element \<Rightarrow> (syntax_kind \<times> bytes) option" where
  "element_token (Token k s) = Some (k, s)"
| "element_token (Node _ _) = None"

definition find_token :: "(syntax_kind \<Rightarrow> bool) \<Rightarrow> element list \<Rightarrow> (syntax_kind \<times> bytes) option" where
  "find_token P ch = find (\<lambda>t. P (fst t)) (List.map_filter element_token ch)"

definition is_binary_op :: "syntax_kind \<Rightarrow> bool" where
  "is_binary_op k \<longleftrightarrow> k \<in> {Operator PipePipe, Operator AmpAmp, Operator EqEq, Operator Neq, Operator Lt, Operator Le,
     Operator Gt, Operator Ge, Operator Plus, Punct Minus, Operator Star, Punct Slash, Punct Percent}"

definition binary_op_token :: "element list \<Rightarrow> (syntax_kind \<times> bytes) option" where
  "binary_op_token ch = find_token is_binary_op ch"

definition prefix_op_token :: "element list \<Rightarrow> (syntax_kind \<times> bytes) option" where
  "prefix_op_token ch = find_token (\<lambda>k. k = Operator Bang \<or> k = Punct Minus) ch"

definition ident_token :: "element list \<Rightarrow> (syntax_kind \<times> bytes) option" where
  "ident_token ch = find_token (\<lambda>k. k = Ident) ch"

definition literal_token :: "element list \<Rightarrow> (syntax_kind \<times> bytes) option" where
  "literal_token ch = find_token (\<lambda>k. \<not> is_trivia k) ch"

section \<open>Values and errors\<close>

datatype numeric_backing = Backing_Integer | Backing_Float

datatype eval_value = VBool bool | VNum rat numeric_backing | VDur rat | VEnum bytes i64 | VTuple "(bytes \<times> eval_value) list"

record eval_env =
  ee_params :: "(bytes \<times> eval_value) list"
  ee_result :: "eval_value option"
  ee_consts :: "bytes \<Rightarrow> eval_value option"

datatype mismatch = Mm_TooDeep | Mm_Malformed string | Mm_NotDecimal bytes | Mm_NotDuration bytes | Mm_StringLiteral
  | Mm_NotLiteral bytes | Mm_Bang eval_value | Mm_Minus eval_value | Mm_Field bytes eval_value | Mm_EnumTypes bytes bytes bytes
  | Mm_PercentBacking | Mm_NonIntegral bytes | Mm_BoolOperand bytes eval_value | Mm_Domain bytes string eval_value eval_value

datatype eval_error = UnboundRef bytes | TypeMismatch mismatch | DivisionByZero

type_synonym 'a ev = "(eval_error + 'a) option"

definition ok :: "'a \<Rightarrow> 'a ev" where "ok v = Some (Inr v)"

definition err :: "eval_error \<Rightarrow> 'a ev" where "err e = Some (Inl e)"

definition malformed_tree :: "string \<Rightarrow> 'a ev" where "malformed_tree what = err (TypeMismatch (Mm_Malformed what))"

text \<open>The \<open>?\<close> operator.\<close>

definition and_then :: "'a ev \<Rightarrow> ('a \<Rightarrow> 'b ev) \<Rightarrow> 'b ev" where
  "and_then m f = (case m of None \<Rightarrow> None | Some (Inl e) \<Rightarrow> Some (Inl e) | Some (Inr v) \<Rightarrow> f v)"

section \<open>Duration literals\<close>

text \<open>\<open>str::trim\<close>: the characters of the Unicode property \<open>White_Space\<close> in UTF-8.\<close>

definition white_chars :: "bytes list" where
  "white_chars =
     map (\<lambda>b. [b]) [0x09, 0x0A, 0x0B, 0x0C, 0x0D, 0x20] @ [[0xC2, 0x85], [0xC2, 0xA0], [0xE1, 0x9A, 0x80]] @
     map (\<lambda>b. [0xE2, 0x80, b]) [0x80, 0x81, 0x82, 0x83, 0x84, 0x85, 0x86, 0x87, 0x88, 0x89, 0x8A, 0xA8, 0xA9, 0xAF] @
     [[0xE2, 0x81, 0x9F], [0xE3, 0x80, 0x80]]"

function strip_white :: "bytes list \<Rightarrow> bytes \<Rightarrow> bytes" where
  "strip_white ws s =
     (case find (\<lambda>w. w \<noteq> [] \<and> take (length w) s = w) ws of
        Some w \<Rightarrow> strip_white ws (drop (length w) s)
      | None \<Rightarrow> s)"
  by auto
termination
proof (relation "measure (\<lambda>(ws, s). length s)")
  fix ws :: "bytes list" and s w :: bytes
  assume "find (\<lambda>w. w \<noteq> [] \<and> take (length w) s = w) ws = Some w"
  then have "w \<noteq> [] \<and> take (length w) s = w" by (auto simp: find_Some_iff)
  then have "s \<noteq> []" "0 < length w" by auto
  then show "((ws, drop (length w) s), ws, s) \<in> measure (\<lambda>(ws, s). length s)" by simp
qed simp

declare strip_white.simps [simp del]

definition trim :: "bytes \<Rightarrow> bytes" where
  "trim s = rev (strip_white (map rev white_chars) (rev (strip_white white_chars s)))"

definition strip_suffix :: "bytes \<Rightarrow> bytes \<Rightarrow> bytes option" where
  "strip_suffix p s =
     (if length p \<le> length s \<and> drop (length s - length p) s = p then Some (take (length s - length p) s) else None)"

record duration_lit =
  dl_us :: rat
  dl_whole :: bool

definition duration_unit :: "bytes \<Rightarrow> (bytes \<times> rat) option" where
  "duration_unit s =
     (case strip_suffix (ascii ''us'') s of Some ds \<Rightarrow> Some (ds, 1)
      | None \<Rightarrow> (case strip_suffix (ascii ''ms'') s of Some ds \<Rightarrow> Some (ds, 1000)
      | None \<Rightarrow> (case strip_suffix (ascii ''min'') s of Some ds \<Rightarrow> Some (ds, 60000000)
      | None \<Rightarrow> (case strip_suffix (ascii ''s'') s of Some ds \<Rightarrow> Some (ds, 1000000)
      | None \<Rightarrow> map_option (\<lambda>ds. (ds, 3600000000)) (strip_suffix (ascii ''h'') s)))))"

definition duration_us :: "bignum \<Rightarrow> bytes \<Rightarrow> duration_lit option option" where
  "duration_us bn s =
     (case duration_unit (trim s) of
        None \<Rightarrow> Some None
      | Some (ds, factor) \<Rightarrow>
          map_option (map_option (\<lambda>v. \<lparr>dl_us = v * factor, dl_whole = 0x2E \<notin> set ds\<rparr>)) (exact_parse bn ds))"

definition duration_literal_us :: "bignum \<Rightarrow> bytes \<Rightarrow> rat option option" where
  "duration_literal_us bn s = map_option (map_option dl_us) (duration_us bn s)"

section \<open>Operators\<close>

definition lookup :: "(bytes \<times> eval_value) list \<Rightarrow> bytes \<Rightarrow> eval_value option" where
  "lookup bindings nm = map_option snd (find (\<lambda>(bound, _). bound = nm) bindings)"

definition expect_bool :: "eval_value \<Rightarrow> bytes \<Rightarrow> bool ev" where
  "expect_bool v op = (case v of VBool held \<Rightarrow> ok held | _ \<Rightarrow> err (TypeMismatch (Mm_BoolOperand op v)))"

definition equality :: "eval_value \<Rightarrow> eval_value \<Rightarrow> bytes \<Rightarrow> bool ev" where
  "equality l r op =
     (case (l, r) of
        (VBool a, VBool b) \<Rightarrow> ok (a = b)
      | (VNum a _, VNum b _) \<Rightarrow> ok (a = b)
      | (VDur a, VDur b) \<Rightarrow> ok (a = b)
      | (VEnum ta a, VEnum tb b) \<Rightarrow> if ta \<noteq> tb then err (TypeMismatch (Mm_EnumTypes op ta tb)) else ok (a = b)
      | _ \<Rightarrow> err (TypeMismatch (Mm_Domain op ''operands of one domain'' l r)))"

definition ordered_pair :: "eval_value \<Rightarrow> eval_value \<Rightarrow> bytes \<Rightarrow> (rat \<times> rat) ev" where
  "ordered_pair l r op =
     (case (l, r) of
        (VNum a _, VNum b _) \<Rightarrow> ok (a, b)
      | (VDur a, VDur b) \<Rightarrow> ok (a, b)
      | _ \<Rightarrow> err (TypeMismatch (Mm_Domain op ''operands of one ordered domain'' l r)))"

fun joint_backing :: "numeric_backing \<Rightarrow> numeric_backing \<Rightarrow> numeric_backing" where
  "joint_backing Backing_Integer Backing_Integer = Backing_Integer"
| "joint_backing _ _ = Backing_Float"

definition numeric_pair :: "eval_value \<Rightarrow> eval_value \<Rightarrow> bytes \<Rightarrow> (rat \<times> rat \<times> numeric_backing) ev" where
  "numeric_pair l r op =
     (case (l, r) of
        (VNum a ba, VNum b bb) \<Rightarrow> ok (a, b, joint_backing ba bb)
      | _ \<Rightarrow> err (TypeMismatch (Mm_Domain op ''numeric operands'' l r)))"

definition rat_is_integer :: "rat \<Rightarrow> bool" where
  "rat_is_integer q \<longleftrightarrow> snd (quotient_of q) = 1"

text \<open>\<open>to_integer\<close> rounds towards zero.\<close>

definition rat_to_integer :: "rat \<Rightarrow> int" where
  "rat_to_integer q = (let (n, d) = quotient_of q in n sdiv d)"

definition integral_pair :: "rat \<Rightarrow> rat \<Rightarrow> bytes \<Rightarrow> (int \<times> int) ev" where
  "integral_pair a b op =
     (if \<not> rat_is_integer a \<or> \<not> rat_is_integer b then err (TypeMismatch (Mm_NonIntegral op))
      else ok (rat_to_integer a, rat_to_integer b))"

definition rat_is_zero :: "rat \<Rightarrow> bool" where
  "rat_is_zero q \<longleftrightarrow> fst (quotient_of q) = 0"

text \<open>Division of the number crates panics on zero.\<close>

definition big_div :: "int \<Rightarrow> int \<Rightarrow> int ev" where
  "big_div a b = (if b = 0 then None else ok (a sdiv b))"

definition big_rem :: "int \<Rightarrow> int \<Rightarrow> int ev" where
  "big_rem a b = (if b = 0 then None else ok (a smod b))"

definition ratio_div :: "rat \<Rightarrow> rat \<Rightarrow> rat ev" where
  "ratio_div a b = (if b = 0 then None else ok (a / b))"

definition divide_values :: "eval_value \<Rightarrow> eval_value \<Rightarrow> bytes \<Rightarrow> eval_value ev" where
  "divide_values l r op =
     and_then (numeric_pair l r op) (\<lambda>(a, b, backing).
       if rat_is_zero b then err DivisionByZero
       else if backing = Backing_Integer then
         and_then (integral_pair a b op) (\<lambda>(x, y). and_then (big_div x y) (\<lambda>q. ok (VNum (of_int q) backing)))
       else and_then (ratio_div a b) (\<lambda>q. ok (VNum q backing)))"

definition remainder_values :: "eval_value \<Rightarrow> eval_value \<Rightarrow> bytes \<Rightarrow> eval_value ev" where
  "remainder_values l r op =
     and_then (numeric_pair l r op) (\<lambda>(a, b, backing).
       if rat_is_zero b then err DivisionByZero
       else if backing \<noteq> Backing_Integer then err (TypeMismatch Mm_PercentBacking)
       else and_then (integral_pair a b op) (\<lambda>(x, y). and_then (big_rem x y) (\<lambda>q. ok (VNum (of_int q) backing))))"

definition apply_binary :: "syntax_kind \<Rightarrow> eval_value \<Rightarrow> eval_value \<Rightarrow> bytes \<Rightarrow> eval_value ev" where
  "apply_binary k l r op =
     (if k \<in> {Operator EqEq, Operator Neq} then
        and_then (equality l r op) (\<lambda>eq. ok (VBool (if k = Operator EqEq then eq else \<not> eq)))
      else if k \<in> {Operator Lt, Operator Le, Operator Gt, Operator Ge} then
        and_then (ordered_pair l r op) (\<lambda>(a, b).
          ok (VBool (if k = Operator Lt then a < b else if k = Operator Le then a \<le> b
                     else if k = Operator Gt then a > b else a \<ge> b)))
      else if k \<in> {Operator Plus, Punct Minus, Operator Star} then
        and_then (numeric_pair l r op) (\<lambda>(a, b, backing).
          ok (VNum (if k = Operator Plus then a + b else if k = Punct Minus then a - b else a * b) backing))
      else if k = Punct Slash then divide_values l r op
      else if k = Punct Percent then remainder_values l r op
      else malformed_tree ''an unknown binary operator'')"

section \<open>Evaluation\<close>

abbreviation MAX_DEPTH :: nat where "MAX_DEPTH \<equiv> 128"

definition eval_literal :: "bignum \<Rightarrow> element list \<Rightarrow> eval_value ev" where
  "eval_literal bn ch =
     (case literal_token ch of
        None \<Rightarrow> malformed_tree ''a literal with no token''
      | Some (k, s) \<Rightarrow>
          if k = IntNumber \<or> k = FloatNumber then
            (let backing = (if k = IntNumber then Backing_Integer else Backing_Float) in
             case exact_parse bn s of
               None \<Rightarrow> None
             | Some (Some v) \<Rightarrow> ok (VNum v backing)
             | Some None \<Rightarrow> err (TypeMismatch (Mm_NotDecimal s)))
          else if k = Duration then
            (case duration_literal_us bn s of
               None \<Rightarrow> None
             | Some (Some us) \<Rightarrow> ok (VDur us)
             | Some None \<Rightarrow> err (TypeMismatch (Mm_NotDuration s)))
          else if k = Typl_Kw TrueKw then ok (VBool True)
          else if k = Typl_Kw FalseKw then ok (VBool False)
          else if k = String \<or> k = Regex then err (TypeMismatch Mm_StringLiteral)
          else err (TypeMismatch (Mm_NotLiteral s)))"

definition eval_path :: "eval_env \<Rightarrow> element list \<Rightarrow> eval_value ev" where
  "eval_path env ch =
     (case ident_token ch of
        None \<Rightarrow> malformed_tree ''a path with no name''
      | Some (_, nm) \<Rightarrow>
          (case lookup (ee_params env) nm of
             Some v \<Rightarrow> ok v
           | None \<Rightarrow>
               if nm = ascii ''result'' then
                 (case ee_result env of Some v \<Rightarrow> ok v | None \<Rightarrow> err (UnboundRef (ascii ''result'')))
               else
                 (case ee_consts env nm of Some v \<Rightarrow> ok v | None \<Rightarrow> err (UnboundRef nm))))"

text \<open>The first argument of the next three is the evaluator one level deeper.\<close>

definition eval_prefix :: "(expr \<Rightarrow> eval_value ev) \<Rightarrow> element list \<Rightarrow> eval_value ev" where
  "eval_prefix ev ch =
     (case child ch of
        None \<Rightarrow> malformed_tree ''a prefix operator with no operand''
      | Some operand \<Rightarrow>
          (case prefix_op_token ch of
             None \<Rightarrow> malformed_tree ''a prefix expression with no operator''
           | Some (k, _) \<Rightarrow>
               and_then (ev operand) (\<lambda>v.
                 if k = Operator Bang then
                   (case v of VBool held \<Rightarrow> ok (VBool (\<not> held)) | _ \<Rightarrow> err (TypeMismatch (Mm_Bang v)))
                 else if k = Punct Minus then
                   (case v of VNum held backing \<Rightarrow> ok (VNum (- held) backing) | _ \<Rightarrow> err (TypeMismatch (Mm_Minus v)))
                 else malformed_tree ''an unknown prefix operator'')))"

definition dotted :: "eval_env \<Rightarrow> expr \<Rightarrow> bytes \<Rightarrow> eval_value option" where
  "dotted env base nm =
     (case base of
        Path ch \<Rightarrow>
          (case ident_token ch of
             Some (_, head) \<Rightarrow>
               if lookup (ee_params env) head \<noteq> None \<or> head = ascii ''result'' then None
               else ee_consts env (head @ ascii ''.'' @ nm)
           | None \<Rightarrow> None)
      | _ \<Rightarrow> None)"

definition eval_member :: "(expr \<Rightarrow> eval_value ev) \<Rightarrow> eval_env \<Rightarrow> element list \<Rightarrow> eval_value ev" where
  "eval_member ev env ch =
     (case child ch of
        None \<Rightarrow> malformed_tree ''a member access with no base''
      | Some base \<Rightarrow>
          (case ident_token ch of
             None \<Rightarrow> malformed_tree ''a member access with no member name''
           | Some (_, nm) \<Rightarrow>
               (case dotted env base nm of
                  Some v \<Rightarrow> ok v
                | None \<Rightarrow>
                    and_then (ev base) (\<lambda>b.
                      case b of
                        VTuple flds \<Rightarrow>
                          (case lookup flds nm of
                             Some v \<Rightarrow> ok v
                           | None \<Rightarrow> err (UnboundRef (ascii ''result.'' @ nm)))
                      | _ \<Rightarrow> err (TypeMismatch (Mm_Field nm b))))))"

definition eval_binary :: "(expr \<Rightarrow> eval_value ev) \<Rightarrow> element list \<Rightarrow> eval_value ev" where
  "eval_binary ev ch =
     (case binary_op_token ch of
        None \<Rightarrow> malformed_tree ''a binary expression with no operator''
      | Some (k, op) \<Rightarrow>
          (case (nth_child ch 0, nth_child ch 1) of
             (Some lhs, Some rhs) \<Rightarrow>
               if k = Operator AmpAmp \<or> k = Operator PipePipe then
                 and_then (ev lhs) (\<lambda>l.
                 and_then (expect_bool l op) (\<lambda>left.
                   if left = (k = Operator PipePipe) then ok (VBool left)
                   else and_then (ev rhs) (\<lambda>r. and_then (expect_bool r op) (\<lambda>right. ok (VBool right)))))
               else
                 and_then (ev lhs) (\<lambda>l. and_then (ev rhs) (\<lambda>r. apply_binary k l r op))
           | _ \<Rightarrow> malformed_tree ''a binary expression missing an operand''))"

function eval :: "bignum \<Rightarrow> eval_env \<Rightarrow> nat \<Rightarrow> expr \<Rightarrow> eval_value ev" where
  "eval bn env depth e =
     (if depth > MAX_DEPTH then err (TypeMismatch Mm_TooDeep)
      else
        (case e of
           Literal ch \<Rightarrow> eval_literal bn ch
         | Paren ch \<Rightarrow>
             (case child ch of
                Some inner \<Rightarrow> eval bn env (depth + 1) inner
              | None \<Rightarrow> malformed_tree ''an empty parenthesis'')
         | Path ch \<Rightarrow> eval_path env ch
         | Prefix ch \<Rightarrow> eval_prefix (\<lambda>x. eval bn env (depth + 1) x) ch
         | Member ch \<Rightarrow> eval_member (\<lambda>x. eval bn env (depth + 1) x) env ch
         | Binary ch \<Rightarrow> eval_binary (\<lambda>x. eval bn env (depth + 1) x) ch))"
  by auto
termination
  by (relation "measure (\<lambda>(bn, env, depth, e). MAX_DEPTH + 1 - depth)") auto

declare eval.simps [simp del]

definition eval_expr :: "bignum \<Rightarrow> eval_env \<Rightarrow> expr \<Rightarrow> eval_value ev" where
  "eval_expr bn env e = eval bn env 0 e"

section \<open>The arithmetic\<close>

lemma and_then_simps [simp]:
  "and_then (ok v) f = f v" "and_then (err e) f = err e" "and_then (malformed_tree w) f = malformed_tree w" "and_then None f = None"
  by (simp_all add: and_then_def ok_def err_def malformed_tree_def)

lemma ok_inject [simp]: "ok a = ok b \<longleftrightarrow> a = b"
  by (simp add: ok_def)

lemma results_differ [simp]:
  "ok v \<noteq> None" "err e \<noteq> None" "malformed_tree w \<noteq> None" "ok v \<noteq> err e" "err e \<noteq> ok v" "ok v \<noteq> malformed_tree w" "malformed_tree w \<noteq> ok v"
  by (simp_all add: ok_def err_def malformed_tree_def)

lemma and_then_ok_iff: "and_then m f = ok v \<longleftrightarrow> (\<exists>x. m = ok x \<and> f x = ok v)"
  by (auto simp: and_then_def ok_def split: option.split sum.split)

lemma and_thenE: "and_then m f = ok v \<Longrightarrow> (\<And>x. m = ok x \<Longrightarrow> f x = ok v \<Longrightarrow> P) \<Longrightarrow> P"
  by (auto simp: and_then_ok_iff)

lemma and_then_total: "m \<noteq> None \<Longrightarrow> (\<And>x. m = ok x \<Longrightarrow> f x \<noteq> None) \<Longrightarrow> and_then m f \<noteq> None"
  by (auto simp: and_then_def ok_def split: option.split sum.split)

lemma rat_is_zero_iff: "rat_is_zero q \<longleftrightarrow> q = 0"
proof -
  obtain n d where q: "quotient_of q = (n, d)" by fastforce
  have "q = of_int n / of_int d" "0 < d" using quotient_of_div [OF q] quotient_of_denom_pos [OF q] by simp_all
  then show ?thesis using q by (simp add: rat_is_zero_def)
qed

lemma rat_is_integer_iff: "rat_is_integer q \<longleftrightarrow> (\<exists>z. q = of_int z)"
proof
  assume "rat_is_integer q"
  then have "quotient_of q = (fst (quotient_of q), 1)" by (metis rat_is_integer_def prod.collapse)
  from quotient_of_div [OF this] show "\<exists>z. q = of_int z" by (intro exI [of _ "fst (quotient_of q)"]) simp
next
  assume "\<exists>z. q = of_int z"
  then show "rat_is_integer q" by (auto simp: rat_is_integer_def quotient_of_int)
qed

lemma rat_to_integer_of_int [simp]: "rat_to_integer (of_int z) = z"
  by (simp add: rat_to_integer_def quotient_of_int signed_divide_int_eq_divide_int)

text \<open>Division that truncates towards zero, with a remainder of the sign of the dividend.\<close>

definition truncated :: "int \<Rightarrow> int \<Rightarrow> int \<Rightarrow> int \<Rightarrow> bool" where
  "truncated a b q r \<longleftrightarrow> a = q * b + r \<and> \<bar>r\<bar> < \<bar>b\<bar> \<and> (r = 0 \<or> sgn r = sgn a)"

lemma truncated_sdiv: "b \<noteq> 0 \<Longrightarrow> truncated a b (a sdiv b) (a smod b)"
proof -
  assume b: "b \<noteq> 0"
  have "a smod b = sgn a * (\<bar>a\<bar> mod \<bar>b\<bar>)" by (simp add: signed_modulo_int_def)
  moreover have "0 \<le> \<bar>a\<bar> mod \<bar>b\<bar>" "\<bar>a\<bar> mod \<bar>b\<bar> < \<bar>b\<bar>" using b by simp_all
  ultimately show ?thesis
    using sdiv_mult_smod_eq [of a b] by (cases a "0 :: int" rule: linorder_cases) (auto simp: truncated_def sgn_if)
qed

lemma truncated_ex: "b \<noteq> 0 \<Longrightarrow> Ex (truncated a b (a sdiv b))"
  using truncated_sdiv by blast

lemma truncated_unique:
  assumes "truncated a b q r" "truncated a b q' r'"
  shows "q = q' \<and> r = r'"
proof -
  have eq: "(q - q') * b = r' - r" and small: "\<bar>r\<bar> < \<bar>b\<bar>" "\<bar>r'\<bar> < \<bar>b\<bar>"
    using assms by (auto simp: truncated_def algebra_simps)
  have "\<bar>r' - r\<bar> < \<bar>b\<bar>"
    using assms small by (cases a "0 :: int" rule: linorder_cases) (auto simp: truncated_def sgn_if split: if_splits)
  then have "\<bar>q - q'\<bar> * \<bar>b\<bar> < 1 * \<bar>b\<bar>" using eq by (simp flip: abs_mult)
  then have "\<bar>q - q'\<bar> < 1" using mult_less_cancel_right [of "\<bar>q - q'\<bar>" "\<bar>b\<bar>" 1] by auto
  then show ?thesis using eq by simp
qed

lemma truncated_iff: "b \<noteq> 0 \<Longrightarrow> truncated a b q r \<longleftrightarrow> q = a sdiv b \<and> r = a smod b"
  using truncated_sdiv truncated_unique by blast

lemma joint_backing_iff: "joint_backing x y = Backing_Integer \<longleftrightarrow> x = Backing_Integer \<and> y = Backing_Integer"
  by (cases x; cases y) simp_all

lemma divide_values_ok:
  "divide_values l r op = ok v \<longleftrightarrow>
    (\<exists>a x b y. l = VNum a x \<and> r = VNum b y \<and> b \<noteq> 0 \<and>
       (if x = Backing_Integer \<and> y = Backing_Integer
        then \<exists>i j q m. a = of_int i \<and> b = of_int j \<and> truncated i j q m \<and> v = VNum (of_int q) Backing_Integer
        else v = VNum (a / b) Backing_Float))"
proof (cases l)
  case (VNum a x)
  note l = this
  show ?thesis
  proof (cases r)
    case (VNum b y)
    show ?thesis
    proof (cases "x = Backing_Integer \<and> y = Backing_Integer")
      case True
      then show ?thesis
        using l VNum
        by (auto simp: divide_values_def numeric_pair_def rat_is_zero_iff integral_pair_def rat_is_integer_iff big_div_def
            truncated_iff split: if_splits intro: truncated_ex)
    next
      case False
      then have "joint_backing x y = Backing_Float" by (cases x; cases y) auto
      then show ?thesis
        using l VNum False by (auto simp: divide_values_def numeric_pair_def rat_is_zero_iff ratio_div_def)
    qed
  qed (use l in \<open>auto simp: divide_values_def numeric_pair_def\<close>)
qed (auto simp: divide_values_def numeric_pair_def)

lemma remainder_values_ok:
  "remainder_values l r op = ok v \<longleftrightarrow>
    (\<exists>i j q m. l = VNum (of_int i) Backing_Integer \<and> r = VNum (of_int j) Backing_Integer \<and> j \<noteq> 0 \<and>
       truncated i j q m \<and> v = VNum (of_int m) Backing_Integer)"
proof (cases l)
  case (VNum a x)
  note l = this
  show ?thesis
  proof (cases r)
    case (VNum b y)
    then show ?thesis
      using l
      by (auto simp: remainder_values_def numeric_pair_def rat_is_zero_iff integral_pair_def rat_is_integer_iff big_rem_def truncated_iff
          joint_backing_iff split: if_splits)
  qed (use l in \<open>auto simp: remainder_values_def numeric_pair_def\<close>)
qed (auto simp: remainder_values_def numeric_pair_def)

section \<open>Meaning\<close>

text \<open>Equality within one domain, and the order and the arithmetic of exact numbers.\<close>

fun same_domain :: "eval_value \<Rightarrow> eval_value \<Rightarrow> bool" where
  "same_domain (VBool _) (VBool _) \<longleftrightarrow> True"
| "same_domain (VNum _ _) (VNum _ _) \<longleftrightarrow> True"
| "same_domain (VDur _) (VDur _) \<longleftrightarrow> True"
| "same_domain (VEnum s _) (VEnum t _) \<longleftrightarrow> s = t"
| "same_domain _ _ \<longleftrightarrow> False"

fun same_value :: "eval_value \<Rightarrow> eval_value \<Rightarrow> bool" where
  "same_value (VNum a _) (VNum b _) \<longleftrightarrow> a = b"
| "same_value a b \<longleftrightarrow> a = b"

fun magnitudes :: "eval_value \<Rightarrow> eval_value \<Rightarrow> (rat \<times> rat) option" where
  "magnitudes (VNum a _) (VNum b _) = Some (a, b)"
| "magnitudes (VDur a) (VDur b) = Some (a, b)"
| "magnitudes _ _ = None"

fun comparison :: "operator \<Rightarrow> (rat \<Rightarrow> rat \<Rightarrow> bool) option" where
  "comparison Lt = Some (<)" | "comparison Le = Some (\<le>)" | "comparison Gt = Some (>)" | "comparison Ge = Some (\<ge>)"
| "comparison _ = None"

fun arithmetic :: "syntax_kind \<Rightarrow> (rat \<Rightarrow> rat \<Rightarrow> rat) option" where
  "arithmetic (Operator Plus) = Some (+)" | "arithmetic (Punct Minus) = Some (-)" | "arithmetic (Operator Star) = Some (*)"
| "arithmetic _ = None"

text \<open>
  The meaning of an expression, rule by rule, with no bound on its depth: \<open>&&\<close> and \<open>||\<close> look at the
  right operand only when the left does not decide, numbers are exact, and division of integers
  truncates.
\<close>

inductive evaluates :: "bignum \<Rightarrow> eval_env \<Rightarrow> expr \<Rightarrow> eval_value \<Rightarrow> bool" for bn env where
  Ev_Literal: "eval_literal bn ch = ok v \<Longrightarrow> evaluates bn env (Literal ch) v"
| Ev_Paren: "child ch = Some e \<Longrightarrow> evaluates bn env e v \<Longrightarrow> evaluates bn env (Paren ch) v"
| Ev_Path: "eval_path env ch = ok v \<Longrightarrow> evaluates bn env (Path ch) v"
| Ev_Not: "child ch = Some e \<Longrightarrow> prefix_op_token ch = Some (Operator Bang, s) \<Longrightarrow> evaluates bn env e (VBool b) \<Longrightarrow>
    evaluates bn env (Prefix ch) (VBool (\<not> b))"
| Ev_Neg: "child ch = Some e \<Longrightarrow> prefix_op_token ch = Some (Punct Minus, s) \<Longrightarrow> evaluates bn env e (VNum x k) \<Longrightarrow>
    evaluates bn env (Prefix ch) (VNum (- x) k)"
| Ev_Dotted: "child ch = Some e \<Longrightarrow> ident_token ch = Some (k, nm) \<Longrightarrow> dotted env e nm = Some v \<Longrightarrow> evaluates bn env (Member ch) v"
| Ev_Field: "child ch = Some e \<Longrightarrow> ident_token ch = Some (k, nm) \<Longrightarrow> dotted env e nm = None \<Longrightarrow>
    evaluates bn env e (VTuple flds) \<Longrightarrow> lookup flds nm = Some v \<Longrightarrow> evaluates bn env (Member ch) v"
| Ev_Decided: "binary_op_token ch = Some (Operator k, s) \<Longrightarrow> k = AmpAmp \<and> \<not> b \<or> k = PipePipe \<and> b \<Longrightarrow>
    nth_child ch 0 = Some l \<Longrightarrow> nth_child ch 1 = Some r \<Longrightarrow> evaluates bn env l (VBool b) \<Longrightarrow>
    evaluates bn env (Binary ch) (VBool b)"
| Ev_Undecided: "binary_op_token ch = Some (Operator k, s) \<Longrightarrow> k = AmpAmp \<and> b \<or> k = PipePipe \<and> \<not> b \<Longrightarrow>
    nth_child ch 0 = Some l \<Longrightarrow> nth_child ch 1 = Some r \<Longrightarrow> evaluates bn env l (VBool b) \<Longrightarrow>
    evaluates bn env r (VBool c) \<Longrightarrow> evaluates bn env (Binary ch) (VBool c)"
| Ev_Equal: "binary_op_token ch = Some (Operator k, s) \<Longrightarrow> k = EqEq \<or> k = Neq \<Longrightarrow>
    nth_child ch 0 = Some l \<Longrightarrow> nth_child ch 1 = Some r \<Longrightarrow> evaluates bn env l x \<Longrightarrow> evaluates bn env r y \<Longrightarrow>
    same_domain x y \<Longrightarrow> evaluates bn env (Binary ch) (VBool (same_value x y = (k = EqEq)))"
| Ev_Compare: "binary_op_token ch = Some (Operator k, s) \<Longrightarrow> comparison k = Some cmp \<Longrightarrow>
    nth_child ch 0 = Some l \<Longrightarrow> nth_child ch 1 = Some r \<Longrightarrow> evaluates bn env l x \<Longrightarrow> evaluates bn env r y \<Longrightarrow>
    magnitudes x y = Some (a, b) \<Longrightarrow> evaluates bn env (Binary ch) (VBool (cmp a b))"
| Ev_Arith: "binary_op_token ch = Some (k, s) \<Longrightarrow> arithmetic k = Some f \<Longrightarrow>
    nth_child ch 0 = Some l \<Longrightarrow> nth_child ch 1 = Some r \<Longrightarrow> evaluates bn env l (VNum a x) \<Longrightarrow> evaluates bn env r (VNum b y) \<Longrightarrow>
    evaluates bn env (Binary ch) (VNum (f a b) (joint_backing x y))"
| Ev_Div: "binary_op_token ch = Some (Punct Slash, s) \<Longrightarrow> nth_child ch 0 = Some l \<Longrightarrow> nth_child ch 1 = Some r \<Longrightarrow>
    evaluates bn env l (VNum (of_int i) Backing_Integer) \<Longrightarrow> evaluates bn env r (VNum (of_int j) Backing_Integer) \<Longrightarrow>
    j \<noteq> 0 \<Longrightarrow> truncated i j q m \<Longrightarrow> evaluates bn env (Binary ch) (VNum (of_int q) Backing_Integer)"
| Ev_Rem: "binary_op_token ch = Some (Punct Percent, s) \<Longrightarrow> nth_child ch 0 = Some l \<Longrightarrow> nth_child ch 1 = Some r \<Longrightarrow>
    evaluates bn env l (VNum (of_int i) Backing_Integer) \<Longrightarrow> evaluates bn env r (VNum (of_int j) Backing_Integer) \<Longrightarrow>
    j \<noteq> 0 \<Longrightarrow> truncated i j q m \<Longrightarrow> evaluates bn env (Binary ch) (VNum (of_int m) Backing_Integer)"
| Ev_Ratio: "binary_op_token ch = Some (Punct Slash, s) \<Longrightarrow> nth_child ch 0 = Some l \<Longrightarrow> nth_child ch 1 = Some r \<Longrightarrow>
    evaluates bn env l (VNum a x) \<Longrightarrow> evaluates bn env r (VNum b y) \<Longrightarrow> x = Backing_Float \<or> y = Backing_Float \<Longrightarrow>
    b \<noteq> 0 \<Longrightarrow> evaluates bn env (Binary ch) (VNum (a / b) Backing_Float)"

text \<open>The operators on the values of their operands.\<close>

lemma equality_ok: "equality l r op = ok b \<longleftrightarrow> same_domain l r \<and> b = same_value l r"
  by (cases l; cases r) (auto simp: equality_def)

lemma ordered_pair_ok: "ordered_pair l r op = ok p \<longleftrightarrow> magnitudes l r = Some p"
  by (cases l; cases r) (auto simp: ordered_pair_def)

lemma numeric_pair_ok:
  "numeric_pair l r op = ok p \<longleftrightarrow> (\<exists>a x b y. l = VNum a x \<and> r = VNum b y \<and> p = (a, b, joint_backing x y))"
  by (cases l; cases r) (auto simp: numeric_pair_def)

lemma apply_equal: "apply_binary (Operator k) l r op = ok v \<longleftrightarrow> same_domain l r \<and> v = VBool (same_value l r = (k = EqEq))"
  if "k = EqEq \<or> k = Neq"
  using that by (auto simp: apply_binary_def and_then_ok_iff equality_ok)

lemma apply_compare: "apply_binary (Operator k) l r op = ok v \<longleftrightarrow> (\<exists>a b. magnitudes l r = Some (a, b) \<and> v = VBool (cmp a b))"
  if "comparison k = Some cmp"
  using that by (cases k) (auto simp: apply_binary_def and_then_ok_iff ordered_pair_ok)

lemma apply_arith:
  "apply_binary k l r op = ok v \<longleftrightarrow> (\<exists>a x b y. l = VNum a x \<and> r = VNum b y \<and> v = VNum (f a b) (joint_backing x y))"
  if "arithmetic k = Some f"
  using that by (cases k rule: arithmetic.cases) (auto simp: apply_binary_def and_then_ok_iff numeric_pair_ok)

lemma apply_slash: "apply_binary (Punct Slash) l r op = divide_values l r op"
  and apply_percent: "apply_binary (Punct Percent) l r op = remainder_values l r op"
  by (simp_all add: apply_binary_def)

section \<open>Depth\<close>

fun element_height :: "element \<Rightarrow> nat" where
  "element_height (Token _ _) = 0"
| "element_height (Node _ ch) = Suc (foldr max (map element_height ch) 0)"

fun expr_children :: "expr \<Rightarrow> element list" where
  "expr_children (Binary ch) = ch" | "expr_children (Prefix ch) = ch" | "expr_children (Member ch) = ch"
| "expr_children (Path ch) = ch" | "expr_children (Paren ch) = ch" | "expr_children (Literal ch) = ch"

text \<open>The nodes on the longest path of a tree.\<close>

definition expr_height :: "expr \<Rightarrow> nat" where
  "expr_height e = Suc (foldr max (map element_height (expr_children e)) 0)"

lemma foldr_max_ge: "x \<in> set xs \<Longrightarrow> x \<le> foldr max xs (0 :: nat)"
  by (induction xs) auto

lemma expr_cast_height: "expr_cast x = Some e \<Longrightarrow> element_height x = expr_height e"
  by (cases x rule: expr_cast.cases) (auto simp: expr_height_def)

lemma nth_child_height:
  assumes "nth_child ch n = Some e" "expr_children p = ch"
  shows "expr_height e < expr_height p"
proof -
  have "e \<in> set (List.map_filter expr_cast ch)"
    using assms(1) by (auto simp: nth_child_def Let_def split: if_splits)
  then obtain x where x: "x \<in> set ch" "expr_cast x = Some e" by (auto simp: List.map_filter_def)
  then have "element_height x \<le> foldr max (map element_height ch) 0" by (intro foldr_max_ge) simp
  then show ?thesis using expr_cast_height [OF x(2)] assms(2) by (simp add: expr_height_def)
qed

lemmas child_height = nth_child_height [of _ 0, folded child_def]

section \<open>The evaluator\<close>

lemmas eval_steps = eval_prefix_def eval_member_def eval_binary_def

lemma eval_node:
  assumes "depth \<le> MAX_DEPTH"
  shows "eval bn env depth (Literal ch) = eval_literal bn ch"
    "eval bn env depth (Paren ch) =
       (case child ch of Some inner \<Rightarrow> eval bn env (depth + 1) inner | None \<Rightarrow> malformed_tree ''an empty parenthesis'')"
    "eval bn env depth (Path ch) = eval_path env ch"
    "eval bn env depth (Prefix ch) = eval_prefix (eval bn env (depth + 1)) ch"
    "eval bn env depth (Member ch) = eval_member (eval bn env (depth + 1)) env ch"
    "eval bn env depth (Binary ch) = eval_binary (eval bn env (depth + 1)) ch"
  using assms by (simp_all add: eval.simps [of bn env depth])

text \<open>What the rules say the evaluator finds, at any depth the guard admits.\<close>

lemma evaluates_eval:
  "evaluates bn env e v \<Longrightarrow> expr_height e + depth \<le> MAX_DEPTH + 1 \<Longrightarrow> eval bn env depth e = ok v"
proof (induction arbitrary: depth rule: evaluates.induct)
  case (Ev_Literal ch v)
  then show ?case by (simp add: eval_node expr_height_def)
next
  case (Ev_Paren ch e v)
  then show ?case using child_height [of ch e "Paren ch"] by (simp add: eval_node)
next
  case (Ev_Path ch v)
  then show ?case by (simp add: eval_node expr_height_def)
next
  case (Ev_Not ch e s b)
  then show ?case using child_height [of ch e "Prefix ch"] by (simp add: eval_node eval_prefix_def)
next
  case (Ev_Neg ch e s x k)
  then show ?case using child_height [of ch e "Prefix ch"] by (simp add: eval_node eval_prefix_def)
next
  case (Ev_Dotted ch e k nm v)
  then show ?case using child_height [of ch e "Member ch"] by (simp add: eval_node eval_member_def)
next
  case (Ev_Field ch e k nm flds v)
  then show ?case using child_height [of ch e "Member ch"] by (simp add: eval_node eval_member_def)
next
  case (Ev_Decided ch k s b l r)
  then show ?case using nth_child_height [of ch 0 l "Binary ch"]
    by (auto simp: eval_node eval_binary_def expect_bool_def)
next
  case (Ev_Undecided ch k s b l r c)
  then show ?case using nth_child_height [of ch 0 l "Binary ch"] nth_child_height [of ch 1 r "Binary ch"]
    by (auto simp: eval_node eval_binary_def expect_bool_def)
next
  case (Ev_Equal ch k s l r x y)
  then show ?case using nth_child_height [of ch 0 l "Binary ch"] nth_child_height [of ch 1 r "Binary ch"]
      apply_equal [of k x y s]
    by (auto simp: eval_node eval_binary_def)
next
  case (Ev_Compare ch k s cmp l r x y a b)
  then show ?case using nth_child_height [of ch 0 l "Binary ch"] nth_child_height [of ch 1 r "Binary ch"]
      apply_compare [of k cmp x y s]
    by (auto simp: eval_node eval_binary_def)
next
  case (Ev_Arith ch k s f l r a x b y)
  then show ?case using nth_child_height [of ch 0 l "Binary ch"] nth_child_height [of ch 1 r "Binary ch"]
      apply_arith [of k f "VNum a x" "VNum b y" s]
    by (auto simp: eval_node eval_binary_def)
next
  case (Ev_Div ch s l r i j q m)
  then show ?case using nth_child_height [of ch 0 l "Binary ch"] nth_child_height [of ch 1 r "Binary ch"]
    by (auto simp: eval_node eval_binary_def apply_slash divide_values_ok)
next
  case (Ev_Rem ch s l r i j q m)
  then show ?case using nth_child_height [of ch 0 l "Binary ch"] nth_child_height [of ch 1 r "Binary ch"]
    by (auto simp: eval_node eval_binary_def apply_percent remainder_values_ok)
next
  case (Ev_Ratio ch s l r a x b y)
  then show ?case using nth_child_height [of ch 0 l "Binary ch"] nth_child_height [of ch 1 r "Binary ch"]
    by (auto simp: eval_node eval_binary_def apply_slash divide_values_ok)
qed

lemma expect_bool_ok: "expect_bool v op = ok b \<longleftrightarrow> v = VBool b"
  by (cases v) (auto simp: expect_bool_def)

text \<open>What the evaluator finds the rules say, when this holds one level deeper.\<close>

lemma eval_prefix_sound:
  assumes v: "eval_prefix ev ch = ok v" and ev: "\<And>x v. ev x = ok v \<Longrightarrow> evaluates bn env x v"
  shows "evaluates bn env (Prefix ch) v"
proof -
  obtain e k s x where e: "child ch = Some e" "prefix_op_token ch = Some (k, s)" "ev e = ok x"
    and r: "(if k = Operator Bang then
          (case x of VBool held \<Rightarrow> ok (VBool (\<not> held)) | _ \<Rightarrow> err (TypeMismatch (Mm_Bang x)))
        else if k = Punct Minus then
          (case x of VNum held backing \<Rightarrow> ok (VNum (- held) backing) | _ \<Rightarrow> err (TypeMismatch (Mm_Minus x)))
        else malformed_tree ''an unknown prefix operator'') = ok v"
    using v unfolding eval_prefix_def by (force simp: and_then_ok_iff split: option.splits)
  then show ?thesis using Ev_Not [OF e(1)] Ev_Neg [OF e(1)] ev [OF e(3)] by (cases x) (auto split: if_splits)
qed

lemma eval_member_sound:
  assumes v: "eval_member ev env ch = ok v" and ev: "\<And>x v. ev x = ok v \<Longrightarrow> evaluates bn env x v"
  shows "evaluates bn env (Member ch) v"
proof -
  obtain e k nm where e: "child ch = Some e" "ident_token ch = Some (k, nm)"
    using v by (auto simp: eval_member_def split: option.splits)
  show ?thesis
  proof (cases "dotted env e nm")
    case (Some w)
    then show ?thesis using v e Ev_Dotted [OF e] by (simp add: eval_member_def)
  next
    case None
    then obtain x where x: "ev e = ok x" and r: "(case x of
        VTuple flds \<Rightarrow> (case lookup flds nm of Some v \<Rightarrow> ok v | None \<Rightarrow> err (UnboundRef (ascii ''result.'' @ nm)))
      | _ \<Rightarrow> err (TypeMismatch (Mm_Field nm x))) = ok v"
      using v e by (auto simp: eval_member_def and_then_ok_iff)
    then show ?thesis using Ev_Field [OF e None] ev [OF x] by (cases x) (auto split: option.splits)
  qed
qed

lemma apply_binary_sound:
  assumes op: "binary_op_token ch = Some (k, s)" and lr: "nth_child ch 0 = Some l" "nth_child ch 1 = Some r"
    and x: "evaluates bn env l x" and y: "evaluates bn env r y" and v: "apply_binary k x y s = ok v"
  shows "evaluates bn env (Binary ch) v"
proof -
  note operands = lr x y
  consider (equal) p where "k = Operator p" "p = EqEq \<or> p = Neq"
    | (compare) p cmp where "k = Operator p" "comparison p = Some cmp"
    | (arith) f where "arithmetic k = Some f" | (slash) "k = Punct Slash" | (percent) "k = Punct Percent"
    | (other) "apply_binary k x y s = malformed_tree ''an unknown binary operator''"
    by (cases k rule: arithmetic.cases) (auto simp: apply_binary_def split: if_splits)
  then show ?thesis
  proof cases
    case equal
    then show ?thesis using v apply_equal [OF equal(2)] Ev_Equal [OF _ equal(2) operands] op by auto
  next
    case compare
    then show ?thesis using v apply_compare [OF compare(2)] Ev_Compare [OF _ compare(2) operands] op by auto
  next
    case arith
    then show ?thesis using v apply_arith [OF arith] Ev_Arith [OF op arith lr] x y by auto
  next
    case slash
    from v [unfolded slash apply_slash divide_values_ok]
    obtain a p b q where ab: "x = VNum a p" "y = VNum b q" "b \<noteq> 0"
      and res: "if p = Backing_Integer \<and> q = Backing_Integer
        then \<exists>i j u m. a = of_int i \<and> b = of_int j \<and> truncated i j u m \<and> v = VNum (of_int u) Backing_Integer
        else v = VNum (a / b) Backing_Float" by blast
    show ?thesis
    proof (cases "p = Backing_Integer \<and> q = Backing_Integer")
      case True
      then show ?thesis using res ab x y Ev_Div [OF op [unfolded slash] lr] by auto
    next
      case False
      then have "p = Backing_Float \<or> q = Backing_Float" by (cases p; cases q) auto
      then show ?thesis using False res ab x y Ev_Ratio [OF op [unfolded slash] lr] by auto
    qed
  next
    case percent
    then show ?thesis using v x y Ev_Rem [OF op [unfolded percent] lr] by (auto simp: apply_percent remainder_values_ok)
  qed (use v in simp)
qed

lemma eval_binary_sound:
  assumes v: "eval_binary ev ch = ok v" and ev: "\<And>x v. ev x = ok v \<Longrightarrow> evaluates bn env x v"
  shows "evaluates bn env (Binary ch) v"
proof -
  obtain k s l r where op: "binary_op_token ch = Some (k, s)" and lr: "nth_child ch 0 = Some l" "nth_child ch 1 = Some r"
    using v by (auto simp: eval_binary_def split: option.splits)
  show ?thesis
  proof (cases "k = Operator AmpAmp \<or> k = Operator PipePipe")
    case False
    then obtain x y where "ev l = ok x" "ev r = ok y" "apply_binary k x y s = ok v"
      using v op lr by (auto simp: eval_binary_def and_then_ok_iff)
    then show ?thesis using apply_binary_sound [OF op lr] ev by blast
  next
    case True
    then obtain p where p: "k = Operator p" "p = AmpAmp \<or> p = PipePipe" by auto
    let ?g = "\<lambda>b. if b = (k = Operator PipePipe) then ok (VBool b)
        else and_then (ev r) (\<lambda>y. and_then (expect_bool y s) (\<lambda>c. ok (VBool c)))"
    have "and_then (ev l) (\<lambda>x. and_then (expect_bool x s) ?g) = ok v"
      using v op lr True by (simp add: eval_binary_def)
    then obtain x where x: "ev l = ok x" "and_then (expect_bool x s) ?g = ok v" by (rule and_thenE)
    from x(2) obtain b where "expect_bool x s = ok b" and rest: "?g b = ok v" by (rule and_thenE)
    then have b: "ev l = ok (VBool b)" using x(1) by (simp add: expect_bool_ok)
    show ?thesis
    proof (cases "b = (k = Operator PipePipe)")
      case True
      then have "p = AmpAmp \<and> \<not> b \<or> p = PipePipe \<and> b" "v = VBool b" using p rest by auto
      then show ?thesis using Ev_Decided [OF op [unfolded p(1)] _ lr ev [OF b]] by simp
    next
      case False
      then obtain c where "p = AmpAmp \<and> b \<or> p = PipePipe \<and> \<not> b" "ev r = ok (VBool c)" "v = VBool c"
        using p rest by (auto simp: and_then_ok_iff expect_bool_ok)
      then show ?thesis using Ev_Undecided [OF op [unfolded p(1)] _ lr ev [OF b] ev] by simp
    qed
  qed
qed

lemma eval_evaluates: "eval bn env depth e = ok v \<Longrightarrow> evaluates bn env e v"
proof (induction bn env depth e arbitrary: v rule: eval.induct)
  case (1 bn env depth e)
  from "1.prems" have d: "depth \<le> MAX_DEPTH" by (cases "depth > MAX_DEPTH") (auto simp: eval.simps [of bn env depth])
  then have nd: "\<not> MAX_DEPTH < depth" by simp
  show ?case
  proof (cases e)
    case (Binary ch)
    show ?thesis
      using "1.prems" eval_binary_sound [of "eval bn env (depth + 1)" ch v bn env] "1.IH"(1) [OF nd Binary]
      unfolding Binary eval_node [OF d] by blast
  next
    case (Prefix ch)
    show ?thesis
      using "1.prems" eval_prefix_sound [of "eval bn env (depth + 1)" ch v bn env] "1.IH"(2) [OF nd Prefix]
      unfolding Prefix eval_node [OF d] by blast
  next
    case (Member ch)
    show ?thesis
      using "1.prems" eval_member_sound [of "eval bn env (depth + 1)" env ch v bn] "1.IH"(3) [OF nd Member]
      unfolding Member eval_node [OF d] by blast
  next
    case (Paren ch)
    then show ?thesis
      using "1.prems" "1.IH"(4) [OF nd Paren] by (auto simp: eval_node [OF d] split: option.splits intro: Ev_Paren)
  qed (use "1.prems" in \<open>auto simp: eval_node [OF d] intro: Ev_Path Ev_Literal\<close>)
qed

text \<open>
  C28: The evaluator implements the meaning of contract expressions. For every expression as deep as
  the parser builds, evaluation yields a value exactly when the rules give the expression that
  value: short-circuit connectives, exact numbers and durations, equality within one domain,
  division that truncates for integers and is exact for the others, and no value for a division by
  zero or an operand outside its domain.
\<close>

theorem eval_refines:
  assumes "expr_height e \<le> 129"
  shows "eval_expr bn env e = Some (Inr v) \<longleftrightarrow> evaluates bn env e v"
  using assms evaluates_eval [of bn env e v 0] eval_evaluates [of bn env 0 e v]
  by (auto simp: eval_expr_def ok_def)

theorem eval_refines_witness:
  "evaluates bignum_std \<lparr>ee_params = [], ee_result = None, ee_consts = Map.empty\<rparr>
     (Binary [Node PrefixExpr [Token (Punct Minus) (ascii ''-''), Node LiteralExpr [Token IntNumber (ascii ''7'')]],
       Token (Punct Slash) (ascii ''/''), Node LiteralExpr [Token IntNumber (ascii ''2'')]])
     (VNum (- 3) Backing_Integer)"
proof -
  let ?env = "\<lparr>ee_params = [], ee_result = None, ee_consts = Map.empty\<rparr>"
  let ?n = "\<lambda>s. Literal [Token IntNumber (ascii s)]"
  let ?e = "Binary [Node PrefixExpr [Token (Punct Minus) (ascii ''-''), Node LiteralExpr [Token IntNumber (ascii ''7'')]],
       Token (Punct Slash) (ascii ''/''), Node LiteralExpr [Token IntNumber (ascii ''2'')]]"
  have "exact_parse bignum_std (ascii ''7'') = Some (Some (Fract 7 1))"
    using std_numbers.exact_parse_text [of "ascii ''7''" "[]" False]
    by (simp add: ascii_def of_char_def is_ascii_digit_def decimal_def digit_value_def)
  moreover have "exact_parse bignum_std (ascii ''2'') = Some (Some (Fract 2 1))"
    using std_numbers.exact_parse_text [of "ascii ''2''" "[]" False]
    by (simp add: ascii_def of_char_def is_ascii_digit_def decimal_def digit_value_def)
  ultimately have lits: "eval bignum_std ?env d (?n ''7'') = ok (VNum 7 Backing_Integer)"
    "eval bignum_std ?env d (?n ''2'') = ok (VNum 2 Backing_Integer)" if "d \<le> MAX_DEPTH" for d
    using that by (simp_all add: eval_node eval_literal_def literal_token_def find_token_def List.map_filter_def is_trivia_def Fract_of_int_quotient)
  have neg: "eval bignum_std ?env 1 (Prefix [Token (Punct Minus) (ascii ''-''), Node LiteralExpr [Token IntNumber (ascii ''7'')]]) =
      ok (VNum (- 7) Backing_Integer)"
    using lits(1) [of 2] by (simp add: eval_node eval_prefix_def child_def nth_child_def prefix_op_token_def find_token_def List.map_filter_def)
  have "truncated (- 7) 2 (- 3) (- 1)" by (simp add: truncated_def)
  then have "\<exists>i j q m. (- 7 :: rat) = of_int i \<and> (2 :: rat) = of_int j \<and> truncated i j q m \<and>
      VNum (- 3) Backing_Integer = VNum (of_int q) Backing_Integer"
    by (intro exI [of _ "- 7"] exI [of _ 2] exI [of _ "- 3"] exI [of _ "- 1"]) simp
  then have "divide_values (VNum (- 7) Backing_Integer) (VNum 2 Backing_Integer) (ascii ''/'') = ok (VNum (- 3) Backing_Integer)"
    unfolding divide_values_ok by simp
  then have "eval bignum_std ?env 0 ?e = ok (VNum (- 3) Backing_Integer)"
    using neg lits(2) [of 1]
    by (simp add: eval_node eval_binary_def nth_child_def binary_op_token_def find_token_def List.map_filter_def is_binary_op_def apply_slash)
  then have "eval_expr bignum_std ?env ?e = Some (Inr (VNum (- 3) Backing_Integer))" by (simp add: eval_expr_def ok_def)
  moreover have "expr_height ?e \<le> 129" by (simp add: expr_height_def)
  ultimately show ?thesis using eval_refines [of ?e bignum_std ?env "VNum (- 3) Backing_Integer"] by simp
qed

section \<open>No panic\<close>

text \<open>A result that is no panic and, where \<open>B\<close> holds, not the refusal of the depth guard.\<close>

definition settles :: "bool \<Rightarrow> 'a ev \<Rightarrow> bool" where
  "settles B m \<longleftrightarrow> m \<noteq> None \<and> (B \<longrightarrow> m \<noteq> err (TypeMismatch Mm_TooDeep))"

lemma settles_ok [simp]: "settles B (ok v)" "settles B (malformed_tree w)"
  "settles B (err e) \<longleftrightarrow> (B \<longrightarrow> e \<noteq> TypeMismatch Mm_TooDeep)"
  by (auto simp: settles_def ok_def err_def malformed_tree_def)

lemma settles_and_then: "settles B m \<Longrightarrow> (\<And>x. m = ok x \<Longrightarrow> settles B (f x)) \<Longrightarrow> settles B (and_then m f)"
  by (auto simp: settles_def and_then_def ok_def err_def split: option.splits sum.splits)

lemma settles_pairs [simp]:
  "settles B (numeric_pair l r op)" "settles B (ordered_pair l r op)" "settles B (equality l r op)"
  "settles B (integral_pair a b op)" "settles B (expect_bool v op)"
  by (simp_all add: numeric_pair_def ordered_pair_def equality_def integral_pair_def expect_bool_def split: eval_value.split)

lemma integral_pair_ok: "integral_pair a b op = ok (x, y) \<longleftrightarrow> a = of_int x \<and> b = of_int y"
  by (auto simp: integral_pair_def rat_is_integer_iff)

lemma settles_divide [simp]: "settles B (divide_values l r op)" "settles B (remainder_values l r op)"
proof -
  have div: "settles B (big_div x y)" "settles B (big_rem x y)" if "integral_pair a b op = ok (x, y)" "b \<noteq> 0" for a b x y
    using that by (auto simp: integral_pair_ok big_div_def big_rem_def)
  show "settles B (divide_values l r op)"
    unfolding divide_values_def
    by (rule settles_and_then) (auto simp: rat_is_zero_iff ratio_div_def intro!: settles_and_then div)
  show "settles B (remainder_values l r op)"
    unfolding remainder_values_def
    by (rule settles_and_then) (auto simp: rat_is_zero_iff intro!: settles_and_then div)
qed

lemma settles_apply [simp]: "settles B (apply_binary k l r op)"
  by (auto simp: apply_binary_def intro!: settles_and_then)

lemma settles_path [simp]: "settles B (eval_path env ch)"
  by (auto simp: eval_path_def split: option.split)

lemma settles_literal:
  assumes "bignum_contract bn"
  shows "settles B (eval_literal bn ch)"
proof -
  have crates: "number_crates bn" by unfold_locales (rule assms)
  have parse: "exact_parse bn s \<noteq> None" for s using number_crates.exact_parse_cases [OF crates, of s] by auto
  have "duration_us bn s \<noteq> None" for s
    using parse by (simp add: duration_us_def split: option.split prod.split)
  then have dur: "duration_literal_us bn s \<noteq> None" for s by (simp add: duration_literal_us_def)
  show ?thesis
  proof (cases "literal_token ch")
    case (Some t)
    obtain k s where t: "t = (k, s)" by fastforce
    obtain p q where "exact_parse bn s = Some p" "duration_literal_us bn s = Some q" using parse dur by blast
    then show ?thesis using Some t by (cases p; cases q) (simp_all add: eval_literal_def Let_def)
  qed (simp add: eval_literal_def)
qed

lemma settles_node:
  assumes "\<And>x n. nth_child ch n = Some x \<Longrightarrow> settles B (ev x)"
  shows "settles B (eval_prefix ev ch)" "settles B (eval_member ev env ch)" "settles B (eval_binary ev ch)"
proof -
  note ch = assms [where n = 0, folded child_def]
  show "settles B (eval_prefix ev ch)"
    using ch by (auto simp: eval_prefix_def split: option.split eval_value.split intro!: settles_and_then)
  show "settles B (eval_member ev env ch)"
    using ch by (auto simp: eval_member_def split: option.split eval_value.split intro!: settles_and_then)
  show "settles B (eval_binary ev ch)"
    using assms by (auto simp: eval_binary_def split: option.split intro!: settles_and_then)
qed

lemma eval_settles:
  assumes "bignum_contract bn"
  shows "settles (expr_height e + depth \<le> MAX_DEPTH + 1) (eval bn env depth e)"
  using assms
proof (induction bn env depth e rule: eval.induct)
  case (1 bn env depth e)
  show ?case
  proof (cases "depth > MAX_DEPTH")
    case True
    then have "\<not> expr_height e + depth \<le> MAX_DEPTH + 1" by (simp add: expr_height_def)
    then show ?thesis using True by (simp add: eval.simps [of bn env depth])
  next
    case False
    let ?B = "expr_height e + depth \<le> MAX_DEPTH + 1"
    have deeper: "settles ?B (eval bn env (depth + 1) x)"
      if "settles (expr_height x + (depth + 1) \<le> MAX_DEPTH + 1) (eval bn env (depth + 1) x)" "nth_child (expr_children e) n = Some x" for x n
      using that(1) nth_child_height [OF that(2) refl] by (auto simp: settles_def)
    have d: "depth \<le> MAX_DEPTH" using False by simp
    show ?thesis
    proof (cases e)
      case (Binary ch)
      show ?thesis using deeper "1.IH"(1) [OF False Binary "1.prems"] settles_node(3) [of ch ?B "eval bn env (depth + 1)"]
        by (auto simp: Binary eval_node [OF d])
    next
      case (Prefix ch)
      show ?thesis using deeper "1.IH"(2) [OF False Prefix "1.prems"] settles_node(1) [of ch ?B "eval bn env (depth + 1)"]
        by (auto simp: Prefix eval_node [OF d])
    next
      case (Member ch)
      show ?thesis using deeper "1.IH"(3) [OF False Member "1.prems"] settles_node(2) [of ch ?B "eval bn env (depth + 1)" env]
        by (auto simp: Member eval_node [OF d])
    next
      case (Paren ch)
      show ?thesis using deeper [where n = 0, folded child_def] "1.IH"(4) [OF False Paren _ "1.prems"]
        by (auto simp: Paren eval_node [OF d] split: option.split)
    qed (simp_all add: eval_node [OF d] settles_literal [OF "1.prems"])
  qed
qed

text \<open>
  C29: Evaluation is total. Whatever tree and environment it is given, half-parsed trees and values of
  the wrong kind included, the evaluator never panics, by dividing by zero or otherwise: it answers a
  value or an error. On a tree as high as the parser builds the guard on the depth never refuses.
\<close>

theorem eval_total:
  assumes "bignum_contract bn"
  shows "(\<exists>r. eval_expr bn env e = Some r) \<and>
    (expr_height e \<le> 129 \<longrightarrow> eval_expr bn env e \<noteq> Some (Inl (TypeMismatch Mm_TooDeep)))"
  using eval_settles [OF assms, of e 0 env] by (auto simp: settles_def eval_expr_def err_def)

theorem eval_total_witness:
  "\<exists>r. eval_expr bignum_std \<lparr>ee_params = [], ee_result = None, ee_consts = Map.empty\<rparr> (Paren [Token (Punct LParen) [0x28]]) = Some r"
  using eval_total [OF bignum_std_contract, of "\<lparr>ee_params = [], ee_result = None, ee_consts = Map.empty\<rparr>"
      "Paren [Token (Punct LParen) [0x28]]"] by blast

end
