(* ===== verification/Spec2Isabelle.thy ===== *)
theory Spec2Isabelle
  imports Prelude Rt_Contract Rt_Sample Rt_Correlate Rt_Proto3 Rt_Podbuf Rt_Fb_Roundtrip Rt_Port
    Ws_Frame Ws_Crypto Ws_Parser Ws_Handshake Ws_Members Ws_Calls Lb_Delivery Lb_Queues Syn_Lexer Sem_Expr
begin

text \<open>
  RIDL is an interface-description language with a compiler and a run-time library. This development
  models the run-time side (the contract vocabulary, the call table, the three payload codecs, the
  in-process runtime, the WebSocket binding with the calls and uploads of its server) and, of the compiler,
  the lexer, the exact scalars and the evaluator of contract expressions, from the Rust sources under
  \<open>crates/\<close>, and proves that each part does what its documentation promises.

  \<^bold>\<open>The program and its parts.\<close> A generated package describes interfaces of signals, events, commands and
  queries. A runtime implements the port traits of \<open>ridl-rt\<close> (\<open>port.rs\<close>) for it: \<open>ridl-loopback\<close> in one
  process, \<open>ridl-transport-ws\<close> over a WebSocket. A caller sends a call, the runtime keeps it in the call
  table (\<open>correlate.rs\<close>) until a handler settles it, and wakes whoever waits. Payloads are encoded by one of
  three codecs (\<open>proto3.rs\<close>, \<open>flatbuffers.rs\<close>, \<open>podbuf.rs\<close>). On the wire a message is a frame (\<open>frame.rs\<close>)
  in a WebSocket message (\<open>ws.rs\<close>); a server session keeps its calls and the streams it receives (\<open>server/\<close>)
  and hands them to a runtime. The compiler reads sources with the lexer of \<open>ridl-syntax\<close>, and \<open>ridl-sem\<close> derives
  widths from exact numbers and evaluates the contracts of commands and queries.

  \<^bold>\<open>Theories, sources and what they show.\<close>
  \<^item> \<open>Prelude\<close>: words and \<open>usize\<close>, \<open>Result\<close> as a sum, byte orders, UTF-8, slices; the interfaces
    \<open>wire_codec\<close> and \<open>self_delimiting\<close> of the codecs. \<open>Ordered_Map\<close>: \<open>BTreeMap\<close> as an ordered association list.
  \<^item> \<open>Rt_Contract\<close>, \<open>Rt_Port\<close> (\<open>ridl-rt/src/contract.rs\<close>, \<open>error.rs\<close>, \<open>payload.rs\<close>, \<open>port.rs\<close>, \<open>trace.rs\<close>): the
    data the other parts exchange, ceilings, reservations and budgets.
  \<^item> \<open>Rt_Sample\<close> (\<open>sample.rs\<close>): freshness, and the event sequence tracker, which refines a map from channels to
    the last sequence number, \<open>forget\<close> included, and accounts for every lost event.
  \<^item> \<open>Rt_Correlate\<close> (\<open>correlate.rs\<close>): the slotted call table and the waiters. Every operation keeps the table's
    invariant and acts as on a map from correlations to call states; outcomes stay until forgotten, the budget is
    conserved, correlations are not reissued before the generation wraps, wakers are handed back.
  \<^item> \<open>Rt_Proto3\<close> (\<open>proto3.rs\<close>): varints, zigzag, the field reader and the slice writer; round trips, exact capacity
    errors, progress.
  \<^item> \<open>Rt_Podbuf\<close> (\<open>podbuf.rs\<close>): the preamble, region loads, descriptors, and the writer, which refines a zeroed memory
    and whose stores read back.
  \<^item> \<open>Rt_Flatbuffers\<close>, \<open>Rt_Fb_Roundtrip\<close> (\<open>flatbuffers.rs\<close>): the vtable walk, strings, vectors, and the builder. A field
    is found exactly where the vtable at the table's signed offset places it, and reads stay in bounds; the builder prepends, so a read given its object's position is the same in the finished buffer
    (locale \<open>relative_read\<close>, interpreted for every reader); tables, strings and vectors read back, objects are
    aligned, an encode neither panics nor depends on what the slice held.
  \<^item> \<open>Ws_Frame\<close> (\<open>ridl-transport-ws/src/frame.rs\<close>): every form of the binding; \<open>decode\<close> and \<open>encode\<close> are inverse in both
    directions (an interpretation of \<open>wire_codec\<close>), with exact lengths and limits; what \<open>encode\<close>
    writes for a frame that is not valid is refused by every receiver, unless the frame is invalid only by a type
    name, which the wire does not carry.
  \<^item> \<open>Ws_Crypto\<close>, \<open>Ws_Parser\<close>, \<open>Ws_Handshake\<close> (\<open>ws.rs\<close>, \<open>ws/base64.rs\<close>, \<open>ws/sha1.rs\<close>): base64, SHA-1, the frame parser,
    which does not depend on how the bytes were cut into reads, which undoes the masking of RFC 6455, and the checks and choices of the
    upgrade, each tied to the request's own line and headers.
  \<^item> \<open>Lb_Store\<close>, \<open>Lb_Calls\<close>, \<open>Lb_Handle\<close>, \<open>Lb_Runtime\<close> (\<open>ridl-loopback/src/store.rs\<close>, \<open>handle.rs\<close>, \<open>lib.rs\<close>): the store behind
    the in-process ports, the role handles, and the step relation of a program that calls them in any order.
    \<open>Lb_Invariant\<close>, \<open>Lb_Safety\<close>, \<open>Lb_Claims\<close>, \<open>Lb_Streams\<close>, \<open>Lb_Close\<close>, \<open>Lb_Counts\<close>, \<open>Lb_Signals\<close>, \<open>Lb_Events\<close> and \<open>Lb_Steps\<close> hold the
    invariant and that every operation keeps it. \<open>Lb_Props\<close>, \<open>Lb_Delivery\<close> and \<open>Lb_Queues\<close> state what follows: no
    panic, no waker stored for what has already happened, every call in exactly one place, claims in send order,
    serving handlers woken by a send, calls and signals delivered,
    streams that refine bounded queues.
  \<^item> \<open>Syn_Keywords\<close>, \<open>Syn_Lexer\<close> (\<open>ridl-syntax/src/syntax_kind.rs\<close>, \<open>keywords.rs\<close>, \<open>lexer.rs\<close>): the registry of reserved words and
    the lexer, total and lossless on every string, for every pattern engine that keeps the documented contract of the
    \<open>logos\<close> crate (locale \<open>logos_engine\<close>, interpreted on the longest-match engine of the source's own patterns).
  \<^item> \<open>Ws_Upload\<close> (\<open>ridl-transport-ws/src/server/upload.rs\<close>): one parameter stream of a session, with its credit and queue.
    The locale \<open>stream_sink\<close> states what the \<open>StreamCaller\<close> trait promises of a backend; the in-process runtime
    interprets it, so that what a client sends arrives there in order (over any sequence of
    the upload's own operations, with no handler of the runtime pulling in between). \<open>Ws_Calls\<close> (\<open>server/calls.rs\<close>): the calls in flight
    and the responses kept; the indexes and the byte count always agree, and a repeated request is answered with the
    same bytes. \<open>Ws_Members\<close> (\<open>server/members.rs\<close>): the member table.
  \<^item> \<open>Sem_Scalar\<close> (\<open>ridl-sem/src/scalar.rs\<close>): literals as exact rationals, which survive printing, the narrowest integer
    width, and binary32 representability against its definition (locale \<open>number_crates\<close>: the functions of the number
    crates that read and write text or look at bits, interpreted on concrete ones). \<open>Sem_Expr\<close> (\<open>expr_eval.rs\<close>, with
    \<open>duration_us\<close> of \<open>timing.rs\<close> and the expression views of \<open>ridl-syntax/src/ast.rs\<close>): the evaluator, total and equal to
    the inductive relation \<open>evaluates\<close> on every tree the parser can build.

  \<^bold>\<open>Conventions and bounds.\<close> A \<open>w\<close>-bit integer is a word of that width. \<open>usize\<close> is a natural number with
  \<open>usize_max\<close> written out wherever the code checks or saturates; a slice is a list, of length at most \<open>usize_max\<close>
  where that matters. A \<open>&str\<close> is its UTF-8 bytes. \<open>Result\<close> is a sum with the error on the left; where code can panic,
  the model returns \<open>None\<close> for it, and theorems state that \<open>None\<close> does not occur. A waker is a number; an operation that
  wakes returns the wakers. A method of the store runs under its lock, so it is one step. Counters of the in-process
  runtime (sequence numbers, identifiers) are 64 bits wide: its theorems hold for programs of fewer than \<open>2 ^ 64\<close>
  operations. No definition uses fuel: loops are recursions with a measure, and the one loop that ends only by the
  contract of third-party code (\<open>raw_from\<close>) is a partial function that is proved to return.

  The numbers of the \<open>num\<close> crates are \<open>int\<close> and \<open>rat\<close>, and a \<open>rowan\<close> syntax node is its kind and its children. The
  evaluator's recursion ends at its own depth guard of 128 levels, which is enough for every tree the parser builds.

  \<^bold>\<open>Not modelled.\<close> The session loop of the WebSocket server (\<open>session.rs\<close>), its threads and sockets; \<open>node.rs\<close> of the
  loopback, which attaches the components of a deployment descriptor to stores; the traits of generated packages; the parser, which drives the
  builder of the third-party \<open>rowan\<close> crate, and the name resolution, type checks, intermediate representation, differ,
  formatter, generators, editor services and command line tools that work on its trees or on files.
\<close>

end
